(* ===== verification/Prelude.thy ===== *)
theory Prelude
  imports Main "HOL-Library.Word" "HOL-Library.Monad_Syntax" "HOL-Library.Code_Target_Nat"
begin

text \<open>
  Shared vocabulary of the development: machine integers and their wrap-around, byte
  strings and their little-endian codecs, slices of a buffer, Rust's
  \<^verbatim>\<open>slice::partition_point\<close>, \<^verbatim>\<open>Result\<close> values, and the generic list lemmas the
  components use. The collections \<open>codec_simps\<close> (decoding what an encoder wrote) and
  \<open>buf_simps\<close> (reads of a buffer after writes to it) carry the component proofs.
\<close>

named_theorems codec_simps \<open>a decoder applied to the output of its encoder\<close>
named_theorems buf_simps \<open>reads of a buffer after a write\<close>

section \<open>Machine integers\<close>

type_synonym byte = "8 word"

text \<open>
  Rust's \<^verbatim>\<open>u64\<close> and \<^verbatim>\<open>usize\<close> counters are naturals below \<open>2 ^ 64\<close>; where the source
  adds to a value that can come from the network or from disk, the sum is written with
  the wrap-around of the release profile.
\<close>

definition u64_range :: "nat \<Rightarrow> bool" where
  "u64_range n \<longleftrightarrow> n < 2 ^ 64"

definition u64_add :: "nat \<Rightarrow> nat \<Rightarrow> nat" where
  "u64_add a b = (a + b) mod 2 ^ 64"

lemma u64_add_small [simp]: "a + b < 2 ^ 64 \<Longrightarrow> u64_add a b = a + b"
  by (simp add: u64_add_def)

lemma u64_add_range [simp]: "u64_range (u64_add a b)"
  by (simp add: u64_add_def u64_range_def)

lemma u64_add_less: "u64_add a b < 2 ^ 64"
  by (simp add: u64_add_def)

lemma u64_add_wraps: "u64_add (2 ^ 64 - 1) 1 = 0"
  by (simp add: u64_add_def)

section \<open>Results\<close>

text \<open>\<open>rbind\<close> is Rust's \<^verbatim>\<open>?\<close> operator: an error returns at once.\<close>

fun rbind :: "'e + 'a \<Rightarrow> ('a \<Rightarrow> 'e + 'b) \<Rightarrow> 'e + 'b" where
  "rbind (Inl e) f = Inl e"
| "rbind (Inr x) f = f x"

lemma rbind_Inr_iff: "rbind r f = Inr y \<longleftrightarrow> (\<exists>x. r = Inr x \<and> f x = Inr y)"
  by (cases r) auto

lemma rbind_cong [fundef_cong]:
  "r = r' \<Longrightarrow> (\<And>x. r' = Inr x \<Longrightarrow> f x = f' x) \<Longrightarrow> rbind r f = rbind r' f'"
  by (cases r') auto

section \<open>Slices of a buffer\<close>

text \<open>\<open>slice xs i n\<close> is \<^verbatim>\<open>&xs[i..i + n]\<close>; \<open>blit xs i ys\<close> is
  \<^verbatim>\<open>xs[i..i + ys.len()].copy_from_slice(ys)\<close>. Both are used in range only.\<close>

definition slice :: "'a list \<Rightarrow> nat \<Rightarrow> nat \<Rightarrow> 'a list" where
  "slice xs i n = take n (drop i xs)"

definition blit :: "'a list \<Rightarrow> nat \<Rightarrow> 'a list \<Rightarrow> 'a list" where
  "blit xs i ys = take i xs @ ys @ drop (i + length ys) xs"

lemma length_slice [simp]: "i + n \<le> length xs \<Longrightarrow> length (slice xs i n) = n"
  by (simp add: slice_def)

lemma slice_zero [simp]: "slice xs i 0 = []"
  by (simp add: slice_def)

lemma slice_append_left: "i + n \<le> length xs \<Longrightarrow> slice (xs @ ys) i n = slice xs i n"
  by (simp add: slice_def)

lemma slice_append_right:
  "length xs \<le> i \<Longrightarrow> slice (xs @ ys) i n = slice ys (i - length xs) n"
  by (simp add: slice_def)

lemma slice_prefix [simp]: "length xs = n \<Longrightarrow> slice (xs @ ys) 0 n = xs"
  by (simp add: slice_def)

lemma slice_full [simp]: "length xs = n \<Longrightarrow> slice xs 0 n = xs"
  by (simp add: slice_def)

lemma nth_slice: "k < n \<Longrightarrow> i + n \<le> length xs \<Longrightarrow> slice xs i n ! k = xs ! (i + k)"
  by (simp add: slice_def)

lemma slice_slice: "j + m \<le> n \<Longrightarrow> slice (slice xs i n) j m = slice xs (i + j) m"
  by (simp add: slice_def take_drop drop_drop min_def add.commute)

lemma length_blit [simp]: "i + length ys \<le> length xs \<Longrightarrow> length (blit xs i ys) = length xs"
  by (simp add: blit_def)

lemma nth_blit:
  assumes "i + length ys \<le> length xs" "k < length xs"
  shows "blit xs i ys ! k = (if i \<le> k \<and> k < i + length ys then ys ! (k - i) else xs ! k)"
  using assms by (auto simp: blit_def nth_append min_def)

lemma slice_eqI:
  assumes "length xs = length ys" "i + n \<le> length xs"
    and "\<And>k. i \<le> k \<Longrightarrow> k < i + n \<Longrightarrow> xs ! k = ys ! k"
  shows "slice xs i n = slice ys i n"
  by (rule nth_equalityI) (use assms in \<open>auto simp: nth_slice\<close>)

lemma slice_blit_same [buf_simps]:
  "i + length ys \<le> length xs \<Longrightarrow> n = length ys \<Longrightarrow> slice (blit xs i ys) i n = ys"
  by (simp add: slice_def blit_def)

lemma slice_blit_before [buf_simps]:
  "i + length ys \<le> length xs \<Longrightarrow> j + n \<le> i \<Longrightarrow> slice (blit xs i ys) j n = slice xs j n"
  by (rule slice_eqI) (auto simp: nth_blit)

lemma slice_blit_after [buf_simps]:
  "i + length ys \<le> length xs \<Longrightarrow> i + length ys \<le> j \<Longrightarrow> j + n \<le> length xs
   \<Longrightarrow> slice (blit xs i ys) j n = slice xs j n"
  by (rule slice_eqI) (auto simp: nth_blit)

section \<open>Little-endian integers\<close>

text \<open>\<open>to_le k n\<close> is \<^verbatim>\<open>n.to_le_bytes()\<close> of a \<open>k\<close>-byte integer, \<open>from_le\<close> is
  \<^verbatim>\<open>from_le_bytes\<close>.\<close>

primrec to_le :: "nat \<Rightarrow> nat \<Rightarrow> byte list" where
  "to_le 0 n = []"
| "to_le (Suc k) n = of_nat (n mod 256) # to_le k (n div 256)"

primrec from_le :: "byte list \<Rightarrow> nat" where
  "from_le [] = 0"
| "from_le (b # bs) = unat b + 256 * from_le bs"

lemma length_to_le [simp]: "length (to_le k n) = k"
  by (induction k arbitrary: n) auto

lemma unat_byte_of_mod [simp]: "unat (of_nat (n mod 256) :: byte) = n mod 256"
  by (simp add: unat_of_nat)

lemma from_le_to_le_mod: "from_le (to_le k n) = n mod 256 ^ k"
proof (induction k arbitrary: n)
  case 0
  then show ?case by simp
next
  case (Suc k)
  have "from_le (to_le (Suc k) n) = n mod 256 + 256 * (n div 256 mod 256 ^ k)"
    by (simp add: Suc.IH)
  also have "\<dots> = n mod 256 ^ Suc k"
    using mod_mult2_eq [of n 256 "256 ^ k"] by simp
  finally show ?case .
qed

lemma from_le_to_le [simp, codec_simps]: "n < 256 ^ k \<Longrightarrow> from_le (to_le k n) = n"
  by (simp add: from_le_to_le_mod)

lemma from_le_less: "from_le bs < 256 ^ length bs"
proof (induction bs)
  case Nil
  then show ?case by simp
next
  case (Cons b bs)
  have "unat b < 256"
    using unsigned_less [of b] by simp
  with Cons show ?case by simp
qed

lemma to_le_from_le [simp]: "length bs = k \<Longrightarrow> to_le k (from_le bs) = bs"
proof (induction bs arbitrary: k)
  case Nil
  then show ?case by simp
next
  case (Cons b bs)
  have "unat b < 256"
    using unsigned_less [of b] by simp
  then show ?case
    using Cons by auto
qed

lemma pow256_2: "(256::nat) ^ 2 = 2 ^ 16"
  by simp

lemma pow256_4: "(256::nat) ^ 4 = 2 ^ 32"
  by simp

lemma pow256_8: "(256::nat) ^ 8 = 2 ^ 64"
  by simp

lemma from_le_to_le_2 [simp, codec_simps]: "n < 2 ^ 16 \<Longrightarrow> from_le (to_le 2 n) = n"
  by (rule from_le_to_le) simp

lemma from_le_to_le_4 [simp, codec_simps]: "n < 2 ^ 32 \<Longrightarrow> from_le (to_le 4 n) = n"
  by (rule from_le_to_le) simp

lemma from_le_to_le_8 [simp, codec_simps]: "n < 2 ^ 64 \<Longrightarrow> from_le (to_le 8 n) = n"
  by (rule from_le_to_le) simp

section \<open>Binary search: \<^verbatim>\<open>partition_point\<close>\<close>

text \<open>
  \<^verbatim>\<open>xs.partition_point(p)\<close> is a binary search for the first element that does not
  satisfy \<open>p\<close>, in a slice where every element that satisfies \<open>p\<close> precedes every
  element that does not.
\<close>

function bisect :: "('a \<Rightarrow> bool) \<Rightarrow> 'a list \<Rightarrow> nat \<Rightarrow> nat \<Rightarrow> nat" where
  "bisect p xs lo hi =
     (if lo < hi
      then let mid = lo + (hi - lo) div 2
           in if p (xs ! mid) then bisect p xs (Suc mid) hi else bisect p xs lo mid
      else lo)"
  by pat_completeness auto
termination
  by (relation "measure (\<lambda>(p, xs, lo, hi). hi - lo)") auto

declare bisect.simps [simp del]

definition partition_point :: "('a \<Rightarrow> bool) \<Rightarrow> 'a list \<Rightarrow> nat" where
  "partition_point p xs = bisect p xs 0 (length xs)"

definition partitioned :: "('a \<Rightarrow> bool) \<Rightarrow> 'a list \<Rightarrow> bool" where
  "partitioned p xs \<longleftrightarrow> (\<forall>i j. i < j \<longrightarrow> j < length xs \<longrightarrow> p (xs ! j) \<longrightarrow> p (xs ! i))"

lemma bisect_bounds: "lo \<le> hi \<Longrightarrow> lo \<le> bisect p xs lo hi \<and> bisect p xs lo hi \<le> hi"
proof (induction p xs lo hi rule: bisect.induct)
  case (1 p xs lo hi)
  show ?case
  proof (cases "lo < hi")
    case True
    define mid where "mid = lo + (hi - lo) div 2"
    have mid: "lo \<le> mid" "mid < hi"
      using True by (auto simp: mid_def)
    have "p (xs ! mid) \<Longrightarrow> Suc mid \<le> bisect p xs (Suc mid) hi \<and> bisect p xs (Suc mid) hi \<le> hi"
      using "1.IH"(1) [OF True mid_def] mid by simp
    moreover have "\<not> p (xs ! mid) \<Longrightarrow> lo \<le> bisect p xs lo mid \<and> bisect p xs lo mid \<le> mid"
      using "1.IH"(2) [OF True mid_def] mid by simp
    ultimately show ?thesis
      using True mid by (auto simp: bisect.simps [of p xs lo hi] Let_def mid_def [symmetric])
  next
    case False
    with "1.prems" show ?thesis
      by (simp add: bisect.simps)
  qed
qed

lemma bisect_correct:
  assumes "partitioned p xs" "lo \<le> hi" "hi \<le> length xs"
    and "\<forall>i < lo. p (xs ! i)" and "\<forall>i. hi \<le> i \<longrightarrow> i < length xs \<longrightarrow> \<not> p (xs ! i)"
  shows "(\<forall>i < bisect p xs lo hi. p (xs ! i)) \<and>
         (\<forall>i. bisect p xs lo hi \<le> i \<longrightarrow> i < length xs \<longrightarrow> \<not> p (xs ! i))"
  using assms
proof (induction p xs lo hi rule: bisect.induct)
  case (1 p xs lo hi)
  show ?case
  proof (cases "lo < hi")
    case True
    define mid where "mid = lo + (hi - lo) div 2"
    have mid: "lo \<le> mid" "mid < hi"
      using True by (auto simp: mid_def)
    show ?thesis
    proof (cases "p (xs ! mid)")
      case pm: True
      have "\<forall>i < Suc mid. p (xs ! i)"
        using "1.prems" pm mid unfolding partitioned_def
        by (metis less_Suc_eq order.strict_trans2)
      with "1.IH"(1) [OF True mid_def pm] "1.prems" mid pm True show ?thesis
        by (simp add: bisect.simps [of p xs lo hi] Let_def mid_def [symmetric])
    next
      case pm: False
      have "\<forall>i. mid \<le> i \<longrightarrow> i < length xs \<longrightarrow> \<not> p (xs ! i)"
        using "1.prems" pm mid unfolding partitioned_def
        by (metis le_neq_implies_less)
      with "1.IH"(2) [OF True mid_def pm] "1.prems" mid pm True show ?thesis
        by (simp add: bisect.simps [of p xs lo hi] Let_def mid_def [symmetric])
    qed
  next
    case False
    with "1.prems" show ?thesis
      by (auto simp: bisect.simps)
  qed
qed

lemma partition_point_le [simp]: "partition_point p xs \<le> length xs"
  using bisect_bounds [of 0 "length xs" p xs] by (simp add: partition_point_def)

lemma partition_point_nth:
  assumes "partitioned p xs"
  shows partition_point_before: "i < partition_point p xs \<Longrightarrow> p (xs ! i)"
    and partition_point_after:
      "partition_point p xs \<le> i \<Longrightarrow> i < length xs \<Longrightarrow> \<not> p (xs ! i)"
  using bisect_correct [OF assms, of 0 "length xs"] by (auto simp: partition_point_def)

lemma partition_point_takeWhile:
  assumes "partitioned p xs"
  shows "take (partition_point p xs) xs = takeWhile p xs"
    and "drop (partition_point p xs) xs = dropWhile p xs"
proof -
  let ?k = "partition_point p xs"
  have all: "\<forall>x \<in> set (take ?k xs). p x"
    using partition_point_before [OF assms] by (auto simp: in_set_conv_nth)
  have hd: "?k < length xs \<Longrightarrow> \<not> p (xs ! ?k)"
    using partition_point_after [OF assms] by simp
  have "takeWhile p (take ?k xs @ drop ?k xs) = take ?k xs"
  proof (cases "?k < length xs")
    case True
    then have "drop ?k xs = xs ! ?k # drop (Suc ?k) xs"
      by (simp add: Cons_nth_drop_Suc)
    with all hd [OF True] show ?thesis
      by (simp add: takeWhile_append2)
  next
    case False
    with all show ?thesis
      by (simp add: takeWhile_eq_all_conv)
  qed
  then show *: "take ?k xs = takeWhile p xs"
    by simp
  have "takeWhile p xs @ drop ?k xs = takeWhile p xs @ dropWhile p xs"
    using * append_take_drop_id [of ?k xs] by (metis takeWhile_dropWhile_id)
  then show "drop ?k xs = dropWhile p xs"
    by (simp only: same_append_eq)
qed

section \<open>Lists\<close>

definition insert_at :: "nat \<Rightarrow> 'a \<Rightarrow> 'a list \<Rightarrow> 'a list" where
  \<comment> \<open>\<^verbatim>\<open>Vec::insert(i, x)\<close>\<close>
  "insert_at i x xs = take i xs @ x # drop i xs"

lemma length_insert_at [simp]: "i \<le> length xs \<Longrightarrow> length (insert_at i x xs) = Suc (length xs)"
  by (simp add: insert_at_def)

lemma set_insert_at [simp]: "set (insert_at i x xs) = insert x (set xs)"
  by (simp add: insert_at_def) (metis Un_iff append_take_drop_id set_append subsetI subset_antisym)

lemma filter_insert_at:
  "filter p (insert_at i x xs) =
     (if p x then insert_at (length (filter p (take i xs))) x (filter p xs) else filter p xs)"
proof -
  have "filter p xs = filter p (take i xs) @ filter p (drop i xs)"
    by (metis append_take_drop_id filter_append)
  then show ?thesis
    by (simp add: insert_at_def)
qed

end
