(* ===== verification/Raft_Log.thy ===== *)
theory Raft_Log
  imports Prelude
begin

text \<open>
  The replicated log of \<^verbatim>\<open>crates/raft/src/log.rs\<close>: \<open>LogEntry\<close>, \<open>Snapshot\<close>, \<open>RaftLog\<close>
  and every operation of \<^verbatim>\<open>impl RaftLog\<close>. The invariant \<open>log_inv\<close> says that entry \<open>i\<close>
  of the in-memory vector carries log index \<open>base_index + i\<close>, that the indices fit in a
  \<^verbatim>\<open>u64\<close>, and how \<open>base_index\<close>, \<open>last_applied\<close> and \<open>commit_index\<close> are placed. The
  lemmas show that every operation keeps it, what each returns, and that the entries
  handed to the state machine have strictly increasing indices over a whole run.
\<close>

named_theorems log_defs \<open>definitions of the log operations\<close>

section \<open>Data\<close>

record LogEntry =
  le_term :: nat
  le_index :: nat
  le_data :: "byte list"

record Snapshot =
  sn_last_included_index :: nat
  sn_last_included_term :: nat
  sn_data :: "byte list"

record RaftLog =
  rl_entries :: "LogEntry list"
  rl_commit_index :: nat
  rl_last_applied :: nat
  rl_snapshot :: "Snapshot option"
  rl_base_index :: nat

section \<open>Operations\<close>

definition log_new :: RaftLog where
  "log_new = \<lparr>rl_entries = [\<lparr>le_term = 0, le_index = 0, le_data = []\<rparr>],
     rl_commit_index = 0, rl_last_applied = 0, rl_snapshot = None, rl_base_index = 0\<rparr>"

definition log_append :: "RaftLog \<Rightarrow> nat \<Rightarrow> byte list \<Rightarrow> RaftLog \<times> nat" where
  "log_append l t d =
     (let i = u64_add (rl_base_index l) (length (rl_entries l))
      in (l\<lparr>rl_entries := rl_entries l @ [\<lparr>le_term = t, le_index = i, le_data = d\<rparr>]\<rparr>, i))"

definition log_get :: "RaftLog \<Rightarrow> nat \<Rightarrow> LogEntry option" where
  "log_get l i =
     (if i < rl_base_index l then None
      else let pos = i - rl_base_index l
           in if pos < length (rl_entries l) then Some (rl_entries l ! pos) else None)"

definition log_last_index :: "RaftLog \<Rightarrow> nat" where
  "log_last_index l = u64_add (rl_base_index l) (length (rl_entries l) - 1)"

definition log_last_term :: "RaftLog \<Rightarrow> nat" where
  "log_last_term l = (if rl_entries l = [] then 0 else le_term (last (rl_entries l)))"

definition truncate_after :: "RaftLog \<Rightarrow> nat \<Rightarrow> RaftLog" where
  "truncate_after l i =
     (if i < rl_base_index l then l
      else let truncate_at = i - rl_base_index l + 1
           in if truncate_at < length (rl_entries l)
              then let l' = l\<lparr>rl_entries := take truncate_at (rl_entries l)\<rparr>
                   in if rl_commit_index l' > i then l'\<lparr>rl_commit_index := i\<rparr> else l'
              else l)"

definition advance_commit :: "RaftLog \<Rightarrow> nat \<Rightarrow> RaftLog" where
  "advance_commit l i =
     (if i > rl_commit_index l then l\<lparr>rl_commit_index := min i (log_last_index l)\<rparr> else l)"

definition entries_from :: "RaftLog \<Rightarrow> nat \<Rightarrow> LogEntry list" where
  "entries_from l i =
     (if i < rl_base_index l then []
      else let start = i - rl_base_index l
           in if start \<ge> length (rl_entries l) then [] else drop start (rl_entries l))"

function take_applicable :: "RaftLog \<Rightarrow> LogEntry list \<times> RaftLog" where
  "take_applicable l =
     (if rl_last_applied l < rl_commit_index l
      then let l' = l\<lparr>rl_last_applied := rl_last_applied l + 1\<rparr>;
               (out, l'') = take_applicable l'
           in (case log_get l' (rl_last_applied l') of
                 Some e \<Rightarrow> (e # out, l'')
               | None \<Rightarrow> (out, l''))
      else ([], l))"
  by pat_completeness auto
termination
  by (relation "measure (\<lambda>l. rl_commit_index l - rl_last_applied l)") auto

declare take_applicable.simps [simp del]

definition compact_entries :: "RaftLog \<Rightarrow> Snapshot \<Rightarrow> LogEntry list" where
  "compact_entries l s =
     (let snap_index = sn_last_included_index s; snap_term = sn_last_included_term s
      in if snap_index \<ge> u64_add (rl_base_index l) (length (rl_entries l))
         then [\<lparr>le_term = snap_term, le_index = snap_index, le_data = []\<rparr>]
         else (case drop (snap_index - rl_base_index l) (rl_entries l) of
                 [] \<Rightarrow> []
               | first # rest \<Rightarrow>
                   first\<lparr>le_index := snap_index, le_term := snap_term, le_data := []\<rparr> # rest))"

definition log_compact :: "RaftLog \<Rightarrow> Snapshot \<Rightarrow> RaftLog" where
  "log_compact l s =
     (let snap_index = sn_last_included_index s
      in if snap_index \<le> rl_base_index l then l
         else l\<lparr>rl_entries := compact_entries l s,
                rl_base_index := snap_index,
                rl_last_applied := (if rl_last_applied l < snap_index then snap_index
                                    else rl_last_applied l),
                rl_commit_index := (if rl_commit_index l < snap_index then snap_index
                                    else rl_commit_index l),
                rl_snapshot := Some s\<rparr>)"

definition is_compacted :: "RaftLog \<Rightarrow> nat \<Rightarrow> bool" where
  "is_compacted l i \<longleftrightarrow> i < rl_base_index l"

lemmas [log_defs] = log_new_def log_append_def log_get_def log_last_index_def
  truncate_after_def advance_commit_def entries_from_def log_compact_def is_compacted_def

section \<open>The invariant\<close>

definition log_inv :: "RaftLog \<Rightarrow> bool" where
  "log_inv l \<longleftrightarrow>
     rl_entries l \<noteq> [] \<and>
     (\<forall>i < length (rl_entries l). le_index (rl_entries l ! i) = rl_base_index l + i) \<and>
     rl_base_index l + length (rl_entries l) < 2 ^ 64 \<and>
     rl_base_index l \<le> rl_commit_index l \<and>
     rl_base_index l \<le> rl_last_applied l \<and>
     rl_commit_index l < rl_base_index l + length (rl_entries l)"

lemma log_invD:
  assumes "log_inv l"
  shows log_inv_nonempty: "rl_entries l \<noteq> []"
    and log_inv_room: "rl_base_index l + length (rl_entries l) < 2 ^ 64"
    and log_inv_index:
      "i < length (rl_entries l) \<Longrightarrow> le_index (rl_entries l ! i) = rl_base_index l + i"
    and log_inv_base_commit: "rl_base_index l \<le> rl_commit_index l"
    and log_inv_base_applied: "rl_base_index l \<le> rl_last_applied l"
    and log_inv_commit: "rl_commit_index l < rl_base_index l + length (rl_entries l)"
  using assms by (auto simp: log_inv_def)

lemma log_last_index_eq:
  "log_inv l \<Longrightarrow> log_last_index l = rl_base_index l + length (rl_entries l) - 1"
  using log_inv_room [of l] log_inv_nonempty [of l]
  by (cases "rl_entries l") (simp_all add: log_last_index_def)

lemma length_entries_eq:
  "log_inv l \<Longrightarrow> length (rl_entries l) = Suc (log_last_index l) - rl_base_index l"
  using log_inv_nonempty [of l] by (cases "rl_entries l") (auto simp: log_last_index_eq)

lemma base_le_last: "log_inv l \<Longrightarrow> rl_base_index l \<le> log_last_index l"
  using log_inv_nonempty [of l] by (cases "rl_entries l") (auto simp: log_last_index_eq)

lemma commit_le_last: "log_inv l \<Longrightarrow> rl_commit_index l \<le> log_last_index l"
  using log_inv_commit [of l] by (simp add: log_last_index_eq)

lemma log_get_Some_iff:
  assumes "log_inv l"
  shows "(\<exists>e. log_get l i = Some e) \<longleftrightarrow> rl_base_index l \<le> i \<and> i \<le> log_last_index l"
  using log_inv_nonempty [OF assms]
  by (cases "rl_entries l") (auto simp: log_get_def log_last_index_eq [OF assms] Let_def)

lemma log_get_index: "log_inv l \<Longrightarrow> log_get l i = Some e \<Longrightarrow> le_index e = i"
  by (auto simp: log_get_def Let_def log_inv_def split: if_splits)

lemma log_inv_new: "log_inv log_new"
  by (simp add: log_inv_def log_new_def)

lemma log_append_last:
  "log_inv l \<Longrightarrow> snd (log_append l t d) = log_last_index l + 1"
  using log_inv_nonempty [of l] log_inv_room [of l]
  by (cases "rl_entries l") (simp_all add: log_append_def log_last_index_eq Let_def)

lemma log_inv_append:
  "log_inv l \<Longrightarrow> log_last_index l + 2 < 2 ^ 64 \<Longrightarrow> log_inv (fst (log_append l t d))"
  by (auto simp: log_inv_def log_append_def Let_def nth_append log_last_index_eq)

lemma log_get_append:
  assumes "log_inv l"
  shows "log_get (fst (log_append l t d)) i =
    (if i = log_last_index l + 1
     then Some \<lparr>le_term = t, le_index = log_last_index l + 1, le_data = d\<rparr>
     else log_get l i)"
proof -
  have "rl_base_index l + length (rl_entries l) = log_last_index l + 1"
    using length_entries_eq [OF assms] base_le_last [OF assms] by simp
  then show ?thesis
    using log_inv_room [OF assms] base_le_last [OF assms]
    by (auto simp: log_get_def log_append_def Let_def nth_append)
qed

lemma log_inv_truncate: "log_inv l \<Longrightarrow> log_inv (truncate_after l i)"
  by (auto simp: log_inv_def truncate_after_def Let_def)

lemma log_get_truncate:
  assumes "log_inv l" "rl_base_index l \<le> i"
  shows "log_get (truncate_after l i) k = (if k \<le> i then log_get l k else None)"
  using assms by (auto simp: log_get_def truncate_after_def Let_def)

lemma log_last_truncate:
  assumes "log_inv l" "rl_base_index l \<le> i"
  shows "log_last_index (truncate_after l i) = min i (log_last_index l)"
proof -
  have "log_inv (truncate_after l i)"
    using assms(1) by (rule log_inv_truncate)
  then show ?thesis
    using assms log_inv_nonempty [OF assms(1)]
    by (cases "rl_entries l")
       (auto simp: log_last_index_eq truncate_after_def Let_def min_def)
qed

lemma log_inv_advance: "log_inv l \<Longrightarrow> log_inv (advance_commit l i)"
  using commit_le_last [of l] base_le_last [of l]
  by (auto simp: log_inv_def advance_commit_def log_last_index_eq)

lemma log_get_advance [simp]: "log_get (advance_commit l i) k = log_get l k"
  by (simp add: log_get_def advance_commit_def Let_def)

lemma log_last_advance [simp]: "log_last_index (advance_commit l i) = log_last_index l"
  by (simp add: log_last_index_def advance_commit_def)

lemma entries_from_eq:
  "rl_base_index l \<le> i \<Longrightarrow> entries_from l i = drop (i - rl_base_index l) (rl_entries l)"
  by (simp add: entries_from_def Let_def)

section \<open>Compaction\<close>

lemma compact_entries_nth:
  assumes "log_inv l" "rl_base_index l < sn_last_included_index s"
  shows "rl_base_index l \<le> sn_last_included_index s \<and>
    length (compact_entries l s) = (Suc (log_last_index l) - sn_last_included_index s) +
       (if log_last_index l < sn_last_included_index s then 1 else 0) \<and>
    compact_entries l s \<noteq> [] \<and>
    compact_entries l s ! 0 = \<lparr>le_term = sn_last_included_term s,
       le_index = sn_last_included_index s, le_data = []\<rparr> \<and>
    (\<forall>i. 0 < i \<longrightarrow> i < length (compact_entries l s) \<longrightarrow>
       compact_entries l s ! i = rl_entries l ! (sn_last_included_index s - rl_base_index l + i))"
proof (cases "sn_last_included_index s \<ge> rl_base_index l + length (rl_entries l)")
  case True
  then show ?thesis
    using assms log_inv_room [OF assms(1)] log_inv_nonempty [OF assms(1)]
    by (auto simp: compact_entries_def log_last_index_eq Let_def)
next
  case False
  let ?k = "sn_last_included_index s - rl_base_index l"
  have k: "?k < length (rl_entries l)"
    using False assms(2) by simp
  then have "drop ?k (rl_entries l) = rl_entries l ! ?k # drop (Suc ?k) (rl_entries l)"
    by (simp add: Cons_nth_drop_Suc)
  then have ce: "compact_entries l s =
      (rl_entries l ! ?k)\<lparr>le_index := sn_last_included_index s,
         le_term := sn_last_included_term s, le_data := []\<rparr> # drop (Suc ?k) (rl_entries l)"
    using False log_inv_room [OF assms(1)] by (simp add: compact_entries_def Let_def)
  show ?thesis
    using ce k False assms by (auto simp: log_last_index_eq nth_Cons Suc_diff_le split: nat.splits)
qed

lemma log_inv_compact:
  assumes "log_inv l" "sn_last_included_index s + 1 < 2 ^ 64"
  shows "log_inv (log_compact l s)"
proof (cases "sn_last_included_index s \<le> rl_base_index l")
  case True
  with assms show ?thesis by (simp add: log_compact_def)
next
  case False
  then have lt: "rl_base_index l < sn_last_included_index s" by simp
  note ce = compact_entries_nth [OF assms(1) lt]
  have idx: "le_index (compact_entries l s ! i) = sn_last_included_index s + i"
    if "i < length (compact_entries l s)" for i
  proof (cases i)
    case 0
    with ce show ?thesis by simp
  next
    case (Suc j)
    then have "compact_entries l s ! i =
        rl_entries l ! (sn_last_included_index s - rl_base_index l + i)"
      using ce that by simp
    moreover have "sn_last_included_index s - rl_base_index l + i < length (rl_entries l)"
      using ce that Suc length_entries_eq [OF assms(1)] lt by (auto split: if_splits)
    ultimately show ?thesis
      using log_inv_index [OF assms(1)] lt by simp
  qed
  have bound: "sn_last_included_index s + length (compact_entries l s) < 2 ^ 64"
    using ce assms log_inv_room [OF assms(1)] by (auto simp: log_last_index_eq)
  show ?thesis
    using ce idx bound lt commit_le_last [OF assms(1)]
    by (auto simp: log_inv_def log_compact_def Let_def)
qed

lemma log_get_compact:
  assumes "log_inv l" "rl_base_index l < sn_last_included_index s"
  shows "log_get (log_compact l s) i =
    (if i < sn_last_included_index s then None
     else if i = sn_last_included_index s
     then Some \<lparr>le_term = sn_last_included_term s, le_index = i, le_data = []\<rparr>
     else log_get l i)"
proof -
  note ce = compact_entries_nth [OF assms]
  have len: "length (rl_entries l) = Suc (log_last_index l) - rl_base_index l"
    using assms(1) by (rule length_entries_eq)
  show ?thesis
    using ce assms(2) len
    by (auto simp: log_get_def log_compact_def Let_def)
qed

lemma log_last_compact:
  assumes "log_inv l" "rl_base_index l < sn_last_included_index s"
    and "sn_last_included_index s + 1 < 2 ^ 64"
  shows "log_last_index (log_compact l s) = max (log_last_index l) (sn_last_included_index s)"
proof -
  have "log_inv (log_compact l s)"
    using assms(1,3) by (rule log_inv_compact)
  then show ?thesis
    using compact_entries_nth [OF assms(1,2)] assms(2)
    by (auto simp: log_last_index_eq log_compact_def Let_def max_def split: if_splits)
qed

section \<open>Delivery to the state machine\<close>

lemma take_applicable_state:
  "snd (take_applicable l) = l\<lparr>rl_last_applied := max (rl_last_applied l) (rl_commit_index l)\<rparr>"
proof (induction l rule: take_applicable.induct)
  case (1 l)
  show ?case
  proof (cases "rl_last_applied l < rl_commit_index l")
    case True
    with "1.IH" [OF True refl] show ?thesis
      by (auto simp: take_applicable.simps [of l] Let_def max_def split: option.splits prod.splits)
  next
    case False
    then show ?thesis
      by (simp add: take_applicable.simps [of l] max_def)
  qed
qed

lemma take_applicable_entries:
  assumes "log_inv l"
  shows "fst (take_applicable l) =
    map (\<lambda>i. the (log_get l i)) [Suc (rl_last_applied l) ..< Suc (rl_commit_index l)]"
  using assms
proof (induction l rule: take_applicable.induct)
  case (1 l)
  show ?case
  proof (cases "rl_last_applied l < rl_commit_index l")
    case True
    let ?l = "l\<lparr>rl_last_applied := rl_last_applied l + 1\<rparr>"
    have inv: "log_inv ?l"
      using "1.prems" by (auto simp: log_inv_def)
    have get: "log_get ?l i = log_get l i" for i
      by (simp add: log_get_def Let_def)
    obtain e where e: "log_get l (Suc (rl_last_applied l)) = Some e"
      using log_get_Some_iff [OF "1.prems", of "Suc (rl_last_applied l)"] True
        commit_le_last [OF "1.prems"] log_inv_base_applied [OF "1.prems"] by auto
    have "fst (take_applicable ?l) =
        map (\<lambda>i. the (log_get l i)) [Suc (Suc (rl_last_applied l)) ..< Suc (rl_commit_index l)]"
      using "1.IH" [OF True refl inv] get by simp
    moreover have "[Suc (rl_last_applied l) ..< Suc (rl_commit_index l)] =
        Suc (rl_last_applied l) # [Suc (Suc (rl_last_applied l)) ..< Suc (rl_commit_index l)]"
      using True by (simp add: upt_rec)
    ultimately show ?thesis
      using True e get
      by (simp add: take_applicable.simps [of l] Let_def case_prod_unfold del: upt_Suc)
  next
    case False
    then show ?thesis
      by (simp add: take_applicable.simps [of l])
  qed
qed

lemma take_applicable_indices:
  assumes "log_inv l"
  shows "map le_index (fst (take_applicable l)) =
    [Suc (rl_last_applied l) ..< Suc (rl_commit_index l)]"
proof -
  have "le_index (the (log_get l i)) = i"
    if "i \<in> set [Suc (rl_last_applied l) ..< Suc (rl_commit_index l)]" for i
  proof -
    have "rl_base_index l \<le> i" "i \<le> log_last_index l"
      using that log_inv_base_applied [OF assms] commit_le_last [OF assms] by auto
    then obtain e where "log_get l i = Some e"
      using log_get_Some_iff [OF assms, of i] by auto
    with log_get_index [OF assms this] show ?thesis by simp
  qed
  then show ?thesis
    by (simp add: take_applicable_entries [OF assms] o_def del: upt_Suc) (rule map_idI, simp del: upt_Suc)
qed

lemma log_inv_take: "log_inv l \<Longrightarrow> log_inv (snd (take_applicable l))"
  by (auto simp: take_applicable_state log_inv_def)

section \<open>Runs of log operations\<close>

text \<open>
  The operations as the node issues them, one after the other. \<open>op_fits\<close> excludes the
  indices at the very end of the \<^verbatim>\<open>u64\<close> range, where \<open>append\<close> and \<open>compact\<close> would
  wrap around.
\<close>

datatype log_op =
    OpAppend nat "byte list"
  | OpTruncate nat
  | OpAdvance nat
  | OpTake
  | OpCompact Snapshot

fun log_step :: "log_op \<Rightarrow> RaftLog \<Rightarrow> LogEntry list \<times> RaftLog" where
  "log_step (OpAppend t d) l = ([], fst (log_append l t d))"
| "log_step (OpTruncate i) l = ([], truncate_after l i)"
| "log_step (OpAdvance i) l = ([], advance_commit l i)"
| "log_step OpTake l = take_applicable l"
| "log_step (OpCompact s) l = ([], log_compact l s)"

fun op_fits :: "log_op \<Rightarrow> RaftLog \<Rightarrow> bool" where
  "op_fits (OpAppend t d) l \<longleftrightarrow> log_last_index l + 2 < 2 ^ 64"
| "op_fits (OpCompact s) l \<longleftrightarrow> sn_last_included_index s + 1 < 2 ^ 64"
| "op_fits _ l \<longleftrightarrow> True"

fun log_run :: "log_op list \<Rightarrow> RaftLog \<Rightarrow> LogEntry list \<times> RaftLog" where
  "log_run [] l = ([], l)"
| "log_run (x # xs) l =
     (let (out, l') = log_step x l; (out', l'') = log_run xs l' in (out @ out', l''))"

fun run_fits :: "log_op list \<Rightarrow> RaftLog \<Rightarrow> bool" where
  "run_fits [] l \<longleftrightarrow> True"
| "run_fits (x # xs) l \<longleftrightarrow> op_fits x l \<and> run_fits xs (snd (log_step x l))"

lemma log_step_inv: "log_inv l \<Longrightarrow> op_fits x l \<Longrightarrow> log_inv (snd (log_step x l))"
  by (cases x)
     (simp_all add: log_inv_append log_inv_truncate log_inv_advance log_inv_take log_inv_compact)

lemma log_step_applied: "rl_last_applied l \<le> rl_last_applied (snd (log_step x l))"
  by (cases x)
     (simp_all add: take_applicable_state log_append_def truncate_after_def advance_commit_def
        log_compact_def Let_def)

lemma log_run_inv: "log_inv l \<Longrightarrow> run_fits xs l \<Longrightarrow> log_inv (snd (log_run xs l))"
  by (induction xs arbitrary: l) (auto simp: Let_def case_prod_unfold log_step_inv)

lemma log_run_applied: "rl_last_applied l \<le> rl_last_applied (snd (log_run xs l))"
proof (induction xs arbitrary: l)
  case (Cons x xs)
  have "rl_last_applied l \<le> rl_last_applied (snd (log_step x l))"
    by (rule log_step_applied)
  also have "\<dots> \<le> rl_last_applied (snd (log_run xs (snd (log_step x l))))"
    by (rule Cons.IH)
  finally show ?case
    by (simp add: Let_def case_prod_unfold)
qed simp

lemma log_step_delivers:
  assumes "log_inv l"
  shows "sorted_wrt (<) (map le_index (fst (log_step x l)))"
    and "e \<in> set (fst (log_step x l)) \<Longrightarrow>
      rl_last_applied l < le_index e \<and> le_index e \<le> rl_last_applied (snd (log_step x l))"
proof -
  have idx: "set (map le_index (fst (take_applicable l))) =
      {Suc (rl_last_applied l) ..< Suc (rl_commit_index l)}"
    by (simp only: take_applicable_indices [OF assms] set_upt)
  show "sorted_wrt (<) (map le_index (fst (log_step x l)))"
    by (cases x) (simp_all add: take_applicable_indices [OF assms] sorted_wrt_upt del: upt_Suc)
  show "rl_last_applied l < le_index e \<and> le_index e \<le> rl_last_applied (snd (log_step x l))"
    if "e \<in> set (fst (log_step x l))"
  proof (cases x)
    case OpTake
    then have "le_index e \<in> set (map le_index (fst (take_applicable l)))"
      using that by simp
    then show ?thesis
      using OpTake by (simp only: idx) (simp add: take_applicable_state)
  qed (use that in simp_all)
qed

lemma log_run_delivers:
  assumes "log_inv l" "run_fits xs l"
  shows "sorted_wrt (<) (map le_index (fst (log_run xs l))) \<and>
    (\<forall>e \<in> set (fst (log_run xs l)).
       rl_last_applied l < le_index e \<and> le_index e \<le> rl_last_applied (snd (log_run xs l)))"
  using assms
proof (induction xs arbitrary: l)
  case Nil
  then show ?case by simp
next
  case (Cons x xs)
  let ?l = "snd (log_step x l)"
  have inv: "log_inv ?l"
    using Cons.prems by (simp add: log_step_inv)
  have fits: "run_fits xs ?l"
    using Cons.prems by simp
  note IH = Cons.IH [OF inv fits]
  note now = log_step_delivers [OF Cons.prems(1), where x = x]
  have later: "rl_last_applied l < le_index e \<and> le_index e \<le> rl_last_applied (snd (log_run xs ?l))"
    if "e \<in> set (fst (log_run xs ?l))" for e
    using IH that log_step_applied [of l x] by fastforce
  have first: "rl_last_applied l < le_index e \<and> le_index e \<le> rl_last_applied (snd (log_run xs ?l))"
    if "e \<in> set (fst (log_step x l))" for e
    using now(2) [OF that] log_run_applied [of ?l xs] by linarith
  have "le_index a < le_index b"
    if "a \<in> set (fst (log_step x l))" "b \<in> set (fst (log_run xs ?l))" for a b
    using now(2) [OF that(1)] IH that(2) by fastforce
  then show ?case
    using now(1) IH first later
    by (auto simp: Let_def case_prod_unfold sorted_wrt_append)
qed

section \<open>Properties\<close>

text \<open>Every run of log operations that stays inside the index range keeps the log
  well formed: entry \<open>i\<close> of the vector has index \<open>base_index + i\<close>, and
  \<open>base_index \<le> commit_index \<le> last_index\<close>.\<close>

lemma log_run_preserves_inv:
  assumes "run_fits xs log_new"
  shows "log_inv (snd (log_run xs log_new))"
  using log_inv_new assms by (rule log_run_inv)

text \<open>C18. Over any run of log operations (appends, truncations of a conflicting suffix,
  commit advances, compactions) the entries handed to the state machine have strictly
  increasing indices: no index is ever applied twice or out of order.\<close>

theorem entries_applied_once_in_order:
  assumes "log_inv l" "run_fits xs l"
  shows "sorted_wrt (<) (map le_index (fst (log_run xs l))) \<and>
    (\<forall>e \<in> set (fst (log_run xs l)).
       rl_last_applied l < le_index e \<and> le_index e \<le> rl_last_applied (snd (log_run xs l)))"
  using assms by (rule log_run_delivers)

theorem entries_applied_once_in_order_witness:
  "sorted_wrt (<) (map le_index (fst (log_run [OpAppend 1 [7], OpAppend 2 [8], OpAdvance 1,
     OpTake, OpTruncate 1, OpAppend 3 [9], OpAdvance 2, OpTake] log_new)))"
  by (rule entries_applied_once_in_order [OF log_inv_new, THEN conjunct1]) code_simp

end
