(* ===== verification/Raft_Node.thy ===== *)
theory Raft_Node
  imports Raft_Log
begin

text \<open>
  The consensus node of \<^verbatim>\<open>crates/raft/src/node.rs\<close> and the messages of
  \<^verbatim>\<open>crates/raft/src/rpc.rs\<close>. Each method of \<^verbatim>\<open>impl RaftNode\<close> is one definition that
  returns the updated node beside the method's result. \<open>node_step\<close> runs one method by
  name, so that what holds of every method is stated once. The lemmas cover the term and
  the vote (monotone terms, one vote per term), the roles, and what AppendEntries does
  to a follower's log.
\<close>

section \<open>Messages\<close>

record AppendEntriesReq =
  ae_term :: nat
  ae_leader_id :: nat
  ae_prev_log_index :: nat
  ae_prev_log_term :: nat
  ae_entries :: "LogEntry list"
  ae_leader_commit :: nat

record AppendEntriesResp =
  aer_term :: nat
  aer_success :: bool
  aer_match_index :: nat

record RequestVoteReq =
  rv_term :: nat
  rv_candidate_id :: nat
  rv_last_log_index :: nat
  rv_last_log_term :: nat

record RequestVoteResp =
  rvr_term :: nat
  rvr_vote_granted :: bool

record InstallSnapshotReq =
  is_term :: nat
  is_leader_id :: nat
  is_last_included_index :: nat
  is_last_included_term :: nat
  is_data :: "byte list"

record InstallSnapshotResp =
  isr_term :: nat

section \<open>The node\<close>

datatype RaftRole = Leader | Follower | Candidate

record RaftConfig =
  cf_node_id :: nat
  cf_peers :: "nat list"
  cf_election_timeout_min_ms :: nat
  cf_election_timeout_max_ms :: nat
  cf_heartbeat_interval_ms :: nat

record RaftNode =
  rn_config :: RaftConfig
  rn_role :: RaftRole
  rn_current_term :: nat
  rn_voted_for :: "nat option"
  rn_log :: RaftLog
  rn_commit_index :: nat
  rn_last_applied :: nat
  rn_next_index :: "(nat \<times> nat) list"
  rn_match_index :: "(nat \<times> nat) list"
  rn_votes_received :: nat

definition node_new :: "RaftConfig \<Rightarrow> RaftNode" where
  "node_new c = \<lparr>rn_config = c, rn_role = Follower, rn_current_term = 0, rn_voted_for = None,
     rn_log = log_new, rn_commit_index = 0, rn_last_applied = 0,
     rn_next_index = map (\<lambda>p. (p, 1)) (cf_peers c),
     rn_match_index = map (\<lambda>p. (p, 0)) (cf_peers c),
     rn_votes_received = 0\<rparr>"

abbreviation rn_peers :: "RaftNode \<Rightarrow> nat list" where
  "rn_peers n \<equiv> cf_peers (rn_config n)"

definition quorum :: "RaftNode \<Rightarrow> nat" where
  \<comment> \<open>\<^verbatim>\<open>peers.len().div_ceil(2) + 1\<close>\<close>
  "quorum n = (length (rn_peers n) + 1) div 2 + 1"

subsection \<open>Private helpers\<close>

fun set_first :: "nat \<Rightarrow> nat \<Rightarrow> (nat \<times> nat) list \<Rightarrow> (nat \<times> nat) list" where
  \<comment> \<open>\<^verbatim>\<open>iter_mut().find(|(p, _)| *p == peer)\<close>, then an assignment to its second field\<close>
  "set_first p v [] = []"
| "set_first p v ((q, w) # xs) = (if q = p then (q, v) # xs else (q, w) # set_first p v xs)"

definition next_index_for :: "RaftNode \<Rightarrow> nat \<Rightarrow> nat" where
  "next_index_for n p =
     (case find (\<lambda>(q, _). q = p) (rn_next_index n) of Some (_, i) \<Rightarrow> i | None \<Rightarrow> 1)"

definition set_next_index :: "RaftNode \<Rightarrow> nat \<Rightarrow> nat \<Rightarrow> RaftNode" where
  "set_next_index n p i = n\<lparr>rn_next_index := set_first p i (rn_next_index n)\<rparr>"

definition set_match_index :: "RaftNode \<Rightarrow> nat \<Rightarrow> nat \<Rightarrow> RaftNode" where
  "set_match_index n p i = n\<lparr>rn_match_index := set_first p i (rn_match_index n)\<rparr>"

definition become_leader :: "RaftNode \<Rightarrow> RaftNode" where
  "become_leader n =
     (let lst = log_last_index (rn_log n)
      in n\<lparr>rn_role := Leader,
           rn_next_index := map (\<lambda>(p, _). (p, u64_add lst 1)) (rn_next_index n),
           rn_match_index := map (\<lambda>(p, _). (p, 0)) (rn_match_index n)\<rparr>)"

subsection \<open>AppendEntries\<close>

definition append_entry :: "RaftLog \<Rightarrow> LogEntry \<Rightarrow> RaftLog" where
  "append_entry l e =
     (case log_get l (le_index e) of
        Some existing \<Rightarrow>
          if le_term existing \<noteq> le_term e
          then fst (log_append (truncate_after l (le_index e - 1)) (le_term e) (le_data e))
          else l
      | None \<Rightarrow> fst (log_append l (le_term e) (le_data e)))"

definition reject_entries :: "RaftNode \<Rightarrow> RaftNode \<times> AppendEntriesResp" where
  "reject_entries n = (n, \<lparr>aer_term = rn_current_term n, aer_success = False,
     aer_match_index = log_last_index (rn_log n)\<rparr>)"

definition accept_entries :: "RaftNode \<Rightarrow> AppendEntriesReq \<Rightarrow> RaftNode \<times> AppendEntriesResp" where
  \<comment> \<open>rules 3 to 5\<close>
  "accept_entries n req =
     (let n1 = n\<lparr>rn_log := foldl append_entry (rn_log n) (ae_entries req)\<rparr>;
          n2 = (if ae_leader_commit req > rn_commit_index n1
                then let c = min (ae_leader_commit req) (log_last_index (rn_log n1))
                     in n1\<lparr>rn_commit_index := c, rn_log := advance_commit (rn_log n1) c\<rparr>
                else n1)
      in (n2, \<lparr>aer_term = rn_current_term n2, aer_success = True,
               aer_match_index = log_last_index (rn_log n2)\<rparr>))"

definition handle_append_entries ::
  "RaftNode \<Rightarrow> AppendEntriesReq \<Rightarrow> RaftNode \<times> AppendEntriesResp" where
  "handle_append_entries n req =
     (if ae_term req < rn_current_term n then reject_entries n
      else
        let n1 = (if ae_term req > rn_current_term n
                  then n\<lparr>rn_current_term := ae_term req, rn_voted_for := None\<rparr> else n);
            n2 = n1\<lparr>rn_role := Follower\<rparr>
        in if ae_prev_log_index req > 0
           then (case log_get (rn_log n2) (ae_prev_log_index req) of
                   None \<Rightarrow> reject_entries n2
                 | Some e \<Rightarrow>
                     if le_term e \<noteq> ae_prev_log_term req
                     then reject_entries (n2\<lparr>rn_log :=
                            truncate_after (rn_log n2) (ae_prev_log_index req - 1)\<rparr>)
                     else accept_entries n2 req)
           else accept_entries n2 req)"

subsection \<open>RequestVote\<close>

definition handle_request_vote ::
  "RaftNode \<Rightarrow> RequestVoteReq \<Rightarrow> RaftNode \<times> RequestVoteResp" where
  "handle_request_vote n req =
     (if rv_term req < rn_current_term n
      then (n, \<lparr>rvr_term = rn_current_term n, rvr_vote_granted = False\<rparr>)
      else
        let n1 = (if rv_term req > rn_current_term n
                  then n\<lparr>rn_current_term := rv_term req, rn_voted_for := None,
                         rn_role := Follower\<rparr> else n);
            can_vote = (rn_voted_for n1 = None \<or> rn_voted_for n1 = Some (rv_candidate_id req));
            log_ok = (rv_last_log_term req > log_last_term (rn_log n1) \<or>
                      rv_last_log_term req = log_last_term (rn_log n1) \<and>
                      rv_last_log_index req \<ge> log_last_index (rn_log n1))
        in if can_vote \<and> log_ok
           then (n1\<lparr>rn_voted_for := Some (rv_candidate_id req)\<rparr>,
                 \<lparr>rvr_term = rn_current_term n1, rvr_vote_granted = True\<rparr>)
           else (n1, \<lparr>rvr_term = rn_current_term n1, rvr_vote_granted = False\<rparr>))"

subsection \<open>Leader operations\<close>

definition propose :: "RaftNode \<Rightarrow> byte list \<Rightarrow> string + RaftNode \<times> nat" where
  "propose n d =
     (if rn_role n \<noteq> Leader then Inl ''not leader''
      else let (l, i) = log_append (rn_log n) (rn_current_term n) d
           in Inr (n\<lparr>rn_log := l\<rparr>, i))"

definition heartbeat_req :: "RaftNode \<Rightarrow> nat \<Rightarrow> AppendEntriesReq" where
  "heartbeat_req n peer =
     (let nxt = next_index_for n peer;
          prev_log_index = nxt - 1
      in \<lparr>ae_term = rn_current_term n,
          ae_leader_id = cf_node_id (rn_config n),
          ae_prev_log_index = prev_log_index,
          ae_prev_log_term =
            (case log_get (rn_log n) prev_log_index of Some e \<Rightarrow> le_term e | None \<Rightarrow> 0),
          ae_entries = entries_from (rn_log n) nxt,
          ae_leader_commit = rn_commit_index n\<rparr>)"

definition heartbeat :: "RaftNode \<Rightarrow> (nat \<times> AppendEntriesReq) list" where
  "heartbeat n =
     (if rn_role n \<noteq> Leader then [] else map (\<lambda>p. (p, heartbeat_req n p)) (rn_peers n))"

definition matched_count :: "RaftNode \<Rightarrow> nat \<Rightarrow> nat" where
  "matched_count n i = 1 + length (filter (\<lambda>(_, mi). mi \<ge> i) (rn_match_index n))"

definition committable :: "RaftNode \<Rightarrow> nat \<Rightarrow> bool" where
  "committable n i \<longleftrightarrow>
     (case log_get (rn_log n) i of Some e \<Rightarrow> le_term e | None \<Rightarrow> 0) = rn_current_term n \<and>
     matched_count n i \<ge> quorum n"

definition handle_append_response ::
  "RaftNode \<Rightarrow> nat \<Rightarrow> AppendEntriesResp \<Rightarrow> RaftNode" where
  "handle_append_response n sender resp =
     (if aer_term resp > rn_current_term n
      then n\<lparr>rn_current_term := aer_term resp, rn_voted_for := None, rn_role := Follower\<rparr>
      else if rn_role n \<noteq> Leader then n
      else if aer_success resp
      then
        let n1 = set_match_index n sender (aer_match_index resp);
            n2 = set_next_index n1 sender (u64_add (aer_match_index resp) 1);
            lst = log_last_index (rn_log n2)
        in (case find (committable n2) (rev [u64_add (rn_commit_index n2) 1 ..< Suc lst]) of
              Some i \<Rightarrow> n2\<lparr>rn_commit_index := i, rn_log := advance_commit (rn_log n2) i\<rparr>
            | None \<Rightarrow> n2)
      else
        let new_next = u64_add (aer_match_index resp) 1;
            current_next = next_index_for n sender
        in if new_next < current_next
           then set_next_index n sender (max new_next 1)
           else set_next_index n sender (max (current_next - 1) 1))"

subsection \<open>Elections\<close>

definition start_election :: "RaftNode \<Rightarrow> RaftNode \<times> (nat \<times> RequestVoteReq) list" where
  "start_election n =
     (let n1 = n\<lparr>rn_current_term := u64_add (rn_current_term n) 1,
                 rn_role := Candidate,
                 rn_voted_for := Some (cf_node_id (rn_config n)),
                 rn_votes_received := 1\<rparr>
      in if rn_votes_received n1 \<ge> quorum n1 then (become_leader n1, [])
         else (n1, map (\<lambda>p. (p, \<lparr>rv_term = rn_current_term n1,
                                 rv_candidate_id = cf_node_id (rn_config n1),
                                 rv_last_log_index = log_last_index (rn_log n1),
                                 rv_last_log_term = log_last_term (rn_log n1)\<rparr>))
                      (rn_peers n1)))"

definition handle_vote_response ::
  "RaftNode \<Rightarrow> nat \<Rightarrow> RequestVoteResp \<Rightarrow> RaftNode \<times> bool" where
  "handle_vote_response n sender resp =
     (if rvr_term resp > rn_current_term n
      then (n\<lparr>rn_current_term := rvr_term resp, rn_voted_for := None, rn_role := Follower\<rparr>, False)
      else if rn_role n \<noteq> Candidate then (n, False)
      else if rvr_vote_granted resp
      then let n1 = n\<lparr>rn_votes_received := rn_votes_received n + 1\<rparr>
           in if rn_votes_received n1 \<ge> quorum n1 then (become_leader n1, True) else (n1, False)
      else (n, False))"

subsection \<open>Snapshots and application\<close>

definition create_snapshot :: "RaftNode \<Rightarrow> nat \<Rightarrow> byte list \<Rightarrow> RaftNode" where
  "create_snapshot n i d =
     (let t = (case log_get (rn_log n) i of Some e \<Rightarrow> le_term e | None \<Rightarrow> rn_current_term n)
      in n\<lparr>rn_log := log_compact (rn_log n)
             \<lparr>sn_last_included_index = i, sn_last_included_term = t, sn_data = d\<rparr>\<rparr>)"

definition handle_install_snapshot ::
  "RaftNode \<Rightarrow> InstallSnapshotReq \<Rightarrow> RaftNode \<times> InstallSnapshotResp" where
  "handle_install_snapshot n req =
     (if is_term req < rn_current_term n then (n, \<lparr>isr_term = rn_current_term n\<rparr>)
      else
        let n1 = (if is_term req > rn_current_term n
                  then n\<lparr>rn_current_term := is_term req, rn_voted_for := None\<rparr> else n);
            n2 = n1\<lparr>rn_role := Follower\<rparr>
        in if is_last_included_index req \<le> rl_last_applied (rn_log n2)
           then (n2, \<lparr>isr_term = rn_current_term n2\<rparr>)
           else (n2\<lparr>rn_log := log_compact (rn_log n2)
                      \<lparr>sn_last_included_index = is_last_included_index req,
                       sn_last_included_term = is_last_included_term req,
                       sn_data = is_data req\<rparr>\<rparr>,
                 \<lparr>isr_term = rn_current_term n2\<rparr>))"

definition maybe_install_snapshot ::
  "RaftNode \<Rightarrow> nat \<Rightarrow> (nat \<times> InstallSnapshotReq) option" where
  "maybe_install_snapshot n peer =
     (if rn_role n \<noteq> Leader then None
      else case rl_snapshot (rn_log n) of
             None \<Rightarrow> None
           | Some snap \<Rightarrow>
               if next_index_for n peer \<le> sn_last_included_index snap
               then Some (peer, \<lparr>is_term = rn_current_term n,
                                 is_leader_id = cf_node_id (rn_config n),
                                 is_last_included_index = sn_last_included_index snap,
                                 is_last_included_term = sn_last_included_term snap,
                                 is_data = sn_data snap\<rparr>)
               else None)"

definition node_take_applicable :: "RaftNode \<Rightarrow> LogEntry list \<times> RaftNode" where
  "node_take_applicable n =
     (let (out, l) = take_applicable (rn_log n) in (out, n\<lparr>rn_log := l\<rparr>))"

definition advance_commit_if_solo :: "RaftNode \<Rightarrow> RaftNode" where
  "advance_commit_if_solo n =
     (if rn_role n \<noteq> Leader \<or> rn_peers n \<noteq> [] then n
      else let lst = log_last_index (rn_log n)
           in if lst > rn_commit_index n
              then n\<lparr>rn_commit_index := lst, rn_log := advance_commit (rn_log n) lst\<rparr>
              else n)"

section \<open>One method call\<close>

datatype node_op =
    AppendEntries AppendEntriesReq
  | RequestVote RequestVoteReq
  | InstallSnapshot InstallSnapshotReq
  | Propose "byte list"
  | AppendResponse nat AppendEntriesResp
  | VoteResponse nat RequestVoteResp
  | StartElection
  | CreateSnapshot nat "byte list"
  | TakeApplicable
  | SoloCommit

fun node_step :: "node_op \<Rightarrow> RaftNode \<Rightarrow> RaftNode" where
  "node_step (AppendEntries req) n = fst (handle_append_entries n req)"
| "node_step (RequestVote req) n = fst (handle_request_vote n req)"
| "node_step (InstallSnapshot req) n = fst (handle_install_snapshot n req)"
| "node_step (Propose d) n = (case propose n d of Inl _ \<Rightarrow> n | Inr (n', _) \<Rightarrow> n')"
| "node_step (AppendResponse p resp) n = handle_append_response n p resp"
| "node_step (VoteResponse p resp) n = fst (handle_vote_response n p resp)"
| "node_step StartElection n = fst (start_election n)"
| "node_step (CreateSnapshot i d) n = create_snapshot n i d"
| "node_step TakeApplicable n = snd (node_take_applicable n)"
| "node_step SoloCommit n = advance_commit_if_solo n"

fun node_run :: "node_op list \<Rightarrow> RaftNode \<Rightarrow> RaftNode" where
  "node_run [] n = n"
| "node_run (x # xs) n = node_run xs (node_step x n)"

lemmas node_op_defs = handle_append_entries_def accept_entries_def reject_entries_def
  handle_request_vote_def
  handle_install_snapshot_def propose_def handle_append_response_def handle_vote_response_def
  start_election_def create_snapshot_def node_take_applicable_def advance_commit_if_solo_def
  become_leader_def set_next_index_def set_match_index_def

section \<open>Terms, votes and roles\<close>

lemma node_step_config [simp]: "rn_config (node_step x n) = rn_config n"
  by (cases x)
     (auto simp: node_op_defs Let_def case_prod_unfold split: if_splits option.splits sum.splits)

text \<open>Every method but \<open>start_election\<close>: the term never falls, and a vote stays as long as
  the term does.\<close>

lemma node_step_term:
  "x \<noteq> StartElection \<Longrightarrow> rn_current_term n \<le> rn_current_term (node_step x n)"
  by (cases x)
     (auto simp: node_op_defs Let_def case_prod_unfold split: if_splits option.splits sum.splits)

lemma node_step_vote:
  "x \<noteq> StartElection \<Longrightarrow> rn_current_term (node_step x n) = rn_current_term n
   \<Longrightarrow> rn_voted_for n = Some c \<Longrightarrow> rn_voted_for (node_step x n) = Some c"
  by (cases x)
     (auto simp: node_op_defs Let_def case_prod_unfold split: if_splits option.splits sum.splits)

lemma start_election_term:
  "rn_current_term n + 1 < 2 ^ 64 \<Longrightarrow>
   rn_current_term (node_step StartElection n) = rn_current_term n + 1"
  by (simp add: node_op_defs Let_def)

lemma start_election_vote:
  "rn_voted_for (node_step StartElection n) = Some (cf_node_id (rn_config n))"
  by (simp add: node_op_defs Let_def)

text \<open>A node is a candidate only in a term it opened itself, and becomes leader only from
  there.\<close>

lemma node_step_candidate:
  "x \<noteq> StartElection \<Longrightarrow> rn_role (node_step x n) = Candidate \<Longrightarrow>
   rn_role n = Candidate \<and> rn_current_term (node_step x n) = rn_current_term n"
  by (cases x)
     (auto simp: node_op_defs Let_def case_prod_unfold split: if_splits option.splits sum.splits)

lemma node_step_leader:
  assumes "x \<noteq> StartElection" "rn_role (node_step x n) = Leader" "rn_role n \<noteq> Leader"
  obtains sender resp where "x = VoteResponse sender resp" "rn_role n = Candidate"
    "rvr_term resp \<le> rn_current_term n" "rvr_vote_granted resp"
    "rn_votes_received n + 1 \<ge> quorum n"
  using assms
  by (cases x)
     (auto simp: node_op_defs Let_def case_prod_unfold quorum_def
        split: if_splits option.splits sum.splits)

lemma node_step_leader_term:
  "x \<noteq> StartElection \<Longrightarrow> rn_role (node_step x n) = Leader \<Longrightarrow>
   rn_current_term (node_step x n) = rn_current_term n"
  by (cases x)
     (auto simp: node_op_defs Let_def case_prod_unfold split: if_splits option.splits sum.splits)

lemma node_step_votes:
  "x \<noteq> StartElection \<Longrightarrow> (\<And>p r. x \<noteq> VoteResponse p r) \<Longrightarrow>
   rn_votes_received (node_step x n) = rn_votes_received n"
  by (cases x)
     (auto simp: node_op_defs Let_def case_prod_unfold split: if_splits option.splits sum.splits)

text \<open>An election is safe from wrap-around while the term is below the last \<^verbatim>\<open>u64\<close>.\<close>

fun term_fits :: "node_op list \<Rightarrow> RaftNode \<Rightarrow> bool" where
  "term_fits [] n \<longleftrightarrow> True"
| "term_fits (x # xs) n \<longleftrightarrow>
     (x = StartElection \<longrightarrow> rn_current_term n + 1 < 2 ^ 64) \<and> term_fits xs (node_step x n)"

lemma node_step_term_fits:
  "(x = StartElection \<longrightarrow> rn_current_term n + 1 < 2 ^ 64) \<Longrightarrow>
   rn_current_term n \<le> rn_current_term (node_step x n)"
  by (cases "x = StartElection") (auto simp: start_election_term node_step_term simp del: node_step.simps)

lemma node_step_vote_fits:
  "(x = StartElection \<longrightarrow> rn_current_term n + 1 < 2 ^ 64) \<Longrightarrow>
   rn_current_term (node_step x n) = rn_current_term n \<Longrightarrow>
   rn_voted_for n = Some c \<Longrightarrow> rn_voted_for (node_step x n) = Some c"
  by (cases "x = StartElection")
     (auto simp: start_election_term node_step_vote simp del: node_step.simps)

lemma node_run_term: "term_fits xs n \<Longrightarrow> rn_current_term n \<le> rn_current_term (node_run xs n)"
proof (induction xs arbitrary: n)
  case (Cons x xs)
  have "rn_current_term n \<le> rn_current_term (node_step x n)"
    using Cons.prems by (simp add: node_step_term_fits del: node_step.simps)
  also have "\<dots> \<le> rn_current_term (node_run xs (node_step x n))"
    using Cons by simp
  finally show ?case by simp
qed simp

lemma node_run_vote:
  assumes "term_fits xs n" "rn_voted_for n = Some c"
    and "rn_current_term (node_run xs n) = rn_current_term n"
  shows "rn_voted_for (node_run xs n) = Some c"
  using assms
proof (induction xs arbitrary: n)
  case Nil
  then show ?case by simp
next
  case (Cons x xs)
  let ?m = "node_step x n"
  have fits: "term_fits xs ?m" "x = StartElection \<longrightarrow> rn_current_term n + 1 < 2 ^ 64"
    using Cons.prems by simp_all
  have same: "rn_current_term ?m = rn_current_term n"
    using node_step_term_fits [OF fits(2)] node_run_term [OF fits(1)] Cons.prems(3) by simp
  have "rn_voted_for ?m = Some c"
    using fits(2) same Cons.prems(2) by (rule node_step_vote_fits)
  moreover have "rn_current_term (node_run xs ?m) = rn_current_term ?m"
    using same Cons.prems(3) by simp
  ultimately show ?case
    using Cons.IH [OF fits(1)] by simp
qed

section \<open>What AppendEntries does to a follower's log\<close>

text \<open>
  \<open>logs_match\<close> is Raft's log matching property for one pair of logs: entries with the same
  index and term head equal prefixes. \<open>uncompacted\<close> restricts to logs that still start at
  the sentinel of \<open>RaftLog::new\<close>.
\<close>

definition logs_match :: "RaftLog \<Rightarrow> RaftLog \<Rightarrow> bool" where
  "logs_match a b \<longleftrightarrow>
     (\<forall>i e f. log_get a i = Some e \<longrightarrow> log_get b i = Some f \<longrightarrow> le_term e = le_term f \<longrightarrow>
        (\<forall>k \<le> i. log_get a k = log_get b k))"

definition uncompacted :: "RaftLog \<Rightarrow> bool" where
  "uncompacted l \<longleftrightarrow> log_inv l \<and> rl_base_index l = 0 \<and>
     log_get l 0 = Some \<lparr>le_term = 0, le_index = 0, le_data = []\<rparr>"

definition agree_upto :: "nat \<Rightarrow> RaftLog \<Rightarrow> RaftLog \<Rightarrow> bool" where
  "agree_upto i a b \<longleftrightarrow> (\<forall>k < i. log_get a k = log_get b k)"

lemma uncompactedD:
  assumes "uncompacted l"
  shows uncompacted_inv: "log_inv l" and uncompacted_base: "rl_base_index l = 0"
    and uncompacted_sentinel: "log_get l 0 = Some \<lparr>le_term = 0, le_index = 0, le_data = []\<rparr>"
  using assms by (auto simp: uncompacted_def)

lemma log_get_None_iff:
  "uncompacted l \<Longrightarrow> log_get l i = None \<longleftrightarrow> log_last_index l < i"
  using log_get_Some_iff [OF uncompacted_inv, of l i] uncompacted_base [of l]
  by (cases "log_get l i") auto

lemma uncompacted_append:
  "uncompacted l \<Longrightarrow> log_last_index l + 2 < 2 ^ 64 \<Longrightarrow> uncompacted (fst (log_append l t d))"
  by (auto simp: uncompacted_def log_inv_append log_get_append)
     (simp add: log_append_def Let_def)

lemma uncompacted_truncate: "uncompacted l \<Longrightarrow> uncompacted (truncate_after l i)"
  by (auto simp: uncompacted_def log_inv_truncate log_get_truncate)
     (simp add: truncate_after_def Let_def)

lemma uncompacted_advance: "uncompacted l \<Longrightarrow> uncompacted (advance_commit l i)"
  by (auto simp: uncompacted_def log_inv_advance) (simp add: advance_commit_def)

lemma uncompacted_new: "uncompacted log_new"
  by (simp add: uncompacted_def log_inv_new) (simp add: log_new_def log_get_def)

lemma agree_matches:
  assumes "agree_upto (Suc i) a b" "log_last_index a \<le> i" "uncompacted a"
  shows "logs_match a b"
  unfolding logs_match_def
proof (intro allI impI)
  fix j e f k
  assume e: "log_get a j = Some e" and k: "k \<le> j"
  have "j \<le> log_last_index a"
    using e log_get_None_iff [OF assms(3), of j] by (cases "log_last_index a < j") auto
  with assms(2) k have "k < Suc i" by simp
  with assms(1) show "log_get a k = log_get b k"
    by (simp add: agree_upto_def)
qed

text \<open>Appending the leader's entry \<open>i\<close> to a log that agrees below \<open>i\<close> and ends there.\<close>

lemma append_at_end:
  assumes l: "uncompacted l" and L: "uncompacted L"
    and e: "log_get L i = Some e" and last: "log_last_index l + 1 = i"
    and agree: "agree_upto i l L" and room: "i + 1 < 2 ^ 64"
  defines "l' \<equiv> fst (log_append l (le_term e) (le_data e))"
  shows "uncompacted l' \<and> agree_upto (Suc i) l' L \<and> logs_match l' L"
proof -
  have unc: "uncompacted l'"
    using l last room by (simp add: l'_def uncompacted_append)
  have "le_index e = i"
    using log_get_index [OF uncompacted_inv [OF L] e] .
  then have ee: "e = \<lparr>le_term = le_term e, le_index = i, le_data = le_data e\<rparr>"
    by simp
  have get: "log_get l' k = (if k = i then Some e else log_get l k)" for k
    using log_get_append [OF uncompacted_inv [OF l], of "le_term e" "le_data e" k] last ee
    by (simp add: l'_def)
  have ag: "agree_upto (Suc i) l' L"
    using agree e by (auto simp: agree_upto_def get less_Suc_eq)
  have "log_last_index l' \<le> i"
    using log_get_None_iff [OF unc, of "Suc i"] log_get_None_iff [OF l, of "Suc i"] last get
    by (cases "log_last_index l' < Suc i") auto
  with ag unc show ?thesis
    using agree_matches by blast
qed

lemma append_entry_agrees:
  assumes l: "uncompacted l" and L: "uncompacted L" and match: "logs_match l L"
    and i: "0 < i" and e: "log_get L i = Some e"
    and agree: "agree_upto i l L" and room: "i + 1 < 2 ^ 64"
  shows "uncompacted (append_entry l e) \<and> agree_upto (Suc i) (append_entry l e) L \<and>
    logs_match (append_entry l e) L"
proof -
  have idx: "le_index e = i"
    using log_get_index [OF uncompacted_inv [OF L] e] .
  have "log_get L (i - 1) \<noteq> None"
    using e log_get_None_iff [OF L] by (metis diff_le_self leD le_less_trans option.distinct(1) not_le)
  then have "log_get l (i - 1) \<noteq> None"
    using agree i by (simp add: agree_upto_def)
  then have last: "i \<le> log_last_index l + 1"
    using log_get_None_iff [OF l, of "i - 1"] by auto
  show ?thesis
  proof (cases "log_get l i")
    case None
    then have "log_last_index l + 1 = i"
      using last log_get_None_iff [OF l, of i] by simp
    from append_at_end [OF l L e this agree room] None idx show ?thesis
      by (simp add: append_entry_def)
  next
    case (Some x)
    show ?thesis
    proof (cases "le_term x = le_term e")
      case True
      then have "agree_upto (Suc i) l L"
        using match Some e by (auto simp: logs_match_def agree_upto_def)
      with l match Some True idx show ?thesis
        by (simp add: append_entry_def)
    next
      case False
      let ?t = "truncate_after l (i - 1)"
      have base: "rl_base_index l \<le> i - 1"
        using uncompacted_base [OF l] by simp
      have t: "uncompacted ?t"
        using l by (rule uncompacted_truncate)
      have "log_last_index ?t + 1 = i"
        using log_last_truncate [OF uncompacted_inv [OF l] base] last i by simp
      moreover have "agree_upto i ?t L"
        using agree i log_get_truncate [OF uncompacted_inv [OF l] base]
        by (auto simp: agree_upto_def)
      ultimately show ?thesis
        using append_at_end [OF t L e _ _ room] False Some idx
        by (simp add: append_entry_def)
    qed
  qed
qed

lemma append_entries_agree:
  assumes L: "uncompacted L" and room: "log_last_index L + 1 < 2 ^ 64"
    and "uncompacted l" "logs_match l L" "agree_upto i l L" "0 < i"
    and "i \<le> log_last_index L + 1"
  shows "uncompacted (foldl append_entry l (drop i (rl_entries L))) \<and>
    agree_upto (Suc (log_last_index L)) (foldl append_entry l (drop i (rl_entries L))) L \<and>
    logs_match (foldl append_entry l (drop i (rl_entries L))) L"
  using assms(3-7)
proof (induction "Suc (log_last_index L) - i" arbitrary: i l)
  case 0
  then have i: "i = Suc (log_last_index L)" by simp
  have "length (rl_entries L) \<le> i"
    using i length_entries_eq [OF uncompacted_inv [OF L]] by simp
  with i 0 show ?case by simp
next
  case (Suc m)
  have len: "length (rl_entries L) = Suc (log_last_index L)"
    using length_entries_eq [OF uncompacted_inv [OF L]] uncompacted_base [OF L] by simp
  have lt: "i < length (rl_entries L)"
    using Suc.hyps(2) len by simp
  let ?e = "rl_entries L ! i"
  have e: "log_get L i = Some ?e"
    using lt uncompacted_base [OF L] by (simp add: log_get_def)
  have drop: "drop i (rl_entries L) = ?e # drop (Suc i) (rl_entries L)"
    using lt by (simp add: Cons_nth_drop_Suc)
  have "i + 1 < 2 ^ 64"
    using lt len room by simp
  note step = append_entry_agrees [OF Suc.prems(1) L Suc.prems(2,4) e Suc.prems(3) this]
  have "m = Suc (log_last_index L) - Suc i" "Suc i \<le> log_last_index L + 1"
    using Suc.hyps(2) lt len by simp_all
  from Suc.hyps(1) [OF this(1)] step this(2) show ?case
    by (simp add: drop)
qed

section \<open>Replication to one follower\<close>

text \<open>The hypotheses under which a leader replicates to a follower: log matching between the
  two logs, no compaction, the follower's term not ahead, and \<open>next_index\<close> in range.\<close>

definition replication_ready :: "RaftNode \<Rightarrow> RaftNode \<Rightarrow> nat \<Rightarrow> bool" where
  "replication_ready ld f p \<longleftrightarrow>
     rn_role ld = Leader \<and> uncompacted (rn_log ld) \<and> uncompacted (rn_log f) \<and>
     logs_match (rn_log f) (rn_log ld) \<and> rn_current_term f \<le> rn_current_term ld \<and>
     1 \<le> next_index_for ld p \<and> next_index_for ld p \<le> log_last_index (rn_log ld) + 1 \<and>
     log_last_index (rn_log ld) + 1 < 2 ^ 64"

lemma logs_match_truncate:
  assumes "uncompacted a" "logs_match a b"
  shows "logs_match (truncate_after a i) b"
  using assms log_get_truncate [OF uncompacted_inv [OF assms(1)], of i] uncompacted_base [OF assms(1)]
  by (auto simp: logs_match_def)

lemma logs_match_advance [simp]:
  "logs_match (advance_commit a i) b = logs_match a b"
  "logs_match a (advance_commit b i) = logs_match a b"
  by (simp_all add: logs_match_def)

lemma agree_upto_advance [simp]:
  "agree_upto k (advance_commit a i) b = agree_upto k a b"
  "agree_upto k a (advance_commit b i) = agree_upto k a b"
  by (simp_all add: agree_upto_def)

lemma prev_agrees:
  assumes f: "uncompacted lf" and L: "uncompacted L" and match: "logs_match lf L"
    and nxt: "1 \<le> nxt" "nxt \<le> log_last_index L + 1"
    and e: "log_get lf (nxt - 1) = Some e"
    and t: "le_term e = (case log_get L (nxt - 1) of Some x \<Rightarrow> le_term x | None \<Rightarrow> 0)"
  shows "agree_upto nxt lf L"
proof -
  have "\<not> log_last_index L < nxt - 1"
    using nxt by simp
  then obtain x where x: "log_get L (nxt - 1) = Some x"
    using log_get_None_iff [OF L, of "nxt - 1"] by (cases "log_get L (nxt - 1)") auto
  with t have "le_term e = le_term x" by simp
  with match e x have "\<forall>k \<le> nxt - 1. log_get lf k = log_get L k"
    unfolding logs_match_def by blast
  with nxt(1) show ?thesis
    by (auto simp: agree_upto_def)
qed

lemma heartbeat_req_entries:
  "uncompacted (rn_log ld) \<Longrightarrow> ae_entries (heartbeat_req ld p) =
     drop (next_index_for ld p) (rl_entries (rn_log ld))"
  by (simp add: heartbeat_req_def Let_def entries_from_eq uncompacted_base)

lemma heartbeat_req_simps [simp]:
  "ae_term (heartbeat_req ld p) = rn_current_term ld"
  "ae_prev_log_index (heartbeat_req ld p) = next_index_for ld p - 1"
  "ae_prev_log_term (heartbeat_req ld p) =
     (case log_get (rn_log ld) (next_index_for ld p - 1) of Some e \<Rightarrow> le_term e | None \<Rightarrow> 0)"
  "ae_leader_commit (heartbeat_req ld p) = rn_commit_index ld"
  by (simp_all add: heartbeat_req_def Let_def)

lemma reject_entries_simps [simp]:
  "fst (reject_entries n) = n" "\<not> aer_success (snd (reject_entries n))"
  "aer_term (snd (reject_entries n)) = rn_current_term n"
  "aer_match_index (snd (reject_entries n)) = log_last_index (rn_log n)"
  by (simp_all add: reject_entries_def)

lemma accept_entries_simps [simp]:
  "aer_success (snd (accept_entries n req))"
  "rn_current_term (fst (accept_entries n req)) = rn_current_term n"
  "aer_term (snd (accept_entries n req)) = rn_current_term n"
  "aer_match_index (snd (accept_entries n req)) = log_last_index (rn_log (fst (accept_entries n req)))"
  by (simp_all add: accept_entries_def Let_def)

lemma accept_entries_log:
  "rn_log (fst (accept_entries n req)) = foldl append_entry (rn_log n) (ae_entries req) \<or>
   (\<exists>c. rn_log (fst (accept_entries n req)) =
        advance_commit (foldl append_entry (rn_log n) (ae_entries req)) c)"
  by (auto simp: accept_entries_def Let_def)

lemma accept_entries_sync:
  assumes L: "uncompacted L" "log_last_index L + 1 < 2 ^ 64"
    and n: "uncompacted (rn_log n)" "logs_match (rn_log n) L" "agree_upto i (rn_log n) L"
    and i: "0 < i" "i \<le> log_last_index L + 1" "ae_entries req = drop i (rl_entries L)"
  shows "uncompacted (rn_log (fst (accept_entries n req))) \<and>
    logs_match (rn_log (fst (accept_entries n req))) L \<and>
    agree_upto (Suc (log_last_index L)) (rn_log (fst (accept_entries n req))) L"
  using append_entries_agree [OF L n i(1,2)] accept_entries_log [of n req] i(3)
  by (auto simp: uncompacted_advance)

lemma handle_append_entries_sync:
  assumes "replication_ready ld f p"
    and h: "handle_append_entries f (heartbeat_req ld p) = (f', resp)"
  shows "uncompacted (rn_log f') \<and> logs_match (rn_log f') (rn_log ld) \<and>
    rn_current_term f' = rn_current_term ld \<and> aer_term resp = rn_current_term ld \<and>
    aer_match_index resp = log_last_index (rn_log f') \<and>
    (aer_success resp \<longrightarrow> agree_upto (Suc (log_last_index (rn_log ld))) (rn_log f') (rn_log ld)) \<and>
    (next_index_for ld p = 1 \<longrightarrow> aer_success resp)"
proof -
  let ?nxt = "next_index_for ld p" and ?L = "rn_log ld" and ?F = "rn_log f"
  let ?req = "heartbeat_req ld p"
  note R = assms(1) [unfolded replication_ready_def]
  have L: "uncompacted ?L" and F: "uncompacted ?F" and m: "logs_match ?F ?L"
    and nxt: "0 < ?nxt" "?nxt \<le> log_last_index ?L + 1" and room: "log_last_index ?L + 1 < 2 ^ 64"
    and tle: "rn_current_term f \<le> rn_current_term ld"
    using R by auto
  define n2 where "n2 = (if rn_current_term ld > rn_current_term f
      then f\<lparr>rn_current_term := rn_current_term ld, rn_voted_for := None\<rparr> else f)\<lparr>rn_role := Follower\<rparr>"
  have n2: "rn_log n2 = ?F" "rn_current_term n2 = rn_current_term ld"
    using tle by (auto simp: n2_def)
  have zero: "agree_upto 1 ?F ?L"
    using uncompacted_sentinel [OF F] uncompacted_sentinel [OF L] by (simp add: agree_upto_def)
  have accepted: ?thesis if "agree_upto ?nxt ?F ?L" "(f', resp) = accept_entries n2 ?req"
  proof -
    have "f' = fst (accept_entries n2 ?req)" "resp = snd (accept_entries n2 ?req)"
      using that(2) by (metis fst_conv, metis snd_conv)
    then show ?thesis
      using accept_entries_sync [OF L room, of n2 ?nxt ?req] F m that(1) nxt n2
        heartbeat_req_entries [OF L] by simp
  qed
  have rejected: ?thesis if "(f', resp) = reject_entries n3" "rn_current_term n3 = rn_current_term ld"
    "uncompacted (rn_log n3)" "logs_match (rn_log n3) ?L" "?nxt \<noteq> 1" for n3
  proof -
    have "f' = n3" "resp = snd (reject_entries n3)"
      using that(1) by (simp_all add: reject_entries_def)
    then show ?thesis
      using that by simp
  qed
  have h': "(f', resp) = (if ?nxt - 1 > 0
      then (case log_get ?F (?nxt - 1) of
              None \<Rightarrow> reject_entries n2
            | Some e \<Rightarrow> if le_term e \<noteq> ae_prev_log_term ?req
                then reject_entries (n2\<lparr>rn_log := truncate_after ?F (?nxt - 1 - 1)\<rparr>)
                else accept_entries n2 ?req)
      else accept_entries n2 ?req)"
    using h tle n2(1)
    by (simp only: handle_append_entries_def heartbeat_req_simps Let_def n2_def [symmetric]
        not_less if_not_P split: if_split)
  show ?thesis
  proof (cases "?nxt - 1 > 0")
    case False
    then have "?nxt = 1" using nxt by simp
    with False h' zero show ?thesis by (intro accepted) simp_all
  next
    case True
    show ?thesis
    proof (cases "log_get ?F (?nxt - 1)")
      case None
      with True h' show ?thesis by (intro rejected [of n2]) (simp_all add: n2 F m)
    next
      case (Some e)
      show ?thesis
      proof (cases "le_term e = ae_prev_log_term ?req")
        case eq: True
        have "agree_upto ?nxt ?F ?L"
          using prev_agrees [OF F L m _ nxt(2) Some] nxt(1) eq by simp
        with True Some eq h' show ?thesis by (intro accepted) simp_all
      next
        case neq: False
        with True Some h' show ?thesis
          by (intro rejected [of "n2\<lparr>rn_log := truncate_after ?F (?nxt - 1 - 1)\<rparr>"])
             (simp_all add: n2 uncompacted_truncate [OF F] logs_match_truncate [OF F m])
      qed
    qed
  qed
qed

subsection \<open>The leader's side\<close>

lemma set_first_find:
  "(case find (\<lambda>(q, _). q = p) (set_first p v xs) of Some (_, i) \<Rightarrow> i | None \<Rightarrow> 1) =
   (if p \<in> fst ` set xs then v else 1)"
  by (induction p v xs rule: set_first.induct) auto

lemma next_index_for_set [simp]:
  "next_index_for (set_next_index n p i) p = (if p \<in> fst ` set (rn_next_index n) then i else 1)"
  by (simp add: next_index_for_def set_next_index_def set_first_find)

lemma append_response_next:
  assumes "rn_role ld = Leader" "aer_term resp \<le> rn_current_term ld" "\<not> aer_success resp"
    and "1 < next_index_for ld p"
  shows "1 \<le> next_index_for (handle_append_response ld p resp) p \<and>
    next_index_for (handle_append_response ld p resp) p < next_index_for ld p"
  using assms by (auto simp: handle_append_response_def Let_def)

lemma append_response_frame:
  assumes "rn_role ld = Leader" "aer_term resp \<le> rn_current_term ld"
  shows "rn_role (handle_append_response ld p resp) = Leader \<and>
    rn_current_term (handle_append_response ld p resp) = rn_current_term ld \<and>
    (\<forall>i. log_get (rn_log (handle_append_response ld p resp)) i = log_get (rn_log ld) i) \<and>
    log_last_index (rn_log (handle_append_response ld p resp)) = log_last_index (rn_log ld)"
  using assms
  by (auto simp: handle_append_response_def Let_def set_next_index_def set_match_index_def
      split: option.splits)

lemma append_response_uncompacted:
  "uncompacted (rn_log ld) \<Longrightarrow> uncompacted (rn_log (handle_append_response ld p resp))"
  by (auto simp: handle_append_response_def Let_def set_next_index_def set_match_index_def
      uncompacted_advance split: option.splits)

definition replicate_round :: "nat \<Rightarrow> RaftNode \<times> RaftNode \<Rightarrow> RaftNode \<times> RaftNode" where
  \<comment> \<open>one turn of the heartbeat thread for one peer: send, handle, handle the reply\<close>
  "replicate_round p s =
     (let (ld, f) = s;
          (f', resp) = handle_append_entries f (heartbeat_req ld p)
      in (handle_append_response ld p resp, f'))"

lemma logs_match_cong:
  "(\<And>i. log_get b i = log_get b' i) \<Longrightarrow> logs_match a b = logs_match a b'"
  by (simp add: logs_match_def)

lemma replicate_round_ready:
  assumes "replication_ready ld f p"
    and h: "handle_append_entries f (heartbeat_req ld p) = (f', resp)"
    and "\<not> aer_success resp"
  shows "replication_ready (handle_append_response ld p resp) f' p \<and>
    next_index_for (handle_append_response ld p resp) p < next_index_for ld p"
proof -
  note S = handle_append_entries_sync [OF assms(1) h]
  have lead: "rn_role ld = Leader" "aer_term resp \<le> rn_current_term ld"
    using S assms(1) by (auto simp: replication_ready_def)
  have "1 < next_index_for ld p"
    using S assms(1,3) by (cases "next_index_for ld p = 1") (auto simp: replication_ready_def)
  note N = append_response_next [OF lead assms(3) this]
  note Fr = append_response_frame [OF lead, of p]
  have "logs_match (rn_log f') (rn_log (handle_append_response ld p resp))"
    using S Fr logs_match_cong [of "rn_log (handle_append_response ld p resp)" "rn_log ld"] by blast
  then show ?thesis
    using S N Fr assms(1) append_response_uncompacted [of ld p resp]
    by (auto simp: replication_ready_def)
qed

lemma replication_converges_aux:
  "replication_ready ld f p \<Longrightarrow> \<exists>k \<le> next_index_for ld p.
     agree_upto (Suc (log_last_index (rn_log ld)))
       (rn_log (snd ((replicate_round p ^^ k) (ld, f)))) (rn_log ld)"
proof (induction "next_index_for ld p" arbitrary: ld f rule: less_induct)
  case less
  obtain f' resp where h: "handle_append_entries f (heartbeat_req ld p) = (f', resp)"
    by (cases "handle_append_entries f (heartbeat_req ld p)")
  have round: "replicate_round p (ld, f) = (handle_append_response ld p resp, f')"
    using h by (simp add: replicate_round_def)
  note S = handle_append_entries_sync [OF less.prems h]
  show ?case
  proof (cases "aer_success resp")
    case True
    then show ?thesis
      using S round less.prems
      by (intro exI [of _ 1]) (simp add: replication_ready_def)
  next
    case False
    let ?ld = "handle_append_response ld p resp"
    note R = replicate_round_ready [OF less.prems h False]
    obtain k where k: "k \<le> next_index_for ?ld p"
      and ag: "agree_upto (Suc (log_last_index (rn_log ?ld)))
        (rn_log (snd ((replicate_round p ^^ k) (?ld, f')))) (rn_log ?ld)"
      using less.hyps [of ?ld f'] R by blast
    have Fr: "\<forall>i. log_get (rn_log ?ld) i = log_get (rn_log ld) i"
      "log_last_index (rn_log ?ld) = log_last_index (rn_log ld)"
      using append_response_frame [of ld resp p] S less.prems by (auto simp: replication_ready_def)
    have "(replicate_round p ^^ Suc k) (ld, f) = (replicate_round p ^^ k) (?ld, f')"
      by (simp only: funpow_Suc_right o_apply round)
    moreover have "Suc k \<le> next_index_for ld p"
      using k R by simp
    ultimately show ?thesis
      using ag Fr by (intro exI [of _ "Suc k"]) (simp add: agree_upto_def)
  qed
qed

section \<open>The commit rule\<close>

lemma find_rev_upt_Some:
  assumes "find P (rev [a ..< b]) = Some i"
  shows "a \<le> i \<and> i < b \<and> P i \<and> (\<forall>j. i < j \<longrightarrow> j < b \<longrightarrow> \<not> P j)"
  using assms
proof (induction b)
  case (Suc b)
  show ?case
  proof (cases "a \<le> b")
    case True
    then show ?thesis
      using Suc by (auto split: if_splits simp: less_Suc_eq)
  next
    case False
    then show ?thesis
      using Suc.prems by simp
  qed
qed simp

lemma append_response_commit:
  fixes p :: nat
  assumes "rn_role n = Leader" "aer_term resp \<le> rn_current_term n" "rn_commit_index n + 1 < 2 ^ 64"
  defines "n' \<equiv> handle_append_response n p resp"
  shows "rn_commit_index n' = rn_commit_index n \<or>
    rn_commit_index n < rn_commit_index n' \<and>
    rn_commit_index n' \<le> log_last_index (rn_log n') \<and>
    committable n' (rn_commit_index n') \<and>
    (\<forall>j. rn_commit_index n' < j \<longrightarrow> j \<le> log_last_index (rn_log n') \<longrightarrow> \<not> committable n' j)"
proof -
  define m where "m = set_next_index (set_match_index n p (aer_match_index resp)) p
    (u64_add (aer_match_index resp) 1)"
  have m: "rn_commit_index m = rn_commit_index n" "rn_log m = rn_log n"
    by (simp_all add: m_def set_next_index_def set_match_index_def)
  let ?c = "find (committable m) (rev [u64_add (rn_commit_index m) 1 ..< Suc (log_last_index (rn_log m))])"
  show ?thesis
  proof (cases "aer_success resp")
    case False
    then show ?thesis
      using assms by (auto simp: handle_append_response_def Let_def set_next_index_def)
  next
    case True
    then have n': "n' = (case ?c of
        Some i \<Rightarrow> m\<lparr>rn_commit_index := i, rn_log := advance_commit (rn_log m) i\<rparr> | None \<Rightarrow> m)"
      using assms(1,2) unfolding n'_def handle_append_response_def Let_def m_def by simp
    show ?thesis
    proof (cases ?c)
      case None
      then show ?thesis
        using n' m by simp
    next
      case (Some i)
      have "rn_commit_index n + 1 \<le> i \<and> i < Suc (log_last_index (rn_log m)) \<and> committable m i \<and>
          (\<forall>j. i < j \<longrightarrow> j < Suc (log_last_index (rn_log m)) \<longrightarrow> \<not> committable m j)"
        using find_rev_upt_Some [OF Some] assms(3) m by simp
      moreover have "committable n' j = committable m j" for j
        using n' Some by (simp add: committable_def matched_count_def quorum_def)
      ultimately show ?thesis
        using n' Some m by auto
    qed
  qed
qed

text \<open>The members of the cluster, and the ones known to hold the log up to an index: the leader itself and the
  peers whose match index has reached it. The table of match indices has one row per peer.\<close>

definition members :: "RaftNode \<Rightarrow> nat set" where
  "members n = insert (cf_node_id (rn_config n)) (set (rn_peers n))"

definition holders :: "RaftNode \<Rightarrow> nat \<Rightarrow> nat set" where
  "holders n i = insert (cf_node_id (rn_config n)) (fst ` set (filter (\<lambda>(p, m). i \<le> m) (rn_match_index n)))"

definition own_entry :: "RaftNode \<Rightarrow> nat \<Rightarrow> bool" where
  "own_entry n i \<longleftrightarrow> (case log_get (rn_log n) i of Some e \<Rightarrow> le_term e = rn_current_term n | None \<Rightarrow> False)"

lemma map_fst_set_first [simp]: "map fst (set_first p v xs) = map fst xs"
  by (induction p v xs rule: set_first.induct) simp_all

lemma set_first_mem: "(q, w) \<in> set (set_first p v xs) \<Longrightarrow> (q, w) = (p, v) \<or> (q, w) \<in> set xs"
  by (induction p v xs rule: set_first.induct) (auto split: if_splits)

lemma node_step_match_peers [simp]: "map fst (rn_match_index (node_step x n)) = map fst (rn_match_index n)"
  by (cases x)
     (auto simp: node_op_defs Let_def case_prod_unfold comp_def split: if_splits option.splits sum.splits)

lemma node_step_match:
  "(p, m) \<in> set (rn_match_index (node_step x n)) \<Longrightarrow> m = 0 \<or> (p, m) \<in> set (rn_match_index n) \<or>
     (\<exists>r. x = AppendResponse p r \<and> aer_success r \<and> aer_match_index r = m)"
  by (cases x)
     (auto simp: node_op_defs Let_def case_prod_unfold dest: set_first_mem split: if_splits option.splits sum.splits)

lemma node_run_snoc: "node_run (xs @ [x]) n = node_step x (node_run xs n)"
  by (induction xs arbitrary: n) simp_all

lemma node_run_table:
  "rn_config (node_run xs (node_new c)) = c \<and> map fst (rn_match_index (node_run xs (node_new c))) = cf_peers c"
proof (induction xs rule: rev_induct)
  case Nil
  then show ?case by (simp add: node_new_def comp_def)
next
  case (snoc x xs)
  then show ?case by (simp add: node_run_snoc del: node_step.simps)
qed

lemma node_run_match:
  "(p, m) \<in> set (rn_match_index (node_run xs (node_new c))) \<Longrightarrow> 0 < m \<Longrightarrow>
     \<exists>r. AppendResponse p r \<in> set xs \<and> aer_success r \<and> aer_match_index r = m"
proof (induction xs rule: rev_induct)
  case Nil
  then show ?case by (auto simp: node_new_def)
next
  case (snoc x xs)
  then show ?case using node_step_match [of p m x "node_run xs (node_new c)"] by (auto simp: node_run_snoc simp del: node_step.simps)
qed

lemma committable_iff:
  assumes "distinct (cf_node_id (rn_config n) # rn_peers n)" "map fst (rn_match_index n) = rn_peers n"
    and "0 < rn_current_term n"
  shows "committable n i \<longleftrightarrow> own_entry n i \<and> card (members n) < 2 * card (holders n i)"
proof -
  let ?f = "filter (\<lambda>(p, m). i \<le> m) (rn_match_index n)"
  have sub: "set (map fst ?f) \<subseteq> set (rn_peers n)" unfolding assms(2) [symmetric] by auto
  have "distinct (map fst (rn_match_index n))" using assms(1,2) by simp
  then have d: "distinct (map fst ?f)" by (rule distinct_map_filter)
  have "card (set (map fst ?f)) = length ?f" using distinct_card [OF d] by simp
  moreover have "cf_node_id (rn_config n) \<notin> set (map fst ?f)" using sub assms(1) by auto
  ultimately have h: "card (holders n i) = matched_count n i" by (simp add: holders_def matched_count_def)
  have m: "card (members n) = length (rn_peers n) + 1" using assms(1) by (simp add: members_def distinct_card)
  have "length (rn_peers n) + 1 < 2 * k \<longleftrightarrow> quorum n \<le> k" for k unfolding quorum_def by presburger
  then show ?thesis
    using assms(3) h m by (auto simp: committable_def own_entry_def split: option.splits)
qed

text \<open>While a node stays leader, its commit index moves only on an answer to AppendEntries and, in a cluster of
  one node, on \<open>advance_commit_if_solo\<close>.\<close>

lemma leader_commit_cases:
  assumes "rn_role n = Leader" "rn_role (node_step x n) = Leader" "rn_commit_index (node_step x n) \<noteq> rn_commit_index n"
  obtains (answer) p resp where "x = AppendResponse p resp" "aer_term resp \<le> rn_current_term n"
    "node_step x n = handle_append_response n p resp"
  | (solo) "rn_peers n = []" "rn_commit_index n < rn_commit_index (node_step x n)"
    "rn_commit_index (node_step x n) = log_last_index (rn_log n)" "log_last_index (rn_log (node_step x n)) = log_last_index (rn_log n)"
proof (cases x)
  case (AppendResponse p resp)
  then show ?thesis using answer [of p resp] assms by (auto simp: handle_append_response_def split: if_splits)
next
  case SoloCommit
  then show ?thesis using solo assms by (auto simp: advance_commit_if_solo_def Let_def split: if_splits)
qed (use assms in \<open>auto simp: node_op_defs Let_def case_prod_unfold split: if_splits option.splits sum.splits\<close>)

section \<open>Properties\<close>

text \<open>C17. Terms only grow, and a node votes for at most one candidate in a term: along any
  sequence of calls, as long as the term is the same, the vote cast in it is the same.\<close>

theorem one_vote_per_term:
  assumes "term_fits xs n" "rn_voted_for n = Some c"
  shows "rn_current_term n \<le> rn_current_term (node_run xs n) \<and>
    (rn_current_term (node_run xs n) = rn_current_term n \<longrightarrow>
     rn_voted_for (node_run xs n) = Some c)"
  using node_run_term [OF assms(1)] node_run_vote [OF assms] by blast

abbreviation config3 :: "nat \<Rightarrow> nat list \<Rightarrow> RaftConfig" where
  "config3 i ps \<equiv> \<lparr>cf_node_id = i, cf_peers = ps, cf_election_timeout_min_ms = 150,
     cf_election_timeout_max_ms = 300, cf_heartbeat_interval_ms = 50\<rparr>"

theorem one_vote_per_term_witness:
  "rn_voted_for (node_run
     [RequestVote \<lparr>rv_term = 1, rv_candidate_id = 2, rv_last_log_index = 0, rv_last_log_term = 0\<rparr>,
      RequestVote \<lparr>rv_term = 1, rv_candidate_id = 3, rv_last_log_index = 5, rv_last_log_term = 1\<rparr>]
     ((node_new (config3 1 [2, 3]))\<lparr>rn_current_term := 1, rn_voted_for := Some 2\<rparr>)) = Some 2"
proof -
  let ?n = "(node_new (config3 1 [2, 3]))\<lparr>rn_current_term := 1, rn_voted_for := Some 2\<rparr>"
  let ?xs = "[RequestVote \<lparr>rv_term = 1, rv_candidate_id = 2, rv_last_log_index = 0,
      rv_last_log_term = 0\<rparr>, RequestVote \<lparr>rv_term = 1, rv_candidate_id = 3,
      rv_last_log_index = 5, rv_last_log_term = 1\<rparr>]"
  have "rn_current_term (node_run ?xs ?n) = rn_current_term ?n"
    by code_simp
  then show ?thesis
    using one_vote_per_term [of ?xs ?n 2] by simp
qed

text \<open>C9. A follower and a leader with uncompacted logs that satisfy log matching, the follower's term not
  newer and \<open>next_index\<close> in range: when the follower accepts the leader's AppendEntries, its log afterwards equals
  the leader's at every index of the leader's log; a rejected request keeps log matching.\<close>

theorem append_entries_replicates:
  assumes "replication_ready ld f p"
    and "handle_append_entries f (heartbeat_req ld p) = (f', resp)"
  shows "logs_match (rn_log f') (rn_log ld) \<and> aer_term resp = rn_current_term ld \<and>
    aer_match_index resp = log_last_index (rn_log f') \<and>
    (aer_success resp \<longrightarrow>
      (\<forall>k \<le> log_last_index (rn_log ld). log_get (rn_log f') k = log_get (rn_log ld) k))"
  using handle_append_entries_sync [OF assms] by (auto simp: agree_upto_def)

text \<open>A leader of term 3 with one entry, and a follower that led term 2 and holds one more
  entry of its own.\<close>

definition ex_leader_ops :: "node_op list" where
  "ex_leader_ops =
     [AppendEntries \<lparr>ae_term = 1, ae_leader_id = 3, ae_prev_log_index = 0, ae_prev_log_term = 0,
        ae_entries = [\<lparr>le_term = 1, le_index = 1, le_data = [65]\<rparr>], ae_leader_commit = 0\<rparr>,
      RequestVote \<lparr>rv_term = 2, rv_candidate_id = 2, rv_last_log_index = 1, rv_last_log_term = 1\<rparr>,
      StartElection,
      VoteResponse 3 \<lparr>rvr_term = 3, rvr_vote_granted = True\<rparr>]"

definition ex_leader :: RaftNode where
  "ex_leader = node_run ex_leader_ops (node_new (config3 1 [2, 3]))"

definition ex_follower :: RaftNode where
  "ex_follower = node_run
     [AppendEntries \<lparr>ae_term = 1, ae_leader_id = 3, ae_prev_log_index = 0, ae_prev_log_term = 0,
        ae_entries = [\<lparr>le_term = 1, le_index = 1, le_data = [65]\<rparr>], ae_leader_commit = 0\<rparr>,
      StartElection,
      VoteResponse 1 \<lparr>rvr_term = 2, rvr_vote_granted = True\<rparr>,
      Propose [66]]
     (node_new (config3 2 [1, 3]))"

lemma ex_leader_eq:
  "ex_leader = \<lparr>rn_config = config3 1 [2, 3], rn_role = Leader, rn_current_term = 3,
     rn_voted_for = Some 1,
     rn_log = \<lparr>rl_entries = [\<lparr>le_term = 0, le_index = 0, le_data = []\<rparr>,
                             \<lparr>le_term = 1, le_index = 1, le_data = [65]\<rparr>],
               rl_commit_index = 0, rl_last_applied = 0, rl_snapshot = None, rl_base_index = 0\<rparr>,
     rn_commit_index = 0, rn_last_applied = 0, rn_next_index = [(2, 2), (3, 2)],
     rn_match_index = [(2, 0), (3, 0)], rn_votes_received = 2\<rparr>"
  by code_simp

lemma ex_follower_eq:
  "ex_follower = \<lparr>rn_config = config3 2 [1, 3], rn_role = Leader, rn_current_term = 2,
     rn_voted_for = Some 2,
     rn_log = \<lparr>rl_entries = [\<lparr>le_term = 0, le_index = 0, le_data = []\<rparr>,
                             \<lparr>le_term = 1, le_index = 1, le_data = [65]\<rparr>,
                             \<lparr>le_term = 2, le_index = 2, le_data = [66]\<rparr>],
               rl_commit_index = 0, rl_last_applied = 0, rl_snapshot = None, rl_base_index = 0\<rparr>,
     rn_commit_index = 0, rn_last_applied = 0, rn_next_index = [(1, 2), (3, 2)],
     rn_match_index = [(1, 0), (3, 0)], rn_votes_received = 2\<rparr>"
  by code_simp

lemma logs_match_by_index:
  assumes "uncompacted a"
    and "\<forall>i \<in> set [0 ..< Suc (log_last_index a)]. \<forall>e f. log_get a i = Some e \<longrightarrow>
           log_get b i = Some f \<longrightarrow> le_term e = le_term f \<longrightarrow>
           (\<forall>k \<in> set [0 ..< Suc i]. log_get a k = log_get b k)"
  shows "logs_match a b"
  unfolding logs_match_def
proof (intro allI impI)
  fix i e f k
  assume *: "log_get a i = Some e" "log_get b i = Some f" "le_term e = le_term f" "k \<le> i"
  have "i < Suc (log_last_index a)"
    using *(1) log_get_None_iff [OF assms(1), of i] by (cases "log_last_index a < i") auto
  then have "i \<in> set [0 ..< Suc (log_last_index a)]" "k \<in> set [0 ..< Suc i]"
    using *(4) by auto
  with assms(2) * show "log_get a k = log_get b k" by blast
qed

lemma ex_logs_uncompacted: "uncompacted (rn_log ex_leader)" "uncompacted (rn_log ex_follower)"
  by (simp_all add: ex_leader_eq ex_follower_eq uncompacted_def log_inv_def log_get_def
      less_Suc_eq)

lemma ex_replication_ready: "replication_ready ex_leader ex_follower 2"
proof -
  have "logs_match (rn_log ex_follower) (rn_log ex_leader)"
    by (rule logs_match_by_index [OF ex_logs_uncompacted(2)])
       (simp add: ex_leader_eq ex_follower_eq log_get_def log_last_index_def u64_add_def)
  then show ?thesis
    using ex_logs_uncompacted
    by (simp add: replication_ready_def)
       (simp add: ex_leader_eq ex_follower_eq next_index_for_def log_last_index_def u64_add_def)
qed

theorem append_entries_replicates_witness:
  "aer_success (snd (handle_append_entries ex_follower (heartbeat_req ex_leader 2))) \<and>
   log_get (rn_log (fst (handle_append_entries ex_follower (heartbeat_req ex_leader 2)))) 1 =
   log_get (rn_log ex_leader) 1"
proof -
  obtain f' resp where h: "handle_append_entries ex_follower (heartbeat_req ex_leader 2) = (f', resp)"
    by (cases "handle_append_entries ex_follower (heartbeat_req ex_leader 2)")
  have s: "aer_success (snd (handle_append_entries ex_follower (heartbeat_req ex_leader 2)))"
    by code_simp
  have last: "1 \<le> log_last_index (rn_log ex_leader)"
    by (simp add: ex_leader_eq log_last_index_def u64_add_def)
  show ?thesis
    using append_entries_replicates [OF ex_replication_ready h] s h last by simp
qed

text \<open>C5. Replication to a follower terminates and succeeds: from a leader and a follower with uncompacted logs
  that satisfy log matching, the follower's term not newer and \<open>next_index\<close> in range, at most \<open>next_index\<close> heartbeat
  rounds (each rejection lowers \<open>next_index\<close>) make the follower hold the leader's entry at every index of the
  leader's log. Entries of the follower beyond the leader's last index may remain.\<close>

theorem replication_converges:
  assumes "replication_ready ld f p"
  shows "\<exists>k \<le> next_index_for ld p. \<forall>i \<le> log_last_index (rn_log ld).
    log_get (rn_log (snd ((replicate_round p ^^ k) (ld, f)))) i = log_get (rn_log ld) i"
  using replication_converges_aux [OF assms] by (simp add: agree_upto_def less_Suc_eq_le)

theorem replication_converges_witness:
  "\<exists>k \<le> 2. \<forall>i \<le> log_last_index (rn_log ex_leader).
    log_get (rn_log (snd ((replicate_round 2 ^^ k) (ex_leader, ex_follower)))) i =
    log_get (rn_log ex_leader) i"
proof -
  have "next_index_for ex_leader 2 = 2"
    by (simp add: ex_leader_eq next_index_for_def)
  then show ?thesis
    using replication_converges [OF ex_replication_ready] by simp
qed

text \<open>C10. The commit rule of a leader. In any run of a node whose peers are distinct and do not include
  itself, when a call leaves the node leader and moves its commit index, the index grows, and the members known
  to hold the log up to it (the leader and the peers whose match index has reached it) are more than half of the
  cluster; every one of them but the leader has answered an AppendEntries with success and a match index that
  reaches it. Unless the node has no peers, the entry at the new commit index is of the leader's own term, and no
  later entry of its term is held by more than half of the cluster.\<close>

theorem commit_needs_quorum:
  assumes "distinct (cf_node_id c # cf_peers c)" "n = node_run xs (node_new c)" "n' = node_step x n"
    and "rn_role n = Leader" "rn_role n' = Leader" "0 < rn_current_term n" "rn_commit_index n + 1 < 2 ^ 64"
    and "rn_commit_index n' \<noteq> rn_commit_index n"
  shows "rn_commit_index n < rn_commit_index n' \<and>
    card (members n') < 2 * card (holders n' (rn_commit_index n')) \<and>
    (\<forall>q \<in> holders n' (rn_commit_index n') - {cf_node_id c}. \<exists>r. AppendResponse q r \<in> set (xs @ [x]) \<and>
       aer_success r \<and> rn_commit_index n' \<le> aer_match_index r) \<and>
    (cf_peers c \<noteq> [] \<longrightarrow> own_entry n' (rn_commit_index n')) \<and>
    (\<forall>j. rn_commit_index n' < j \<longrightarrow> j \<le> log_last_index (rn_log n') \<longrightarrow> own_entry n' j \<longrightarrow>
       2 * card (holders n' j) \<le> card (members n'))"
proof -
  let ?i = "rn_commit_index n'"
  have n': "n' = node_run (xs @ [x]) (node_new c)" using assms(2,3) by (simp only: node_run_snoc)
  have table: "rn_config n' = c" "map fst (rn_match_index n') = cf_peers c" "rn_config n = c"
    using node_run_table [of "xs @ [x]" c] node_run_table [of xs c] n' assms(2) by simp_all
  have answered: "\<exists>r. AppendResponse q r \<in> set (xs @ [x]) \<and> aer_success r \<and> ?i \<le> aer_match_index r"
    if q: "q \<in> holders n' ?i - {cf_node_id c}" "0 < ?i" for q
  proof -
    obtain m where "(q, m) \<in> set (rn_match_index n')" "?i \<le> m" using q(1) table(1) by (auto simp: holders_def)
    then show ?thesis using node_run_match [of q m "xs @ [x]" c] q(2) n' by fastforce
  qed
  show ?thesis
  proof (rule leader_commit_cases [of n x])
    show "rn_role n = Leader" "rn_role (node_step x n) = Leader" "rn_commit_index (node_step x n) \<noteq> rn_commit_index n"
      using assms by simp_all
  next
    fix p resp
    assume x: "x = AppendResponse p resp" "aer_term resp \<le> rn_current_term n" "node_step x n = handle_append_response n p resp"
    have "rn_current_term n' = rn_current_term n" using x assms(3) by (auto simp: node_op_defs Let_def split: option.splits)
    then have "committable n' j \<longleftrightarrow> own_entry n' j \<and> card (members n') < 2 * card (holders n' j)" for j
      using assms(1,6) table by (intro committable_iff) simp_all
    then show ?thesis
      using append_response_commit [OF assms(4) x(2) assms(7), of p] assms(3,8) x(3) answered by (auto simp: not_less)
  next
    assume s: "rn_peers n = []" "rn_commit_index n < rn_commit_index (node_step x n)"
      "rn_commit_index (node_step x n) = log_last_index (rn_log n)" "log_last_index (rn_log (node_step x n)) = log_last_index (rn_log n)"
    then have "members n' = {cf_node_id c}" "holders n' j = {cf_node_id c}" for j
      using table by (simp_all add: members_def holders_def)
    then show ?thesis using s assms(3) table(3) by simp
  qed
qed

theorem commit_needs_quorum_witness:
  "rn_commit_index (node_step (AppendResponse 3 \<lparr>aer_term = 3, aer_success = True, aer_match_index = 2\<rparr>)
     (node_run (ex_leader_ops @ [Propose [67]]) (node_new (config3 1 [2, 3])))) = 2 \<and>
   3 < 2 * card (holders (node_step (AppendResponse 3 \<lparr>aer_term = 3, aer_success = True, aer_match_index = 2\<rparr>)
     (node_run (ex_leader_ops @ [Propose [67]]) (node_new (config3 1 [2, 3])))) 2)"
proof -
  let ?n = "node_run (ex_leader_ops @ [Propose [67]]) (node_new (config3 1 [2, 3]))"
  let ?x = "AppendResponse 3 \<lparr>aer_term = 3, aer_success = True, aer_match_index = 2\<rparr>"
  have c: "rn_commit_index (node_step ?x ?n) = 2" "rn_commit_index ?n = 0" "rn_role ?n = Leader"
    "rn_role (node_step ?x ?n) = Leader" "rn_current_term ?n = 3"
    by code_simp+
  have "card (members (node_step ?x ?n)) = 3"
    using node_run_table [of "ex_leader_ops @ [Propose [67]]"] by (simp add: members_def del: node_step.simps)
  then show ?thesis
    using commit_needs_quorum [OF _ refl refl, of "config3 1 [2, 3]" "ex_leader_ops @ [Propose [67]]" ?x] c
    by (simp del: node_step.simps)
qed

section \<open>Runs that show defects of the code\<close>

text \<open>
  A follower reports \<open>last_index\<close> of its whole log as \<open>match_index\<close>, also the part the
  leader's request did not cover. Here the follower's stale entry 2 (of term 2) is counted
  as an acknowledgement of the leader's own entry 2 (of term 3): on the next success
  reply, from node 3 and for index 1 only, the leader commits entry 2, which no follower
  holds.
\<close>

lemma match_index_counts_unverified_tail:
  "let ld1 = fst (replicate_round 2 (ex_leader, ex_follower));
       f1 = snd (replicate_round 2 (ex_leader, ex_follower));
       ld2 = node_step (Propose [67]) ld1;
       ld3 = handle_append_response ld2 3 \<lparr>aer_term = 3, aer_success = True, aer_match_index = 1\<rparr>
   in rn_commit_index ld3 = 2 \<and>
      log_get (rn_log ld3) 2 = Some \<lparr>le_term = 3, le_index = 2, le_data = [67]\<rparr> \<and>
      log_get (rn_log f1) 2 = Some \<lparr>le_term = 2, le_index = 2, le_data = [66]\<rparr>"
  by code_simp

text \<open>
  After compaction \<open>get\<close> answers \<open>None\<close> for the compacted indices, which
  \<open>handle_append_entries\<close> reads as "beyond the end of the log": a resent old entry is
  appended at the tail, under a new index.
\<close>

lemma compacted_entry_is_appended_again:
  "let n0 = node_run [AppendEntries \<lparr>ae_term = 1, ae_leader_id = 2, ae_prev_log_index = 0,
         ae_prev_log_term = 0, ae_entries = [\<lparr>le_term = 1, le_index = 1, le_data = [65]\<rparr>,
           \<lparr>le_term = 1, le_index = 2, le_data = [66]\<rparr>], ae_leader_commit = 2\<rparr>,
       CreateSnapshot 2 []] (node_new (config3 1 [2, 3]));
       n1 = node_step (AppendEntries \<lparr>ae_term = 1, ae_leader_id = 2, ae_prev_log_index = 0,
         ae_prev_log_term = 0, ae_entries = [\<lparr>le_term = 1, le_index = 1, le_data = [65]\<rparr>],
         ae_leader_commit = 2\<rparr>) n0
   in log_last_index (rn_log n0) = 2 \<and>
      log_get (rn_log n1) 3 = Some \<lparr>le_term = 1, le_index = 3, le_data = [65]\<rparr>"
  by code_simp

text \<open>A vote granted in an old term is counted in the current one.\<close>

lemma stale_vote_is_counted:
  "let n0 = node_run [StartElection, StartElection] (node_new (config3 1 [2, 3]))
   in rn_current_term n0 = 2 \<and>
      snd (handle_vote_response n0 2 \<lparr>rvr_term = 1, rvr_vote_granted = True\<rparr>)"
  by code_simp

text \<open>InstallSnapshot moves the log's commit index but not the node's.\<close>

lemma install_snapshot_keeps_node_commit:
  "let n1 = node_step (InstallSnapshot \<lparr>is_term = 1, is_leader_id = 2, is_last_included_index = 5,
         is_last_included_term = 1, is_data = []\<rparr>) (node_new (config3 1 [2, 3]))
   in rl_commit_index (rn_log n1) = 5 \<and> rn_commit_index n1 = 0"
  by code_simp

end
