(* ===== verification/Raft_Election.thy ===== *)
theory Raft_Election
  imports Raft_Node
begin

text \<open>
  A cluster of \<open>RaftNode\<close>s driven by the election thread of
  \<^verbatim>\<open>crates/raft/src/cluster.rs\<close> (\<open>spawn_election_timer\<close>): the thread calls
  \<open>start_election\<close>, then sends the RequestVote messages one by one and feeds each answer
  to \<open>handle_vote_response\<close> before it sends the next. Every other method of a node may run
  at any time between these steps, with any argument (the listener and heartbeat
  threads). Requests and answers may be lost and requests delivered twice. The theory
  proves election safety: two leaders of one term are the same node.
\<close>

section \<open>Majorities\<close>

text \<open>The interface between vote counting and the safety argument: any two sets of \<open>q\<close>
  members meet.\<close>

locale majority =
  fixes members :: "nat set" and q :: nat
  assumes finite_members: "finite members"
    and majority: "card members < 2 * q"
begin

lemma quorums_meet:
  assumes "A \<subseteq> members" "B \<subseteq> members" "q \<le> card A" "q \<le> card B"
  shows "A \<inter> B \<noteq> {}"
proof
  assume "A \<inter> B = {}"
  have fin: "finite A" "finite B"
    using assms(1,2) finite_members by (auto intro: finite_subset)
  have "card (A \<union> B) \<le> card members"
    using assms(1,2) finite_members by (simp add: card_mono)
  moreover have "card (A \<union> B) = card A + card B"
    using fin \<open>A \<inter> B = {}\<close> by (rule card_Un_disjoint)
  ultimately show False
    using assms(3,4) majority by linarith
qed

lemma single_winner:
  assumes "q \<le> card {v \<in> members. ballot v = Some a}"
    and "q \<le> card {v \<in> members. ballot v = Some b}"
  shows "a = b"
  using quorums_meet [OF _ _ assms] by auto

end

interpretation raft_majority: majority "insert i (set ps)" "(length ps + 1) div 2 + 1" for i ps
proof unfold_locales
  show "finite (insert i (set ps))" by simp
  have "card (insert i (set ps)) \<le> length ps + 1"
    using card_insert_le_m1 card_length [of ps] by (metis Suc_eq_plus1 card_length length_Cons list.set(2))
  moreover have "length ps + 1 < 2 * ((length ps + 1) div 2 + 1)"
    by presburger
  ultimately show "card (insert i (set ps)) < 2 * ((length ps + 1) div 2 + 1)"
    by linarith
qed

section \<open>The cluster\<close>

record cluster =
  cl_node :: "nat \<Rightarrow> RaftNode"
  cl_outbox :: "nat \<Rightarrow> (nat \<times> RequestVoteReq) list"
    \<comment> \<open>vote requests the election thread has still to send\<close>
  cl_reply :: "nat \<Rightarrow> (nat \<times> RequestVoteResp) option"
    \<comment> \<open>the answer it has received and not yet handled\<close>
  cl_ballot :: "nat \<Rightarrow> nat \<Rightarrow> nat option"
    \<comment> \<open>history variable, read by no step: the vote of a node in each term\<close>

definition cluster_config :: "nat set \<Rightarrow> (nat \<Rightarrow> RaftConfig) \<Rightarrow> bool" where
  \<comment> \<open>\<^verbatim>\<open>config.peers\<close> holds all other node ids, each once\<close>
  "cluster_config M cfg \<longleftrightarrow> finite M \<and>
     (\<forall>i \<in> M. cf_node_id (cfg i) = i \<and> distinct (cf_peers (cfg i)) \<and>
        set (cf_peers (cfg i)) = M - {i})"

definition cluster_init :: "(nat \<Rightarrow> RaftConfig) \<Rightarrow> cluster" where
  "cluster_init cfg = \<lparr>cl_node = (\<lambda>i. node_new (cfg i)), cl_outbox = (\<lambda>_. []),
     cl_reply = (\<lambda>_. None), cl_ballot = (\<lambda>_ _. None)\<rparr>"

definition set_node :: "cluster \<Rightarrow> nat \<Rightarrow> RaftNode \<Rightarrow> cluster" where
  "set_node s i n = s\<lparr>cl_node := (cl_node s)(i := n),
     cl_ballot := (case rn_voted_for n of
        None \<Rightarrow> cl_ballot s
      | Some c \<Rightarrow> (cl_ballot s)(i := (cl_ballot s i)(rn_current_term n \<mapsto> c)))\<rparr>"

text \<open>
  \<open>timeout\<close> carries the one assumption about numbers: a cluster does not run through all
  \<open>2 ^ 64\<close> terms.
\<close>

inductive cluster_step :: "nat set \<Rightarrow> cluster \<Rightarrow> cluster \<Rightarrow> bool" for M where
  timeout: "i \<in> M \<Longrightarrow> cl_outbox s i = [] \<Longrightarrow> cl_reply s i = None \<Longrightarrow>
     rn_current_term (cl_node s i) + 1 < 2 ^ 64 \<Longrightarrow>
     start_election (cl_node s i) = (n, reqs) \<Longrightarrow>
     cluster_step M s ((set_node s i n)\<lparr>cl_outbox := (cl_outbox s)(i := reqs)\<rparr>)"
| deliver: "i \<in> M \<Longrightarrow> cl_outbox s i = (p, req) # rest \<Longrightarrow> cl_reply s i = None \<Longrightarrow>
     handle_request_vote (cl_node s p) req = (n, resp) \<Longrightarrow>
     cluster_step M s ((set_node s p n)\<lparr>cl_outbox := (cl_outbox s)(i := rest),
       cl_reply := (cl_reply s)(i := Some (p, resp))\<rparr>)"
| deliver_answer_lost: "i \<in> M \<Longrightarrow> (p, req) \<in> set (cl_outbox s i) \<Longrightarrow>
     handle_request_vote (cl_node s p) req = (n, resp) \<Longrightarrow>
     cluster_step M s (set_node s p n)"
| send_failed: "i \<in> M \<Longrightarrow> cl_outbox s i = (p, req) # rest \<Longrightarrow> cl_reply s i = None \<Longrightarrow>
     cluster_step M s (s\<lparr>cl_outbox := (cl_outbox s)(i := rest)\<rparr>)"
| collect: "i \<in> M \<Longrightarrow> cl_reply s i = Some (p, resp) \<Longrightarrow>
     handle_vote_response (cl_node s i) p resp = (n, won) \<Longrightarrow>
     cluster_step M s ((set_node s i n)\<lparr>cl_reply := (cl_reply s)(i := None)\<rparr>)"
| other: "j \<in> M \<Longrightarrow> x \<noteq> StartElection \<Longrightarrow> (\<And>p r. x \<noteq> VoteResponse p r) \<Longrightarrow>
     cluster_step M s (set_node s j (node_step x (cl_node s j)))"

inductive cluster_reach :: "nat set \<Rightarrow> (nat \<Rightarrow> RaftConfig) \<Rightarrow> cluster \<Rightarrow> bool" for M cfg where
  init: "cluster_reach M cfg (cluster_init cfg)"
| step: "cluster_reach M cfg s \<Longrightarrow> cluster_step M s t \<Longrightarrow> cluster_reach M cfg t"

section \<open>The invariant\<close>

definition pending :: "cluster \<Rightarrow> nat \<Rightarrow> nat set" where
  "pending s i = fst ` set (cl_outbox s i) \<union> fst ` set_option (cl_reply s i)"

definition backers :: "nat set \<Rightarrow> cluster \<Rightarrow> nat \<Rightarrow> nat set" where
  "backers M s i = {v \<in> M. cl_ballot s v (rn_current_term (cl_node s i)) = Some i}"

definition ballot_inv :: "cluster \<Rightarrow> nat \<Rightarrow> bool" where
  "ballot_inv s v \<longleftrightarrow>
     (\<forall>t c. cl_ballot s v t = Some c \<longrightarrow> t \<le> rn_current_term (cl_node s v)) \<and>
     (\<forall>c. rn_voted_for (cl_node s v) = Some c \<longleftrightarrow>
          cl_ballot s v (rn_current_term (cl_node s v)) = Some c)"

definition thread_inv :: "nat set \<Rightarrow> cluster \<Rightarrow> nat \<Rightarrow> bool" where
  "thread_inv M s i \<longleftrightarrow>
     distinct (map fst (cl_outbox s i)) \<and> pending s i \<subseteq> M - {i} \<and>
     (\<forall>p r. cl_reply s i = Some (p, r) \<longrightarrow> p \<notin> fst ` set (cl_outbox s i)) \<and>
     (\<forall>(p, req) \<in> set (cl_outbox s i). rv_candidate_id req = i)"

definition candidate_inv :: "nat set \<Rightarrow> cluster \<Rightarrow> nat \<Rightarrow> bool" where
  "candidate_inv M s i \<longleftrightarrow> (rn_role (cl_node s i) = Candidate \<longrightarrow>
     (\<forall>(p, req) \<in> set (cl_outbox s i). rv_term req = rn_current_term (cl_node s i)) \<and>
     (\<forall>p r. cl_reply s i = Some (p, r) \<longrightarrow> rvr_vote_granted r \<longrightarrow> p \<in> backers M s i) \<and>
     rn_votes_received (cl_node s i) \<le> card (backers M s i - pending s i))"

definition leader_inv :: "nat set \<Rightarrow> cluster \<Rightarrow> nat \<Rightarrow> bool" where
  "leader_inv M s i \<longleftrightarrow> (rn_role (cl_node s i) = Leader \<longrightarrow>
     quorum (cl_node s i) \<le> card (backers M s i))"

definition cluster_inv :: "nat set \<Rightarrow> (nat \<Rightarrow> RaftConfig) \<Rightarrow> cluster \<Rightarrow> bool" where
  "cluster_inv M cfg s \<longleftrightarrow> (\<forall>i \<in> M. rn_config (cl_node s i) = cfg i \<and>
     ballot_inv s i \<and> thread_inv M s i \<and> candidate_inv M s i \<and> leader_inv M s i)"

lemmas cluster_inv_defs = ballot_inv_def thread_inv_def candidate_inv_def leader_inv_def

lemma finite_backers: "finite M \<Longrightarrow> finite (backers M s i)"
  by (simp add: backers_def)

subsection \<open>A node of the cluster changes\<close>

text \<open>
  What every step does to the node it runs: the term does not fall, the vote of an old
  term stays. Then no recorded ballot is ever overwritten.
\<close>

definition node_moves :: "RaftNode \<Rightarrow> RaftNode \<Rightarrow> bool" where
  "node_moves n n' \<longleftrightarrow> rn_config n' = rn_config n \<and> rn_current_term n \<le> rn_current_term n' \<and>
     (\<forall>c. rn_current_term n' = rn_current_term n \<longrightarrow> rn_voted_for n = Some c \<longrightarrow>
          rn_voted_for n' = Some c)"

lemma node_moves_step: "x \<noteq> StartElection \<Longrightarrow> node_moves n (node_step x n)"
  by (auto simp: node_moves_def node_step_term node_step_vote simp del: node_step.simps)

lemma node_moves_election:
  "rn_current_term n + 1 < 2 ^ 64 \<Longrightarrow> node_moves n (node_step StartElection n)"
  by (simp add: node_moves_def start_election_term del: node_step.simps)

lemma set_node_simps [simp]:
  "cl_node (set_node s i n) = (cl_node s)(i := n)"
  "cl_outbox (set_node s i n) = cl_outbox s"
  "cl_reply (set_node s i n) = cl_reply s"
  "pending (set_node s i n) = pending s"
  by (auto simp: set_node_def pending_def)

lemma ballot_mono:
  assumes "ballot_inv s j" "node_moves (cl_node s j) n" "cl_ballot s v t = Some c"
  shows "cl_ballot (set_node s j n) v t = Some c"
proof (cases "rn_voted_for n")
  case None
  with assms(3) show ?thesis by (simp add: set_node_def)
next
  case (Some d)
  show ?thesis
  proof (cases "v = j \<and> t = rn_current_term n")
    case True
    then have "t \<le> rn_current_term (cl_node s j)"
      using assms(1,3) by (auto simp: ballot_inv_def)
    with True assms(2) have same: "rn_current_term n = rn_current_term (cl_node s j)"
      by (simp add: node_moves_def)
    then have "rn_voted_for (cl_node s j) = Some c"
      using assms(1,3) True by (simp add: ballot_inv_def)
    with same assms(2) have "rn_voted_for n = Some c"
      by (simp add: node_moves_def)
    with True show ?thesis
      by (simp add: set_node_def)
  next
    case False
    with assms(3) Some show ?thesis
      by (auto simp: set_node_def)
  qed
qed

lemma ballot_inv_set_node:
  assumes "ballot_inv s j" "node_moves (cl_node s j) n" "ballot_inv s v"
  shows "ballot_inv (set_node s j n) v"
proof (cases "v = j")
  case False
  then show ?thesis
    using assms(3) by (auto simp: ballot_inv_def set_node_def split: option.splits)
next
  case True
  have le: "t \<le> rn_current_term n" if "cl_ballot s j t = Some c" for t c
    using assms(1,2) that by (fastforce simp: ballot_inv_def node_moves_def)
  have none: "cl_ballot s j (rn_current_term n) = None" if "rn_voted_for n = None"
  proof (rule ccontr)
    assume "cl_ballot s j (rn_current_term n) \<noteq> None"
    then obtain c where c: "cl_ballot s j (rn_current_term n) = Some c" by auto
    then have same: "rn_current_term n = rn_current_term (cl_node s j)"
      using assms(1,2) by (fastforce simp: ballot_inv_def node_moves_def)
    with c assms(1) have "rn_voted_for (cl_node s j) = Some c"
      by (simp add: ballot_inv_def)
    with same assms(2) that show False
      by (simp add: node_moves_def)
  qed
  show ?thesis
    using True le none by (cases "rn_voted_for n") (auto simp: ballot_inv_def set_node_def)
qed

lemma backers_other:
  assumes "ballot_inv s j" "node_moves (cl_node s j) n"
    and "rn_current_term (((cl_node s)(j := n)) i) = rn_current_term (cl_node s i)"
  shows "backers M s i \<subseteq> backers M (set_node s j n) i"
  using assms(3) ballot_mono [OF assms(1,2)] by (auto simp: backers_def)

subsection \<open>Steps preserve the invariant\<close>

definition role_kept :: "RaftNode \<Rightarrow> RaftNode \<Rightarrow> bool" where
  "role_kept n n' \<longleftrightarrow>
     (rn_role n' = Candidate \<longrightarrow> rn_role n = Candidate \<and>
        rn_current_term n' = rn_current_term n \<and> rn_votes_received n' = rn_votes_received n) \<and>
     (rn_role n' = Leader \<longrightarrow> rn_role n = Leader \<and> rn_current_term n' = rn_current_term n)"

lemma role_kept_step:
  assumes "x \<noteq> StartElection" "\<And>p r. x \<noteq> VoteResponse p r"
  shows "role_kept n (node_step x n)"
  using node_step_candidate [OF assms(1), of n] node_step_votes [OF assms, of n]
    node_step_leader [OF assms(1), of n] node_step_leader_term [OF assms(1), of n] assms(2)
  by (auto simp: role_kept_def simp del: node_step.simps)

lemma cluster_invD:
  assumes "cluster_inv M cfg s" "i \<in> M"
  shows "rn_config (cl_node s i) = cfg i" "ballot_inv s i" "thread_inv M s i"
    "candidate_inv M s i" "leader_inv M s i"
  using assms by (auto simp: cluster_inv_def)

lemma backers_grow:
  assumes inv: "cluster_inv M cfg s" and j: "j \<in> M" and mv: "node_moves (cl_node s j) n"
    and same: "i = j \<longrightarrow> rn_current_term n = rn_current_term (cl_node s j)"
  shows "backers M s i \<subseteq> backers M (set_node s j n) i"
  using backers_other [OF cluster_invD(2) [OF inv j] mv, of i M] same by simp

lemma inv_set_node:
  assumes M: "finite M" and inv: "cluster_inv M cfg s" and j: "j \<in> M"
    and mv: "node_moves (cl_node s j) n" and rk: "role_kept (cl_node s j) n"
  shows "cluster_inv M cfg (set_node s j n)"
  unfolding cluster_inv_def
proof (intro ballI conjI)
  fix i
  assume i: "i \<in> M"
  let ?t = "set_node s j n"
  note I = cluster_invD [OF inv i]
  show "rn_config (cl_node ?t i) = cfg i"
    using I(1) cluster_invD(1) [OF inv j] mv by (simp add: node_moves_def)
  show "ballot_inv ?t i"
    using cluster_invD(2) [OF inv j] mv I(2) by (rule ballot_inv_set_node)
  show "thread_inv M ?t i"
    using I(3) by (simp add: thread_inv_def)
  have fin: "finite (backers M ?t i)"
    using M by (rule finite_backers)
  have grow: "backers M s i \<subseteq> backers M ?t i"
    if "rn_role (cl_node ?t i) = Candidate \<or> rn_role (cl_node ?t i) = Leader"
    using rk that by (intro backers_grow [OF inv j mv]) (auto simp: role_kept_def)
  show "candidate_inv M ?t i"
  proof (cases "rn_role (cl_node ?t i) = Candidate")
    case True
    then have old: "rn_role (cl_node s i) = Candidate"
        "rn_current_term (cl_node ?t i) = rn_current_term (cl_node s i)"
        "rn_votes_received (cl_node ?t i) = rn_votes_received (cl_node s i)"
      using rk by (auto simp: role_kept_def split: if_splits)
    have sub: "backers M s i \<subseteq> backers M ?t i"
      using grow True by simp
    have "card (backers M s i - pending s i) \<le> card (backers M ?t i - pending ?t i)"
      using sub fin by (intro card_mono) auto
    then show ?thesis
      using I(4) old sub by (fastforce simp: candidate_inv_def)
  next
    case False
    then show ?thesis by (simp add: candidate_inv_def)
  qed
  show "leader_inv M ?t i"
  proof (cases "rn_role (cl_node ?t i) = Leader")
    case True
    then have old: "rn_role (cl_node s i) = Leader"
      using rk by (auto simp: role_kept_def split: if_splits)
    have "quorum (cl_node ?t i) = quorum (cl_node s i)"
      using mv by (simp add: quorum_def node_moves_def)
    moreover have "card (backers M s i) \<le> card (backers M ?t i)"
      using grow True fin by (intro card_mono) auto
    ultimately show ?thesis
      using I(5) old by (simp add: leader_inv_def)
  next
    case False
    then show ?thesis by (simp add: leader_inv_def)
  qed
qed

text \<open>A change of the election thread of \<open>i\<close> alone.\<close>

lemma inv_set_thread:
  assumes inv: "cluster_inv M cfg s"
    and t: "cl_node t = cl_node s" "cl_ballot t = cl_ballot s"
      "\<And>k. k \<noteq> i \<Longrightarrow> cl_outbox t k = cl_outbox s k \<and> cl_reply t k = cl_reply s k"
    and i: "i \<in> M \<Longrightarrow> thread_inv M t i \<and> candidate_inv M t i"
  shows "cluster_inv M cfg t"
proof -
  have b: "backers M t k = backers M s k" for k
    using t by (simp add: backers_def)
  have p: "pending t k = pending s k" if "k \<noteq> i" for k
    using t(3) [OF that] by (simp add: pending_def)
  show ?thesis
    unfolding cluster_inv_def
  proof (intro ballI conjI)
    fix k
    assume k: "k \<in> M"
    note I = cluster_invD [OF inv k]
    show "rn_config (cl_node t k) = cfg k" "ballot_inv t k" "leader_inv M t k"
      using I t b by (simp_all add: ballot_inv_def leader_inv_def)
    show "thread_inv M t k"
      using I(3) i k p t(3) [of k] by (cases "k = i") (auto simp: thread_inv_def)
    show "candidate_inv M t k"
      using I(4) i k p t b t(3) [of k] by (cases "k = i") (auto simp: candidate_inv_def)
  qed
qed

lemma request_vote_grants:
  assumes "handle_request_vote n req = (n', resp)" "rvr_vote_granted resp"
  shows "rn_voted_for n' = Some (rv_candidate_id req) \<and> rn_current_term n' = rv_term req"
  using assms by (auto simp: handle_request_vote_def Let_def split: if_splits)

lemma request_vote_moves:
  assumes "handle_request_vote n req = (n', resp)"
  shows "node_moves n n' \<and> role_kept n n'"
  using node_moves_step [of "RequestVote req" n] role_kept_step [of "RequestVote req" n] assms
  by simp

lemma inv_deliver:
  assumes M: "finite M" and inv: "cluster_inv M cfg s" and i: "i \<in> M"
    and out: "cl_outbox s i = (p, req) # rest" and none: "cl_reply s i = None"
    and h: "handle_request_vote (cl_node s p) req = (n, resp)"
  shows "cluster_inv M cfg ((set_node s p n)\<lparr>cl_outbox := (cl_outbox s)(i := rest),
       cl_reply := (cl_reply s)(i := Some (p, resp))\<rparr>)"
    (is "cluster_inv M cfg ?t")
proof -
  note T = cluster_invD(3) [OF inv i, unfolded thread_inv_def]
  have p: "p \<in> M" "p \<noteq> i"
    using T out by (auto simp: pending_def)
  let ?u = "set_node s p n"
  note mv = request_vote_moves [OF h]
  have u: "cluster_inv M cfg ?u"
    using inv_set_node [OF M inv p(1)] mv by blast
  have pend: "pending ?t i = pending s i"
    using out none by (auto simp: pending_def)
  have bk: "backers M ?t i = backers M ?u i"
    by (simp add: backers_def)
  have thread: "thread_inv M ?t i"
    using T pend out by (auto simp: thread_inv_def)
  have granted: "p \<in> backers M ?u i"
    if "rn_role (cl_node ?u i) = Candidate" "rvr_vote_granted resp"
  proof -
    have "rv_term req = rn_current_term (cl_node s i)"
      using cluster_invD(4) [OF u i] that(1) out p(2) by (auto simp: candidate_inv_def)
    moreover have "rv_candidate_id req = i"
      using T out by auto
    ultimately show ?thesis
      using request_vote_grants [OF h that(2)] p by (simp add: backers_def set_node_def)
  qed
  have "candidate_inv M ?t i"
    using cluster_invD(4) [OF u i] granted out pend p bk by (auto simp: candidate_inv_def)
  with thread show ?thesis
    by (intro inv_set_thread [OF u, of ?t i]) (auto simp: set_node_def)
qed

lemma inv_send_failed:
  assumes M: "finite M" and inv: "cluster_inv M cfg s" and i: "i \<in> M"
    and out: "cl_outbox s i = (p, req) # rest" and none: "cl_reply s i = None"
  shows "cluster_inv M cfg (s\<lparr>cl_outbox := (cl_outbox s)(i := rest)\<rparr>)" (is "cluster_inv M cfg ?t")
proof -
  have sub: "pending ?t i \<subseteq> pending s i"
    using out by (auto simp: pending_def)
  have bk: "backers M ?t i = backers M s i"
    by (simp add: backers_def)
  have "card (backers M s i - pending s i) \<le> card (backers M ?t i - pending ?t i)"
    using sub bk finite_backers [OF M] by (intro card_mono) auto
  then have "candidate_inv M ?t i"
    using cluster_invD(4) [OF inv i] out bk none by (auto simp: candidate_inv_def)
  moreover have "thread_inv M ?t i"
    using cluster_invD(3) [OF inv i] out none by (auto simp: thread_inv_def pending_def)
  ultimately show ?thesis
    by (intro inv_set_thread [OF inv, of ?t i]) auto
qed

subsection \<open>Counting a vote\<close>

lemma vote_response_moves:
  assumes "handle_vote_response n p resp = (n', won)"
  shows "node_moves n n'"
  using node_moves_step [of "VoteResponse p resp" n] assms by simp

lemma vote_response_cases:
  assumes "handle_vote_response n p resp = (n', won)"
  obtains (stepped_down) "rn_role n' = Follower"
  | (unchanged) "n' = n" "\<not> (rn_role n = Candidate \<and> rvr_vote_granted resp)"
  | (counted) "rn_role n = Candidate" "rvr_vote_granted resp"
      "rn_current_term n' = rn_current_term n" "rn_votes_received n' = rn_votes_received n + 1"
      "rn_role n' \<noteq> Leader \<or> quorum n \<le> rn_votes_received n + 1"
  using assms
  by (auto simp: handle_vote_response_def become_leader_def Let_def quorum_def split: if_splits)

lemma inv_collect:
  assumes M: "finite M" and inv: "cluster_inv M cfg s" and i: "i \<in> M"
    and rep: "cl_reply s i = Some (p, resp)"
    and h: "handle_vote_response (cl_node s i) p resp = (n, won)"
  shows "cluster_inv M cfg ((set_node s i n)\<lparr>cl_reply := (cl_reply s)(i := None)\<rparr>)"
    (is "cluster_inv M cfg ?t")
proof -
  note mv = vote_response_moves [OF h]
  have Bi: "ballot_inv s i"
    by (rule cluster_invD(2) [OF inv i])
  have pendi: "pending ?t i \<subseteq> pending s i" "p \<in> pending s i" "p \<notin> pending ?t i"
    using cluster_invD(3) [OF inv i] rep by (auto simp: pending_def thread_inv_def)
  have pendk: "k \<noteq> i \<Longrightarrow> pending ?t k = pending s k" for k
    by (simp add: pending_def)
  have fin: "finite (backers M ?t k)" for k
    using M by (rule finite_backers)
  have bk: "backers M ?t k = backers M (set_node s i n) k" for k
    by (simp add: backers_def)
  have grow: "backers M s k \<subseteq> backers M ?t k"
    if "k = i \<longrightarrow> rn_current_term n = rn_current_term (cl_node s i)" for k
    using backers_grow [OF inv i mv that] bk by simp
  have mono: "card (backers M s k - pending s k) \<le> card (backers M ?t k - pending ?t k)"
    if "k = i \<longrightarrow> rn_current_term n = rn_current_term (cl_node s i)" for k
    using grow [OF that] pendi(1) pendk [of k] fin by (intro card_mono) auto
  have counted: "Suc (card (backers M s i - pending s i)) \<le> card (backers M ?t i - pending ?t i)"
    if "rn_role (cl_node s i) = Candidate" "rvr_vote_granted resp"
      "rn_current_term n = rn_current_term (cl_node s i)"
  proof -
    have "p \<in> backers M s i"
      using cluster_invD(4) [OF inv i] rep that(1,2) by (auto simp: candidate_inv_def)
    then have "insert p (backers M s i - pending s i) \<subseteq> backers M ?t i - pending ?t i"
      using grow [of i] that(3) pendi by auto
    then have "card (insert p (backers M s i - pending s i)) \<le> card (backers M ?t i - pending ?t i)"
      using fin by (intro card_mono) auto
    then show ?thesis
      using pendi(2) finite_backers [OF M] by simp
  qed
  have new: "candidate_inv M ?t i \<and> leader_inv M ?t i"
    using h
  proof (cases rule: vote_response_cases)
    case stepped_down
    then show ?thesis by (simp add: candidate_inv_def leader_inv_def)
  next
    case unchanged
    then have "card (backers M s i) \<le> card (backers M ?t i)"
      using grow [of i] fin by (intro card_mono) auto
    with unchanged show ?thesis
      using cluster_invD(4,5) [OF inv i] mono [of i]
      by (auto simp: candidate_inv_def leader_inv_def)
  next
    case counted_now: counted
    have "card (backers M ?t i - pending ?t i) \<le> card (backers M ?t i)"
      using fin by (intro card_mono) auto
    moreover have "quorum n = quorum (cl_node s i)"
      using mv by (simp add: quorum_def node_moves_def)
    ultimately show ?thesis
      using counted counted_now cluster_invD(4) [OF inv i]
      by (auto simp: candidate_inv_def leader_inv_def)
  qed
  show ?thesis
    unfolding cluster_inv_def
  proof (intro ballI conjI)
    fix k
    assume k: "k \<in> M"
    note I = cluster_invD [OF inv k]
    show "rn_config (cl_node ?t k) = cfg k"
      using I(1) cluster_invD(1) [OF inv i] mv by (simp add: node_moves_def)
    show "ballot_inv ?t k"
      using ballot_inv_set_node [OF Bi mv I(2)] by (simp add: ballot_inv_def)
    show "thread_inv M ?t k"
      using I(3) pendi(1) pendk [of k] by (cases "k = i") (auto simp: thread_inv_def)
    show "candidate_inv M ?t k"
      using new I(4) mono [of k] grow [of k] pendk [of k]
      by (cases "k = i") (fastforce simp: candidate_inv_def)+
    have "card (backers M s k) \<le> card (backers M ?t k)" if "k \<noteq> i"
      using grow [of k] fin that by (intro card_mono) auto
    then show "leader_inv M ?t k"
      using new I(5) by (cases "k = i") (fastforce simp: leader_inv_def)+
  qed
qed

subsection \<open>Opening an election\<close>

lemma start_election_cases:
  assumes "start_election n = (n', reqs)" "cf_node_id (rn_config n) = i"
  obtains (won) "rn_role n' = Leader" "reqs = []" "quorum n \<le> 1"
  | (campaign) "rn_role n' = Candidate" "rn_votes_received n' = 1"
      "map fst reqs = rn_peers n"
      "\<forall>(p, req) \<in> set reqs. rv_candidate_id req = i \<and> rv_term req = rn_current_term n'"
  using assms
  by (auto simp: start_election_def become_leader_def quorum_def Let_def o_def split: if_splits)

lemma start_election_outbox:
  assumes "start_election n = (n', reqs)" "cf_node_id (rn_config n) = i"
    and "distinct (rn_peers n)" "set (rn_peers n) = M - {i}"
  shows "distinct (map fst reqs)" "fst ` set reqs \<subseteq> M - {i}"
    "\<forall>(p, req) \<in> set reqs. rv_candidate_id req = i"
  using assms(1,2)
  by (cases rule: start_election_cases; use assms(3,4) in
      \<open>auto simp: case_prod_unfold simp flip: set_map\<close>)+

lemma inv_timeout:
  assumes cfg: "cluster_config M cfg" and inv: "cluster_inv M cfg s" and i: "i \<in> M"
    and idle: "cl_outbox s i = []" "cl_reply s i = None"
    and fits: "rn_current_term (cl_node s i) + 1 < 2 ^ 64"
    and h: "start_election (cl_node s i) = (n, reqs)"
  shows "cluster_inv M cfg ((set_node s i n)\<lparr>cl_outbox := (cl_outbox s)(i := reqs)\<rparr>)"
    (is "cluster_inv M cfg ?t")
proof -
  have M: "finite M" and own: "cf_node_id (rn_config (cl_node s i)) = i"
    and peers: "distinct (rn_peers (cl_node s i))" "set (rn_peers (cl_node s i)) = M - {i}"
    using cfg i cluster_invD(1) [OF inv i] by (auto simp: cluster_config_def)
  have mv: "node_moves (cl_node s i) n"
    using node_moves_election [OF fits] h by simp
  have Bi: "ballot_inv s i"
    by (rule cluster_invD(2) [OF inv i])
  have vote: "rn_voted_for n = Some i"
    using start_election_vote [of "cl_node s i"] h own by simp
  have self: "i \<in> backers M ?t i"
    using i vote by (simp add: backers_def set_node_def)
  note ob = start_election_outbox [OF h own peers]
  have pend: "pending ?t i \<subseteq> M - {i}"
    using ob(2) idle by (simp add: pending_def)
  have fin: "finite (backers M ?t k)" for k
    using M by (rule finite_backers)
  have one: "1 \<le> card (backers M ?t i - pending ?t i)"
    using self pend fin by (auto simp: Suc_le_eq card_gt_0_iff)
  have new: "candidate_inv M ?t i \<and> leader_inv M ?t i"
    using h own
  proof (cases rule: start_election_cases)
    case won
    moreover have "quorum n = quorum (cl_node s i)"
      using mv by (simp add: quorum_def node_moves_def)
    moreover have "1 \<le> card (backers M ?t i)"
      using self fin by (auto simp: Suc_le_eq card_gt_0_iff)
    ultimately show ?thesis
      by (auto simp: candidate_inv_def leader_inv_def)
  next
    case campaign
    then show ?thesis
      using one idle by (auto simp: candidate_inv_def leader_inv_def)
  qed
  have pendk: "k \<noteq> i \<Longrightarrow> pending ?t k = pending s k" for k
    by (simp add: pending_def)
  have grow: "backers M s k \<subseteq> backers M ?t k" if "k \<noteq> i" for k
    using backers_grow [OF inv i mv, of k] that by (simp add: backers_def)
  have cards: "card (backers M s k) \<le> card (backers M ?t k)"
    "card (backers M s k - pending s k) \<le> card (backers M ?t k - pending ?t k)"
    if "k \<noteq> i" for k
    using grow [OF that] pendk [OF that] fin by (auto intro!: card_mono)
  show ?thesis
    unfolding cluster_inv_def
  proof (intro ballI conjI)
    fix k
    assume k: "k \<in> M"
    note I = cluster_invD [OF inv k]
    show "rn_config (cl_node ?t k) = cfg k"
      using I(1) cluster_invD(1) [OF inv i] mv by (simp add: node_moves_def)
    show "ballot_inv ?t k"
      using ballot_inv_set_node [OF Bi mv I(2)] by (simp add: ballot_inv_def)
    show "thread_inv M ?t k"
      using I(3) ob pend pendk [of k] idle by (cases "k = i") (auto simp: thread_inv_def)
    show "candidate_inv M ?t k"
      using new I(4) cards(2) [of k] grow [of k]
      by (cases "k = i") (fastforce simp: candidate_inv_def)+
    show "leader_inv M ?t k"
      using new I(5) cards(1) [of k] by (cases "k = i") (fastforce simp: leader_inv_def)+
  qed
qed

subsection \<open>Reachable clusters\<close>

lemma cluster_inv_init: "cluster_inv M cfg (cluster_init cfg)"
  by (auto simp: cluster_inv_def cluster_inv_defs cluster_init_def node_new_def pending_def)

lemma cluster_step_inv:
  assumes "cluster_step M s t" "cluster_config M cfg" "cluster_inv M cfg s"
  shows "cluster_inv M cfg t"
  using assms
proof (induction rule: cluster_step.induct)
  case (timeout i s n reqs)
  then show ?case by (blast intro: inv_timeout)
next
  case (deliver i s p req rest n resp)
  then show ?case by (simp add: inv_deliver cluster_config_def)
next
  case (deliver_answer_lost i p req s n resp)
  have "p \<in> M"
    using cluster_invD(3) [OF deliver_answer_lost(5,1)] deliver_answer_lost(2)
    by (force simp: thread_inv_def pending_def)
  then show ?case
    using deliver_answer_lost request_vote_moves inv_set_node by (simp add: cluster_config_def)
next
  case (send_failed i s p req rest)
  then show ?case by (simp add: inv_send_failed cluster_config_def)
next
  case (collect i s p resp n won)
  then show ?case by (simp add: inv_collect cluster_config_def)
next
  case (other j x s)
  then show ?case
    using inv_set_node node_moves_step role_kept_step by (simp add: cluster_config_def)
qed

lemma cluster_reach_inv:
  "cluster_reach M cfg s \<Longrightarrow> cluster_config M cfg \<Longrightarrow> cluster_inv M cfg s"
  by (induction rule: cluster_reach.induct) (auto intro: cluster_inv_init cluster_step_inv)

lemma leader_backed:
  assumes "cluster_reach M cfg s" "cluster_config M cfg" "i \<in> M" "rn_role (cl_node s i) = Leader"
  shows "(length (cf_peers (cfg i)) + 1) div 2 + 1 \<le> card (backers M s i)"
  using cluster_invD(1,5) [OF cluster_reach_inv [OF assms(1,2)] assms(3)] assms(4)
  by (simp add: leader_inv_def quorum_def)

section \<open>Properties\<close>

lemma two_leaders_same:
  assumes "cluster_config M cfg" "cluster_reach M cfg s" "i \<in> M" "j \<in> M"
    and "rn_role (cl_node s i) = Leader" "rn_role (cl_node s j) = Leader"
    and "rn_current_term (cl_node s i) = rn_current_term (cl_node s j)"
  shows "i = j"
proof -
  have M: "insert i (set (cf_peers (cfg i))) = M"
    "length (cf_peers (cfg i)) = length (cf_peers (cfg j))"
    using assms(1,3,4) by (auto simp: cluster_config_def simp flip: distinct_card)
  let ?ballot = "\<lambda>v. cl_ballot s v (rn_current_term (cl_node s i))"
  have "(length (cf_peers (cfg i)) + 1) div 2 + 1 \<le> card {v \<in> M. ?ballot v = Some i}"
    using leader_backed [OF assms(2,1,3,5)] by (simp add: backers_def)
  moreover have "(length (cf_peers (cfg i)) + 1) div 2 + 1 \<le> card {v \<in> M. ?ballot v = Some j}"
    using leader_backed [OF assms(2,1,4,6)] assms(7) M(2) by (simp add: backers_def)
  ultimately show ?thesis
    using raft_majority.single_winner [of "cf_peers (cfg i)" i ?ballot i j] M(1) by simp
qed

text \<open>C1. Election safety: in every reachable state of the cluster, whatever requests and
  answers are lost or repeated and whatever other calls the nodes handle in between, while
  node \<open>i\<close> leads a term no other node leads the same term.\<close>

theorem election_safety:
  assumes "cluster_config M cfg" "cluster_reach M cfg s"
    and "i \<in> M" "rn_role (cl_node s i) = Leader" "j \<in> M" "j \<noteq> i"
  shows "\<not> (rn_role (cl_node s j) = Leader \<and>
            rn_current_term (cl_node s j) = rn_current_term (cl_node s i))"
  using two_leaders_same [OF assms(1,2,3,5,4)] assms(6) by metis

text \<open>Three nodes; node 1 times out, asks node 2, and counts the answer.\<close>

definition ex_cfg :: "nat \<Rightarrow> RaftConfig" where
  "ex_cfg i = config3 i (filter (\<lambda>k. k \<noteq> i) [1, 2, 3])"

definition ex_c1 :: cluster where
  "ex_c1 = (let s = cluster_init ex_cfg; (n, reqs) = start_election (cl_node s 1)
     in (set_node s 1 n)\<lparr>cl_outbox := (cl_outbox s)(1 := reqs)\<rparr>)"

definition ex_c2 :: cluster where
  "ex_c2 = (let s = ex_c1;
       (n, resp) = handle_request_vote (cl_node s 2) (snd (hd (cl_outbox s 1)))
     in (set_node s 2 n)\<lparr>cl_outbox := (cl_outbox s)(1 := tl (cl_outbox s 1)),
          cl_reply := (cl_reply s)(1 := Some (2, resp))\<rparr>)"

definition ex_c3 :: cluster where
  "ex_c3 = (let s = ex_c2; (n, won) = handle_vote_response (cl_node s 1) 2
         (snd (the (cl_reply s 1)))
     in (set_node s 1 n)\<lparr>cl_reply := (cl_reply s)(1 := None)\<rparr>)"

lemma ex_cluster_config: "cluster_config {1, 2, 3} ex_cfg"
  by (auto simp: cluster_config_def ex_cfg_def)

lemma ex_c1_reach: "cluster_reach {1, 2, 3} ex_cfg ex_c1"
  unfolding ex_c1_def Let_def case_prod_unfold
  by (rule cluster_reach.step [OF cluster_reach.init], rule cluster_step.timeout)
     (auto simp: cluster_init_def node_new_def)

lemma ex_c2_reach: "cluster_reach {1, 2, 3} ex_cfg ex_c2"
proof -
  have out: "fst (hd (cl_outbox ex_c1 1)) = 2" "cl_outbox ex_c1 1 \<noteq> []" "cl_reply ex_c1 1 = None"
    by code_simp+
  then have "cl_outbox ex_c1 1 = (2, snd (hd (cl_outbox ex_c1 1))) # tl (cl_outbox ex_c1 1)"
    by (metis list.collapse prod.collapse)
  note step = cluster_step.deliver [OF _ this out(3) surjective_pairing, of "{1, 2, 3}"]
  show ?thesis
    unfolding ex_c2_def Let_def case_prod_unfold
    by (rule cluster_reach.step [OF ex_c1_reach step]) simp
qed

lemma ex_c3_reach: "cluster_reach {1, 2, 3} ex_cfg ex_c3"
proof -
  have "cl_reply ex_c2 1 \<noteq> None" "fst (the (cl_reply ex_c2 1)) = 2"
    by code_simp+
  then have "cl_reply ex_c2 1 = Some (2, snd (the (cl_reply ex_c2 1)))"
    by (metis option.exhaust_sel prod.collapse)
  note step = cluster_step.collect [OF _ this surjective_pairing, of "{1, 2, 3}"]
  show ?thesis
    unfolding ex_c3_def Let_def case_prod_unfold
    by (rule cluster_reach.step [OF ex_c2_reach step]) simp
qed

theorem election_safety_witness:
  "rn_role (cl_node ex_c3 1) = Leader \<and>
   \<not> (rn_role (cl_node ex_c3 2) = Leader \<and>
      rn_current_term (cl_node ex_c3 2) = rn_current_term (cl_node ex_c3 1))"
proof -
  have l: "rn_role (cl_node ex_c3 1) = Leader"
    by code_simp
  show ?thesis
    using l election_safety [OF ex_cluster_config ex_c3_reach _ l, of 2] by simp
qed

end
