(* ===== verification/Raft_Transport.thy ===== *)
theory Raft_Transport
  imports Raft_Node
begin

text \<open>
  The wire format and the dispatch of \<^verbatim>\<open>crates/raft/src/transport.rs\<close>. The
  \<^verbatim>\<open>write_*\<close> helpers append to a buffer, the \<^verbatim>\<open>read_*\<close> helpers take the message and a
  position and return the value with the next position, or \<open>None\<close> when the message is
  too short. The locale \<open>wire_format\<close> is the contract between a writer and a reader: what
  was written is read back from any position of any message, and no strict prefix of it
  is read at all. It is interpreted for every field type and for the six messages.
  \<open>dispatch_rpc\<close> and \<open>handle_connection\<close> are the server side; the socket of a connection
  is the list of bytes it still has to deliver.
\<close>

section \<open>Encoding\<close>

definition MSG_APPEND_ENTRIES_REQ :: byte where "MSG_APPEND_ENTRIES_REQ = 1"
definition MSG_APPEND_ENTRIES_RESP :: byte where "MSG_APPEND_ENTRIES_RESP = 2"
definition MSG_REQUEST_VOTE_REQ :: byte where "MSG_REQUEST_VOTE_REQ = 3"
definition MSG_REQUEST_VOTE_RESP :: byte where "MSG_REQUEST_VOTE_RESP = 4"
definition MSG_INSTALL_SNAPSHOT_REQ :: byte where "MSG_INSTALL_SNAPSHOT_REQ = 5"
definition MSG_INSTALL_SNAPSHOT_RESP :: byte where "MSG_INSTALL_SNAPSHOT_RESP = 6"

lemmas msg_tags = MSG_APPEND_ENTRIES_REQ_def MSG_APPEND_ENTRIES_RESP_def
  MSG_REQUEST_VOTE_REQ_def MSG_REQUEST_VOTE_RESP_def
  MSG_INSTALL_SNAPSHOT_REQ_def MSG_INSTALL_SNAPSHOT_RESP_def

definition write_u8 :: "byte list \<Rightarrow> byte \<Rightarrow> byte list" where
  "write_u8 buf v = buf @ [v]"

definition write_u32_le :: "byte list \<Rightarrow> nat \<Rightarrow> byte list" where
  "write_u32_le buf v = buf @ to_le 4 v"

definition write_u64_le :: "byte list \<Rightarrow> nat \<Rightarrow> byte list" where
  "write_u64_le buf v = buf @ to_le 8 v"

definition write_bool :: "byte list \<Rightarrow> bool \<Rightarrow> byte list" where
  "write_bool buf v = buf @ [if v then 1 else 0]"

definition write_bytes :: "byte list \<Rightarrow> byte list \<Rightarrow> byte list" where
  "write_bytes buf d = write_u32_le buf (length d mod 2 ^ 32) @ d"

definition write_log_entry :: "byte list \<Rightarrow> LogEntry \<Rightarrow> byte list" where
  "write_log_entry buf e =
     write_bytes (write_u64_le (write_u64_le buf (le_term e)) (le_index e)) (le_data e)"

definition write_log_entries :: "byte list \<Rightarrow> LogEntry list \<Rightarrow> byte list" where
  "write_log_entries buf es =
     foldl write_log_entry (write_u32_le buf (length es mod 2 ^ 32)) es"

section \<open>Decoding\<close>

text \<open>
  \<^verbatim>\<open>pos.checked_add(n)?\<close> followed by the test against \<^verbatim>\<open>data.len()\<close> is the single test
  on naturals: a sum that overflows exceeds the length of every slice.
\<close>

definition read_u8 :: "byte list \<Rightarrow> nat \<Rightarrow> (byte \<times> nat) option" where
  "read_u8 data pos = (if pos \<ge> length data then None else Some (data ! pos, pos + 1))"

definition read_u32_le :: "byte list \<Rightarrow> nat \<Rightarrow> (nat \<times> nat) option" where
  "read_u32_le data pos =
     (if pos + 4 > length data then None else Some (from_le (slice data pos 4), pos + 4))"

definition read_u64_le :: "byte list \<Rightarrow> nat \<Rightarrow> (nat \<times> nat) option" where
  "read_u64_le data pos =
     (if pos + 8 > length data then None else Some (from_le (slice data pos 8), pos + 8))"

definition read_bool :: "byte list \<Rightarrow> nat \<Rightarrow> (bool \<times> nat) option" where
  "read_bool data pos = do { (b, pos) \<leftarrow> read_u8 data pos; Some (b \<noteq> 0, pos) }"

definition read_bytes :: "byte list \<Rightarrow> nat \<Rightarrow> (byte list \<times> nat) option" where
  "read_bytes data pos = do {
     (len, pos) \<leftarrow> read_u32_le data pos;
     (if pos + len > length data then None else Some (slice data pos len, pos + len)) }"

definition read_log_entry :: "byte list \<Rightarrow> nat \<Rightarrow> (LogEntry \<times> nat) option" where
  "read_log_entry data pos = do {
     (t, pos) \<leftarrow> read_u64_le data pos;
     (i, pos) \<leftarrow> read_u64_le data pos;
     (d, pos) \<leftarrow> read_bytes data pos;
     Some (\<lparr>le_term = t, le_index = i, le_data = d\<rparr>, pos) }"

primrec read_n_entries :: "nat \<Rightarrow> byte list \<Rightarrow> nat \<Rightarrow> (LogEntry list \<times> nat) option" where
  "read_n_entries 0 data pos = Some ([], pos)"
| "read_n_entries (Suc n) data pos = do {
     (e, pos) \<leftarrow> read_log_entry data pos;
     (es, pos) \<leftarrow> read_n_entries n data pos;
     Some (e # es, pos) }"

definition read_log_entries :: "byte list \<Rightarrow> nat \<Rightarrow> (LogEntry list \<times> nat) option" where
  "read_log_entries data pos = do {
     (count, pos) \<leftarrow> read_u32_le data pos;
     read_n_entries count data pos }"

section \<open>The six messages\<close>

definition encode_append_entries_req :: "AppendEntriesReq \<Rightarrow> byte list" where
  "encode_append_entries_req req =
     (let buf = write_u8 [] MSG_APPEND_ENTRIES_REQ;
          buf = write_u64_le buf (ae_term req);
          buf = write_u64_le buf (ae_leader_id req);
          buf = write_u64_le buf (ae_prev_log_index req);
          buf = write_u64_le buf (ae_prev_log_term req);
          buf = write_log_entries buf (ae_entries req);
          buf = write_u64_le buf (ae_leader_commit req)
      in buf)"

definition decode_append_entries_req_at ::
  "byte list \<Rightarrow> nat \<Rightarrow> (AppendEntriesReq \<times> nat) option" where
  "decode_append_entries_req_at data pos = do {
     (tag, pos) \<leftarrow> read_u8 data pos;
     (if tag \<noteq> MSG_APPEND_ENTRIES_REQ then None else do {
       (t, pos) \<leftarrow> read_u64_le data pos;
       (ld, pos) \<leftarrow> read_u64_le data pos;
       (pi, pos) \<leftarrow> read_u64_le data pos;
       (pt, pos) \<leftarrow> read_u64_le data pos;
       (es, pos) \<leftarrow> read_log_entries data pos;
       (lc, pos) \<leftarrow> read_u64_le data pos;
       Some (\<lparr>ae_term = t, ae_leader_id = ld, ae_prev_log_index = pi, ae_prev_log_term = pt,
              ae_entries = es, ae_leader_commit = lc\<rparr>, pos) }) }"

definition encode_append_entries_resp :: "AppendEntriesResp \<Rightarrow> byte list" where
  "encode_append_entries_resp resp =
     (let buf = write_u8 [] MSG_APPEND_ENTRIES_RESP;
          buf = write_u64_le buf (aer_term resp);
          buf = write_bool buf (aer_success resp);
          buf = write_u64_le buf (aer_match_index resp)
      in buf)"

definition decode_append_entries_resp_at ::
  "byte list \<Rightarrow> nat \<Rightarrow> (AppendEntriesResp \<times> nat) option" where
  "decode_append_entries_resp_at data pos = do {
     (tag, pos) \<leftarrow> read_u8 data pos;
     (if tag \<noteq> MSG_APPEND_ENTRIES_RESP then None else do {
       (t, pos) \<leftarrow> read_u64_le data pos;
       (s, pos) \<leftarrow> read_bool data pos;
       (m, pos) \<leftarrow> read_u64_le data pos;
       Some (\<lparr>aer_term = t, aer_success = s, aer_match_index = m\<rparr>, pos) }) }"

definition encode_request_vote_req :: "RequestVoteReq \<Rightarrow> byte list" where
  "encode_request_vote_req req =
     (let buf = write_u8 [] MSG_REQUEST_VOTE_REQ;
          buf = write_u64_le buf (rv_term req);
          buf = write_u64_le buf (rv_candidate_id req);
          buf = write_u64_le buf (rv_last_log_index req);
          buf = write_u64_le buf (rv_last_log_term req)
      in buf)"

definition decode_request_vote_req_at ::
  "byte list \<Rightarrow> nat \<Rightarrow> (RequestVoteReq \<times> nat) option" where
  "decode_request_vote_req_at data pos = do {
     (tag, pos) \<leftarrow> read_u8 data pos;
     (if tag \<noteq> MSG_REQUEST_VOTE_REQ then None else do {
       (t, pos) \<leftarrow> read_u64_le data pos;
       (c, pos) \<leftarrow> read_u64_le data pos;
       (li, pos) \<leftarrow> read_u64_le data pos;
       (lt, pos) \<leftarrow> read_u64_le data pos;
       Some (\<lparr>rv_term = t, rv_candidate_id = c, rv_last_log_index = li,
              rv_last_log_term = lt\<rparr>, pos) }) }"

definition encode_request_vote_resp :: "RequestVoteResp \<Rightarrow> byte list" where
  "encode_request_vote_resp resp =
     (let buf = write_u8 [] MSG_REQUEST_VOTE_RESP;
          buf = write_u64_le buf (rvr_term resp);
          buf = write_bool buf (rvr_vote_granted resp)
      in buf)"

definition decode_request_vote_resp_at ::
  "byte list \<Rightarrow> nat \<Rightarrow> (RequestVoteResp \<times> nat) option" where
  "decode_request_vote_resp_at data pos = do {
     (tag, pos) \<leftarrow> read_u8 data pos;
     (if tag \<noteq> MSG_REQUEST_VOTE_RESP then None else do {
       (t, pos) \<leftarrow> read_u64_le data pos;
       (g, pos) \<leftarrow> read_bool data pos;
       Some (\<lparr>rvr_term = t, rvr_vote_granted = g\<rparr>, pos) }) }"

definition encode_install_snapshot_req :: "InstallSnapshotReq \<Rightarrow> byte list" where
  "encode_install_snapshot_req req =
     (let buf = write_u8 [] MSG_INSTALL_SNAPSHOT_REQ;
          buf = write_u64_le buf (is_term req);
          buf = write_u64_le buf (is_leader_id req);
          buf = write_u64_le buf (is_last_included_index req);
          buf = write_u64_le buf (is_last_included_term req);
          buf = write_bytes buf (is_data req)
      in buf)"

definition decode_install_snapshot_req_at ::
  "byte list \<Rightarrow> nat \<Rightarrow> (InstallSnapshotReq \<times> nat) option" where
  "decode_install_snapshot_req_at data pos = do {
     (tag, pos) \<leftarrow> read_u8 data pos;
     (if tag \<noteq> MSG_INSTALL_SNAPSHOT_REQ then None else do {
       (t, pos) \<leftarrow> read_u64_le data pos;
       (ld, pos) \<leftarrow> read_u64_le data pos;
       (li, pos) \<leftarrow> read_u64_le data pos;
       (lt, pos) \<leftarrow> read_u64_le data pos;
       (d, pos) \<leftarrow> read_bytes data pos;
       Some (\<lparr>is_term = t, is_leader_id = ld, is_last_included_index = li,
              is_last_included_term = lt, is_data = d\<rparr>, pos) }) }"

definition encode_install_snapshot_resp :: "InstallSnapshotResp \<Rightarrow> byte list" where
  "encode_install_snapshot_resp resp =
     (let buf = write_u8 [] MSG_INSTALL_SNAPSHOT_RESP;
          buf = write_u64_le buf (isr_term resp)
      in buf)"

definition decode_install_snapshot_resp_at ::
  "byte list \<Rightarrow> nat \<Rightarrow> (InstallSnapshotResp \<times> nat) option" where
  "decode_install_snapshot_resp_at data pos = do {
     (tag, pos) \<leftarrow> read_u8 data pos;
     (if tag \<noteq> MSG_INSTALL_SNAPSHOT_RESP then None else do {
       (t, pos) \<leftarrow> read_u64_le data pos;
       Some (\<lparr>isr_term = t\<rparr>, pos) }) }"

text \<open>The public decoders start at position 0 and ignore what follows the last field.\<close>

definition decode_append_entries_req :: "byte list \<Rightarrow> AppendEntriesReq option" where
  "decode_append_entries_req data = map_option fst (decode_append_entries_req_at data 0)"

definition decode_append_entries_resp :: "byte list \<Rightarrow> AppendEntriesResp option" where
  "decode_append_entries_resp data = map_option fst (decode_append_entries_resp_at data 0)"

definition decode_request_vote_req :: "byte list \<Rightarrow> RequestVoteReq option" where
  "decode_request_vote_req data = map_option fst (decode_request_vote_req_at data 0)"

definition decode_request_vote_resp :: "byte list \<Rightarrow> RequestVoteResp option" where
  "decode_request_vote_resp data = map_option fst (decode_request_vote_resp_at data 0)"

definition decode_install_snapshot_req :: "byte list \<Rightarrow> InstallSnapshotReq option" where
  "decode_install_snapshot_req data = map_option fst (decode_install_snapshot_req_at data 0)"

definition decode_install_snapshot_resp :: "byte list \<Rightarrow> InstallSnapshotResp option" where
  "decode_install_snapshot_resp data = map_option fst (decode_install_snapshot_resp_at data 0)"

section \<open>Frames, dispatch and connections\<close>

definition send_framed :: "byte list \<Rightarrow> byte list \<Rightarrow> byte list" where
  \<comment> \<open>the bytes written to the socket so far, and the payload\<close>
  "send_framed out payload = out @ to_le 4 (length payload mod 2 ^ 32) @ payload"

definition recv_framed :: "byte list \<Rightarrow> (byte list \<times> byte list) option" where
  \<comment> \<open>the bytes the socket still delivers before it is closed; \<open>None\<close> is an I/O error\<close>
  "recv_framed inp =
     (if length inp < 4 then None
      else let len = from_le (take 4 inp); rest = drop 4 inp
           in if length rest < len then None else Some (take len rest, drop len rest))"

definition dispatch_rpc :: "byte list \<Rightarrow> RaftNode \<Rightarrow> byte list option \<times> RaftNode" where
  "dispatch_rpc payload node =
     (if payload = [] then (None, node)
      else if hd payload = MSG_APPEND_ENTRIES_REQ then
        (case decode_append_entries_req payload of
           None \<Rightarrow> (None, node)
         | Some req \<Rightarrow> (let (node', resp) = handle_append_entries node req
                        in (Some (encode_append_entries_resp resp), node')))
      else if hd payload = MSG_REQUEST_VOTE_REQ then
        (case decode_request_vote_req payload of
           None \<Rightarrow> (None, node)
         | Some req \<Rightarrow> (let (node', resp) = handle_request_vote node req
                        in (Some (encode_request_vote_resp resp), node')))
      else if hd payload = MSG_INSTALL_SNAPSHOT_REQ then
        (case decode_install_snapshot_req payload of
           None \<Rightarrow> (None, node)
         | Some req \<Rightarrow> (let (node', resp) = handle_install_snapshot node req
                        in (Some (encode_install_snapshot_resp resp), node')))
      else (None, node))"

lemma recv_framed_shorter: "recv_framed inp = Some (p, rest) \<Longrightarrow> length rest < length inp"
  by (auto simp: recv_framed_def Let_def split: if_splits)

text \<open>
  \<open>handle_connection\<close> returns the bytes it wrote and the node. The socket accepts
  \<open>writes\<close> responses before a write fails.
\<close>

function handle_connection ::
  "nat \<Rightarrow> byte list \<Rightarrow> byte list \<Rightarrow> RaftNode \<Rightarrow> byte list \<times> RaftNode" where
  "handle_connection writes inp out node =
     (case recv_framed inp of
        None \<Rightarrow> (out, node)
      | Some (payload, rest) \<Rightarrow>
          (case dispatch_rpc payload node of
             (None, node') \<Rightarrow> (out, node')
           | (Some resp, node') \<Rightarrow>
               if writes = 0 then (out, node')
               else handle_connection (writes - 1) rest (send_framed out resp) node'))"
  by pat_completeness auto
termination
  by (relation "measure (\<lambda>(w, inp, out, node). length inp)")
     (auto dest: recv_framed_shorter)

declare handle_connection.simps [simp del]

text \<open>
  The client side: \<open>roundtrip peer addr payload\<close> is the exchange of one frame over the
  cached socket of the peer.
\<close>

definition send_append_entries ::
  "(nat \<Rightarrow> string \<Rightarrow> byte list \<Rightarrow> byte list option) \<Rightarrow> nat \<Rightarrow> string \<Rightarrow>
   AppendEntriesReq \<Rightarrow> AppendEntriesResp option" where
  "send_append_entries roundtrip peer addr req =
     Option.bind (roundtrip peer addr (encode_append_entries_req req)) decode_append_entries_resp"

definition send_request_vote ::
  "(nat \<Rightarrow> string \<Rightarrow> byte list \<Rightarrow> byte list option) \<Rightarrow> nat \<Rightarrow> string \<Rightarrow>
   RequestVoteReq \<Rightarrow> RequestVoteResp option" where
  "send_request_vote roundtrip peer addr req =
     Option.bind (roundtrip peer addr (encode_request_vote_req req)) decode_request_vote_resp"

definition send_install_snapshot ::
  "(nat \<Rightarrow> string \<Rightarrow> byte list \<Rightarrow> byte list option) \<Rightarrow> nat \<Rightarrow> string \<Rightarrow>
   InstallSnapshotReq \<Rightarrow> InstallSnapshotResp option" where
  "send_install_snapshot roundtrip peer addr req =
     Option.bind (roundtrip peer addr (encode_install_snapshot_req req)) decode_install_snapshot_resp"

section \<open>Reading back what was written\<close>

text \<open>
  \<open>reads rd bs x\<close>: from any position of any message, \<open>rd\<close> reads the bytes \<open>bs\<close> as the
  value \<open>x\<close> and stops right after them, and it fails on every strict prefix of \<open>bs\<close>.
\<close>

definition reads :: "(byte list \<Rightarrow> nat \<Rightarrow> ('a \<times> nat) option) \<Rightarrow> byte list \<Rightarrow> 'a \<Rightarrow> bool" where
  "reads rd bs x \<longleftrightarrow>
     (\<forall>pre post. rd (pre @ bs @ post) (length pre) = Some (x, length pre + length bs)) \<and>
     (\<forall>pre k. k < length bs \<longrightarrow> rd (pre @ take k bs) (length pre) = None)"

lemma readsD:
  assumes "reads rd bs x"
  shows reads_at: "rd (pre @ bs @ post) (length pre) = Some (x, length pre + length bs)"
    and reads_short: "k < length bs \<Longrightarrow> rd (pre @ take k bs) (length pre) = None"
  using assms by (auto simp: reads_def)

lemma reads_return: "reads (\<lambda>d p. Some (x, p)) [] x"
  by (simp add: reads_def)

lemma reads_bind:
  assumes r: "reads rd bs x" and k: "reads (\<lambda>d p. f d x p) cs y"
  shows "reads (\<lambda>d p. Option.bind (rd d p) (\<lambda>(v, p). f d v p)) (bs @ cs) y"
  unfolding reads_def
proof (intro conjI allI impI)
  fix pre post
  show "Option.bind (rd (pre @ (bs @ cs) @ post) (length pre))
      (\<lambda>(v, p). f (pre @ (bs @ cs) @ post) v p) = Some (y, length pre + length (bs @ cs))"
    using reads_at [OF r, of pre "cs @ post"] reads_at [OF k, of "pre @ bs" post]
    by (simp add: add.assoc)
next
  fix pre n assume n: "n < length (bs @ cs)"
  show "Option.bind (rd (pre @ take n (bs @ cs)) (length pre))
      (\<lambda>(v, p). f (pre @ take n (bs @ cs)) v p) = None"
  proof (cases "n < length bs")
    case True
    then show ?thesis using reads_short [OF r True] by simp
  next
    case False
    then have "take n (bs @ cs) = bs @ take (n - length bs) cs" by simp
    then show ?thesis
      using reads_at [OF r, of pre "take (n - length bs) cs"]
        reads_short [OF k, of "n - length bs" "pre @ bs"] n False by simp
  qed
qed

lemma reads_last:
  assumes "reads rd bs x" "g x = y"
  shows "reads (\<lambda>d p. Option.bind (rd d p) (\<lambda>(v, p). Some (g v, p))) bs y"
  using reads_bind [OF assms(1), of "\<lambda>d v p. Some (g v, p)" "[]" y] assms(2)
  by (simp add: reads_return)

lemma reads_guard: "\<not> c \<Longrightarrow> reads rd bs x \<Longrightarrow> reads (\<lambda>d p. if c then None else rd d p) bs x"
  by (simp add: reads_def)

lemma reads_u8: "reads read_u8 [v] v"
  by (auto simp: reads_def read_u8_def)

lemma reads_bind_u8:
  "reads (\<lambda>d p. f d v p) cs y \<Longrightarrow>
   reads (\<lambda>d p. Option.bind (read_u8 d p) (\<lambda>(v, p). f d v p)) (v # cs) y"
  using reads_bind [OF reads_u8, of f v cs y] by simp

lemma reads_u32: "v < 2 ^ 32 \<Longrightarrow> reads read_u32_le (to_le 4 v) v"
  by (auto simp: reads_def read_u32_le_def slice_append_right slice_append_left)

lemma reads_u64: "v < 2 ^ 64 \<Longrightarrow> reads read_u64_le (to_le 8 v) v"
  by (auto simp: reads_def read_u64_le_def slice_append_right slice_append_left)

definition bool_field :: "bool \<Rightarrow> byte list" where
  "bool_field v = [if v then 1 else 0]"

lemma reads_bool: "reads read_bool (bool_field v) v"
proof -
  have "reads read_bool [if v then 1 else 0] ((if v then 1 else 0 :: byte) \<noteq> 0)"
    unfolding read_bool_def [abs_def] by (rule reads_last [OF reads_u8 refl])
  then show ?thesis by (cases v) (simp_all add: bool_field_def)
qed

lemma reads_raw:
  "reads (\<lambda>d p. if p + length bs > length d then None else Some (slice d p (length bs), p + length bs)) bs bs"
  by (auto simp: reads_def slice_append_right slice_append_left)

definition bytes_field :: "byte list \<Rightarrow> byte list" where
  "bytes_field bs = to_le 4 (length bs) @ bs"

lemma reads_bytes:
  assumes "length bs < 2 ^ 32"
  shows "reads read_bytes (bytes_field bs) bs"
  unfolding read_bytes_def [abs_def] bytes_field_def
  by (rule reads_bind) (rule reads_u32 [OF assms], rule reads_raw)

text \<open>The messages a peer can send: every field in range, lengths in 32 bits.\<close>

definition entry_fits :: "LogEntry \<Rightarrow> bool" where
  "entry_fits e \<longleftrightarrow> le_term e < 2 ^ 64 \<and> le_index e < 2 ^ 64 \<and> length (le_data e) < 2 ^ 32"

definition append_req_fits :: "AppendEntriesReq \<Rightarrow> bool" where
  "append_req_fits r \<longleftrightarrow> ae_term r < 2 ^ 64 \<and> ae_leader_id r < 2 ^ 64 \<and>
     ae_prev_log_index r < 2 ^ 64 \<and> ae_prev_log_term r < 2 ^ 64 \<and>
     length (ae_entries r) < 2 ^ 32 \<and> list_all entry_fits (ae_entries r) \<and>
     ae_leader_commit r < 2 ^ 64"

definition append_resp_fits :: "AppendEntriesResp \<Rightarrow> bool" where
  "append_resp_fits r \<longleftrightarrow> aer_term r < 2 ^ 64 \<and> aer_match_index r < 2 ^ 64"

definition vote_req_fits :: "RequestVoteReq \<Rightarrow> bool" where
  "vote_req_fits r \<longleftrightarrow> rv_term r < 2 ^ 64 \<and> rv_candidate_id r < 2 ^ 64 \<and>
     rv_last_log_index r < 2 ^ 64 \<and> rv_last_log_term r < 2 ^ 64"

definition vote_resp_fits :: "RequestVoteResp \<Rightarrow> bool" where
  "vote_resp_fits r \<longleftrightarrow> rvr_term r < 2 ^ 64"

definition snap_req_fits :: "InstallSnapshotReq \<Rightarrow> bool" where
  "snap_req_fits r \<longleftrightarrow> is_term r < 2 ^ 64 \<and> is_leader_id r < 2 ^ 64 \<and>
     is_last_included_index r < 2 ^ 64 \<and> is_last_included_term r < 2 ^ 64 \<and>
     length (is_data r) < 2 ^ 32"

definition snap_resp_fits :: "InstallSnapshotResp \<Rightarrow> bool" where
  "snap_resp_fits r \<longleftrightarrow> isr_term r < 2 ^ 64"

lemmas fits_defs = entry_fits_def append_req_fits_def append_resp_fits_def vote_req_fits_def
  vote_resp_fits_def snap_req_fits_def snap_resp_fits_def

definition entry_bytes :: "LogEntry \<Rightarrow> byte list" where
  "entry_bytes e = to_le 8 (le_term e) @ to_le 8 (le_index e) @
     bytes_field (le_data e)"

lemma write_log_entry_eq: "entry_fits e \<Longrightarrow> write_log_entry buf e = buf @ entry_bytes e"
  by (simp add: entry_fits_def write_log_entry_def write_bytes_def write_u32_le_def
      write_u64_le_def entry_bytes_def bytes_field_def)

lemma foldl_write_log_entry:
  "list_all entry_fits es \<Longrightarrow> foldl write_log_entry buf es = buf @ concat (map entry_bytes es)"
  by (induction es arbitrary: buf) (simp_all add: write_log_entry_eq)

lemma reads_entry: "entry_fits e \<Longrightarrow> reads read_log_entry (entry_bytes e) e"
  unfolding read_log_entry_def [abs_def] entry_bytes_def entry_fits_def
  by (rule reads_last reads_bind reads_u64 reads_bytes | simp)+

lemma reads_entries:
  "list_all entry_fits es \<Longrightarrow>
   reads (read_n_entries (length es)) (concat (map entry_bytes es)) es"
proof (induction es)
  case Nil
  have "read_n_entries 0 = (\<lambda>d p. Some ([], p))" by (intro ext) simp
  then show ?case by (simp add: reads_return)
next
  case (Cons e es)
  have "read_n_entries (Suc (length es)) = (\<lambda>d p. Option.bind (read_log_entry d p) (\<lambda>(e, p).
      Option.bind (read_n_entries (length es) d p) (\<lambda>(es, p). Some (e # es, p))))"
    by (intro ext) simp
  moreover have "reads (\<lambda>d p. Option.bind (read_n_entries (length es) d p)
      (\<lambda>(es, p). Some (e # es, p))) (concat (map entry_bytes es)) (e # es)"
    using Cons by (intro reads_last) simp_all
  moreover have "reads read_log_entry (entry_bytes e) e"
    using Cons by (simp add: reads_entry)
  ultimately show ?case
    by (simp only: list.map concat.simps length_Cons) (rule reads_bind)
qed

definition entries_field :: "LogEntry list \<Rightarrow> byte list" where
  "entries_field es = to_le 4 (length es) @ concat (map entry_bytes es)"

lemma reads_log_entries:
  assumes "length es < 2 ^ 32" "list_all entry_fits es"
  shows "reads read_log_entries (entries_field es) es"
  unfolding read_log_entries_def [abs_def] entries_field_def
  by (rule reads_bind) (rule reads_u32 [OF assms(1)], rule reads_entries [OF assms(2)])

lemmas read_rules = reads_last reads_guard reads_bind_u8 reads_bind reads_u64 reads_bool
  reads_bytes reads_log_entries

lemma write_bool_field: "write_bool buf v = buf @ bool_field v"
  by (simp add: write_bool_def bool_field_def)

lemma write_bytes_field: "length bs < 2 ^ 32 \<Longrightarrow> write_bytes buf bs = buf @ bytes_field bs"
  by (simp add: write_bytes_def write_u32_le_def bytes_field_def)

lemma write_entries_field:
  "length es < 2 ^ 32 \<Longrightarrow> list_all entry_fits es \<Longrightarrow>
   write_log_entries buf es = buf @ entries_field es"
  by (simp add: write_log_entries_def foldl_write_log_entry write_u32_le_def entries_field_def)

lemma foldl_write_keeps: "\<exists>ys. foldl write_log_entry buf es = buf @ ys"
proof (induction es arbitrary: buf)
  case Nil
  then show ?case by simp
next
  case (Cons e es)
  have "\<exists>ys. write_log_entry buf e = buf @ ys"
    by (simp add: write_log_entry_def write_bytes_def write_u32_le_def write_u64_le_def)
  with Cons show ?case by (metis append.assoc foldl_Cons)
qed

lemma write_log_entries_keeps: "buf \<noteq> [] \<Longrightarrow>
    write_log_entries buf es \<noteq> [] \<and> hd (write_log_entries buf es) = hd buf"
  using foldl_write_keeps [of "write_u32_le buf (length es mod 2 ^ 32)" es]
  by (auto simp: write_log_entries_def write_u32_le_def)

lemmas write_defs = write_u8_def write_u64_le_def write_bool_field write_bytes_field
  write_entries_field

text \<open>The contract of a message: a writer, its reader and the values in range.\<close>

locale wire_format =
  fixes enc :: "'a \<Rightarrow> byte list"
    and dec_at :: "byte list \<Rightarrow> nat \<Rightarrow> ('a \<times> nat) option"
    and dec :: "byte list \<Rightarrow> 'a option"
    and fits :: "'a \<Rightarrow> bool"
    and tag :: byte
  assumes enc_reads: "fits m \<Longrightarrow> reads dec_at (enc m) m"
    and dec_eq: "dec data = map_option fst (dec_at data 0)"
    and enc_tag: "enc m \<noteq> [] \<and> hd (enc m) = tag"
begin

lemma dec_enc_append: "fits m \<Longrightarrow> dec (enc m @ junk) = Some m"
  using reads_at [OF enc_reads, of m "[]" junk] by (simp add: dec_eq)

lemma dec_enc: "fits m \<Longrightarrow> dec (enc m) = Some m"
  using dec_enc_append [of m "[]"] by simp

lemma dec_truncated: "fits m \<Longrightarrow> k < length (enc m) \<Longrightarrow> dec (take k (enc m)) = None"
  using reads_short [OF enc_reads, of m k "[]"] by (simp add: dec_eq)

lemma enc_prefix_free:
  assumes "fits m" "fits m'" "enc m @ xs = enc m' @ ys"
  shows "m = m' \<and> xs = ys"
  using assms dec_enc_append by (metis append_same_eq option.inject same_append_eq)

end

interpretation ae_req: wire_format encode_append_entries_req decode_append_entries_req_at
  decode_append_entries_req append_req_fits MSG_APPEND_ENTRIES_REQ
proof
  fix m
  show "append_req_fits m \<Longrightarrow> reads decode_append_entries_req_at (encode_append_entries_req m) m"
    unfolding decode_append_entries_req_at_def [abs_def] encode_append_entries_req_def Let_def
    by (simp add: write_defs append_req_fits_def, (rule read_rules | simp)+)
qed (simp_all add: decode_append_entries_req_def encode_append_entries_req_def Let_def write_u8_def
    write_u32_le_def write_u64_le_def write_bool_def write_bytes_def write_log_entries_keeps)

interpretation ae_resp: wire_format encode_append_entries_resp decode_append_entries_resp_at
  decode_append_entries_resp append_resp_fits MSG_APPEND_ENTRIES_RESP
proof
  fix m
  show "append_resp_fits m \<Longrightarrow> reads decode_append_entries_resp_at (encode_append_entries_resp m) m"
    unfolding decode_append_entries_resp_at_def [abs_def] encode_append_entries_resp_def Let_def
    by (simp add: write_defs append_resp_fits_def, (rule read_rules | simp)+)
qed (simp_all add: decode_append_entries_resp_def encode_append_entries_resp_def Let_def write_u8_def
    write_u32_le_def write_u64_le_def write_bool_def write_bytes_def write_log_entries_keeps)

interpretation rv_req: wire_format encode_request_vote_req decode_request_vote_req_at
  decode_request_vote_req vote_req_fits MSG_REQUEST_VOTE_REQ
proof
  fix m
  show "vote_req_fits m \<Longrightarrow> reads decode_request_vote_req_at (encode_request_vote_req m) m"
    unfolding decode_request_vote_req_at_def [abs_def] encode_request_vote_req_def Let_def
    by (simp add: write_defs vote_req_fits_def, (rule read_rules | simp)+)
qed (simp_all add: decode_request_vote_req_def encode_request_vote_req_def Let_def write_u8_def
    write_u32_le_def write_u64_le_def write_bool_def write_bytes_def write_log_entries_keeps)

interpretation rv_resp: wire_format encode_request_vote_resp decode_request_vote_resp_at
  decode_request_vote_resp vote_resp_fits MSG_REQUEST_VOTE_RESP
proof
  fix m
  show "vote_resp_fits m \<Longrightarrow> reads decode_request_vote_resp_at (encode_request_vote_resp m) m"
    unfolding decode_request_vote_resp_at_def [abs_def] encode_request_vote_resp_def Let_def
    by (simp add: write_defs vote_resp_fits_def, (rule read_rules | simp)+)
qed (simp_all add: decode_request_vote_resp_def encode_request_vote_resp_def Let_def write_u8_def
    write_u32_le_def write_u64_le_def write_bool_def write_bytes_def write_log_entries_keeps)

interpretation snap_req: wire_format encode_install_snapshot_req decode_install_snapshot_req_at
  decode_install_snapshot_req snap_req_fits MSG_INSTALL_SNAPSHOT_REQ
proof
  fix m
  show "snap_req_fits m \<Longrightarrow> reads decode_install_snapshot_req_at (encode_install_snapshot_req m) m"
    unfolding decode_install_snapshot_req_at_def [abs_def] encode_install_snapshot_req_def Let_def
    by (simp add: write_defs snap_req_fits_def, (rule read_rules | simp)+)
qed (simp_all add: decode_install_snapshot_req_def encode_install_snapshot_req_def Let_def write_u8_def
    write_u32_le_def write_u64_le_def write_bool_def write_bytes_def write_log_entries_keeps)

interpretation snap_resp: wire_format encode_install_snapshot_resp decode_install_snapshot_resp_at
  decode_install_snapshot_resp snap_resp_fits MSG_INSTALL_SNAPSHOT_RESP
proof
  fix m
  show "snap_resp_fits m \<Longrightarrow> reads decode_install_snapshot_resp_at (encode_install_snapshot_resp m) m"
    unfolding decode_install_snapshot_resp_at_def [abs_def] encode_install_snapshot_resp_def Let_def
    by (simp add: write_defs snap_resp_fits_def, (rule read_rules | simp)+)
qed (simp_all add: decode_install_snapshot_resp_def encode_install_snapshot_resp_def Let_def write_u8_def
    write_u32_le_def write_u64_le_def write_bool_def write_bytes_def write_log_entries_keeps)

section \<open>A remote call is a method call\<close>

text \<open>The three requests a peer sends, as the method calls they stand for.\<close>

fun rpc_bytes :: "node_op \<Rightarrow> byte list" where
  "rpc_bytes (AppendEntries r) = encode_append_entries_req r"
| "rpc_bytes (RequestVote r) = encode_request_vote_req r"
| "rpc_bytes (InstallSnapshot r) = encode_install_snapshot_req r"
| "rpc_bytes _ = []"

fun rpc_reply :: "node_op \<Rightarrow> RaftNode \<Rightarrow> byte list" where
  "rpc_reply (AppendEntries r) n = encode_append_entries_resp (snd (handle_append_entries n r))"
| "rpc_reply (RequestVote r) n = encode_request_vote_resp (snd (handle_request_vote n r))"
| "rpc_reply (InstallSnapshot r) n = encode_install_snapshot_resp (snd (handle_install_snapshot n r))"
| "rpc_reply _ n = []"

fun rpc_fits :: "node_op \<Rightarrow> bool" where
  "rpc_fits (AppendEntries r) = append_req_fits r"
| "rpc_fits (RequestVote r) = vote_req_fits r"
| "rpc_fits (InstallSnapshot r) = snap_req_fits r"
| "rpc_fits _ = False"

definition frame :: "byte list \<Rightarrow> byte list" where
  "frame p = send_framed [] p"

fun replies :: "node_op list \<Rightarrow> RaftNode \<Rightarrow> byte list" where
  "replies [] n = []"
| "replies (r # rs) n = frame (rpc_reply r n) @ replies rs (node_step r n)"

lemma dispatch_rpc_request:
  "rpc_fits r \<Longrightarrow> dispatch_rpc (rpc_bytes r) n = (Some (rpc_reply r n), node_step r n)"
proof (cases r)
  case (AppendEntries m)
  assume "rpc_fits r"
  then show ?thesis
    using ae_req.dec_enc [of m] ae_req.enc_tag [of m] AppendEntries
    by (simp add: dispatch_rpc_def split: prod.split)
next
  case (RequestVote m)
  assume "rpc_fits r"
  then show ?thesis
    using rv_req.dec_enc [of m] rv_req.enc_tag [of m] RequestVote
    by (simp add: dispatch_rpc_def msg_tags split: prod.split)
next
  case (InstallSnapshot m)
  assume "rpc_fits r"
  then show ?thesis
    using snap_req.dec_enc [of m] snap_req.enc_tag [of m] InstallSnapshot
    by (simp add: dispatch_rpc_def msg_tags split: prod.split)
qed auto

lemma dispatch_rpc_None: "fst (dispatch_rpc p n) = None \<Longrightarrow> snd (dispatch_rpc p n) = n"
  by (auto simp: dispatch_rpc_def split: if_splits option.splits prod.splits)

lemma recv_frame:
  "length p < 2 ^ 32 \<Longrightarrow> recv_framed (frame p @ rest) = Some (p, rest)"
  by (simp add: frame_def send_framed_def recv_framed_def Let_def)

lemma recv_frame_cut:
  assumes "length p < 2 ^ 32" "k < length (frame p)"
  shows "recv_framed (take k (frame p)) = None"
  using assms by (auto simp: frame_def send_framed_def recv_framed_def Let_def)

lemma send_framed_frame: "send_framed out p = out @ frame p"
  by (simp add: frame_def send_framed_def)

lemma handle_connection_requests:
  assumes "list_all rpc_fits rs" "\<forall>r \<in> set rs. length (rpc_bytes r) < 2 ^ 32"
    "length rs \<le> w" "recv_framed rest = None"
  shows "handle_connection w (concat (map (\<lambda>r. frame (rpc_bytes r)) rs) @ rest) out n =
    (out @ replies rs n, node_run rs n)"
  using assms
proof (induction rs arbitrary: w out n)
  case Nil
  then show ?case by (simp add: handle_connection.simps [of w rest])
next
  case (Cons r rs)
  then obtain w' where w: "w = Suc w'" by (cases w) auto
  with Cons show ?case
    by (subst handle_connection.simps)
       (simp add: recv_frame dispatch_rpc_request send_framed_frame)
qed

lemma log_last_index_less: "log_last_index l < 2 ^ 64"
  unfolding log_last_index_def by (rule u64_add_less)

lemma append_response_fits:
  assumes "rn_current_term n < 2 ^ 64" "append_req_fits r"
  shows "append_resp_fits (snd (handle_append_entries n r))"
  using assms log_last_index_less
  by (simp add: append_resp_fits_def append_req_fits_def handle_append_entries_def Let_def
      split: option.split)

lemma vote_response_fits:
  assumes "rn_current_term n < 2 ^ 64" "vote_req_fits r"
  shows "vote_resp_fits (snd (handle_request_vote n r))"
  using assms by (simp add: vote_resp_fits_def vote_req_fits_def handle_request_vote_def Let_def)

lemma snap_response_fits:
  assumes "rn_current_term n < 2 ^ 64" "snap_req_fits r"
  shows "snap_resp_fits (snd (handle_install_snapshot n r))"
  using assms
  by (simp add: snap_resp_fits_def snap_req_fits_def handle_install_snapshot_def Let_def)

text \<open>C22. Round trip of the wire format: each of the six messages with fields in range is
  decoded to itself, also when other bytes follow it, and no strict prefix of its encoding
  is decoded at all.\<close>

theorem wire_roundtrip:
  "(append_req_fits a \<longrightarrow> decode_append_entries_req (encode_append_entries_req a @ junk) = Some a \<and>
     (\<forall>k < length (encode_append_entries_req a).
        decode_append_entries_req (take k (encode_append_entries_req a)) = None)) \<and>
   (append_resp_fits b \<longrightarrow> decode_append_entries_resp (encode_append_entries_resp b @ junk) = Some b \<and>
     (\<forall>k < length (encode_append_entries_resp b).
        decode_append_entries_resp (take k (encode_append_entries_resp b)) = None)) \<and>
   (vote_req_fits c \<longrightarrow> decode_request_vote_req (encode_request_vote_req c @ junk) = Some c \<and>
     (\<forall>k < length (encode_request_vote_req c).
        decode_request_vote_req (take k (encode_request_vote_req c)) = None)) \<and>
   (vote_resp_fits d \<longrightarrow> decode_request_vote_resp (encode_request_vote_resp d @ junk) = Some d \<and>
     (\<forall>k < length (encode_request_vote_resp d).
        decode_request_vote_resp (take k (encode_request_vote_resp d)) = None)) \<and>
   (snap_req_fits e \<longrightarrow> decode_install_snapshot_req (encode_install_snapshot_req e @ junk) = Some e \<and>
     (\<forall>k < length (encode_install_snapshot_req e).
        decode_install_snapshot_req (take k (encode_install_snapshot_req e)) = None)) \<and>
   (snap_resp_fits f \<longrightarrow> decode_install_snapshot_resp (encode_install_snapshot_resp f @ junk) = Some f \<and>
     (\<forall>k < length (encode_install_snapshot_resp f).
        decode_install_snapshot_resp (take k (encode_install_snapshot_resp f)) = None))"
  by (simp add: ae_req.dec_enc_append ae_resp.dec_enc_append rv_req.dec_enc_append
      rv_resp.dec_enc_append snap_req.dec_enc_append snap_resp.dec_enc_append
      ae_req.dec_truncated ae_resp.dec_truncated rv_req.dec_truncated rv_resp.dec_truncated
      snap_req.dec_truncated snap_resp.dec_truncated)

definition ex_append_req :: AppendEntriesReq where
  "ex_append_req = \<lparr>ae_term = 42, ae_leader_id = 7, ae_prev_log_index = 10, ae_prev_log_term = 5,
     ae_entries = [\<lparr>le_term = 1, le_index = 1, le_data = [104, 105]\<rparr>,
                   \<lparr>le_term = 2, le_index = 2, le_data = []\<rparr>], ae_leader_commit = 9\<rparr>"

definition ex_snap_req :: InstallSnapshotReq where
  "ex_snap_req = \<lparr>is_term = 1, is_leader_id = 2, is_last_included_index = 3,
     is_last_included_term = 1, is_data = [1, 2, 3]\<rparr>"

theorem wire_roundtrip_witness:
  "decode_append_entries_req (encode_append_entries_req ex_append_req @ [255]) = Some ex_append_req \<and>
   decode_install_snapshot_req (take 9 (encode_install_snapshot_req ex_snap_req)) = None"
proof -
  have "append_req_fits ex_append_req" "snap_req_fits ex_snap_req"
    "9 < length (encode_install_snapshot_req ex_snap_req)"
    by code_simp+
  then show ?thesis
    using wire_roundtrip [of ex_append_req "[255]" undefined undefined undefined ex_snap_req undefined]
    by blast
qed

text \<open>C19. A remote call is a method call: over a connection that delivers frames, the three
  \<^verbatim>\<open>send_*\<close> calls return exactly what the method of the remote node returns, the remote
  node is left as the method leaves it, and a payload that is not understood leaves the
  node untouched.\<close>

theorem remote_call_is_method_call:
  assumes "rn_current_term node < 2 ^ 64"
  shows "(append_req_fits a \<longrightarrow>
      send_append_entries (\<lambda>_ _ p. fst (dispatch_rpc p node)) peer addr a =
        Some (snd (handle_append_entries node a)) \<and>
      snd (dispatch_rpc (encode_append_entries_req a) node) = fst (handle_append_entries node a)) \<and>
    (vote_req_fits v \<longrightarrow>
      send_request_vote (\<lambda>_ _ p. fst (dispatch_rpc p node)) peer addr v =
        Some (snd (handle_request_vote node v)) \<and>
      snd (dispatch_rpc (encode_request_vote_req v) node) = fst (handle_request_vote node v)) \<and>
    (snap_req_fits s \<longrightarrow>
      send_install_snapshot (\<lambda>_ _ p. fst (dispatch_rpc p node)) peer addr s =
        Some (snd (handle_install_snapshot node s)) \<and>
      snd (dispatch_rpc (encode_install_snapshot_req s) node) = fst (handle_install_snapshot node s)) \<and>
    (fst (dispatch_rpc payload node) = None \<longrightarrow> snd (dispatch_rpc payload node) = node)"
  using dispatch_rpc_request [of "AppendEntries a" node] dispatch_rpc_request [of "RequestVote v" node]
    dispatch_rpc_request [of "InstallSnapshot s" node] assms
  by (simp add: send_append_entries_def send_request_vote_def send_install_snapshot_def
      append_response_fits vote_response_fits snap_response_fits
      ae_resp.dec_enc rv_resp.dec_enc snap_resp.dec_enc dispatch_rpc_None)

theorem remote_call_is_method_call_witness:
  "send_append_entries (\<lambda>_ _ p. fst (dispatch_rpc p (node_new (config3 1 [2, 3])))) 2 ''n2'' ex_append_req =
     Some (snd (handle_append_entries (node_new (config3 1 [2, 3])) ex_append_req))"
proof -
  have "append_req_fits ex_append_req" "rn_current_term (node_new (config3 1 [2, 3])) < 2 ^ 64"
    by code_simp+
  then show ?thesis
    using remote_call_is_method_call [of "node_new (config3 1 [2, 3])" ex_append_req] by blast
qed

text \<open>A connection serves its requests in order: given the frames of a list of requests
  followed by a frame cut at any byte, the server runs exactly the methods of the complete
  requests, in order, and writes one framed reply for each.\<close>

lemma connection_serves_in_order:
  assumes "list_all rpc_fits rs" "\<forall>r \<in> set rs. length (rpc_bytes r) < 2 ^ 32"
    and "length rs \<le> writes" "length p < 2 ^ 32" "k < length (frame p)"
  shows "handle_connection writes
      (concat (map (\<lambda>r. frame (rpc_bytes r)) rs) @ take k (frame p)) [] node =
    (replies rs node, node_run rs node)"
  using handle_connection_requests [OF assms(1-3) recv_frame_cut [OF assms(4,5)], of "[]" node]
  by simp

end
