(* ===== verification/Rust_Str.thy ===== *)
theory Rust_Str
  imports Prelude "HOL-Library.List_Lexorder" "HOL-Library.AList"
begin

text \<open>
  Strings and hash maps of the standard library, as the components use them. A \<^verbatim>\<open>&str\<close>
  is its UTF-8 byte list; \<open>utf8_valid\<close> is the test of \<^verbatim>\<open>std::str::from_utf8\<close>. The order
  of strings and of \<^verbatim>\<open>Vec<u8>\<close> keys is the lexicographic order of bytes. A
  \<^verbatim>\<open>HashMap\<close> is an association list with distinct keys whose order stands for the
  iteration order of the map; what a component computes from it must not depend on that
  order. A \<^verbatim>\<open>BTreeMap\<close> is an association list sorted by key.
\<close>

type_synonym str = "byte list"

section \<open>UTF-8\<close>

definition utf8_cont :: "byte \<Rightarrow> bool" where
  "utf8_cont b \<longleftrightarrow> 0x80 \<le> b \<and> b \<le> 0xBF"

fun utf8_first :: "byte list \<Rightarrow> nat option" where
  \<comment> \<open>the width of the first character\<close>
  "utf8_first [] = None"
| "utf8_first (a # bs) =
     (if a < 0x80 then Some 1
      else if 0xC2 \<le> a \<and> a \<le> 0xDF then
        (case bs of b # _ \<Rightarrow> if utf8_cont b then Some 2 else None | _ \<Rightarrow> None)
      else if 0xE0 \<le> a \<and> a \<le> 0xEF then
        (case bs of
           b # c # _ \<Rightarrow>
             if utf8_cont b \<and> utf8_cont c \<and> (a = 0xE0 \<longrightarrow> 0xA0 \<le> b) \<and> (a = 0xED \<longrightarrow> b \<le> 0x9F)
             then Some 3 else None
         | _ \<Rightarrow> None)
      else if 0xF0 \<le> a \<and> a \<le> 0xF4 then
        (case bs of
           b # c # d # _ \<Rightarrow>
             if utf8_cont b \<and> utf8_cont c \<and> utf8_cont d \<and>
                (a = 0xF0 \<longrightarrow> 0x90 \<le> b) \<and> (a = 0xF4 \<longrightarrow> b \<le> 0x8F)
             then Some 4 else None
         | _ \<Rightarrow> None)
      else None)"

lemma utf8_first_width: "utf8_first xs = Some n \<Longrightarrow> 0 < n \<and> n \<le> length xs"
  by (cases xs) (auto split: if_splits list.splits)

lemma utf8_first_append: "utf8_first xs = Some n \<Longrightarrow> utf8_first (xs @ ys) = Some n"
  by (cases xs) (auto split: if_splits list.splits)

function utf8_valid :: "byte list \<Rightarrow> bool" where
  "utf8_valid xs =
     (if xs = [] then True
      else case utf8_first xs of None \<Rightarrow> False | Some n \<Rightarrow> utf8_valid (drop n xs))"
  by pat_completeness auto
termination
  by (relation "measure length") (auto dest: utf8_first_width)

declare utf8_valid.simps [simp del]

lemma utf8_valid_Nil [simp]: "utf8_valid []"
  by (simp add: utf8_valid.simps)

lemma utf8_valid_append: "utf8_valid xs \<Longrightarrow> utf8_valid ys \<Longrightarrow> utf8_valid (xs @ ys)"
proof (induction xs rule: utf8_valid.induct)
  case (1 xs)
  show ?case
  proof (cases "xs = []")
    case True
    with 1 show ?thesis by simp
  next
    case False
    with "1.prems"(1) obtain n where n: "utf8_first xs = Some n" "utf8_valid (drop n xs)"
      by (auto simp: utf8_valid.simps [of xs] split: option.splits)
    have "utf8_valid (drop n xs @ ys)"
      using "1.IH" [OF False n(1)] n(2) "1.prems"(2) by simp
    then show ?thesis
      using False n(1) utf8_first_width [OF n(1)] utf8_first_append [OF n(1), of ys]
      by (simp add: utf8_valid.simps [of "xs @ ys"])
  qed
qed

lemma utf8_valid_ascii: "b < 0x80 \<Longrightarrow> utf8_valid (b # xs) = utf8_valid xs"
  by (simp add: utf8_valid.simps [of "b # xs"])

section \<open>Searching and splitting\<close>

fun str_find :: "byte \<Rightarrow> str \<Rightarrow> nat option" where
  "str_find c [] = None"
| "str_find c (x # xs) = (if x = c then Some 0 else map_option Suc (str_find c xs))"

definition strip_prefix :: "str \<Rightarrow> str \<Rightarrow> str option" where
  "strip_prefix p s = (if take (length p) s = p then Some (drop (length p) s) else None)"

fun split_inclusive :: "byte \<Rightarrow> str \<Rightarrow> str list" where
  "split_inclusive c [] = []"
| "split_inclusive c (x # xs) =
     (if x = c then [x] # split_inclusive c xs
      else case split_inclusive c xs of [] \<Rightarrow> [[x]] | l # ls \<Rightarrow> (x # l) # ls)"

definition strip_newline :: "str \<Rightarrow> str" where
  \<comment> \<open>a trailing line feed is removed, and then a trailing carriage return\<close>
  "strip_newline l =
     (if l \<noteq> [] \<and> last l = 10
      then let l' = butlast l in if l' \<noteq> [] \<and> last l' = 13 then butlast l' else l'
      else l)"

definition str_lines :: "str \<Rightarrow> str list" where
  "str_lines s = map strip_newline (split_inclusive 10 s)"

lemma str_find_Some:
  "str_find c xs = Some i \<Longrightarrow> i < length xs \<and> xs ! i = c \<and> c \<notin> set (take i xs)"
proof (induction xs arbitrary: i)
  case Nil
  then show ?case by simp
next
  case (Cons x xs)
  then show ?case by (cases i) (auto split: if_splits)
qed

lemma str_find_append: "c \<notin> set xs \<Longrightarrow> str_find c (xs @ c # ys) = Some (length xs)"
  by (induction xs) auto

lemma str_find_split:
  "str_find c xs = Some i \<Longrightarrow> xs = take i xs @ c # drop (Suc i) xs"
  using str_find_Some [of c xs i] by (metis id_take_nth_drop)

lemma split_inclusive_line:
  "c \<notin> set l \<Longrightarrow> split_inclusive c (l @ c # xs) = (l @ [c]) # split_inclusive c xs"
  by (induction l) auto

lemma str_lines_line:
  "10 \<notin> set l \<Longrightarrow> l = [] \<or> last l \<noteq> 13 \<Longrightarrow> str_lines (l @ 10 # xs) = l # str_lines xs"
  by (auto simp: str_lines_def split_inclusive_line strip_newline_def Let_def)

lemma str_lines_Nil [simp]: "str_lines [] = []"
  by (simp add: str_lines_def)

section \<open>Characters and pieces of strings\<close>

text \<open>A \<^verbatim>\<open>char\<close> is the list of its bytes.\<close>

function chars_of :: "str \<Rightarrow> str list" where
  "chars_of s =
     (if s = [] then []
      else case utf8_first s of Some n \<Rightarrow> take n s # chars_of (drop n s) | None \<Rightarrow> [s])"
  by pat_completeness auto
termination
  by (relation "measure length") (auto dest: utf8_first_width)

declare chars_of.simps [simp del]

lemma chars_of_Nil [simp]: "chars_of [] = []"
  by (simp add: chars_of.simps)

lemma chars_of_ascii: "b < 0x80 \<Longrightarrow> chars_of (b # s) = [b] # chars_of s"
  by (simp add: chars_of.simps [of "b # s"])

lemma concat_chars_of [simp]: "concat (chars_of s) = s"
proof (induction s rule: chars_of.induct)
  case (1 s)
  then show ?case by (cases "utf8_first s") (simp_all add: chars_of.simps [of s])
qed

text \<open>\<^verbatim>\<open>String::from_utf8_lossy\<close>: each longest part of a malformed sequence becomes one replacement character.\<close>

definition utf8_bad_len :: "byte list \<Rightarrow> nat" where
  "utf8_bad_len s =
     (case s of
        a # b # r \<Rightarrow>
          if utf8_cont b \<and> (0xE0 \<le> a \<and> a \<le> 0xEF \<and> (a = 0xE0 \<longrightarrow> 0xA0 \<le> b) \<and> (a = 0xED \<longrightarrow> b \<le> 0x9F)) then 2
          else if utf8_cont b \<and> (0xF0 \<le> a \<and> a \<le> 0xF4 \<and> (a = 0xF0 \<longrightarrow> 0x90 \<le> b) \<and> (a = 0xF4 \<longrightarrow> b \<le> 0x8F))
          then (case r of c # _ \<Rightarrow> if utf8_cont c then 3 else 2 | [] \<Rightarrow> 2)
          else 1
      | _ \<Rightarrow> 1)"

lemma utf8_bad_len_pos: "0 < utf8_bad_len s"
  by (simp add: utf8_bad_len_def split: list.split)

function utf8_lossy :: "byte list \<Rightarrow> str" where
  "utf8_lossy s =
     (if s = [] then []
      else case utf8_first s of
          Some n \<Rightarrow> take n s @ utf8_lossy (drop n s)
        | None \<Rightarrow> [0xEF, 0xBF, 0xBD] @ utf8_lossy (drop (utf8_bad_len s) s))"
  by pat_completeness auto
termination
  by (relation "measure length") (auto dest: utf8_first_width simp: utf8_bad_len_pos)

declare utf8_lossy.simps [simp del]

lemma utf8_lossy_valid: "utf8_valid s \<Longrightarrow> utf8_lossy s = s"
proof (induction s rule: utf8_valid.induct)
  case (1 s)
  then show ?case
    using utf8_valid.simps [of s] utf8_lossy.simps [of s] by (auto split: option.splits if_splits)
qed

fun str_split :: "byte \<Rightarrow> str \<Rightarrow> str list" where
  \<comment> \<open>\<^verbatim>\<open>str::split\<close> at a character of one byte\<close>
  "str_split c [] = [[]]"
| "str_split c (x # xs) = (if x = c then [] # str_split c xs else (x # hd (str_split c xs)) # tl (str_split c xs))"

definition trim_matches :: "byte \<Rightarrow> str \<Rightarrow> str" where
  "trim_matches c s = rev (dropWhile (\<lambda>x. x = c) (rev (dropWhile (\<lambda>x. x = c) s)))"

definition starts_with :: "str \<Rightarrow> str \<Rightarrow> bool" where
  "starts_with p s \<longleftrightarrow> take (length p) s = p"

definition ends_with :: "str \<Rightarrow> str \<Rightarrow> bool" where
  "ends_with p s \<longleftrightarrow> length p \<le> length s \<and> drop (length s - length p) s = p"

definition str_join :: "str \<Rightarrow> str list \<Rightarrow> str" where
  "str_join sep ss = (case ss of [] \<Rightarrow> [] | s # r \<Rightarrow> s @ concat (map (\<lambda>t. sep @ t) r))"

section \<open>Letter case and searching\<close>

definition ascii_lower :: "byte \<Rightarrow> byte" where
  "ascii_lower b = (if 65 \<le> b \<and> b \<le> 90 then b + 32 else b)"

definition eq_ignore_ascii_case :: "str \<Rightarrow> str \<Rightarrow> bool" where
  "eq_ignore_ascii_case a b = (map ascii_lower a = map ascii_lower b)"

fun position :: "('a \<Rightarrow> bool) \<Rightarrow> 'a list \<Rightarrow> nat option" where
  "position p [] = None"
| "position p (x # xs) = (if p x then Some 0 else map_option Suc (position p xs))"

lemma position_Some: "position p xs = Some i \<Longrightarrow> i < length xs \<and> p (xs ! i)"
  by (induction xs arbitrary: i) (auto split: if_splits)

section \<open>Hash maps\<close>

type_synonym ('k, 'v) hmap = "('k \<times> 'v) list"

abbreviation hm_wf :: "('k, 'v) hmap \<Rightarrow> bool" where
  "hm_wf m \<equiv> distinct (map fst m)"

abbreviation hm_get :: "('k, 'v) hmap \<Rightarrow> 'k \<Rightarrow> 'v option" where
  "hm_get m k \<equiv> map_of m k"

abbreviation hm_insert :: "'k \<Rightarrow> 'v \<Rightarrow> ('k, 'v) hmap \<Rightarrow> ('k, 'v) hmap" where
  "hm_insert k v m \<equiv> AList.update k v m"

abbreviation hm_remove :: "'k \<Rightarrow> ('k, 'v) hmap \<Rightarrow> ('k, 'v) hmap" where
  "hm_remove k m \<equiv> AList.delete k m"

lemma hm_insert_get: "hm_get (hm_insert k v m) = (hm_get m)(k \<mapsto> v)"
  by (rule update_conv')

lemma hm_remove_get: "hm_get (hm_remove k m) = (hm_get m)(k := None)"
  by (rule delete_conv')

lemma hm_wf_insert [simp]: "hm_wf m \<Longrightarrow> hm_wf (hm_insert k v m)"
  by (rule distinct_update)

lemma hm_wf_remove [simp]: "hm_wf m \<Longrightarrow> hm_wf (hm_remove k m)"
  by (rule distinct_delete)

lemma set_hm_insert: "set (hm_insert k v m) \<subseteq> insert (k, v) (set m)"
  by (induction m) auto

lemma set_hm_remove: "set (hm_remove k m) \<subseteq> set m"
  by (auto simp: AList.delete_eq)

lemma hm_set_eq: "hm_wf m \<Longrightarrow> hm_wf m' \<Longrightarrow> hm_get m = hm_get m' \<Longrightarrow> set m = set m'"
  by (metis map_of_inject_set)

lemma hm_sorted_unique:
  fixes m m' :: "('k::linorder, 'v) hmap"
  assumes "hm_wf m" "hm_wf m'" "hm_get m = hm_get m'"
  shows "sort_key fst m = sort_key fst m'"
proof (rule map_sorted_distinct_set_unique [where f = fst])
  show "inj_on fst (set (sort_key fst m) \<union> set (sort_key fst m'))"
    using assms hm_set_eq [OF assms] by (simp add: distinct_map)
qed (use assms hm_set_eq [OF assms] in \<open>simp_all add: distinct_map\<close>)

lemma hm_get_sorted: "hm_wf m \<Longrightarrow> hm_get (sort_key fst m) = hm_get m"
  by (rule map_of_inject_set [THEN iffD2]) (simp_all add: distinct_map)

section \<open>Ordered maps\<close>

type_synonym ('k, 'v) btmap = "('k \<times> 'v) list"

abbreviation bt_wf :: "('k::linorder, 'v) btmap \<Rightarrow> bool" where
  "bt_wf m \<equiv> sorted_wrt (<) (map fst m)"

fun bt_insert :: "'k::linorder \<Rightarrow> 'v \<Rightarrow> ('k, 'v) btmap \<Rightarrow> ('k, 'v) btmap" where
  "bt_insert k v [] = [(k, v)]"
| "bt_insert k v ((k', v') # m) =
     (if k < k' then (k, v) # (k', v') # m
      else if k = k' then (k, v) # m
      else (k', v') # bt_insert k v m)"

definition bt_remove :: "'k \<Rightarrow> ('k, 'v) btmap \<Rightarrow> ('k, 'v) btmap" where
  "bt_remove k m = filter (\<lambda>(k', _). k' \<noteq> k) m"

lemma set_bt_insert: "set (bt_insert k v m) \<subseteq> insert (k, v) (set m)"
  by (induction k v m rule: bt_insert.induct) auto

lemma fst_bt_insert: "fst ` set (bt_insert k v m) = insert k (fst ` set m)"
  by (induction k v m rule: bt_insert.induct) auto

lemma bt_wf_insert [simp]: "bt_wf m \<Longrightarrow> bt_wf (bt_insert k v m)"
proof (induction k v m rule: bt_insert.induct)
  case (2 k v k' v' m)
  then show ?case
    using fst_bt_insert [of k v m] by (fastforce simp flip: image_set)
qed simp

lemma bt_wf_remove [simp]: "bt_wf m \<Longrightarrow> bt_wf (bt_remove k m)"
  by (induction m) (auto simp: bt_remove_def)

lemma bt_insert_last: "\<forall>k' \<in> fst ` set m. k' < k \<Longrightarrow> bt_insert k v m = m @ [(k, v)]"
  by (induction k v m rule: bt_insert.induct) auto

lemma bt_insert_get: "bt_wf m \<Longrightarrow> map_of (bt_insert k v m) = (map_of m)(k \<mapsto> v)"
proof (induction k v m rule: bt_insert.induct)
  case (2 k v k' v' m)
  then have "k < k' \<Longrightarrow> map_of m k = None"
    by (auto simp: map_of_eq_None_iff)
  with 2 show ?case by (auto simp: fun_eq_iff)
qed auto

lemma bt_remove_get: "map_of (bt_remove k m) = (map_of m)(k := None)"
  by (induction m) (auto simp: bt_remove_def fun_eq_iff)

lemma bt_wf_distinct: "bt_wf m \<Longrightarrow> distinct (map fst m)"
  by (simp add: strict_sorted_iff)

end
