(* ===== verification/Kv_State_Machine.thy ===== *)
theory Kv_State_Machine
  imports Raft_Log Rust_Str
begin

text \<open>
  The replicated key-value machine of \<^verbatim>\<open>crates/raft/src/state_machine.rs\<close>. The trait
  \<^verbatim>\<open>StateMachine\<close> is the locale \<open>state_machine\<close>: its laws are what the snapshot machinery
  of the log relies on, that a restored snapshot behaves as the state it was taken from.
  The locale is interpreted on the key-value machine. A log entry whose key or value
  contains a line break is outside the text format of the snapshot; \<open>line_safe\<close> says
  which entries are inside.
\<close>

section \<open>The key-value machine\<close>

type_synonym kv = "(str, str) hmap"

definition kv_new :: kv where
  "kv_new = []"

definition kv_get :: "kv \<Rightarrow> str \<Rightarrow> str option" where
  "kv_get sm k = hm_get sm k"

definition SET_PREFIX :: str where "SET_PREFIX = [83, 69, 84, 32]"
definition DEL_PREFIX :: str where "DEL_PREFIX = [68, 69, 76, 32]"

definition kv_apply :: "LogEntry \<Rightarrow> kv \<Rightarrow> kv" where
  "kv_apply e sm =
     (if \<not> utf8_valid (le_data e) then sm
      else case strip_prefix SET_PREFIX (le_data e) of
             Some rest \<Rightarrow>
               (case str_find 61 rest of
                  Some eq \<Rightarrow> hm_insert (take eq rest) (drop (eq + 1) rest) sm
                | None \<Rightarrow> sm)
           | None \<Rightarrow>
               (case strip_prefix DEL_PREFIX (le_data e) of
                  Some key \<Rightarrow> hm_remove key sm
                | None \<Rightarrow> sm))"

definition kv_line :: "str \<times> str \<Rightarrow> str" where
  "kv_line kv = fst kv @ [61] @ snd kv @ [10]"

definition kv_snapshot :: "kv \<Rightarrow> byte list" where
  "kv_snapshot sm = concat (map kv_line (sort_key fst sm))"

definition restore_line :: "kv \<Rightarrow> str \<Rightarrow> kv" where
  "restore_line sm line =
     (case str_find 61 line of
        Some eq \<Rightarrow> hm_insert (take eq line) (drop (eq + 1) line) sm
      | None \<Rightarrow> sm)"

definition kv_restore :: "byte list \<Rightarrow> kv" where
  "kv_restore snapshot =
     (if \<not> utf8_valid snapshot then kv_new
      else foldl restore_line kv_new (str_lines snapshot))"

section \<open>The interface\<close>

text \<open>
  \<open>equiv\<close> is observational equality of two states, \<open>snap_ok\<close> the states a snapshot can
  represent, \<open>entry_ok\<close> the entries that stay inside them.
\<close>

locale state_machine =
  fixes app :: "LogEntry \<Rightarrow> 's \<Rightarrow> 's"
    and snap :: "'s \<Rightarrow> byte list"
    and rest :: "byte list \<Rightarrow> 's"
    and equiv :: "'s \<Rightarrow> 's \<Rightarrow> bool"
    and snap_ok :: "'s \<Rightarrow> bool"
    and entry_ok :: "LogEntry \<Rightarrow> bool"
  assumes equiv_refl: "snap_ok s \<Longrightarrow> equiv s s"
    and equiv_app: "equiv s t \<Longrightarrow> equiv (app e s) (app e t)"
    and app_ok: "snap_ok s \<Longrightarrow> entry_ok e \<Longrightarrow> snap_ok (app e s)"
    and snap_rest: "snap_ok s \<Longrightarrow> equiv (rest (snap s)) s"
    and snap_equiv: "equiv s t \<Longrightarrow> snap s = snap t"
begin

lemma run_ok: "snap_ok s \<Longrightarrow> list_all entry_ok es \<Longrightarrow> snap_ok (fold app es s)"
  by (induction es arbitrary: s) (auto simp: app_ok)

lemma run_equiv: "equiv s t \<Longrightarrow> equiv (fold app es s) (fold app es t)"
  by (induction es arbitrary: s t) (auto simp: equiv_app)

lemma snapshot_then_suffix:
  assumes "snap_ok s" "list_all entry_ok es"
  shows "equiv (fold app fs (rest (snap (fold app es s)))) (fold app (es @ fs) s)"
  using run_equiv [OF snap_rest [OF run_ok [OF assms]]] by simp

lemma snapshot_then_suffix_snapshot:
  assumes "snap_ok s" "list_all entry_ok es"
  shows "snap (fold app fs (rest (snap (fold app es s)))) = snap (fold app (es @ fs) s)"
  by (rule snap_equiv) (rule snapshot_then_suffix [OF assms])

end

section \<open>The machine implements the interface\<close>

definition kv_equiv :: "kv \<Rightarrow> kv \<Rightarrow> bool" where
  "kv_equiv s t \<longleftrightarrow> hm_wf s \<and> hm_wf t \<and> kv_get s = kv_get t"

text \<open>Keys and values that the line format can hold.\<close>

definition line_key :: "str \<Rightarrow> bool" where
  "line_key k \<longleftrightarrow> utf8_valid k \<and> 61 \<notin> set k \<and> 10 \<notin> set k"

definition line_value :: "str \<Rightarrow> bool" where
  "line_value v \<longleftrightarrow> utf8_valid v \<and> 10 \<notin> set v \<and> (v = [] \<or> last v \<noteq> 13)"

definition kv_snap_ok :: "kv \<Rightarrow> bool" where
  "kv_snap_ok s \<longleftrightarrow> hm_wf s \<and> list_all (\<lambda>(k, v). line_key k \<and> line_value v) s"

definition line_safe :: "LogEntry \<Rightarrow> bool" where
  "line_safe e \<longleftrightarrow>
     (case strip_prefix SET_PREFIX (le_data e) of
        Some rest \<Rightarrow>
          (case str_find 61 rest of
             Some eq \<Rightarrow> line_key (take eq rest) \<and> line_value (drop (eq + 1) rest)
           | None \<Rightarrow> True)
      | None \<Rightarrow> True)"

lemma kv_apply_wf: "hm_wf s \<Longrightarrow> hm_wf (kv_apply e s)"
  by (simp add: kv_apply_def split: option.split)

lemma kv_apply_get:
  "kv_get (kv_apply e s) =
     (if \<not> utf8_valid (le_data e) then kv_get s
      else case strip_prefix SET_PREFIX (le_data e) of
             Some rest \<Rightarrow>
               (case str_find 61 rest of
                  Some eq \<Rightarrow> (kv_get s)(take eq rest \<mapsto> drop (eq + 1) rest)
                | None \<Rightarrow> kv_get s)
           | None \<Rightarrow>
               (case strip_prefix DEL_PREFIX (le_data e) of
                  Some key \<Rightarrow> (kv_get s)(key := None)
                | None \<Rightarrow> kv_get s))"
  by (auto simp: kv_get_def [abs_def] kv_apply_def hm_insert_get hm_remove_get split: option.split)

lemma kv_equiv_apply: "kv_equiv s t \<Longrightarrow> kv_equiv (kv_apply e s) (kv_apply e t)"
  by (simp add: kv_equiv_def kv_apply_wf kv_apply_get split: option.split)

lemma kv_apply_ok: "kv_snap_ok s \<Longrightarrow> line_safe e \<Longrightarrow> kv_snap_ok (kv_apply e s)"
  using set_hm_insert set_hm_remove
  by (fastforce simp: kv_snap_ok_def kv_apply_def line_safe_def list_all_iff split: option.splits)

lemma kv_snapshot_equiv: "kv_equiv s t \<Longrightarrow> kv_snapshot s = kv_snapshot t"
  using hm_sorted_unique [of s t] by (simp add: kv_equiv_def kv_snapshot_def kv_get_def [abs_def])

lemma kv_line_utf8: "line_key k \<Longrightarrow> line_value v \<Longrightarrow> utf8_valid (kv_line (k, v))"
  by (simp add: kv_line_def line_key_def line_value_def utf8_valid_append utf8_valid_ascii)

lemma kv_lines_utf8:
  "list_all (\<lambda>(k, v). line_key k \<and> line_value v) kvs \<Longrightarrow> utf8_valid (concat (map kv_line kvs))"
  by (induction kvs) (auto simp: kv_line_utf8 utf8_valid_append)

lemma str_lines_kv:
  assumes "list_all (\<lambda>(k, v). line_key k \<and> line_value v) kvs"
  shows "str_lines (concat (map kv_line kvs)) = map (\<lambda>(k, v). k @ 61 # v) kvs"
  using assms
proof (induction kvs)
  case Nil
  then show ?case by simp
next
  case (Cons p kvs)
  obtain k v where p: "p = (k, v)" by force
  have "str_lines ((k @ 61 # v) @ 10 # concat (map kv_line kvs)) =
      (k @ 61 # v) # str_lines (concat (map kv_line kvs))"
    using Cons.prems by (intro str_lines_line) (auto simp: p line_key_def line_value_def)
  moreover have "concat (map kv_line (p # kvs)) = (k @ 61 # v) @ 10 # concat (map kv_line kvs)"
    by (simp add: p kv_line_def [of "(k, v)"])
  ultimately show ?case using Cons by (simp add: p)
qed

lemma foldl_restore_lines:
  assumes "list_all (\<lambda>(k, v). line_key k) kvs"
  shows "foldl restore_line m (map (\<lambda>(k, v). k @ 61 # v) kvs) =
    foldl (\<lambda>m (k, v). hm_insert k v m) m kvs"
  using assms
  by (induction kvs arbitrary: m) (auto simp: restore_line_def line_key_def str_find_append)

lemma foldl_insert_get:
  "hm_wf kvs \<Longrightarrow> hm_get (foldl (\<lambda>m (k, v). hm_insert k v m) m kvs) = hm_get m ++ hm_get kvs"
proof (induction kvs arbitrary: m)
  case Nil
  then show ?case by simp
next
  case (Cons p kvs)
  obtain k v where p: "p = (k, v)" by force
  have "hm_get kvs k = None"
    using Cons.prems by (simp add: p map_of_eq_None_iff)
  with Cons show ?case
    by (auto simp: p hm_insert_get map_add_def fun_eq_iff split: option.split)
qed

lemma foldl_insert_wf: "hm_wf m \<Longrightarrow> hm_wf (foldl (\<lambda>m (k, v). hm_insert k v m) m kvs)"
  by (induction kvs arbitrary: m) auto

lemma kv_restore_snapshot:
  assumes "kv_snap_ok s"
  shows "kv_equiv (kv_restore (kv_snapshot s)) s"
proof -
  let ?kvs = "sort_key fst s"
  have ok: "list_all (\<lambda>(k, v). line_key k \<and> line_value v) ?kvs" and wf: "hm_wf ?kvs" "hm_wf s"
    using assms by (auto simp: kv_snap_ok_def list_all_iff distinct_map)
  have "list_all (\<lambda>(k, v). line_key k) ?kvs"
    using ok by (auto simp: list_all_iff)
  then have "kv_restore (kv_snapshot s) = foldl (\<lambda>m (k, v). hm_insert k v m) [] ?kvs"
    using kv_lines_utf8 [OF ok]
    by (simp add: kv_restore_def kv_snapshot_def str_lines_kv [OF ok] foldl_restore_lines kv_new_def)
  then show ?thesis
    using foldl_insert_get [OF wf(1), of "[]"] foldl_insert_wf [of "[]" ?kvs] wf hm_get_sorted [OF wf(2)]
    by (simp add: kv_equiv_def kv_get_def [abs_def])
qed

interpretation kv_machine: state_machine kv_apply kv_snapshot kv_restore kv_equiv kv_snap_ok line_safe
proof
  show "kv_snap_ok s \<Longrightarrow> kv_equiv s s" for s
    by (simp add: kv_snap_ok_def kv_equiv_def)
qed (simp_all add: kv_equiv_apply kv_apply_ok kv_restore_snapshot kv_snapshot_equiv)

text \<open>C37. A node that installs a snapshot catches up: for a store and entries \<open>es\<close> whose keys and values fit the
  line format (UTF-8, no line feed, no equals sign in a key, no carriage return at the end of a value), restoring the snapshot taken after the entries \<open>es\<close> and applying the later
  entries \<open>fs\<close> gives the contents, and the next snapshot, of the node that applied all of
  them.\<close>

theorem snapshot_catches_up:
  assumes "kv_snap_ok s" "list_all line_safe es"
  shows "kv_get (fold kv_apply fs (kv_restore (kv_snapshot (fold kv_apply es s)))) =
      kv_get (fold kv_apply (es @ fs) s) \<and>
    kv_snapshot (fold kv_apply fs (kv_restore (kv_snapshot (fold kv_apply es s)))) =
      kv_snapshot (fold kv_apply (es @ fs) s)"
  using kv_machine.snapshot_then_suffix [OF assms, of fs]
    kv_machine.snapshot_then_suffix_snapshot [OF assms, of fs]
  by (simp add: kv_equiv_def)

definition ex_kv_entries :: "LogEntry list" where
  \<comment> \<open>SET b=1, SET a=x=y, DEL b\<close>
  "ex_kv_entries =
     [\<lparr>le_term = 1, le_index = 1, le_data = [83, 69, 84, 32, 98, 61, 49]\<rparr>,
      \<lparr>le_term = 1, le_index = 2, le_data = [83, 69, 84, 32, 97, 61, 120, 61, 121]\<rparr>,
      \<lparr>le_term = 1, le_index = 3, le_data = [68, 69, 76, 32, 98]\<rparr>]"

theorem snapshot_catches_up_witness:
  "kv_get (fold kv_apply [] (kv_restore (kv_snapshot (fold kv_apply ex_kv_entries kv_new)))) [97] =
     kv_get (fold kv_apply (ex_kv_entries @ []) kv_new) [97] \<and>
   kv_get (fold kv_apply (ex_kv_entries @ []) kv_new) [97] = Some [120, 61, 121]"
proof -
  have "kv_snap_ok kv_new" "list_all line_safe ex_kv_entries"
    "kv_get (fold kv_apply (ex_kv_entries @ []) kv_new) [97] = Some [120, 61, 121]"
    by code_simp+
  then show ?thesis
    using snapshot_catches_up [of kv_new ex_kv_entries "[]"] by simp
qed

text \<open>A value with a line break does not survive a snapshot.\<close>

lemma snapshot_loses_line_break:
  "kv_get (kv_restore (kv_snapshot [([97], [49, 10, 50])])) [97] = Some [49]"
  by code_simp

end
