(* ===== verification/Two_Phase.thy ===== *)
theory Two_Phase
  imports Raft_Node Rust_Str
begin

text \<open>
  The two-phase commit coordinator of \<^verbatim>\<open>crates/raft/src/twopc.rs\<close>: its state, its
  messages and its methods. The lemmas read the decision off the sequence of messages the
  coordinator received.
\<close>

section \<open>State and messages\<close>

datatype TxnState = Preparing | Committed | Aborted

record Participant =
  pt_shard_id :: nat
  pt_node_id :: nat

record TwoPhaseCoordinator =
  tp_txn_id :: nat
  tp_state :: TxnState
  tp_participants :: "Participant list"
  tp_prepare_votes :: "(nat, bool) hmap"
  tp_finalize_acks :: "(nat, bool) hmap"

datatype CoordinatorMsg = Prepare nat | Commit nat | Abort nat

datatype ParticipantMsg =
    PrepareOk nat nat
  | PrepareAbort nat nat
  | CommitAck nat nat
  | AbortAck nat nat

section \<open>Methods\<close>

definition tp_new :: "nat \<Rightarrow> Participant list \<Rightarrow> TwoPhaseCoordinator" where
  "tp_new t ps = \<lparr>tp_txn_id = t, tp_state = Preparing, tp_participants = ps,
     tp_prepare_votes = [], tp_finalize_acks = []\<rparr>"

definition begin_prepare :: "TwoPhaseCoordinator \<Rightarrow> (Participant \<times> CoordinatorMsg) list" where
  "begin_prepare c = map (\<lambda>p. (p, Prepare (tp_txn_id c))) (tp_participants c)"

definition count_vote :: "TwoPhaseCoordinator \<Rightarrow> nat \<Rightarrow> bool \<Rightarrow> bool option \<times> TwoPhaseCoordinator" where
  "count_vote c shard_id vote =
     (let c' = c\<lparr>tp_prepare_votes := hm_insert shard_id vote (tp_prepare_votes c)\<rparr>
      in if \<not> vote then (Some False, c')
         else if list_all (\<lambda>p. hm_get (tp_prepare_votes c') (pt_shard_id p) \<noteq> None)
                   (tp_participants c')
         then (Some True, c')
         else (None, c'))"

fun record_vote :: "TwoPhaseCoordinator \<Rightarrow> ParticipantMsg \<Rightarrow> bool option \<times> TwoPhaseCoordinator" where
  "record_vote c (PrepareOk t s) = count_vote c s True"
| "record_vote c (PrepareAbort t s) = count_vote c s False"
| "record_vote c _ = (None, c)"

definition begin_finalize ::
  "TwoPhaseCoordinator \<Rightarrow> (Participant \<times> CoordinatorMsg) list \<times> TwoPhaseCoordinator" where
  "begin_finalize c =
     (let commit = list_all (\<lambda>p. hm_get (tp_prepare_votes c) (pt_shard_id p) = Some True)
                     (tp_participants c);
          c' = c\<lparr>tp_state := (if commit then Committed else Aborted)\<rparr>
      in (map (\<lambda>p. (p, if commit then Commit (tp_txn_id c') else Abort (tp_txn_id c')))
            (tp_participants c'), c'))"

fun record_ack :: "TwoPhaseCoordinator \<Rightarrow> ParticipantMsg \<Rightarrow> TwoPhaseCoordinator" where
  "record_ack c (CommitAck t s) = c\<lparr>tp_finalize_acks := hm_insert s True (tp_finalize_acks c)\<rparr>"
| "record_ack c (AbortAck t s) = c\<lparr>tp_finalize_acks := hm_insert s True (tp_finalize_acks c)\<rparr>"
| "record_ack c _ = c"

definition is_complete :: "TwoPhaseCoordinator \<Rightarrow> bool" where
  "is_complete c \<longleftrightarrow>
     list_all (\<lambda>p. hm_get (tp_finalize_acks c) (pt_shard_id p) \<noteq> None) (tp_participants c)"

section \<open>Histories\<close>

text \<open>The messages of phase 1 in the order they arrive, then the answers of phase 2.\<close>

definition run_votes :: "TwoPhaseCoordinator \<Rightarrow> ParticipantMsg list \<Rightarrow> TwoPhaseCoordinator" where
  "run_votes = foldl (\<lambda>c m. snd (record_vote c m))"

definition run_acks :: "TwoPhaseCoordinator \<Rightarrow> ParticipantMsg list \<Rightarrow> TwoPhaseCoordinator" where
  "run_acks = foldl record_ack"

fun vote_msg :: "nat \<Rightarrow> ParticipantMsg \<Rightarrow> bool option" where
  "vote_msg s (PrepareOk t s') = (if s' = s then Some True else None)"
| "vote_msg s (PrepareAbort t s') = (if s' = s then Some False else None)"
| "vote_msg s _ = None"

fun ack_msg :: "nat \<Rightarrow> ParticipantMsg \<Rightarrow> bool" where
  "ack_msg s (CommitAck t s') = (s' = s)"
| "ack_msg s (AbortAck t s') = (s' = s)"
| "ack_msg s _ = False"

definition last_vote :: "nat \<Rightarrow> ParticipantMsg list \<Rightarrow> bool option" where
  "last_vote s ms = find (\<lambda>_. True) (List.map_filter (vote_msg s) (rev ms))"

lemma tp_new_simps [simp]:
  "tp_txn_id (tp_new t ps) = t" "tp_participants (tp_new t ps) = ps"
  "tp_prepare_votes (tp_new t ps) = []" "tp_finalize_acks (tp_new t ps) = []"
  by (simp_all add: tp_new_def)

lemma last_vote_snoc:
  "last_vote s (ms @ [m]) = (case vote_msg s m of Some v \<Rightarrow> Some v | None \<Rightarrow> last_vote s ms)"
  by (auto simp: last_vote_def map_filter_def split: option.split)

lemma last_vote_Nil [simp]: "last_vote s [] = None"
  by (simp add: last_vote_def map_filter_def)

lemma record_vote_keeps [simp]:
  "tp_participants (snd (record_vote c m)) = tp_participants c"
  "tp_txn_id (snd (record_vote c m)) = tp_txn_id c"
  "tp_finalize_acks (snd (record_vote c m)) = tp_finalize_acks c"
  by (cases m; simp add: count_vote_def Let_def)+

lemma record_vote_votes:
  "hm_get (tp_prepare_votes (snd (record_vote c m))) s =
     (case vote_msg s m of Some v \<Rightarrow> Some v | None \<Rightarrow> hm_get (tp_prepare_votes c) s)"
  by (cases m) (auto simp: count_vote_def Let_def hm_insert_get)

lemma record_vote_yes:
  "fst (record_vote c (PrepareOk u s)) = Some True \<longleftrightarrow>
     (\<forall>p \<in> set (tp_participants c).
        hm_get (tp_prepare_votes (snd (record_vote c (PrepareOk u s)))) (pt_shard_id p) \<noteq> None)"
  by (simp add: count_vote_def Let_def list_all_iff)

lemma run_votes_keeps [simp]:
  "tp_participants (run_votes c ms) = tp_participants c"
  "tp_txn_id (run_votes c ms) = tp_txn_id c"
  "tp_finalize_acks (run_votes c ms) = tp_finalize_acks c"
  by (induction ms arbitrary: c) (simp_all add: run_votes_def)

lemma run_votes_votes:
  "tp_prepare_votes c = [] \<Longrightarrow> hm_get (tp_prepare_votes (run_votes c ms)) s = last_vote s ms"
proof (induction ms rule: rev_induct)
  case Nil
  then show ?case by (simp add: run_votes_def)
next
  case (snoc m ms)
  then show ?case
    by (simp add: run_votes_def record_vote_votes last_vote_snoc split: option.split)
qed

lemma record_ack_keeps [simp]:
  "tp_participants (record_ack c m) = tp_participants c"
  "tp_prepare_votes (record_ack c m) = tp_prepare_votes c"
  "tp_state (record_ack c m) = tp_state c"
  by (cases m; simp)+

lemma record_ack_acks:
  "hm_get (tp_finalize_acks (record_ack c m)) s =
     (if ack_msg s m then Some True else hm_get (tp_finalize_acks c) s)"
  by (cases m) (auto simp: hm_insert_get)

lemma run_acks_keeps [simp]:
  "tp_participants (run_acks c ms) = tp_participants c"
  "tp_state (run_acks c ms) = tp_state c"
  by (induction ms arbitrary: c) (simp_all add: run_acks_def)

lemma run_acks_acks:
  "hm_get (tp_finalize_acks (run_acks c ms)) s =
     (if list_ex (ack_msg s) ms then Some True else hm_get (tp_finalize_acks c) s)"
  by (induction ms arbitrary: c) (auto simp: run_acks_def record_ack_acks)

text \<open>The first decision \<open>record_vote\<close> announces.\<close>

fun first_answer :: "TwoPhaseCoordinator \<Rightarrow> ParticipantMsg list \<Rightarrow> bool option" where
  "first_answer c [] = None"
| "first_answer c (m # ms) =
     (case record_vote c m of (Some d, _) \<Rightarrow> Some d | (None, c1) \<Rightarrow> first_answer c1 ms)"

text \<open>Votes as the protocol has them: of this transaction, of its participants, and no participant
  sends both a yes and a no. A vote may arrive more than once.\<close>

definition proper_votes :: "nat \<Rightarrow> Participant list \<Rightarrow> ParticipantMsg list \<Rightarrow> bool" where
  "proper_votes t ps ms \<longleftrightarrow>
     list_all (\<lambda>m. case m of
         PrepareOk u s \<Rightarrow> u = t \<and> s \<in> pt_shard_id ` set ps \<and> PrepareAbort t s \<notin> set ms
       | PrepareAbort u s \<Rightarrow> u = t \<and> s \<in> pt_shard_id ` set ps
       | _ \<Rightarrow> True) ms"

lemma proper_votesD:
  assumes "proper_votes t ps ms"
  shows "PrepareOk u s \<in> set ms \<Longrightarrow> u = t \<and> s \<in> pt_shard_id ` set ps \<and> PrepareAbort t s \<notin> set ms"
    and "PrepareAbort u s \<in> set ms \<Longrightarrow> u = t \<and> s \<in> pt_shard_id ` set ps"
  using assms by (fastforce simp: proper_votes_def list_all_iff)+

lemma vote_msg_Some:
  "vote_msg s m = Some True \<longleftrightarrow> (\<exists>u. m = PrepareOk u s)"
  "vote_msg s m = Some False \<longleftrightarrow> (\<exists>u. m = PrepareAbort u s)"
  by (cases m; auto)+

lemma last_vote_sent:
  "last_vote s ms = Some True \<Longrightarrow> \<exists>u. PrepareOk u s \<in> set ms"
  "last_vote s ms = Some False \<Longrightarrow> \<exists>u. PrepareAbort u s \<in> set ms"
  "last_vote s ms = None \<Longrightarrow> PrepareOk u s \<notin> set ms \<and> PrepareAbort u s \<notin> set ms"
proof (induction ms rule: rev_induct)
  case (snoc m ms)
  {
    case 1
    with snoc show ?case using vote_msg_Some [of s m] by (auto simp: last_vote_snoc split: option.splits)
  next
    case 2
    with snoc show ?case using vote_msg_Some [of s m] by (auto simp: last_vote_snoc split: option.splits)
  next
    case 3
    with snoc show ?case by (auto simp: last_vote_snoc split: option.splits)
  }
qed simp_all

lemma run_votes_snoc: "run_votes c (ms @ [m]) = snd (record_vote (run_votes c ms) m)"
  by (simp add: run_votes_def)

lemma first_answer_Some:
  assumes "first_answer c ms = Some d"
  obtains ms1 m ms2 where "ms = ms1 @ m # ms2" "fst (record_vote (run_votes c ms1) m) = Some d"
    "\<And>u s. PrepareAbort u s \<notin> set ms1"
proof -
  have "\<exists>ms1 m ms2. ms = ms1 @ m # ms2 \<and> fst (record_vote (run_votes c ms1) m) = Some d \<and>
      (\<forall>u s. PrepareAbort u s \<notin> set ms1)"
    using assms
  proof (induction c ms rule: first_answer.induct)
    case (2 c m ms)
    obtain a c1 where r: "record_vote c m = (a, c1)" by force
    show ?case
    proof (cases a)
      case None
      then obtain ms1 m' ms2 where I: "ms = ms1 @ m' # ms2"
        "fst (record_vote (run_votes c1 ms1) m') = Some d" "\<forall>u s. PrepareAbort u s \<notin> set ms1"
        using 2 r by auto
      have "m \<noteq> PrepareAbort u s" for u s using r None by (auto simp: count_vote_def Let_def)
      then show ?thesis
        using I r by (intro exI [of _ "m # ms1"] exI [of _ m'] exI [of _ ms2]) (auto simp: run_votes_def)
    next
      case (Some e)
      then show ?thesis using 2(2) r by (intro exI [of _ "[]"]) (simp add: run_votes_def)
    qed
  qed simp
  then show ?thesis using that by blast
qed

lemma all_yes_voted:
  assumes "proper_votes t ps ms" "first_answer (tp_new t ps) ms = Some d"
  shows "d \<longleftrightarrow> (\<forall>p \<in> set ps. last_vote (pt_shard_id p) ms = Some True)"
proof -
  obtain ms1 m ms2 where F: "ms = ms1 @ m # ms2" "fst (record_vote (run_votes (tp_new t ps) ms1) m) = Some d"
    "\<And>u s. PrepareAbort u s \<notin> set ms1"
    using first_answer_Some [OF assms(2)] by blast
  show ?thesis
  proof (cases m)
    case (PrepareOk u s)
    with F(2) have d: "d" by (simp add: count_vote_def Let_def split: if_splits)
    have "last_vote (pt_shard_id p) ms = Some True" if "p \<in> set ps" for p
    proof -
      have "last_vote (pt_shard_id p) (ms1 @ [m]) \<noteq> None"
        using F(2) d that record_vote_yes [of "run_votes (tp_new t ps) ms1" u s]
          run_votes_votes [of "tp_new t ps" "ms1 @ [m]"] PrepareOk
        by (simp add: run_votes_snoc)
      moreover have "last_vote (pt_shard_id p) (ms1 @ [m]) \<noteq> Some False"
        using last_vote_sent(2) [of "pt_shard_id p" "ms1 @ [m]"] F(3) PrepareOk by auto
      ultimately obtain v where "PrepareOk v (pt_shard_id p) \<in> set ms"
        using last_vote_sent(1) [of "pt_shard_id p" "ms1 @ [m]"] F(1) by fastforce
      then have "PrepareAbort w (pt_shard_id p) \<notin> set ms" "last_vote (pt_shard_id p) ms \<noteq> None" for w
        using proper_votesD [OF assms(1)] last_vote_sent(3) by blast+
      then show ?thesis using last_vote_sent(2) [of "pt_shard_id p" ms] by fastforce
    qed
    then show ?thesis using d by blast
  next
    case (PrepareAbort u s)
    then have "PrepareAbort u s \<in> set ms" using F(1) by simp
    then obtain p where p: "p \<in> set ps" "s = pt_shard_id p" "PrepareAbort t s \<in> set ms"
      using proper_votesD(2) [OF assms(1)] by blast
    then have "last_vote (pt_shard_id p) ms \<noteq> Some True"
      using last_vote_sent(1) proper_votesD(1) [OF assms(1)] by blast
    then show ?thesis using F(2) PrepareAbort p(1) by (auto simp: count_vote_def Let_def)
  qed (use F(2) in simp_all)
qed

text \<open>C6. Atomicity of the two-phase commit: when phase 2 begins after \<open>record_vote\<close> has announced a decision,
  the coordinator reaches the state of the first decision it announced and sends every participant the
  message of that decision; the decision is to commit exactly when every participant has voted yes. The votes
  are of this transaction and of its participants, in any order and possibly repeated, and no participant sends
  both a yes and a no.\<close>

theorem two_phase_atomic:
  assumes "proper_votes t ps ms" "first_answer (tp_new t ps) ms = Some d"
    and "begin_finalize (run_votes (tp_new t ps) ms) = (out, c)"
  shows "tp_state c = (if d then Committed else Aborted) \<and>
    out = map (\<lambda>p. (p, if d then Commit t else Abort t)) ps \<and>
    (d \<longleftrightarrow> (\<forall>p \<in> set ps. PrepareOk t (pt_shard_id p) \<in> set ms))"
proof -
  have votes: "hm_get (tp_prepare_votes (run_votes (tp_new t ps) ms)) s = last_vote s ms" for s
    by (rule run_votes_votes) simp
  note yes = all_yes_voted [OF assms(1,2)]
  have "last_vote s ms = Some True \<longleftrightarrow> PrepareOk t s \<in> set ms" for s
  proof
    assume "last_vote s ms = Some True"
    then show "PrepareOk t s \<in> set ms" using last_vote_sent(1) proper_votesD(1) [OF assms(1)] by blast
  next
    assume sent: "PrepareOk t s \<in> set ms"
    then have "last_vote s ms \<noteq> None" "last_vote s ms \<noteq> Some False"
      using last_vote_sent(2,3) proper_votesD [OF assms(1)] by blast+
    then show "last_vote s ms = Some True" by (metis (full_types) not_None_eq)
  qed
  with yes have sent: "d \<longleftrightarrow> (\<forall>p \<in> set ps. PrepareOk t (pt_shard_id p) \<in> set ms)" by simp
  show ?thesis
    using assms(3) yes sent
    by (cases d) (simp_all add: begin_finalize_def Let_def votes list_all_iff, auto)
qed

definition ex_participants :: "Participant list" where
  "ex_participants = [\<lparr>pt_shard_id = 1, pt_node_id = 10\<rparr>, \<lparr>pt_shard_id = 2, pt_node_id = 20\<rparr>]"

theorem two_phase_atomic_witness:
  "tp_state (snd (begin_finalize (run_votes (tp_new 7 ex_participants)
     [PrepareOk 7 1, PrepareOk 7 2]))) = Committed \<and>
   tp_state (snd (begin_finalize (run_votes (tp_new 7 ex_participants)
     [PrepareAbort 7 1, PrepareOk 7 2]))) = Aborted"
proof -
  have "proper_votes 7 ex_participants [PrepareOk 7 1, PrepareOk 7 2]"
    "proper_votes 7 ex_participants [PrepareAbort 7 1, PrepareOk 7 2]"
    by (simp_all add: proper_votes_def ex_participants_def)
  moreover have "first_answer (tp_new 7 ex_participants) [PrepareOk 7 1, PrepareOk 7 2] = Some True"
    "first_answer (tp_new 7 ex_participants) [PrepareAbort 7 1, PrepareOk 7 2] = Some False"
    by code_simp+
  ultimately show ?thesis
    using two_phase_atomic [of 7 ex_participants "[PrepareOk 7 1, PrepareOk 7 2]" True]
      two_phase_atomic [of 7 ex_participants "[PrepareAbort 7 1, PrepareOk 7 2]" False]
    by (metis prod.collapse)
qed

text \<open>Answers of the coordinator: the decision \<open>Some False\<close> is announced exactly on a no
  vote; when no participant voted no, \<open>Some True\<close> is announced exactly when the
  participants have all voted, and then phase 2 commits; and the transaction is complete
  exactly when every participant has acknowledged phase 2.\<close>

lemma vote_answer_and_completion:
  "(fst (record_vote (run_votes (tp_new t ps) ms) m) = Some False \<longleftrightarrow> (\<exists>u s. m = PrepareAbort u s)) \<and>
   ((\<forall>s. last_vote s (ms @ [m]) \<noteq> Some False) \<and> (\<exists>u s. m = PrepareOk u s) \<longrightarrow>
      (fst (record_vote (run_votes (tp_new t ps) ms) m) = Some True \<longleftrightarrow>
        tp_state (snd (begin_finalize (run_votes (tp_new t ps) (ms @ [m])))) = Committed)) \<and>
   (is_complete (run_acks (snd (begin_finalize (run_votes (tp_new t ps) ms))) acks) \<longleftrightarrow>
      (\<forall>p \<in> set ps. \<exists>a \<in> set acks. ack_msg (pt_shard_id p) a))"
proof -
  let ?c = "run_votes (tp_new t ps) ms"
  have votes: "hm_get (tp_prepare_votes (run_votes (tp_new t ps) l)) s = last_vote s l" for s l
    by (rule run_votes_votes) simp
  have ps: "tp_participants (run_votes (tp_new t ps) l) = ps" for l
    by simp
  have snoc: "run_votes (tp_new t ps) (ms @ [m]) = snd (record_vote ?c m)"
    by (simp add: run_votes_def)
  have 1: "fst (record_vote ?c m) = Some False \<longleftrightarrow> (\<exists>u s. m = PrepareAbort u s)"
    by (cases m) (simp_all add: count_vote_def Let_def)
  have 2: "fst (record_vote ?c m) = Some True \<longleftrightarrow>
      tp_state (snd (begin_finalize (run_votes (tp_new t ps) (ms @ [m])))) = Committed"
    if no: "\<forall>s. last_vote s (ms @ [m]) \<noteq> Some False" and m: "m = PrepareOk u s" for u s
  proof -
    have "fst (record_vote ?c m) = Some True \<longleftrightarrow>
        (\<forall>p \<in> set ps. last_vote (pt_shard_id p) (ms @ [m]) \<noteq> None)"
      unfolding m record_vote_yes ps snoc [unfolded m, symmetric] votes by simp
    moreover have "last_vote s' (ms @ [m]) \<noteq> None \<longleftrightarrow> last_vote s' (ms @ [m]) = Some True" for s'
      using no [rule_format, of s'] by (cases "last_vote s' (ms @ [m])") auto
    moreover have "tp_state (snd (begin_finalize (run_votes (tp_new t ps) (ms @ [m])))) = Committed
        \<longleftrightarrow> (\<forall>p \<in> set ps. last_vote (pt_shard_id p) (ms @ [m]) = Some True)"
      by (simp only: begin_finalize_def Let_def ps votes list_all_iff) simp
    ultimately show ?thesis by simp
  qed
  have "tp_finalize_acks (snd (begin_finalize ?c)) = []" "tp_participants (snd (begin_finalize ?c)) = ps"
    by (simp_all add: begin_finalize_def Let_def)
  then have 3: "is_complete (run_acks (snd (begin_finalize ?c)) acks) \<longleftrightarrow>
      (\<forall>p \<in> set ps. \<exists>a \<in> set acks. ack_msg (pt_shard_id p) a)"
    by (auto simp: is_complete_def run_acks_acks list_all_iff list_ex_iff split: if_splits)
  from 1 2 3 show ?thesis by blast
qed

text \<open>After a no vote, a later yes of the last participant is announced as a commit, which
  phase 2 does not carry out.\<close>

lemma late_yes_announces_commit:
  "fst (record_vote (run_votes (tp_new 7 ex_participants) [PrepareAbort 7 1]) (PrepareOk 7 2)) = Some True \<and>
   tp_state (snd (begin_finalize (run_votes (tp_new 7 ex_participants)
     [PrepareAbort 7 1, PrepareOk 7 2]))) = Aborted"
  by code_simp

text \<open>A participant that votes no and then yes is counted as a yes, although the abort was announced; phase 2
  begins without any vote and aborts, where its documentation has a panic; and a vote of another transaction
  counts.\<close>

lemma changed_vote_commits:
  "first_answer (tp_new 7 ex_participants) [PrepareAbort 7 1, PrepareOk 7 1, PrepareOk 7 2] = Some False \<and>
   tp_state (snd (begin_finalize (run_votes (tp_new 7 ex_participants)
     [PrepareAbort 7 1, PrepareOk 7 1, PrepareOk 7 2]))) = Committed"
  by code_simp

lemma finalize_without_votes:
  "tp_state (snd (begin_finalize (tp_new 7 ex_participants))) = Aborted"
  by code_simp

lemma foreign_vote_counts:
  "tp_state (snd (begin_finalize (run_votes (tp_new 7 ex_participants) [PrepareOk 6 1, PrepareOk 6 2]))) = Committed"
  by code_simp

end
