(* ===== verification/Raft_Cluster.thy ===== *)
theory Raft_Cluster
  imports Raft_Transport Kv_State_Machine Two_Phase
begin

text \<open>
  The driver of \<^verbatim>\<open>crates/raft/src/cluster.rs\<close>: one turn of the election thread, one turn
  of the heartbeat thread, the wait of \<^verbatim>\<open>propose\<close> and the two-phase proposal. The
  transport is a parameter \<open>send\<close> of each turn (\<open>None\<close>: no answer), the state machine is its
  \<^verbatim>\<open>apply\<close>; threads, sleeping and the listener are not modelled. A turn runs without
  another thread of the same node between its calls; \<open>Raft_Election\<close> interleaves them.
\<close>

section \<open>The election thread\<close>

definition lcg_next :: "nat \<Rightarrow> nat" where
  "lcg_next s = (s * 6364136223846793005 + 1442695040888963407) mod 2 ^ 64"

definition election_sleep :: "nat \<Rightarrow> nat \<Rightarrow> nat \<Rightarrow> nat \<times> nat" where
  \<comment> \<open>the milliseconds to sleep and the next state of the generator\<close>
  "election_sleep min_ms max_ms rng =
     (let range = max ((max_ms + 2 ^ 64 - min_ms) mod 2 ^ 64) 1;
          rng' = lcg_next rng
      in (u64_add min_ms (rng' mod range), rng'))"

record ElectionTimer =
  et_last_term :: nat
  et_last_commit :: nat

definition send_vote_requests ::
  "(nat, string) hmap \<Rightarrow> (nat \<Rightarrow> string \<Rightarrow> RequestVoteReq \<Rightarrow> RequestVoteResp option) \<Rightarrow>
   RaftNode \<Rightarrow> (nat \<times> RequestVoteReq) list \<Rightarrow> RaftNode" where
  "send_vote_requests addrs send =
     foldl (\<lambda>n (p, req).
       case hm_get addrs p of
         None \<Rightarrow> n
       | Some a \<Rightarrow> (case send p a req of
                      None \<Rightarrow> n
                    | Some resp \<Rightarrow> fst (handle_vote_response n p resp)))"

definition election_tick ::
  "(nat, string) hmap \<Rightarrow> (nat \<Rightarrow> string \<Rightarrow> RequestVoteReq \<Rightarrow> RequestVoteResp option) \<Rightarrow>
   ElectionTimer \<times> RaftNode \<Rightarrow> ElectionTimer \<times> RaftNode" where
  "election_tick addrs send s =
     (let (tm, n) = s;
          seen = \<lparr>et_last_term = rn_current_term n, et_last_commit = rn_commit_index n\<rparr>
      in if rn_role n = Leader then (seen, n)
         else if rn_current_term n \<noteq> et_last_term tm \<or> rn_commit_index n \<noteq> et_last_commit tm
         then (seen, n)
         else let (n1, vote_requests) = start_election n
              in (tm\<lparr>et_last_term := rn_current_term n1\<rparr>,
                  send_vote_requests addrs send n1 vote_requests))"

section \<open>The heartbeat thread\<close>

definition send_heartbeats ::
  "(nat, string) hmap \<Rightarrow> (nat \<Rightarrow> string \<Rightarrow> AppendEntriesReq \<Rightarrow> AppendEntriesResp option) \<Rightarrow>
   RaftNode \<Rightarrow> (nat \<times> AppendEntriesReq) list \<Rightarrow> RaftNode" where
  "send_heartbeats addrs send =
     foldl (\<lambda>n (p, req).
       case hm_get addrs p of
         None \<Rightarrow> n
       | Some a \<Rightarrow> (case send p a req of
                      None \<Rightarrow> n
                    | Some resp \<Rightarrow> handle_append_response n p resp))"

definition heartbeat_tick ::
  "(nat, string) hmap \<Rightarrow> (nat \<Rightarrow> string \<Rightarrow> AppendEntriesReq \<Rightarrow> AppendEntriesResp option) \<Rightarrow>
   (LogEntry \<Rightarrow> 's \<Rightarrow> 's) \<Rightarrow> RaftNode \<times> 's \<Rightarrow> RaftNode \<times> 's" where
  "heartbeat_tick addrs send app s =
     (let (n, sm) = s
      in if rn_role n \<noteq> Leader then (n, sm)
         else let n1 = advance_commit_if_solo n;
                  (applicable, n2) = node_take_applicable n1
              in (send_heartbeats addrs send n2 (heartbeat n2), fold app applicable sm))"

section \<open>Proposals\<close>

fun await_commit :: "nat \<Rightarrow> RaftNode list \<Rightarrow> string + nat" where
  \<comment> \<open>the node at each poll up to the deadline\<close>
  "await_commit i [] = Inl ''propose timed out waiting for commit''"
| "await_commit i (n # polls) =
     (if rn_commit_index n \<ge> i then Inr i
      else if rn_role n \<noteq> Leader then Inl ''lost leadership''
      else await_commit i polls)"

definition cluster_propose :: "RaftNode \<Rightarrow> byte list \<Rightarrow> (RaftNode \<Rightarrow> RaftNode list) \<Rightarrow> string + nat" where
  "cluster_propose n d polls = rbind (propose n d) (\<lambda>(n', i). await_commit i (polls n'))"

definition map_err :: "(string \<Rightarrow> string) \<Rightarrow> string + 'a \<Rightarrow> string + 'a" where
  "map_err f r = (case r of Inl e \<Rightarrow> Inl (f e) | Inr x \<Rightarrow> Inr x)"

definition two_phase_propose :: "(string \<Rightarrow> string + nat) \<Rightarrow> (nat \<Rightarrow> string) \<Rightarrow> nat \<Rightarrow> string \<Rightarrow> string + bool" where
  \<comment> \<open>\<open>show_nat\<close> is the decimal form of a number, \<open>prop\<close> is \<open>propose\<close> on the bytes of the command\<close>
  "two_phase_propose prop show_nat txn_id cmd =
     rbind (map_err (\<lambda>e. ''prepare failed: '' @ e) (prop (''PREPARE:'' @ show_nat txn_id @ '':'' @ cmd)))
       (\<lambda>_. rbind (map_err (\<lambda>e. ''commit failed: '' @ e) (prop (''COMMIT:'' @ show_nat txn_id)))
         (\<lambda>_. Inr True))"

definition execute_transaction ::
  "(string \<Rightarrow> string + nat) \<Rightarrow> (nat \<Rightarrow> string) \<Rightarrow> nat \<Rightarrow> string \<Rightarrow> (string + bool) \<times> nat" where
  \<comment> \<open>the counter before the call, and the result with the counter after it\<close>
  "execute_transaction prop show_nat counter cmd =
     (two_phase_propose prop show_nat counter cmd, u64_add counter 1)"

section \<open>Elections are won\<close>

lemma election_sleep_bounds:
  assumes "min_ms \<le> max_ms" "max_ms < 2 ^ 64 - 1"
  shows "min_ms \<le> fst (election_sleep min_ms max_ms rng) \<and>
    fst (election_sleep min_ms max_ms rng) < max max_ms (min_ms + 1)"
proof -
  let ?range = "max ((max_ms + 2 ^ 64 - min_ms) mod 2 ^ 64) 1"
  have "max_ms + 2 ^ 64 - min_ms = (max_ms - min_ms) + 2 ^ 64" using assms by simp
  then have range: "?range = max (max_ms - min_ms) 1"
    using assms by (simp only: mod_add_self2) simp
  have "lcg_next rng mod ?range < ?range" by simp
  then have "min_ms + lcg_next rng mod ?range < max max_ms (min_ms + 1)"
    using range assms by linarith
  then show ?thesis
    using assms by (simp add: election_sleep_def Let_def)
qed

definition granted :: "(nat, string) hmap \<Rightarrow> (nat \<Rightarrow> string \<Rightarrow> RequestVoteReq \<Rightarrow> RequestVoteResp option) \<Rightarrow>
    nat \<times> RequestVoteReq \<Rightarrow> bool" where
  "granted addrs send = (\<lambda>(p, req). case hm_get addrs p of None \<Rightarrow> False
     | Some a \<Rightarrow> (case send p a req of None \<Rightarrow> False | Some resp \<Rightarrow> rvr_vote_granted resp))"

definition answers_upto :: "nat \<Rightarrow> (nat \<Rightarrow> string \<Rightarrow> RequestVoteReq \<Rightarrow> RequestVoteResp option) \<Rightarrow> bool" where
  \<comment> \<open>no answer of a newer term, and votes are granted in the term \<open>t\<close> of the request\<close>
  "answers_upto t send \<longleftrightarrow> (\<forall>p a req resp. send p a req = Some resp \<longrightarrow>
     rvr_term resp \<le> t \<and> (rvr_vote_granted resp \<longrightarrow> rvr_term resp = t))"

definition vote_step where
  "vote_step addrs send n pr = send_vote_requests addrs send n [pr]"

lemma send_vote_requests_Cons:
  "send_vote_requests addrs send n (pr # prs) =
     send_vote_requests addrs send (vote_step addrs send n pr) prs"
  by (simp add: send_vote_requests_def vote_step_def)

lemma vote_step_leader:
  assumes "answers_upto (rn_current_term n) send" "rn_role n = Leader"
  shows "vote_step addrs send n pr = n"
  using assms
  by (auto simp: vote_step_def send_vote_requests_def answers_upto_def handle_vote_response_def
      not_less split: option.split prod.split) (meson leD)+

lemma vote_step_candidate:
  assumes "answers_upto (rn_current_term n) send" "rn_role n = Candidate"
  shows "vote_step addrs send n pr =
    (if \<not> granted addrs send pr then n
     else let n1 = n\<lparr>rn_votes_received := rn_votes_received n + 1\<rparr>
          in if rn_votes_received n1 \<ge> quorum n1 then become_leader n1 else n1)"
proof -
  obtain p req where pr: "pr = (p, req)" by force
  have "\<not> rvr_term resp > rn_current_term n" if "send p a req = Some resp" for a resp
    using assms(1) that by (simp add: answers_upto_def) (meson leD)
  then show ?thesis
    using assms(2)
    by (simp add: pr vote_step_def send_vote_requests_def granted_def handle_vote_response_def Let_def
        split: option.split)
qed

lemma leader_stays:
  assumes "answers_upto (rn_current_term n) send" "rn_role n = Leader"
  shows "send_vote_requests addrs send n prs = n"
  using assms
  by (induction prs) (simp_all add: send_vote_requests_Cons vote_step_leader, simp add: send_vote_requests_def)

lemma become_leader_term [simp]:
  "rn_current_term (become_leader n) = rn_current_term n" "rn_role (become_leader n) = Leader"
  by (simp_all add: become_leader_def Let_def)

lemma candidate_outcome:
  assumes "answers_upto (rn_current_term n) send" "rn_role n = Candidate"
    and "rn_votes_received n < quorum n"
  shows "rn_role (send_vote_requests addrs send n prs) =
      (if quorum n \<le> rn_votes_received n + length (filter (granted addrs send) prs) then Leader else Candidate) \<and>
    rn_current_term (send_vote_requests addrs send n prs) = rn_current_term n"
  using assms
proof (induction prs arbitrary: n)
  case Nil
  then show ?case by (simp add: send_vote_requests_def)
next
  case (Cons pr prs)
  let ?n1 = "n\<lparr>rn_votes_received := rn_votes_received n + 1\<rparr>"
  have q: "quorum ?n1 = quorum n" by (simp add: quorum_def)
  show ?case
  proof (cases "granted addrs send pr")
    case False
    with Cons show ?thesis by (simp add: send_vote_requests_Cons vote_step_candidate)
  next
    case g: True
    show ?thesis
    proof (cases "rn_votes_received ?n1 \<ge> quorum ?n1")
      case True
      then have "vote_step addrs send n pr = become_leader ?n1"
        using g Cons.prems by (simp add: vote_step_candidate Let_def)
      then show ?thesis
        using leader_stays [of "become_leader ?n1" send addrs prs] Cons.prems(1) True q g
        by (simp add: send_vote_requests_Cons)
    next
      case False
      then have "vote_step addrs send n pr = ?n1"
        using g Cons.prems by (simp add: vote_step_candidate Let_def)
      then show ?thesis
        using Cons.IH [of ?n1] Cons.prems False g q by (simp add: send_vote_requests_Cons)
    qed
  qed
qed

lemma start_election_simps:
  "rn_current_term (fst (start_election n)) = u64_add (rn_current_term n) 1"
  by (simp add: start_election_def Let_def)

text \<open>C36. The outcome of an election: when the election timer of a node that is not leader fires and neither its
  term nor its commit index moved since the last turn, it opens the next term and asks its peers; provided that
  no peer answers with a newer term and that votes are granted in the term asked for, the turn ends with the
  node as leader of that term exactly when its own vote and the granted ones are more than half of the cluster,
  that is of its peers and itself, and as candidate otherwise.\<close>

theorem election_won:
  assumes "rn_role n \<noteq> Leader" "et_last_term tm = rn_current_term n" "et_last_commit tm = rn_commit_index n"
    and "answers_upto (u64_add (rn_current_term n) 1) send"
  shows "rn_role (snd (election_tick addrs send (tm, n))) =
      (if 1 + length (rn_peers n) < 2 * (1 + length (filter (granted addrs send) (snd (start_election n))))
       then Leader else Candidate) \<and>
    rn_current_term (snd (election_tick addrs send (tm, n))) = u64_add (rn_current_term n) 1 \<and>
    et_last_term (fst (election_tick addrs send (tm, n))) = u64_add (rn_current_term n) 1"
proof -
  obtain n1 vr where se: "start_election n = (n1, vr)" by force
  have t: "rn_current_term n1 = u64_add (rn_current_term n) 1"
    using start_election_simps [of n] se by simp
  have tick: "election_tick addrs send (tm, n) =
      (tm\<lparr>et_last_term := rn_current_term n1\<rparr>, send_vote_requests addrs send n1 vr)"
    using assms(1-3) se by (simp add: election_tick_def Let_def)
  have half: "1 + length (rn_peers n) < 2 * k \<longleftrightarrow> quorum n \<le> k" for k
    unfolding quorum_def by presburger
  have "rn_role (send_vote_requests addrs send n1 vr) =
        (if quorum n \<le> 1 + length (filter (granted addrs send) vr) then Leader else Candidate) \<and>
      rn_current_term (send_vote_requests addrs send n1 vr) = rn_current_term n1"
  proof (cases "quorum n \<le> 1")
    case True
    then have "rn_role n1 = Leader"
      using se by (auto simp: start_election_def Let_def quorum_def split: if_splits)
    then show ?thesis using leader_stays [of n1 send addrs vr] assms(4) t True by simp
  next
    case False
    then have "rn_role n1 = Candidate" "rn_votes_received n1 = 1" "quorum n1 = quorum n"
      using se by (auto simp: start_election_def Let_def quorum_def split: if_splits)
    then show ?thesis using candidate_outcome [of n1 send addrs vr] assms(4) t False by simp
  qed
  with tick t se show ?thesis unfolding half by simp
qed

theorem election_won_witness:
  "rn_role (snd (election_tick [(2, ''b''), (3, ''c'')] (\<lambda>p _ _. Some \<lparr>rvr_term = 1, rvr_vote_granted = (p = 2)\<rparr>)
     (\<lparr>et_last_term = 0, et_last_commit = 0\<rparr>, node_new (config3 1 [2, 3])))) = Leader \<and>
   rn_role (snd (election_tick [(2, ''b''), (3, ''c'')] (\<lambda>p _ _. Some \<lparr>rvr_term = 1, rvr_vote_granted = (p = 2)\<rparr>)
     (\<lparr>et_last_term = 0, et_last_commit = 0\<rparr>, node_new (config3 1 [2, 3, 4])))) = Candidate"
proof -
  let ?n = "node_new (config3 1 [2, 3])" and ?m = "node_new (config3 1 [2, 3, 4])"
  let ?send = "\<lambda>p _ _. Some \<lparr>rvr_term = 1, rvr_vote_granted = (p = 2)\<rparr>"
  let ?addrs = "[(2, ''b''), (3, ''c'')]"
  have "rn_role ?n \<noteq> Leader" "(0::nat) = rn_current_term ?n" "(0::nat) = rn_commit_index ?n"
    "rn_role ?m \<noteq> Leader" "(0::nat) = rn_current_term ?m" "(0::nat) = rn_commit_index ?m"
    by code_simp+
  moreover have "answers_upto (u64_add (rn_current_term ?n) 1) ?send" "answers_upto (u64_add (rn_current_term ?m) 1) ?send"
    by (simp_all add: answers_upto_def node_new_def)
  moreover have "1 + length (rn_peers ?n) < 2 * (1 + length (filter (granted ?addrs ?send) (snd (start_election ?n))))"
    "\<not> 1 + length (rn_peers ?m) < 2 * (1 + length (filter (granted ?addrs ?send) (snd (start_election ?m))))"
    by code_simp+
  ultimately show ?thesis
    using election_won [of ?n "\<lparr>et_last_term = 0, et_last_commit = 0\<rparr>" ?send ?addrs]
      election_won [of ?m "\<lparr>et_last_term = 0, et_last_commit = 0\<rparr>" ?send ?addrs] by simp
qed

section \<open>A single node applies what is proposed\<close>

definition solo_ready :: "RaftNode \<Rightarrow> bool" where
  "solo_ready n \<longleftrightarrow> rn_role n = Leader \<and> rn_peers n = [] \<and> log_inv (rn_log n) \<and>
     rn_commit_index n = log_last_index (rn_log n) \<and>
     rl_commit_index (rn_log n) = log_last_index (rn_log n) \<and>
     rl_last_applied (rn_log n) = log_last_index (rn_log n)"

fun propose_all :: "byte list list \<Rightarrow> RaftNode \<Rightarrow> RaftNode" where
  "propose_all [] n = n"
| "propose_all (d # ds) n = propose_all ds (node_step (Propose d) n)"

fun new_entries :: "nat \<Rightarrow> nat \<Rightarrow> byte list list \<Rightarrow> LogEntry list" where
  "new_entries t i [] = []"
| "new_entries t i (d # ds) = \<lparr>le_term = t, le_index = i, le_data = d\<rparr> # new_entries t (Suc i) ds"

lemma length_new_entries [simp]: "length (new_entries t i ds) = length ds"
  by (induction ds arbitrary: i) auto

lemma propose_leader:
  assumes "rn_role n = Leader" "log_inv (rn_log n)"
  shows "node_step (Propose d) n = n\<lparr>rn_log := (rn_log n)\<lparr>rl_entries := rl_entries (rn_log n) @
    [\<lparr>le_term = rn_current_term n, le_index = log_last_index (rn_log n) + 1, le_data = d\<rparr>]\<rparr>\<rparr>"
  using assms log_append_last [OF assms(2), of "rn_current_term n" d]
  by (simp add: propose_def log_append_def Let_def)

lemma propose_all_leader:
  assumes "rn_role n = Leader" "log_inv (rn_log n)"
    and "log_last_index (rn_log n) + length ds + 2 < 2 ^ 64"
  shows "propose_all ds n = n\<lparr>rn_log := (rn_log n)\<lparr>rl_entries := rl_entries (rn_log n) @
      new_entries (rn_current_term n) (log_last_index (rn_log n) + 1) ds\<rparr>\<rparr> \<and>
    log_inv (rn_log (propose_all ds n)) \<and>
    log_last_index (rn_log (propose_all ds n)) = log_last_index (rn_log n) + length ds"
  using assms
proof (induction ds arbitrary: n)
  case Nil
  then show ?case by simp
next
  case (Cons d ds)
  let ?m = "node_step (Propose d) n"
  have log: "rn_log ?m = fst (log_append (rn_log n) (rn_current_term n) d)"
    using Cons.prems by (simp add: propose_def log_append_def Let_def)
  have inv: "log_inv (rn_log ?m)"
    unfolding log using Cons.prems by (intro log_inv_append) simp_all
  have "length (rl_entries (rn_log ?m)) = Suc (length (rl_entries (rn_log n)))"
    "rl_base_index (rn_log ?m) = rl_base_index (rn_log n)"
    unfolding log by (simp_all add: log_append_def Let_def)
  then have lst: "log_last_index (rn_log ?m) = log_last_index (rn_log n) + 1"
    using log_last_index_eq [OF inv] log_last_index_eq [OF Cons.prems(2)]
      log_inv_nonempty [OF Cons.prems(2)] by (cases "rl_entries (rn_log n)") simp_all
  have role: "rn_role ?m = Leader" "rn_current_term ?m = rn_current_term n"
    using propose_leader [OF Cons.prems(1,2), of d] Cons.prems(1) by simp_all
  have "log_last_index (rn_log ?m) + length ds + 2 < 2 ^ 64"
    using lst Cons.prems(3) by simp
  note ih = Cons.IH [OF role(1) inv this]
  have "propose_all (d # ds) n = propose_all ds ?m" by simp
  moreover have "?m\<lparr>rn_log := (rn_log ?m)\<lparr>rl_entries := rl_entries (rn_log ?m) @
      new_entries (rn_current_term ?m) (log_last_index (rn_log ?m) + 1) ds\<rparr>\<rparr> =
    n\<lparr>rn_log := (rn_log n)\<lparr>rl_entries := rl_entries (rn_log n) @
      new_entries (rn_current_term n) (log_last_index (rn_log n) + 1) (d # ds)\<rparr>\<rparr>"
    unfolding lst role(2) unfolding propose_leader [OF Cons.prems(1,2), of d] by simp
  ultimately show ?case
    using ih lst by (metis add_Suc_right add_Suc_shift length_Cons Suc_eq_plus1)
qed

lemma map_nth_new:
  "length xs = k \<Longrightarrow> map (\<lambda>i. (xs @ ys) ! (i - b)) [b + k ..< b + k + length ys] = ys"
  by (rule nth_equalityI) (auto simp: nth_append)

lemma solo_commit:
  assumes "rn_role m = Leader" "rn_peers m = []" "log_inv (rn_log m)"
    and "rn_commit_index m \<le> log_last_index (rn_log m)" "rl_commit_index (rn_log m) = rn_commit_index m"
  shows "advance_commit_if_solo m = m\<lparr>rn_commit_index := log_last_index (rn_log m),
    rn_log := (rn_log m)\<lparr>rl_commit_index := log_last_index (rn_log m)\<rparr>\<rparr>"
  using assms by (auto simp: advance_commit_if_solo_def advance_commit_def Let_def)

lemma log_get_commit [simp]: "log_get (l\<lparr>rl_commit_index := c\<rparr>) i = log_get l i"
  "log_last_index (l\<lparr>rl_commit_index := c\<rparr>) = log_last_index l"
  "log_last_index (l\<lparr>rl_last_applied := c\<rparr>) = log_last_index l"
  by (simp_all add: log_get_def Let_def log_last_index_def)

lemma log_inv_commit_last:
  "log_inv l \<Longrightarrow> log_inv (l\<lparr>rl_commit_index := log_last_index l\<rparr>)"
  using base_le_last [of l] log_inv_nonempty [of l]
  by (cases "rl_entries l") (auto simp: log_inv_def log_last_index_eq)

lemma applicable_new:
  assumes inv: "log_inv l" and e: "rl_entries l = es @ ns" "es \<noteq> []"
    and c: "rl_commit_index l = log_last_index l" "Suc (rl_last_applied l) = rl_base_index l + length es"
  shows "fst (take_applicable l) = ns"
proof -
  have last: "Suc (log_last_index l) = rl_base_index l + length es + length ns"
    using length_entries_eq [OF inv] base_le_last [OF inv] e by simp
  have "the (log_get l i) = (es @ ns) ! (i - rl_base_index l)"
    if "i \<in> set [rl_base_index l + length es ..< rl_base_index l + length es + length ns]" for i
    using that by (auto simp: log_get_def Let_def e)
  then have "map (\<lambda>i. the (log_get l i)) [rl_base_index l + length es ..< rl_base_index l + length es + length ns] = ns"
    using map_nth_new [OF refl, of es ns "rl_base_index l"] by (metis (no_types, lifting) map_cong)
  then show ?thesis
    unfolding take_applicable_entries [OF inv] c last .
qed

text \<open>A single-node cluster applies what is proposed: one turn of the heartbeat thread after
  the proposals \<open>ds\<close> hands exactly these commands, in order and with consecutive log
  indices, to the state machine, and leaves nothing pending.\<close>

lemma solo_leader_applies:
  assumes "solo_ready n" "log_last_index (rn_log n) + length ds + 2 < 2 ^ 64"
  shows "snd (heartbeat_tick addrs send app (propose_all ds n, sm)) =
      fold app (new_entries (rn_current_term n) (log_last_index (rn_log n) + 1) ds) sm \<and>
    solo_ready (fst (heartbeat_tick addrs send app (propose_all ds n, sm)))"
proof -
  let ?m = "propose_all ds n" and ?N = "new_entries (rn_current_term n) (log_last_index (rn_log n) + 1) ds"
  note S = assms(1) [unfolded solo_ready_def]
  have m: "?m = n\<lparr>rn_log := (rn_log n)\<lparr>rl_entries := rl_entries (rn_log n) @ ?N\<rparr>\<rparr>"
    and inv: "log_inv (rn_log ?m)"
    and lst: "log_last_index (rn_log ?m) = log_last_index (rn_log n) + length ds"
    using propose_all_leader [of n ds] S assms(2) by blast+
  let ?l = "(rn_log ?m)\<lparr>rl_commit_index := log_last_index (rn_log ?m)\<rparr>"
  have fields: "rn_role ?m = Leader" "rn_peers ?m = []" "rn_commit_index ?m = log_last_index (rn_log n)"
    "rl_commit_index (rn_log ?m) = log_last_index (rn_log n)"
    "rl_last_applied (rn_log ?m) = log_last_index (rn_log n)"
    "rl_base_index (rn_log ?m) = rl_base_index (rn_log n)"
    "rl_entries (rn_log ?m) = rl_entries (rn_log n) @ ?N"
    using S by (simp_all add: m)
  have n1: "advance_commit_if_solo ?m =
      ?m\<lparr>rn_commit_index := log_last_index (rn_log ?m), rn_log := ?l\<rparr>"
    by (rule solo_commit) (use fields inv lst in simp_all)
  have linv: "log_inv ?l" by (rule log_inv_commit_last [OF inv])
  have "Suc (log_last_index (rn_log n)) = rl_base_index (rn_log n) + length (rl_entries (rn_log n))"
    using S length_entries_eq [of "rn_log n"] base_le_last [of "rn_log n"] by simp
  then have out: "fst (take_applicable ?l) = ?N"
    by (intro applicable_new [OF linv, of "rl_entries (rn_log n)"])
       (use fields S log_inv_nonempty in simp_all)
  have st: "snd (take_applicable ?l) = ?l\<lparr>rl_last_applied := log_last_index (rn_log ?m)\<rparr>"
    using fields lst by (simp add: take_applicable_state)
  let ?n2 = "?m\<lparr>rn_commit_index := log_last_index (rn_log ?m),
      rn_log := ?l\<lparr>rl_last_applied := log_last_index (rn_log ?m)\<rparr>\<rparr>"
  have "node_take_applicable (advance_commit_if_solo ?m) = (?N, ?n2)"
    using out st by (simp add: node_take_applicable_def n1 case_prod_unfold)
  moreover have "heartbeat ?n2 = []" using fields by (simp add: heartbeat_def)
  ultimately have tick: "heartbeat_tick addrs send app (?m, sm) = (?n2, fold app ?N sm)"
    using fields by (simp add: heartbeat_tick_def send_heartbeats_def)
  have "log_inv (snd (take_applicable ?l))" by (rule log_inv_take [OF linv])
  then have "solo_ready ?n2" using fields st by (simp add: solo_ready_def)
  with tick show ?thesis by simp
qed

text \<open>The heartbeat thread is the only caller of \<^verbatim>\<open>take_applicable\<close> and skips a node that is not
  leader: a follower never applies a committed entry.\<close>

lemma follower_never_applies:
  "rn_role n \<noteq> Leader \<Longrightarrow> heartbeat_tick addrs send app (n, sm) = (n, sm)"
  by (simp add: heartbeat_tick_def)

end
