(* ===== verification/Shard_Router.thy ===== *)
theory Shard_Router
  imports Raft_Node Rust_Str
begin

text \<open>
  Shard routing and query fan-out, \<^verbatim>\<open>crates/raft/src/shard.rs\<close>. Keys are byte strings
  in lexicographic order. The invariant \<open>router_inv\<close> says that the ranges are sorted and
  disjoint. The socket exchange of \<^verbatim>\<open>query_shard\<close> is a parameter of \<open>fanout_query\<close>.
\<close>

type_synonym key = "byte list"

record ShardRange =
  sh_id :: nat
  sh_start :: key
  sh_end :: key

record ShardRouter =
  sr_shards :: "ShardRange list"
  sr_nodes :: "(nat, nat list) hmap"

definition router_new :: ShardRouter where
  "router_new = \<lparr>sr_shards = [], sr_nodes = []\<rparr>"

definition add_shard :: "ShardRouter \<Rightarrow> ShardRange \<Rightarrow> nat list \<Rightarrow> ShardRouter" where
  "add_shard r shard nodes =
     (let pos = partition_point (\<lambda>s. sh_start s < sh_start shard) (sr_shards r)
      in r\<lparr>sr_shards := insert_at pos shard (sr_shards r),
           sr_nodes := hm_insert (sh_id shard) nodes (sr_nodes r)\<rparr>)"

definition route :: "ShardRouter \<Rightarrow> key \<Rightarrow> nat option" where
  "route r key =
     (let pos = partition_point (\<lambda>s. sh_start s \<le> key) (sr_shards r)
      in if pos = 0 then None
         else let candidate = sr_shards r ! (pos - 1)
              in if sh_end candidate = [] \<or> key < sh_end candidate then Some (sh_id candidate)
                 else None)"

definition nodes_for_shard :: "ShardRouter \<Rightarrow> nat \<Rightarrow> nat list" where
  "nodes_for_shard r i = (case hm_get (sr_nodes r) i of Some ns \<Rightarrow> ns | None \<Rightarrow> [])"

fun find_position :: "('a \<Rightarrow> bool) \<Rightarrow> 'a list \<Rightarrow> nat option" where
  \<comment> \<open>\<^verbatim>\<open>iter().position(p)\<close>\<close>
  "find_position p [] = None"
| "find_position p (x # xs) = (if p x then Some 0 else map_option Suc (find_position p xs))"

definition split_shard :: "ShardRouter \<Rightarrow> nat \<Rightarrow> key \<Rightarrow> nat \<Rightarrow> nat list \<Rightarrow> ShardRouter" where
  "split_shard r i split_key new_id new_nodes =
     (case find_position (\<lambda>s. sh_id s = i) (sr_shards r) of
        None \<Rightarrow> r
      | Some pos \<Rightarrow>
          let original_end = sh_end (sr_shards r ! pos);
              shards = (sr_shards r)[pos := (sr_shards r ! pos)\<lparr>sh_end := split_key\<rparr>];
              new_shard = \<lparr>sh_id = new_id, sh_start = split_key, sh_end = original_end\<rparr>;
              insert_pos = partition_point (\<lambda>s. sh_start s \<le> split_key) shards
          in r\<lparr>sr_shards := insert_at insert_pos new_shard shards,
               sr_nodes := hm_insert new_id new_nodes (sr_nodes r)\<rparr>)"

definition shard_count :: "ShardRouter \<Rightarrow> nat" where
  "shard_count r = length (sr_shards r)"

definition find_shards_in_range :: "ShardRouter \<Rightarrow> key \<Rightarrow> key \<Rightarrow> nat list" where
  "find_shards_in_range r low high =
     map sh_id (filter (\<lambda>s. sh_start s \<le> high \<and> (sh_end s = [] \<or> sh_end s \<ge> low)) (sr_shards r))"

section \<open>Fan-out\<close>

record ShardResult =
  res_shard_id :: nat
  res_rows :: "string list list"
  res_error :: "string option"

record ShardExecutor =
  ex_router :: ShardRouter
  ex_addresses :: "(nat, string) hmap"

definition fanout_query ::
  "(nat \<Rightarrow> string \<Rightarrow> string \<Rightarrow> ShardResult) \<Rightarrow> (nat \<Rightarrow> string) \<Rightarrow> ShardExecutor \<Rightarrow> string \<Rightarrow>
   (key \<times> key) option \<Rightarrow> ShardResult list" where
  \<comment> \<open>\<open>query_shard\<close> is the network exchange, \<open>no_addr\<close> the text of the missing-address error\<close>
  "fanout_query query_shard no_addr x sql key_range =
     (let shard_ids = (case key_range of
                         None \<Rightarrow> map sh_id (sr_shards (ex_router x))
                       | Some (low, high) \<Rightarrow> find_shards_in_range (ex_router x) low high)
      in map (\<lambda>i. case hm_get (ex_addresses x) i of
                     None \<Rightarrow> \<lparr>res_shard_id = i, res_rows = [], res_error = Some (no_addr i)\<rparr>
                   | Some a \<Rightarrow> query_shard i a sql) shard_ids)"

definition merge_results :: "ShardResult list \<Rightarrow> string list list" where
  "merge_results rs = concat (map res_rows (filter (\<lambda>r. res_error r = None) rs))"

section \<open>The invariant\<close>

definition covers :: "ShardRange \<Rightarrow> key \<Rightarrow> bool" where
  "covers s k \<longleftrightarrow> sh_start s \<le> k \<and> (sh_end s = [] \<or> k < sh_end s)"

definition precedes :: "ShardRange \<Rightarrow> ShardRange \<Rightarrow> bool" where
  "precedes a b \<longleftrightarrow> sh_start a < sh_start b \<and> sh_end a \<noteq> [] \<and> sh_end a \<le> sh_start b"

definition router_inv :: "ShardRouter \<Rightarrow> bool" where
  "router_inv r \<longleftrightarrow> sorted_wrt precedes (sr_shards r)"

lemma router_inv_new: "router_inv router_new"
  by (simp add: router_inv_def router_new_def)

lemma sorted_partitioned:
  assumes "sorted_wrt precedes xs"
  shows "partitioned (\<lambda>s. sh_start s \<le> k) xs" "partitioned (\<lambda>s. sh_start s < k) xs"
  using assms unfolding partitioned_def sorted_wrt_iff_nth_less precedes_def
  by (meson order.strict_implies_order order_trans order.strict_trans)+

lemma covers_unique:
  assumes "sorted_wrt precedes xs" "i < length xs" "j < length xs" "covers (xs ! i) k" "covers (xs ! j) k"
  shows "i = j"
proof -
  have less: "\<not> i < j" if "i < length xs" "j < length xs" "covers (xs ! i) k" "covers (xs ! j) k" for i j
    using sorted_wrt_nth_less [OF assms(1), of i j] that by (auto simp: precedes_def covers_def)
  show ?thesis
    using less [of i j] less [of j i] assms by force
qed

lemma route_covers:
  assumes "router_inv r"
  shows "route r k = Some i \<longleftrightarrow> (\<exists>s \<in> set (sr_shards r). covers s k \<and> sh_id s = i)"
proof -
  let ?xs = "sr_shards r" and ?pos = "partition_point (\<lambda>s. sh_start s \<le> k) (sr_shards r)"
  have s: "sorted_wrt precedes ?xs" using assms by (simp add: router_inv_def)
  note part = sorted_partitioned(1) [OF s, of k]
  have cand: "route r k = Some i \<longleftrightarrow> 0 < ?pos \<and> covers (?xs ! (?pos - 1)) k \<and> sh_id (?xs ! (?pos - 1)) = i"
    using partition_point_before [OF part, of "?pos - 1"] by (auto simp: route_def Let_def covers_def)
  have last: "Suc j = ?pos" if "j < length ?xs" "covers (?xs ! j) k" for j
  proof -
    have j: "j < ?pos"
      using partition_point_after [OF part, of j] that by (force simp: covers_def)
    have lt: "?pos - 1 < length ?xs"
      using j partition_point_le [of "\<lambda>s. sh_start s \<le> k" ?xs] by linarith
    have "\<not> j < ?pos - 1"
    proof
      assume "j < ?pos - 1"
      then have "precedes (?xs ! j) (?xs ! (?pos - 1))"
        using sorted_wrt_nth_less [OF s, of j "?pos - 1"] lt by simp
      moreover have "sh_start (?xs ! (?pos - 1)) \<le> k"
        using partition_point_before [OF part, of "?pos - 1"] j by simp
      ultimately show False
        using that(2) by (auto simp: precedes_def covers_def)
    qed
    with j show ?thesis by simp
  qed
  show ?thesis
  proof
    assume "route r k = Some i"
    moreover have "?pos \<le> length ?xs" by simp
    ultimately show "\<exists>s \<in> set ?xs. covers s k \<and> sh_id s = i"
      using cand by (metis One_nat_def Suc_pred less_eq_Suc_le nth_mem)
  next
    assume "\<exists>s \<in> set ?xs. covers s k \<and> sh_id s = i"
    then obtain j where "j < length ?xs" "covers (?xs ! j) k" "sh_id (?xs ! j) = i"
      by (auto simp: in_set_conv_nth)
    with last [of j] cand show "route r k = Some i"
      by (metis diff_Suc_1 zero_less_Suc)
  qed
qed

section \<open>Adding and splitting\<close>

lemma sorted_insert_at:
  assumes s: "sorted_wrt precedes xs" and part: "partitioned P xs"
    and before: "\<And>x. x \<in> set xs \<Longrightarrow> P x \<Longrightarrow> precedes x y"
    and after: "\<And>x. x \<in> set xs \<Longrightarrow> \<not> P x \<Longrightarrow> precedes y x"
  shows "sorted_wrt precedes (insert_at (partition_point P xs) y xs)"
proof -
  let ?k = "partition_point P xs"
  have lo: "precedes x y" if "x \<in> set (take ?k xs)" for x
    using that partition_point_before [OF part] before
    by (metis in_set_conv_nth in_set_takeD length_take min_less_iff_conj nth_take)
  have hi: "precedes y x" if x: "x \<in> set (drop ?k xs)" for x
  proof -
    obtain j where "j < length xs - ?k" "x = xs ! (?k + j)"
      using x by (auto simp: in_set_conv_nth)
    then show ?thesis
      using partition_point_after [OF part, of "?k + j"] after [of x] x in_set_dropD by fastforce
  qed
  have "sorted_wrt precedes (take ?k xs @ drop ?k xs)"
    using s by simp
  then show ?thesis
    unfolding sorted_wrt_append insert_at_def by (auto simp: lo hi)
qed

lemma add_shard_inv:
  assumes "router_inv r" "\<And>x. x \<in> set (sr_shards r) \<Longrightarrow> precedes x s \<or> precedes s x"
  shows "router_inv (add_shard r s ns)"
proof -
  have "sorted_wrt precedes (sr_shards r)" "partitioned (\<lambda>a. sh_start a < sh_start s) (sr_shards r)"
    using assms(1) sorted_partitioned(2) by (simp_all add: router_inv_def)
  then have "sorted_wrt precedes
      (insert_at (partition_point (\<lambda>a. sh_start a < sh_start s) (sr_shards r)) s (sr_shards r))"
    by (rule sorted_insert_at) (use assms(2) in \<open>force simp: precedes_def\<close>)+
  then show ?thesis
    by (simp add: router_inv_def add_shard_def Let_def)
qed

lemma find_position_Some:
  "find_position p xs = Some i \<Longrightarrow> i < length xs \<and> p (xs ! i)"
proof (induction xs arbitrary: i)
  case Nil
  then show ?case by simp
next
  case (Cons x xs)
  then show ?case by (cases i) (auto split: if_splits)
qed

text \<open>A split key that lies strictly inside the range it splits.\<close>

definition splits :: "ShardRange \<Rightarrow> key \<Rightarrow> bool" where
  "splits s k \<longleftrightarrow> sh_start s < k \<and> (sh_end s = [] \<or> k < sh_end s)"

lemma splits_nonempty: "splits s k \<Longrightarrow> k \<noteq> []"
  by (auto simp: splits_def)

lemma shrink_sorted:
  assumes s: "sorted_wrt precedes xs" and p: "p < length xs" "splits (xs ! p) k"
  shows "sorted_wrt precedes (xs[p := (xs ! p)\<lparr>sh_end := k\<rparr>])"
proof -
  have "precedes (xs[p := (xs ! p)\<lparr>sh_end := k\<rparr>] ! i) (xs[p := (xs ! p)\<lparr>sh_end := k\<rparr>] ! j)"
    if "i < j" "j < length xs" for i j
    using sorted_wrt_nth_less [OF s that] that p splits_nonempty [OF p(2)]
    by (auto simp: nth_list_update precedes_def splits_def)
  then show ?thesis by (simp add: sorted_wrt_iff_nth_less)
qed

lemma shrink_around:
  assumes s: "sorted_wrt precedes xs" and p: "p < length xs" "splits (xs ! p) k"
    and x: "x \<in> set (xs[p := (xs ! p)\<lparr>sh_end := k\<rparr>])"
  shows "if sh_start x \<le> k then precedes x \<lparr>sh_id = i, sh_start = k, sh_end = sh_end (xs ! p)\<rparr>
         else precedes \<lparr>sh_id = i, sh_start = k, sh_end = sh_end (xs ! p)\<rparr> x"
proof -
  obtain j where j: "j < length xs" "x = xs[p := (xs ! p)\<lparr>sh_end := k\<rparr>] ! j"
    using x by (auto simp: in_set_conv_nth)
  consider "j < p" | "j = p" | "p < j" by linarith
  then show ?thesis
  proof cases
    case 1
    then show ?thesis
      using sorted_wrt_nth_less [OF s 1 p(1)] p j
      by (auto simp: precedes_def splits_def)
  next
    case 2
    then show ?thesis
      using p j splits_nonempty [OF p(2)] by (auto simp: precedes_def splits_def)
  next
    case 3
    then show ?thesis
      using sorted_wrt_nth_less [OF s 3 j(1)] p j
      by (auto simp: precedes_def splits_def)
  qed
qed

lemma ex_nth: "(\<exists>x \<in> set xs. P x) \<longleftrightarrow> (\<exists>m < length xs. P (xs ! m))"
  by (metis in_set_conv_nth)

lemma split_shard_shards:
  assumes "find_position (\<lambda>s. sh_id s = i) (sr_shards r) = Some p"
  shows "sr_shards (split_shard r i k j ns) =
    (let xs = (sr_shards r)[p := (sr_shards r ! p)\<lparr>sh_end := k\<rparr>]
     in insert_at (partition_point (\<lambda>s. sh_start s \<le> k) xs)
          \<lparr>sh_id = j, sh_start = k, sh_end = sh_end (sr_shards r ! p)\<rparr> xs)"
  using assms by (simp add: split_shard_def Let_def)

lemma split_shard_inv:
  assumes inv: "router_inv r" and p: "find_position (\<lambda>s. sh_id s = i) (sr_shards r) = Some p"
    and k: "splits (sr_shards r ! p) k"
  shows "router_inv (split_shard r i k j ns)"
proof -
  have s: "sorted_wrt precedes (sr_shards r)" and lt: "p < length (sr_shards r)"
    using inv find_position_Some [OF p] by (simp_all add: router_inv_def)
  note xs = shrink_sorted [OF s lt k]
  show ?thesis
    unfolding router_inv_def split_shard_shards [OF p] Let_def
    using shrink_around [OF s lt k]
    by (intro sorted_insert_at xs sorted_partitioned(1) [OF xs]) fastforce+
qed

lemma split_shard_route:
  assumes inv: "router_inv r" and p: "find_position (\<lambda>s. sh_id s = i) (sr_shards r) = Some p"
    and k: "splits (sr_shards r ! p) k"
  shows "route (split_shard r i k j ns) q =
    (if covers (sr_shards r ! p) q \<and> k \<le> q then Some j else route r q)"
proof -
  let ?xs = "sr_shards r" and ?o = "sr_shards r ! p"
  let ?ys = "?xs[p := ?o\<lparr>sh_end := k\<rparr>]" and ?n = "\<lparr>sh_id = j, sh_start = k, sh_end = sh_end ?o\<rparr>"
  have s: "sorted_wrt precedes ?xs" and lt: "p < length ?xs"
    using inv find_position_Some [OF p] by (simp_all add: router_inv_def)
  have new: "route (split_shard r i k j ns) q = Some a \<longleftrightarrow>
      covers ?n q \<and> j = a \<or> (\<exists>m < length ?xs. covers (?ys ! m) q \<and> sh_id (?ys ! m) = a)" for a
    unfolding route_covers [OF split_shard_inv [OF inv p k]] split_shard_shards [OF p] Let_def
      set_insert_at by (simp add: ex_nth)
  have old: "route r q = Some a \<longleftrightarrow> (\<exists>m < length ?xs. covers (?xs ! m) q \<and> sh_id (?xs ! m) = a)" for a
    unfolding route_covers [OF inv] by (simp add: ex_nth)
  have n: "covers ?n q \<longleftrightarrow> covers ?o q \<and> k \<le> q" and o: "covers (?o\<lparr>sh_end := k\<rparr>) q \<longleftrightarrow> covers ?o q \<and> q < k"
    using k splits_nonempty [OF k] by (auto simp: covers_def splits_def)
  have uniq: "m = p" if "m < length ?xs" "covers (?xs ! m) q" "covers ?o q" for m
    using covers_unique [OF s that(1) lt that(2,3)] .
  have ids: "sh_id (?ys ! m) = sh_id (?xs ! m)" for m
    using lt by (cases "m = p") auto
  have ys: "covers (?ys ! m) q \<longleftrightarrow> (if m = p then covers ?o q \<and> q < k else covers (?xs ! m) q)"
    if "m < length ?xs" for m
    using that o by (cases "m = p") auto
  have "route (split_shard r i k j ns) q = Some a \<longleftrightarrow>
      (if covers ?o q \<and> k \<le> q then j = a else route r q = Some a)" for a
  proof (cases "covers ?o q \<and> k \<le> q")
    case True
    have "\<not> covers (?ys ! m) q" if "m < length ?xs" for m
      using ys [OF that] uniq [OF that] True by (metis leD)
    with True show ?thesis
      unfolding new n by auto
  next
    case False
    then have "covers (?ys ! m) q \<longleftrightarrow> covers (?xs ! m) q" if "m < length ?xs" for m
      using ys [OF that] by (metis not_le)
    with False show ?thesis
      unfolding new old n ids if_not_P [OF False] by blast
  qed
  then show ?thesis
    by (metis not_None_eq option.inject)
qed

lemma find_shards_complete:
  assumes "router_inv r" "route r k = Some i" "low \<le> k" "k \<le> high"
  shows "i \<in> set (find_shards_in_range r low high)"
  using assms route_covers [OF assms(1)]
  by (fastforce simp: find_shards_in_range_def covers_def)

section \<open>Properties\<close>

text \<open>C38. Routing is exact: with sorted disjoint ranges, a key is routed to shard \<open>i\<close> exactly when
  the range of a shard with id \<open>i\<close> covers the key; such a range is unique.\<close>

theorem route_exact:
  assumes "router_inv r"
  shows "(route r k = Some i \<longleftrightarrow> (\<exists>s \<in> set (sr_shards r). covers s k \<and> sh_id s = i)) \<and>
    (\<forall>a b. a < length (sr_shards r) \<and> b < length (sr_shards r) \<and>
      covers (sr_shards r ! a) k \<and> covers (sr_shards r ! b) k \<longrightarrow> a = b)"
  using route_covers [OF assms] covers_unique [of "sr_shards r" _ _ k] assms
  unfolding router_inv_def by blast

definition ex_router2 :: ShardRouter where
  "ex_router2 = add_shard (add_shard router_new \<lparr>sh_id = 2, sh_start = [128], sh_end = []\<rparr> [20])
     \<lparr>sh_id = 1, sh_start = [0], sh_end = [128]\<rparr> [10]"

theorem route_exact_witness:
  "route ex_router2 [130] = Some 2 \<and> route ex_router2 [127, 9] = Some 1 \<and> route ex_router2 [] = None"
proof -
  have inv: "router_inv ex_router2" and m: "sr_shards ex_router2 =
      [\<lparr>sh_id = 1, sh_start = [0], sh_end = [128]\<rparr>, \<lparr>sh_id = 2, sh_start = [128], sh_end = []\<rparr>]"
    by code_simp+
  show ?thesis
    using route_exact [OF inv, of "[130]" 2] route_exact [OF inv, of "[127, 9]" 1]
      route_exact [OF inv, of "[]"]
    by (cases "route ex_router2 []") (auto simp: m covers_def)
qed

text \<open>C39. Splitting a shard at a key strictly inside its range keeps the ranges sorted and
  disjoint, sends exactly the keys of the old range from the split key on to the new
  shard, and changes no other route.\<close>

theorem split_shard_correct:
  assumes "router_inv r" "find_position (\<lambda>s. sh_id s = i) (sr_shards r) = Some p"
    and "splits (sr_shards r ! p) k"
  shows "router_inv (split_shard r i k j ns) \<and>
    route (split_shard r i k j ns) q =
      (if covers (sr_shards r ! p) q \<and> k \<le> q then Some j else route r q) \<and>
    nodes_for_shard (split_shard r i k j ns) j = ns"
  using split_shard_inv [OF assms] split_shard_route [OF assms] assms(2)
  by (simp add: nodes_for_shard_def split_shard_def Let_def hm_insert_get)

theorem split_shard_correct_witness:
  "route (split_shard ex_router2 1 [64] 3 [30]) [64] = Some 3 \<and>
   nodes_for_shard (split_shard ex_router2 1 [64] 3 [30]) 3 = [30]"
proof -
  have "router_inv ex_router2" "find_position (\<lambda>s. sh_id s = 1) (sr_shards ex_router2) = Some 0"
    "splits (sr_shards ex_router2 ! 0) [64]" "covers (sr_shards ex_router2 ! 0) [64] \<and> [64] \<le> [64 :: byte]"
    by code_simp+
  then show ?thesis
    using split_shard_correct [of ex_router2 1 0 "[64]" 3 "[30]" "[64]"] by simp
qed

text \<open>A range query misses no shard: whatever shard holds a key of the range \<open>[low, high]\<close>, the
  fan-out returns that shard's answer, or its missing-address error.\<close>

lemma fanout_misses_no_shard:
  assumes "router_inv (ex_router x)" "route (ex_router x) k = Some i" "low \<le> k" "k \<le> high"
  shows "(case hm_get (ex_addresses x) i of
            None \<Rightarrow> \<lparr>res_shard_id = i, res_rows = [], res_error = Some (no_addr i)\<rparr>
          | Some a \<Rightarrow> query_shard i a sql)
         \<in> set (fanout_query query_shard no_addr x sql (Some (low, high)))"
  using find_shards_complete [OF assms] by (auto simp: fanout_query_def)

text \<open>Nothing checks that the split key lies inside the range: a key below it makes the
  ranges overlap and takes keys away from another shard.\<close>

lemma split_outside_range:
  "route ex_router2 [50] = Some 1 \<and> route (split_shard ex_router2 2 [40] 3 []) [50] = Some 3"
  by code_simp

end
