(* ===== verification/Page.thy ===== *)
theory Page
  imports Rust_Str
begin

unbundle bit_operations_syntax

text \<open>
  The slotted page of \<^verbatim>\<open>crates/storage/src/page.rs\<close>, byte by byte: a page is the list of
  its \<open>PAGE_SIZE\<close> bytes, and every accessor and operation is a read or a write of slices
  of it. The invariant \<open>page_wf\<close> places the slot array and the tuples; the abstraction
  \<open>tuples\<close> lists the tuple of each slot (\<open>None\<close> for a deleted one), and every operation
  is shown to be the list operation it stands for. The checksum function of the
  \<^verbatim>\<open>crc32fast\<close> package is a parameter.
\<close>

named_theorems page_ops \<open>definitions of the page operations\<close>

section \<open>Errors\<close>

text \<open>\<open>Panic\<close> stands for a Rust panic (an index out of range); it is not a value of the
  enum of \<^verbatim>\<open>error.rs\<close>. I/O errors carry no payload here.\<close>

datatype StorageError =
    Io
  | BufferFull
  | PageNotFound nat
  | PageNotPinned nat
  | InsufficientSpace nat nat
  | InvalidChecksum nat
  | SlotOutOfRange nat
  | Corruption
  | Panic

section \<open>Layout\<close>

type_synonym page = "byte list"

abbreviation (input) PAGE_SIZE :: nat where "PAGE_SIZE \<equiv> 8192"
abbreviation (input) PAGE_HEADER_SIZE :: nat where "PAGE_HEADER_SIZE \<equiv> 48"
abbreviation (input) SLOT_SIZE :: nat where "SLOT_SIZE \<equiv> 4"
abbreviation (input) TUPLE_HEADER_SIZE :: nat where "TUPLE_HEADER_SIZE \<equiv> 24"
abbreviation (input) INVALID_PAGE_ID :: nat where "INVALID_PAGE_ID \<equiv> 2 ^ 64 - 1"
abbreviation (input) BTREE_SPECIAL_SIZE :: nat where "BTREE_SPECIAL_SIZE \<equiv> 28"
abbreviation (input) FLAG_HAS_FREE_LINES :: nat where "FLAG_HAS_FREE_LINES \<equiv> 1"
abbreviation (input) BTREE_FLAG_IS_ROOT :: nat where "BTREE_FLAG_IS_ROOT \<equiv> 1"
abbreviation (input) BTREE_FLAG_IS_LEAF :: nat where "BTREE_FLAG_IS_LEAF \<equiv> 2"
abbreviation (input) BTREE_FLAG_IS_RIGHTMOST :: nat where "BTREE_FLAG_IS_RIGHTMOST \<equiv> 4"

definition read_u16 :: "byte list \<Rightarrow> nat \<Rightarrow> nat" where
  "read_u16 d o1 = from_le (slice d o1 2)"

definition read_u32 :: "byte list \<Rightarrow> nat \<Rightarrow> nat" where
  "read_u32 d o1 = from_le (slice d o1 4)"

definition read_u64 :: "byte list \<Rightarrow> nat \<Rightarrow> nat" where
  "read_u64 d o1 = from_le (slice d o1 8)"

definition write_u16 :: "byte list \<Rightarrow> nat \<Rightarrow> nat \<Rightarrow> byte list" where
  "write_u16 d o1 v = blit d o1 (to_le 2 v)"

definition write_u32 :: "byte list \<Rightarrow> nat \<Rightarrow> nat \<Rightarrow> byte list" where
  "write_u32 d o1 v = blit d o1 (to_le 4 v)"

definition write_u64 :: "byte list \<Rightarrow> nat \<Rightarrow> nat \<Rightarrow> byte list" where
  "write_u64 d o1 v = blit d o1 (to_le 8 v)"

subsection \<open>Header fields\<close>

definition page_id :: "page \<Rightarrow> nat" where "page_id p = read_u64 p 0"
definition set_page_id :: "page \<Rightarrow> nat \<Rightarrow> page" where "set_page_id p v = write_u64 p 0 v"
definition page_lsn :: "page \<Rightarrow> nat" where "page_lsn p = read_u64 p 8"
definition set_lsn :: "page \<Rightarrow> nat \<Rightarrow> page" where "set_lsn p v = write_u64 p 8 v"
definition page_checksum :: "page \<Rightarrow> nat" where "page_checksum p = read_u32 p 16"
definition page_flags :: "page \<Rightarrow> nat" where "page_flags p = read_u16 p 20"
definition set_flags :: "page \<Rightarrow> nat \<Rightarrow> page" where "set_flags p v = write_u16 p 20 v"
definition page_lower :: "page \<Rightarrow> nat" where "page_lower p = read_u16 p 22"
definition set_lower :: "page \<Rightarrow> nat \<Rightarrow> page" where "set_lower p v = write_u16 p 22 v"
definition page_upper :: "page \<Rightarrow> nat" where "page_upper p = read_u16 p 24"
definition set_upper :: "page \<Rightarrow> nat \<Rightarrow> page" where "set_upper p v = write_u16 p 24 v"
definition page_special :: "page \<Rightarrow> nat" where "page_special p = read_u16 p 26"
definition set_special :: "page \<Rightarrow> nat \<Rightarrow> page" where "set_special p v = write_u16 p 26 v"
definition xid_base :: "page \<Rightarrow> nat" where "xid_base p = read_u64 p 28"
definition set_xid_base :: "page \<Rightarrow> nat \<Rightarrow> page" where "set_xid_base p v = write_u64 p 28 v"
definition prune_xid :: "page \<Rightarrow> nat" where "prune_xid p = read_u32 p 36"
definition set_prune_xid :: "page \<Rightarrow> nat \<Rightarrow> page" where "set_prune_xid p v = write_u32 p 36 v"

definition page_new :: "nat \<Rightarrow> page" where
  "page_new i = set_special (set_upper (set_lower (set_page_id (replicate PAGE_SIZE 0) i)
     PAGE_HEADER_SIZE) PAGE_SIZE) PAGE_SIZE"

subsection \<open>Slots and free space\<close>

definition free_space :: "page \<Rightarrow> nat" where
  "free_space p = page_upper p - page_lower p"

definition slot_count :: "page \<Rightarrow> nat" where
  \<comment> \<open>the subtraction wraps for a \<open>lower\<close> inside the header\<close>
  "slot_count p =
     ((page_lower p + 2 ^ 64 - PAGE_HEADER_SIZE) mod 2 ^ 64 div SLOT_SIZE) mod 2 ^ 16"

definition read_slot :: "page \<Rightarrow> nat \<Rightarrow> nat \<times> nat" where
  "read_slot p i =
     (let base = PAGE_HEADER_SIZE + i * SLOT_SIZE
      in (read_u16 p base, read_u16 p (base + 2)))"

definition write_slot :: "page \<Rightarrow> nat \<Rightarrow> nat \<Rightarrow> nat \<Rightarrow> page" where
  "write_slot p i off len =
     (let base = PAGE_HEADER_SIZE + i * SLOT_SIZE
      in write_u16 (write_u16 p base off) (base + 2) len)"

definition is_slot_used :: "page \<Rightarrow> nat \<Rightarrow> bool" where
  "is_slot_used p i =
     (if i \<ge> slot_count p then False
      else let (off, len) = read_slot p i in off \<noteq> 0 \<or> len \<noteq> 0)"

subsection \<open>Tuples\<close>

definition insert_tuple :: "page \<Rightarrow> byte list \<Rightarrow> StorageError + page \<times> nat" where
  "insert_tuple p d =
     (let needed = SLOT_SIZE + length d; available = free_space p
      in if available < needed then Inl (InsufficientSpace needed available)
         else let new_upper = page_upper p - length d;
                  p1 = blit p new_upper d;
                  slot_id = slot_count p1;
                  p2 = write_slot p1 slot_id new_upper (length d);
                  p3 = set_upper p2 new_upper;
                  p4 = set_lower p3 (page_lower p3 + SLOT_SIZE)
              in Inr (p4, slot_id))"

definition get_tuple :: "page \<Rightarrow> nat \<Rightarrow> StorageError + byte list" where
  "get_tuple p i =
     (if i \<ge> slot_count p then Inl (SlotOutOfRange i)
      else let (off, len) = read_slot p i
           in if off = 0 \<and> len = 0 then Inl (SlotOutOfRange i)
              else if off + len > PAGE_SIZE then Inl Panic
              else Inr (slice p off len))"

definition delete_tuple :: "page \<Rightarrow> nat \<Rightarrow> StorageError + page" where
  "delete_tuple p i =
     (if i \<ge> slot_count p then Inl (SlotOutOfRange i)
      else let p1 = write_slot p i 0 0
           in Inr (set_flags p1 (page_flags p1 OR FLAG_HAS_FREE_LINES)))"

definition insert_tuple_at :: "page \<Rightarrow> nat \<Rightarrow> byte list \<Rightarrow> StorageError + page \<times> nat" where
  "insert_tuple_at p pos d =
     (let needed = SLOT_SIZE + length d; available = free_space p
      in if available < needed then Inl (InsufficientSpace needed available)
         else let n = slot_count p
              in if pos > n then Inl (SlotOutOfRange pos)
                 else let new_upper = page_upper p - length d;
                          p1 = blit p new_upper d;
                          base = PAGE_HEADER_SIZE + pos * SLOT_SIZE;
                          fin = PAGE_HEADER_SIZE + n * SLOT_SIZE;
                          p2 = (if pos < n then blit p1 (base + SLOT_SIZE) (slice p1 base (fin - base))
                                else p1);
                          p3 = write_u16 p2 base new_upper;
                          p4 = write_u16 p3 (base + 2) (length d);
                          p5 = set_upper p4 new_upper;
                          p6 = set_lower p5 (page_lower p5 + SLOT_SIZE)
                      in Inr (p6, pos))"

definition clear_tuples :: "page \<Rightarrow> page" where
  "clear_tuples p =
     (let sp = page_special p;
          p1 = blit p PAGE_HEADER_SIZE (replicate (sp - PAGE_HEADER_SIZE) 0);
          p2 = set_lower p1 PAGE_HEADER_SIZE
      in set_upper p2 (page_special p2))"

subsection \<open>B+ tree nodes\<close>

definition btree_flags :: "page \<Rightarrow> nat" where "btree_flags p = read_u16 p (page_special p)"
definition set_btree_flags :: "page \<Rightarrow> nat \<Rightarrow> page" where
  "set_btree_flags p v = write_u16 p (page_special p) v"
definition btree_level :: "page \<Rightarrow> nat" where "btree_level p = read_u16 p (page_special p + 2)"
definition set_btree_level :: "page \<Rightarrow> nat \<Rightarrow> page" where
  "set_btree_level p v = write_u16 p (page_special p + 2) v"
definition btree_prev_page :: "page \<Rightarrow> nat" where "btree_prev_page p = read_u64 p (page_special p + 4)"
definition set_btree_prev_page :: "page \<Rightarrow> nat \<Rightarrow> page" where
  "set_btree_prev_page p v = write_u64 p (page_special p + 4) v"
definition btree_next_page :: "page \<Rightarrow> nat" where "btree_next_page p = read_u64 p (page_special p + 12)"
definition set_btree_next_page :: "page \<Rightarrow> nat \<Rightarrow> page" where
  "set_btree_next_page p v = write_u64 p (page_special p + 12) v"
definition btree_leftmost_child :: "page \<Rightarrow> nat" where
  "btree_leftmost_child p = read_u64 p (page_special p + 20)"
definition set_btree_leftmost_child :: "page \<Rightarrow> nat \<Rightarrow> page" where
  "set_btree_leftmost_child p v = write_u64 p (page_special p + 20) v"

definition init_btree_page :: "page \<Rightarrow> bool \<Rightarrow> bool \<Rightarrow> page" where
  "init_btree_page p is_leaf is_root =
     (let sp = PAGE_SIZE - BTREE_SPECIAL_SIZE;
          p1 = set_lower (set_upper (set_special p sp) sp) PAGE_HEADER_SIZE;
          fl = ((if is_root then BTREE_FLAG_IS_ROOT else 0) OR (if is_leaf then BTREE_FLAG_IS_LEAF else 0))
               OR BTREE_FLAG_IS_RIGHTMOST;
          p2 = write_u16 p1 sp fl;
          p3 = write_u16 p2 (sp + 2) 0;
          p4 = write_u64 p3 (sp + 4) INVALID_PAGE_ID;
          p5 = write_u64 p4 (sp + 12) INVALID_PAGE_ID
      in write_u64 p5 (sp + 20) INVALID_PAGE_ID)"

subsection \<open>Checksum\<close>

definition compute_checksum :: "(byte list \<Rightarrow> nat) \<Rightarrow> page \<Rightarrow> nat" where
  "compute_checksum crc p = crc (write_u32 p 16 0)"

definition verify_checksum :: "(byte list \<Rightarrow> nat) \<Rightarrow> page \<Rightarrow> bool" where
  "verify_checksum crc p \<longleftrightarrow> compute_checksum crc p = page_checksum p"

definition update_checksum :: "(byte list \<Rightarrow> nat) \<Rightarrow> page \<Rightarrow> page" where
  "update_checksum crc p = write_u32 p 16 (compute_checksum crc p)"

text \<open>A tuple is named by its page and its slot, \<^verbatim>\<open>TupleId\<close> of \<^verbatim>\<open>heap.rs\<close>.\<close>

record TupleId =
  tid_page_id :: nat
  tid_slot_id :: nat

section \<open>Reads after writes\<close>

lemma slice_blit_disjoint [buf_simps]:
  assumes "i + length ys \<le> length xs" "j + n \<le> length xs" "j + n \<le> i \<or> i + length ys \<le> j"
  shows "slice (blit xs i ys) j n = slice xs j n"
  using assms slice_blit_before slice_blit_after by blast

lemma length_writes [simp]:
  "o1 + 2 \<le> length d \<Longrightarrow> length (write_u16 d o1 v) = length d"
  "o1 + 4 \<le> length d \<Longrightarrow> length (write_u32 d o1 v) = length d"
  "o1 + 8 \<le> length d \<Longrightarrow> length (write_u64 d o1 v) = length d"
  by (simp_all add: write_u16_def write_u32_def write_u64_def)

lemma read_write_same [buf_simps]:
  "o1 + 2 \<le> length d \<Longrightarrow> v < 2 ^ 16 \<Longrightarrow> read_u16 (write_u16 d o1 v) o1 = v"
  "o1 + 4 \<le> length d \<Longrightarrow> v < 2 ^ 32 \<Longrightarrow> read_u32 (write_u32 d o1 v) o1 = v"
  "o1 + 8 \<le> length d \<Longrightarrow> v < 2 ^ 64 \<Longrightarrow> read_u64 (write_u64 d o1 v) o1 = v"
  by (simp_all add: write_u16_def write_u32_def write_u64_def read_u16_def read_u32_def read_u64_def
      slice_blit_same)

lemma read_blit [buf_simps]:
  assumes "i + length ys \<le> length d"
  shows "o1 + 2 \<le> length d \<Longrightarrow> o1 + 2 \<le> i \<or> i + length ys \<le> o1 \<Longrightarrow> read_u16 (blit d i ys) o1 = read_u16 d o1"
    and "o1 + 4 \<le> length d \<Longrightarrow> o1 + 4 \<le> i \<or> i + length ys \<le> o1 \<Longrightarrow> read_u32 (blit d i ys) o1 = read_u32 d o1"
    and "o1 + 8 \<le> length d \<Longrightarrow> o1 + 8 \<le> i \<or> i + length ys \<le> o1 \<Longrightarrow> read_u64 (blit d i ys) o1 = read_u64 d o1"
  using assms by (simp_all only: read_u16_def read_u32_def read_u64_def slice_blit_disjoint)

lemma read_write_u16 [buf_simps]:
  assumes "i + 2 \<le> length d"
  shows "o1 + 2 \<le> length d \<Longrightarrow> o1 + 2 \<le> i \<or> i + 2 \<le> o1 \<Longrightarrow> read_u16 (write_u16 d i v) o1 = read_u16 d o1"
    and "o1 + 4 \<le> length d \<Longrightarrow> o1 + 4 \<le> i \<or> i + 2 \<le> o1 \<Longrightarrow> read_u32 (write_u16 d i v) o1 = read_u32 d o1"
    and "o1 + 8 \<le> length d \<Longrightarrow> o1 + 8 \<le> i \<or> i + 2 \<le> o1 \<Longrightarrow> read_u64 (write_u16 d i v) o1 = read_u64 d o1"
    and "j + n \<le> length d \<Longrightarrow> j + n \<le> i \<or> i + 2 \<le> j \<Longrightarrow> slice (write_u16 d i v) j n = slice d j n"
  using assms by (simp_all only: write_u16_def read_blit slice_blit_disjoint length_to_le)

lemma read_write_u64 [buf_simps]:
  assumes "i + 8 \<le> length d"
  shows "o1 + 2 \<le> length d \<Longrightarrow> o1 + 2 \<le> i \<or> i + 8 \<le> o1 \<Longrightarrow> read_u16 (write_u64 d i v) o1 = read_u16 d o1"
    and "o1 + 4 \<le> length d \<Longrightarrow> o1 + 4 \<le> i \<or> i + 8 \<le> o1 \<Longrightarrow> read_u32 (write_u64 d i v) o1 = read_u32 d o1"
    and "o1 + 8 \<le> length d \<Longrightarrow> o1 + 8 \<le> i \<or> i + 8 \<le> o1 \<Longrightarrow> read_u64 (write_u64 d i v) o1 = read_u64 d o1"
    and "j + n \<le> length d \<Longrightarrow> j + n \<le> i \<or> i + 8 \<le> j \<Longrightarrow> slice (write_u64 d i v) j n = slice d j n"
  using assms by (simp_all only: write_u64_def read_blit slice_blit_disjoint length_to_le)

lemma read_write_u32 [buf_simps]:
  assumes "i + 4 \<le> length d"
  shows "o1 + 2 \<le> length d \<Longrightarrow> o1 + 2 \<le> i \<or> i + 4 \<le> o1 \<Longrightarrow> read_u16 (write_u32 d i v) o1 = read_u16 d o1"
    and "j + n \<le> length d \<Longrightarrow> j + n \<le> i \<or> i + 4 \<le> j \<Longrightarrow> slice (write_u32 d i v) j n = slice d j n"
  using assms by (simp_all only: write_u32_def read_blit slice_blit_disjoint length_to_le)

lemma from_le_zeros [simp]: "from_le (replicate n 0) = 0"
  by (induction n) auto

lemma slice_replicate [simp]: "slice (replicate n x) i m = replicate (min m (n - i)) x"
  by (simp add: slice_def)

lemma read_zeros [simp]:
  "read_u16 (replicate n 0) o1 = 0" "read_u32 (replicate n 0) o1 = 0" "read_u64 (replicate n 0) o1 = 0"
  by (simp_all add: read_u16_def read_u32_def read_u64_def)

lemma read_u16_less [simp]: "o1 + 2 \<le> length d \<Longrightarrow> read_u16 d o1 < 65536"
  using from_le_less [of "slice d o1 2"] by (simp add: read_u16_def)

lemmas header_defs = page_id_def set_page_id_def page_lsn_def set_lsn_def page_checksum_def
  page_flags_def set_flags_def page_lower_def set_lower_def page_upper_def set_upper_def
  page_special_def set_special_def xid_base_def set_xid_base_def prune_xid_def set_prune_xid_def

section \<open>The invariant and the abstraction\<close>

definition slot_ok :: "page \<Rightarrow> nat \<Rightarrow> bool" where
  "slot_ok p i \<longleftrightarrow> (case read_slot p i of (off, len) \<Rightarrow>
     off = 0 \<and> len = 0 \<or> page_upper p \<le> off \<and> off + len \<le> page_special p)"

definition page_wf :: "page \<Rightarrow> bool" where
  "page_wf p \<longleftrightarrow> length p = PAGE_SIZE \<and>
     page_lower p = PAGE_HEADER_SIZE + SLOT_SIZE * slot_count p \<and>
     page_lower p \<le> page_upper p \<and> page_upper p \<le> page_special p \<and> page_special p \<le> PAGE_SIZE \<and>
     (\<forall>i < slot_count p. slot_ok p i)"

definition tuple_at :: "page \<Rightarrow> nat \<Rightarrow> byte list option" where
  "tuple_at p i = (case read_slot p i of (off, len) \<Rightarrow>
     if off = 0 \<and> len = 0 then None else Some (slice p off len))"

definition tuples :: "page \<Rightarrow> byte list option list" where
  "tuples p = map (tuple_at p) [0 ..< slot_count p]"

lemma length_tuples [simp]: "length (tuples p) = slot_count p"
  by (simp add: tuples_def)

lemma nth_tuples [simp]: "i < slot_count p \<Longrightarrow> tuples p ! i = tuple_at p i"
  by (simp add: tuples_def)

lemma slot_count_eq:
  "page_lower p = PAGE_HEADER_SIZE + SLOT_SIZE * n \<Longrightarrow> n < 2 ^ 14 \<Longrightarrow> slot_count p = n"
  by (simp add: slot_count_def)

lemma page_wfD:
  assumes "page_wf p"
  shows wf_length: "length p = PAGE_SIZE"
    and wf_lower: "page_lower p = PAGE_HEADER_SIZE + SLOT_SIZE * slot_count p"
    and wf_lower_upper: "page_lower p \<le> page_upper p"
    and wf_upper_special: "page_upper p \<le> page_special p"
    and wf_special: "page_special p \<le> PAGE_SIZE"
    and wf_slot: "i < slot_count p \<Longrightarrow> slot_ok p i"
  using assms by (auto simp: page_wf_def)

text \<open>What an insertion leaves at the byte level, whichever slot it uses.\<close>

lemma page_wfI:
  assumes "length p = PAGE_SIZE" "page_lower p = PAGE_HEADER_SIZE + SLOT_SIZE * n"
    "page_lower p \<le> page_upper p" "page_upper p \<le> page_special p" "page_special p \<le> PAGE_SIZE"
    "\<And>i. i < n \<Longrightarrow> slot_ok p i"
  shows "page_wf p \<and> slot_count p = n"
proof -
  have "slot_count p = n"
    using assms by (intro slot_count_eq) simp_all
  with assms show ?thesis by (simp add: page_wf_def)
qed

lemma page_new_wf: "page_wf (page_new i) \<and> slot_count (page_new i) = 0"
  by (rule page_wfI) (simp_all add: page_new_def header_defs buf_simps)

lemma page_new_fields:
  "i < 2 ^ 64 \<Longrightarrow> page_id (page_new i) = i" "page_lsn (page_new i) = 0"
  "page_lower (page_new i) = PAGE_HEADER_SIZE" "page_upper (page_new i) = PAGE_SIZE"
  "page_special (page_new i) = PAGE_SIZE" "free_space (page_new i) = 8144"
  by (simp_all add: page_new_def header_defs buf_simps free_space_def)

section \<open>The operations on the abstraction\<close>

lemma blit_keeps:
  assumes wf: "page_wf p" and d: "length d \<le> page_upper p - page_lower p"
  defines "q \<equiv> blit p (page_upper p - length d) d"
  shows "length q = PAGE_SIZE" "page_lower q = page_lower p" "page_upper q = page_upper p"
    "page_special q = page_special p" "page_flags q = page_flags p" "slot_count q = slot_count p"
    "slice q (page_upper p - length d) (length d) = d"
    "i < slot_count p \<Longrightarrow> read_slot q i = read_slot p i"
    "page_upper p \<le> off \<Longrightarrow> off + len \<le> PAGE_SIZE \<Longrightarrow> slice q off len = slice p off len"
proof -
  note W = wf_length [OF wf] wf_lower [OF wf] wf_lower_upper [OF wf] wf_upper_special [OF wf] wf_special [OF wf]
  have b: "page_upper p - length d + length d \<le> length p" "PAGE_HEADER_SIZE \<le> page_upper p - length d"
    using W d by linarith+
  show "length q = PAGE_SIZE" using W b by (simp add: q_def)
  show h: "page_lower q = page_lower p" "page_upper q = page_upper p"
    "page_special q = page_special p" "page_flags q = page_flags p"
    using W b unfolding q_def page_lower_def page_upper_def page_special_def page_flags_def
    by (intro read_blit; simp)+
  show "slot_count q = slot_count p" by (simp add: slot_count_def h)
  show "slice q (page_upper p - length d) (length d) = d"
    using b unfolding q_def by (intro slice_blit_same) simp_all
  show "read_slot q i = read_slot p i" if "i < slot_count p"
  proof -
    have "PAGE_HEADER_SIZE + i * SLOT_SIZE + 4 \<le> page_upper p - length d"
      using that W d by linarith
    then show ?thesis
      using b W by (simp add: read_slot_def Let_def q_def read_blit)
  qed
  show "slice q off len = slice p off len" if "page_upper p \<le> off" "off + len \<le> PAGE_SIZE"
    using that b W unfolding q_def by (intro slice_blit_disjoint) simp_all
qed

lemma set_bounds:
  assumes "length r = PAGE_SIZE" "u < 65536" "l < 65536"
  defines "q \<equiv> set_lower (set_upper r u) l"
  shows "length q = PAGE_SIZE" "page_lower q = l" "page_upper q = u" "page_special q = page_special r"
    "page_flags q = page_flags r" "page_id q = page_id r" "page_lsn q = page_lsn r"
    "i < 2036 \<Longrightarrow> read_slot q i = read_slot r i"
    "PAGE_HEADER_SIZE \<le> off \<Longrightarrow> off + len \<le> PAGE_SIZE \<Longrightarrow> slice q off len = slice r off len"
  using assms by (simp_all add: header_defs read_slot_def Let_def buf_simps)

lemma write_slot_keeps:
  assumes "length r = PAGE_SIZE" "j < 2036" "a < 65536" "b < 65536"
  defines "q \<equiv> write_slot r j a b"
  shows "length q = PAGE_SIZE" "page_lower q = page_lower r" "page_upper q = page_upper r"
    "page_special q = page_special r" "page_flags q = page_flags r" "page_id q = page_id r"
    "page_lsn q = page_lsn r"
    "i < 2036 \<Longrightarrow> read_slot q i = (if i = j then (a, b) else read_slot r i)"
    "PAGE_HEADER_SIZE + SLOT_SIZE * (j + 1) \<le> off \<Longrightarrow> off + len \<le> PAGE_SIZE \<Longrightarrow> slice q off len = slice r off len"
proof -
  show "read_slot q i = (if i = j then (a, b) else read_slot r i)" if "i < 2036"
  proof (cases "i = j")
    case True
    with assms show ?thesis by (simp add: write_slot_def read_slot_def Let_def buf_simps)
  next
    case False
    then consider "Suc i \<le> j" | "Suc j \<le> i" by linarith
    then show ?thesis
      using assms that by cases (simp_all add: write_slot_def read_slot_def Let_def buf_simps)
  qed
qed (use assms in \<open>simp_all add: write_slot_def header_defs Let_def buf_simps\<close>)

text \<open>The common end of both insertions: the new tuple is in place, the slots are \<open>sl\<close>.\<close>

lemma insert_finish:
  assumes wf: "page_wf p" and d: "SLOT_SIZE + length d \<le> free_space p"
    and r: "length r = PAGE_SIZE" "page_special r = page_special p"
    and slots: "\<And>i. i \<le> slot_count p \<Longrightarrow> read_slot r i =
      (if i = pos then (page_upper p - length d, length d)
       else if i < pos then read_slot p i else read_slot p (i - 1))"
    and pos: "pos \<le> slot_count p"
    and new: "slice r (page_upper p - length d) (length d) = d"
    and old: "\<And>off len. page_upper p \<le> off \<Longrightarrow> off + len \<le> PAGE_SIZE \<Longrightarrow> slice r off len = slice p off len"
  defines "q \<equiv> set_lower (set_upper r (page_upper p - length d)) (page_lower p + SLOT_SIZE)"
  shows "page_wf q \<and> tuples q = insert_at pos (Some d) (tuples p) \<and>
    free_space q = free_space p - (SLOT_SIZE + length d) \<and> page_special q = page_special p"
proof -
  note W = wf_length [OF wf] wf_lower [OF wf] wf_lower_upper [OF wf] wf_upper_special [OF wf] wf_special [OF wf]
  let ?n = "slot_count p" and ?u = "page_upper p - length d"
  have bounds: "?u < 65536" "page_lower p + SLOT_SIZE < 65536" "page_lower p + SLOT_SIZE \<le> ?u"
    "?u + length d = page_upper p" "?u \<noteq> 0"
    using W d by (simp_all add: free_space_def)
  note Q = set_bounds [OF r(1) bounds(1,2), folded q_def]
  have n: "Suc ?n \<le> 2036" using W bounds by simp
  have slot: "read_slot q i = (if i = pos then (?u, length d)
      else if i < pos then read_slot p i else read_slot p (i - 1))" if "i \<le> ?n" for i
    using Q(8) [of i] slots [OF that] that n by simp
  have prev: "(if i < pos then i else i - 1) < ?n" if "i \<le> ?n" "i \<noteq> pos" for i
    using that pos by auto
  have okp: "slot_ok p j" if "j < ?n" for j
    using wf_slot [OF wf that] .
  have wfq: "page_wf q \<and> slot_count q = Suc ?n"
  proof (rule page_wfI)
    show "length q = PAGE_SIZE" "page_lower q = PAGE_HEADER_SIZE + SLOT_SIZE * Suc ?n"
      "page_lower q \<le> page_upper q" "page_upper q \<le> page_special q" "page_special q \<le> PAGE_SIZE"
      using Q W r bounds by simp_all
    show "slot_ok q i" if "i < Suc ?n" for i
    proof (cases "i = pos")
      case True
      then show ?thesis
        using slot [of i] that Q r W bounds by (simp add: slot_ok_def)
    next
      case False
      then show ?thesis
        using okp [OF prev, of i] slot [of i] that Q r bounds
        by (auto simp: slot_ok_def split: prod.splits if_splits)
    qed
  qed
  have at_new: "tuple_at q pos = Some d"
    using slot [OF pos] Q(9) [of ?u "length d"] new W bounds by (simp add: tuple_at_def)
  have at_old: "tuple_at q i = tuple_at p (if i < pos then i else i - 1)" if "i \<le> ?n" "i \<noteq> pos" for i
  proof -
    let ?j = "if i < pos then i else i - 1"
    obtain off len where ol: "read_slot p ?j = (off, len)" by force
    have "read_slot q i = (off, len)" using slot [OF that(1)] that(2) ol by (auto split: if_splits)
    moreover have "off = 0 \<and> len = 0 \<or> page_upper p \<le> off \<and> off + len \<le> PAGE_SIZE"
      using okp [OF prev [OF that]] ol W by (auto simp: slot_ok_def)
    ultimately show ?thesis
      using ol old [of off len] Q(9) [of off len] W by (auto simp: tuple_at_def)
  qed
  have "tuples q = insert_at pos (Some d) (tuples p)"
  proof (rule nth_equalityI)
    show "length (tuples q) = length (insert_at pos (Some d) (tuples p))"
      using wfq pos by simp
    show "tuples q ! i = insert_at pos (Some d) (tuples p) ! i" if "i < length (tuples q)" for i
      using that wfq pos at_new at_old [of i] prev [of i]
      by (auto simp: insert_at_def nth_append min_def nth_Cons')
  qed
  with wfq Q r W show ?thesis by (simp add: free_space_def)
qed

lemma insert_tuple_ok:
  assumes wf: "page_wf p" and d: "SLOT_SIZE + length d \<le> free_space p"
  shows "\<exists>q. insert_tuple p d = Inr (q, slot_count p) \<and> page_wf q \<and>
    tuples q = tuples p @ [Some d] \<and> free_space q = free_space p - (SLOT_SIZE + length d) \<and>
    page_special q = page_special p"
proof -
  let ?n = "slot_count p" and ?u = "page_upper p - length d"
  note W = wf_length [OF wf] wf_lower [OF wf] wf_lower_upper [OF wf] wf_upper_special [OF wf] wf_special [OF wf]
  have d': "length d \<le> page_upper p - page_lower p" using d by (simp add: free_space_def)
  define q where "q = blit p ?u d"
  note Q = blit_keeps [OF wf d', folded q_def]
  have n: "?n < 2036" "?u < 65536" "length d < 65536" using W d by (simp_all add: free_space_def)
  define r where "r = write_slot q ?n ?u (length d)"
  note R = write_slot_keeps [OF Q(1) n, folded r_def]
  let ?f = "set_lower (set_upper r ?u) (page_lower p + SLOT_SIZE)"
  have low: "page_lower (set_upper r ?u) = page_lower p"
    using R Q by (simp add: header_defs buf_simps)
  have eq: "insert_tuple p d = Inr (?f, ?n)"
    using d low Q by (simp add: insert_tuple_def Let_def r_def q_def)
  have "page_wf ?f \<and> tuples ?f = insert_at ?n (Some d) (tuples p) \<and>
      free_space ?f = free_space p - (SLOT_SIZE + length d) \<and> page_special ?f = page_special p"
  proof (rule insert_finish [OF wf d])
    show "slice r ?u (length d) = d"
      using R(9) [of ?u "length d"] Q(7) W d by (simp add: free_space_def)
    show "slice r off len = slice p off len" if "page_upper p \<le> off" "off + len \<le> PAGE_SIZE" for off len
      using R(9) [of off len] Q(9) [OF that] that W d by (simp add: free_space_def)
  qed (use R Q n in auto)
  then show ?thesis
    using eq by (simp add: insert_at_def)
qed

lemma slice_blit_inside:
  assumes "i + length ys \<le> length xs" "i \<le> j" "j + n \<le> i + length ys"
  shows "slice (blit xs i ys) j n = slice ys (j - i) n"
  by (rule nth_equalityI) (use assms in \<open>auto simp: nth_slice nth_blit\<close>)

lemma shift_slots:
  assumes "length q = PAGE_SIZE" "pos < n" "n < 2036"
  defines "base \<equiv> PAGE_HEADER_SIZE + pos * SLOT_SIZE" and "fin \<equiv> PAGE_HEADER_SIZE + n * SLOT_SIZE"
  defines "r \<equiv> blit q (base + SLOT_SIZE) (slice q base (fin - base))"
  shows "length r = PAGE_SIZE" "page_lower r = page_lower q" "page_special r = page_special q"
    "i < pos \<Longrightarrow> read_slot r i = read_slot q i"
    "pos < i \<Longrightarrow> i \<le> n \<Longrightarrow> read_slot r i = read_slot q (i - 1)"
    "PAGE_HEADER_SIZE + (n + 1) * SLOT_SIZE \<le> off \<Longrightarrow> off + len \<le> PAGE_SIZE \<Longrightarrow> slice r off len = slice q off len"
proof -
  let ?ys = "slice q base (fin - base)"
  have len: "length ?ys = (n - pos) * SLOT_SIZE"
    using assms(1-3) by (simp add: base_def fin_def)
  have fits: "base + SLOT_SIZE + length ?ys \<le> length q"
    using assms(1-3) by (simp only: len) (simp add: base_def)
  show "length r = PAGE_SIZE" using fits assms(1) by (simp add: r_def)
  show "page_lower r = page_lower q" "page_special r = page_special q"
    using fits assms(1) unfolding r_def page_lower_def page_special_def
    by (intro read_blit; simp add: base_def)+
  show "read_slot r i = read_slot q i" if "i < pos"
    using fits assms(1-3) that by (simp add: r_def read_slot_def Let_def read_blit base_def)
  show "read_slot r i = read_slot q (i - 1)" if "pos < i" "i \<le> n"
  proof -
    have "slice r (PAGE_HEADER_SIZE + i * SLOT_SIZE + k) 2 =
        slice q (PAGE_HEADER_SIZE + (i - 1) * SLOT_SIZE + k) 2" if "k \<le> 2" for k
    proof -
      have "PAGE_HEADER_SIZE + i * SLOT_SIZE + k + 2 \<le> base + SLOT_SIZE + length ?ys"
        "base + SLOT_SIZE \<le> PAGE_HEADER_SIZE + i * SLOT_SIZE + k"
        unfolding len unfolding base_def using that \<open>pos < i\<close> \<open>i \<le> n\<close> assms(2) by (simp_all add: algebra_simps)
      then have "slice r (PAGE_HEADER_SIZE + i * SLOT_SIZE + k) 2 =
          slice ?ys (PAGE_HEADER_SIZE + i * SLOT_SIZE + k - (base + SLOT_SIZE)) 2"
        unfolding r_def using fits by (intro slice_blit_inside)
      also have "\<dots> = slice q (base + (PAGE_HEADER_SIZE + i * SLOT_SIZE + k - (base + SLOT_SIZE))) 2"
        using that \<open>pos < i\<close> \<open>i \<le> n\<close> by (intro slice_slice) (simp add: base_def fin_def)
      also have "base + (PAGE_HEADER_SIZE + i * SLOT_SIZE + k - (base + SLOT_SIZE)) =
          PAGE_HEADER_SIZE + (i - 1) * SLOT_SIZE + k"
        using \<open>pos < i\<close> by (simp add: base_def)
      finally show ?thesis .
    qed
    from this [of 0] this [of 2] show ?thesis
      by (simp add: read_slot_def Let_def read_u16_def)
  qed
  show "slice r off len = slice q off len"
    if "PAGE_HEADER_SIZE + (n + 1) * SLOT_SIZE \<le> off" "off + len \<le> PAGE_SIZE"
  proof -
    have "base + SLOT_SIZE + length ?ys \<le> off"
      unfolding len unfolding base_def using that assms(2) by (simp add: algebra_simps)
    then show ?thesis
      using fits that assms(1) unfolding r_def by (intro slice_blit_disjoint) simp_all
  qed
qed

lemma insert_tuple_at_ok:
  assumes wf: "page_wf p" and d: "SLOT_SIZE + length d \<le> free_space p" and pos: "pos \<le> slot_count p"
  shows "\<exists>q. insert_tuple_at p pos d = Inr (q, pos) \<and> page_wf q \<and>
    tuples q = insert_at pos (Some d) (tuples p) \<and>
    free_space q = free_space p - (SLOT_SIZE + length d) \<and> page_special q = page_special p"
proof -
  let ?n = "slot_count p" and ?u = "page_upper p - length d"
  note W = wf_length [OF wf] wf_lower [OF wf] wf_lower_upper [OF wf] wf_upper_special [OF wf] wf_special [OF wf]
  have d': "length d \<le> page_upper p - page_lower p" using d by (simp add: free_space_def)
  define q where "q = blit p ?u d"
  note Q = blit_keeps [OF wf d', folded q_def]
  have n: "?n < 2036" "pos < 2036" "?u < 65536" "length d < 65536"
    using W d pos by (simp_all add: free_space_def)
  define s where "s = (if pos < ?n then blit q (PAGE_HEADER_SIZE + pos * SLOT_SIZE + SLOT_SIZE)
      (slice q (PAGE_HEADER_SIZE + pos * SLOT_SIZE)
        (PAGE_HEADER_SIZE + ?n * SLOT_SIZE - (PAGE_HEADER_SIZE + pos * SLOT_SIZE))) else q)"
  have S: "length s = PAGE_SIZE" "page_lower s = page_lower q" "page_special s = page_special q"
    "i < pos \<Longrightarrow> read_slot s i = read_slot q i"
    "pos < i \<Longrightarrow> i \<le> ?n \<Longrightarrow> read_slot s i = read_slot q (i - 1)"
    "?u \<le> off \<Longrightarrow> off + len \<le> PAGE_SIZE \<Longrightarrow> slice s off len = slice q off len" for i off len
    using shift_slots [OF Q(1), of pos ?n] n(1) Q(1) W d unfolding s_def free_space_def by auto
  define r where "r = write_slot s pos ?u (length d)"
  note R = write_slot_keeps [OF S(1) n(2-4), folded r_def]
  let ?f = "set_lower (set_upper r ?u) (page_lower p + SLOT_SIZE)"
  have low: "page_lower (set_upper r ?u) = page_lower p"
    using R(1,2) S(2) Q(2) by (simp add: header_defs buf_simps)
  have "insert_tuple_at p pos d = Inr (?f, pos)"
    using d low pos unfolding insert_tuple_at_def Let_def r_def s_def q_def write_slot_def by simp
  moreover have "page_wf ?f \<and> tuples ?f = insert_at pos (Some d) (tuples p) \<and>
      free_space ?f = free_space p - (SLOT_SIZE + length d) \<and> page_special ?f = page_special p"
  proof (rule insert_finish [OF wf d _ _ _ pos])
    show "slice r ?u (length d) = d"
      using R(9) [of ?u "length d"] S(6) [of ?u "length d"] Q(7) W d pos by (simp add: free_space_def)
    show "slice r off len = slice p off len" if "page_upper p \<le> off" "off + len \<le> PAGE_SIZE" for off len
      using R(9) [of off len] S(6) [of off len] Q(9) [OF that] that W d pos by (simp add: free_space_def)
    show "read_slot r i = (if i = pos then (?u, length d)
        else if i < pos then read_slot p i else read_slot p (i - 1))" if "i \<le> ?n" for i
      using that R(8) [of i] S(4,5) [of i] Q(8) [of i] Q(8) [of "i - 1"] n pos
      by (cases "i = pos"; cases "i < pos") auto
  qed (use R S Q in auto)
  ultimately show ?thesis by blast
qed

lemma get_tuple_tuples:
  assumes "page_wf p"
  shows "get_tuple p i =
    (if i < slot_count p then (case tuples p ! i of Some d \<Rightarrow> Inr d | None \<Rightarrow> Inl (SlotOutOfRange i))
     else Inl (SlotOutOfRange i))"
  using wf_slot [OF assms, of i] wf_special [OF assms]
  by (auto simp: get_tuple_def tuple_at_def slot_ok_def split: prod.splits)

lemma is_slot_used_tuples:
  "is_slot_used p i \<longleftrightarrow> i < slot_count p \<and> tuples p ! i \<noteq> None"
  by (auto simp: is_slot_used_def tuple_at_def split: prod.splits)

lemma delete_tuple_ok:
  assumes wf: "page_wf p" and i: "i < slot_count p"
  shows "\<exists>q. delete_tuple p i = Inr q \<and> page_wf q \<and> tuples q = (tuples p)[i := None] \<and>
    free_space q = free_space p \<and> page_special q = page_special p"
proof -
  note W = wf_length [OF wf] wf_lower [OF wf] wf_lower_upper [OF wf] wf_upper_special [OF wf] wf_special [OF wf]
  have n: "slot_count p < 2037" "i < 2036" using W i by simp_all
  define r where "r = write_slot p i 0 0"
  note R = write_slot_keeps [OF W(1) n(2), of 0 0, simplified, folded r_def]
  define q where "q = set_flags r (page_flags r OR FLAG_HAS_FREE_LINES)"
  have Q: "length q = PAGE_SIZE" "page_lower q = page_lower p" "page_upper q = page_upper p"
    "page_special q = page_special p" "\<And>j. j < 2036 \<Longrightarrow> read_slot q j = read_slot r j"
    "\<And>off len. PAGE_HEADER_SIZE \<le> off \<Longrightarrow> off + len \<le> PAGE_SIZE \<Longrightarrow> slice q off len = slice r off len"
    using R(1) R(2-4) [symmetric] by (simp_all add: q_def header_defs read_slot_def Let_def buf_simps)
  have slot: "read_slot q j = (if j = i then (0, 0) else read_slot p j)" if "j < slot_count p" for j
    using that n Q(5) [of j] R(8) [of j] by simp
  have wfq: "page_wf q \<and> slot_count q = slot_count p"
    by (rule page_wfI) (use Q W slot wf_slot [OF wf] in \<open>auto simp: slot_ok_def split: prod.splits\<close>)
  have "tuple_at q j = (if j = i then None else tuple_at p j)" if j: "j < slot_count p" for j
  proof -
    obtain off len where ol: "read_slot p j = (off, len)" by force
    have up: "off = 0 \<and> len = 0 \<or> page_upper p \<le> off \<and> off + len \<le> PAGE_SIZE"
      using wf_slot [OF wf j] ol W by (auto simp: slot_ok_def)
    then show ?thesis
      using slot [OF j] ol Q(6) [of off len] R(9) [of off len] W i by (auto simp: tuple_at_def)
  qed
  then have "tuples q = (tuples p)[i := None]"
    by (intro nth_equalityI) (use wfq in \<open>auto simp: nth_list_update\<close>)
  moreover have "delete_tuple p i = Inr q"
    using i by (simp add: delete_tuple_def r_def q_def Let_def)
  ultimately show ?thesis
    using wfq Q by (simp add: free_space_def)
qed

lemma clear_tuples_ok:
  assumes wf: "page_wf p"
  shows "page_wf (clear_tuples p) \<and> tuples (clear_tuples p) = [] \<and>
    free_space (clear_tuples p) = page_special p - PAGE_HEADER_SIZE \<and>
    page_special (clear_tuples p) = page_special p"
proof -
  note W = wf_length [OF wf] wf_lower [OF wf] wf_lower_upper [OF wf] wf_upper_special [OF wf] wf_special [OF wf]
  define q where "q = blit p PAGE_HEADER_SIZE (replicate (page_special p - PAGE_HEADER_SIZE) 0)"
  have q: "length q = PAGE_SIZE" "page_special q = page_special p"
    using W unfolding q_def page_special_def by (simp_all add: buf_simps)
  let ?c = "set_upper (set_lower q PAGE_HEADER_SIZE) (page_special p)"
  have c: "length ?c = PAGE_SIZE" "page_lower ?c = PAGE_HEADER_SIZE" "page_upper ?c = page_special p"
    "page_special ?c = page_special p" "page_special (set_lower q PAGE_HEADER_SIZE) = page_special p"
    using q W by (simp_all add: header_defs buf_simps)
  have eq: "clear_tuples p = ?c"
    using c(5) by (simp add: clear_tuples_def Let_def q_def)
  have "page_wf ?c \<and> slot_count ?c = 0"
    by (rule page_wfI) (use c W in simp_all)
  then show ?thesis
    unfolding eq using c by (simp add: free_space_def tuples_def)
qed

section \<open>The interface of a slotted page\<close>

text \<open>
  What a client of a page relies on: a list of tuples by slot, an amount of free space, and
  operations that act on them. The lemmas of the locale are the client's view: what was
  inserted is read back, other slots are untouched, and a batch that fits is stored whole.
\<close>

locale slotted_page =
  fixes wf :: "'p \<Rightarrow> bool" and view :: "'p \<Rightarrow> byte list option list" and room :: "'p \<Rightarrow> nat"
    and ins :: "'p \<Rightarrow> byte list \<Rightarrow> StorageError + 'p \<times> nat"
    and del :: "'p \<Rightarrow> nat \<Rightarrow> StorageError + 'p"
    and get :: "'p \<Rightarrow> nat \<Rightarrow> StorageError + byte list"
  assumes ins_ok: "wf p \<Longrightarrow> SLOT_SIZE + length d \<le> room p \<Longrightarrow>
      \<exists>q. ins p d = Inr (q, length (view p)) \<and> wf q \<and> view q = view p @ [Some d] \<and>
        room q = room p - (SLOT_SIZE + length d)"
    and ins_full: "room p < SLOT_SIZE + length d \<Longrightarrow>
      ins p d = Inl (InsufficientSpace (SLOT_SIZE + length d) (room p))"
    and del_ok: "wf p \<Longrightarrow> i < length (view p) \<Longrightarrow>
      \<exists>q. del p i = Inr q \<and> wf q \<and> view q = (view p)[i := None] \<and> room q = room p"
    and del_range: "\<not> i < length (view p) \<Longrightarrow> del p i = Inl (SlotOutOfRange i)"
    and get_view: "wf p \<Longrightarrow> get p i =
      (if i < length (view p)
       then (case view p ! i of Some d \<Rightarrow> Inr d | None \<Rightarrow> Inl (SlotOutOfRange i))
       else Inl (SlotOutOfRange i))"
begin

lemma get_inserted: "wf p \<Longrightarrow> ins p d = Inr (q, i) \<Longrightarrow> get q i = Inr d"
  using ins_ok [of p d] ins_full [of p d] get_view [of q i]
  by (cases "SLOT_SIZE + length d \<le> room p") auto

lemma get_after_insert:
  "wf p \<Longrightarrow> ins p d = Inr (q, i) \<Longrightarrow> get p j = Inr e \<Longrightarrow> get q j = Inr e"
  using ins_ok [of p d] ins_full [of p d] get_view [of q j] get_view [of p j]
  by (cases "SLOT_SIZE + length d \<le> room p") (auto simp: nth_append split: if_splits)

lemma get_deleted: "wf p \<Longrightarrow> del p i = Inr q \<Longrightarrow> get q i = Inl (SlotOutOfRange i)"
  using del_ok [of p i] del_range [of i p] get_view [of q i]
  by (cases "i < length (view p)") auto

lemma get_after_delete:
  "wf p \<Longrightarrow> del p i = Inr q \<Longrightarrow> j \<noteq> i \<Longrightarrow> get q j = get p j"
  using del_ok [of p i] del_range [of i p] get_view [of q j] get_view [of p j]
  by (cases "i < length (view p)") auto

lemma insert_batch:
  assumes "wf p" "sum_list (map (\<lambda>d. SLOT_SIZE + length d) ds) \<le> room p"
  shows "\<exists>q. foldl (\<lambda>r d. rbind r (\<lambda>p. map_sum id fst (ins p d))) (Inr p) ds = Inr q \<and> wf q \<and>
    view q = view p @ map Some ds"
  using assms
proof (induction ds arbitrary: p)
  case Nil
  then show ?case by simp
next
  case (Cons d ds)
  then obtain q where "ins p d = Inr (q, length (view p))" "wf q" "view q = view p @ [Some d]"
    "room q = room p - (SLOT_SIZE + length d)"
    using ins_ok [of p d] by auto
  with Cons.IH [of q] Cons.prems show ?case by auto
qed

end

interpretation slotted: slotted_page page_wf tuples free_space insert_tuple delete_tuple get_tuple
proof
  show "free_space p < SLOT_SIZE + length d \<Longrightarrow>
      insert_tuple p d = Inl (InsufficientSpace (SLOT_SIZE + length d) (free_space p))" for p d
    by (simp add: insert_tuple_def Let_def)
  show "\<not> i < length (tuples p) \<Longrightarrow> delete_tuple p i = Inl (SlotOutOfRange i)" for p i
    by (simp add: delete_tuple_def)
  show "page_wf p \<Longrightarrow> SLOT_SIZE + length d \<le> free_space p \<Longrightarrow>
      \<exists>q. insert_tuple p d = Inr (q, length (tuples p)) \<and> page_wf q \<and> tuples q = tuples p @ [Some d] \<and>
        free_space q = free_space p - (SLOT_SIZE + length d)" for p d
    using insert_tuple_ok [of p d] by auto
  show "page_wf p \<Longrightarrow> i < length (tuples p) \<Longrightarrow> \<exists>q. delete_tuple p i = Inr q \<and> page_wf q \<and>
      tuples q = (tuples p)[i := None] \<and> free_space q = free_space p" for p i
    using delete_tuple_ok [of p i] by auto
  show "page_wf p \<Longrightarrow> get_tuple p i =
      (if i < length (tuples p)
       then (case tuples p ! i of Some d \<Rightarrow> Inr d | None \<Rightarrow> Inl (SlotOutOfRange i))
       else Inl (SlotOutOfRange i))" for p i
    using get_tuple_tuples [of p i] by simp
qed

section \<open>Runs of operations\<close>

datatype page_op = PInsert "byte list" | PInsertAt nat "byte list" | PDelete nat | PClear

definition ok_page :: "page \<Rightarrow> StorageError + page \<Rightarrow> page" where
  "ok_page p r = (case r of Inl _ \<Rightarrow> p | Inr q \<Rightarrow> q)"

fun page_step :: "page_op \<Rightarrow> page \<Rightarrow> page" where
  "page_step (PInsert d) p = ok_page p (map_sum id fst (insert_tuple p d))"
| "page_step (PInsertAt i d) p = ok_page p (map_sum id fst (insert_tuple_at p i d))"
| "page_step (PDelete i) p = ok_page p (delete_tuple p i)"
| "page_step PClear p = clear_tuples p"

definition page_run :: "page_op list \<Rightarrow> page \<Rightarrow> page" where
  "page_run ops p = fold page_step ops p"

text \<open>The specification: a list of slots and the bytes left, out of a capacity \<open>cap\<close>.\<close>

fun spec_step :: "nat \<Rightarrow> page_op \<Rightarrow> byte list option list \<times> nat \<Rightarrow> byte list option list \<times> nat" where
  "spec_step cap (PInsert d) (ts, room) =
     (if SLOT_SIZE + length d \<le> room then (ts @ [Some d], room - (SLOT_SIZE + length d)) else (ts, room))"
| "spec_step cap (PInsertAt i d) (ts, room) =
     (if SLOT_SIZE + length d \<le> room \<and> i \<le> length ts
      then (insert_at i (Some d) ts, room - (SLOT_SIZE + length d)) else (ts, room))"
| "spec_step cap (PDelete i) (ts, room) = (ts[i := None], room)"
| "spec_step cap PClear (ts, room) = ([], cap)"

lemma page_step_refines:
  assumes wf: "page_wf p" and cap: "page_special p = PAGE_HEADER_SIZE + cap"
  shows "page_wf (page_step op p) \<and> page_special (page_step op p) = page_special p \<and>
    (tuples (page_step op p), free_space (page_step op p)) = spec_step cap op (tuples p, free_space p)"
proof (cases op)
  case (PInsert d)
  show ?thesis
  proof (cases "SLOT_SIZE + length d \<le> free_space p")
    case True
    with insert_tuple_ok [OF wf True] PInsert show ?thesis by (auto simp: ok_page_def)
  next
    case False
    with PInsert wf slotted.ins_full [of p d] show ?thesis by (simp add: ok_page_def)
  qed
next
  case (PInsertAt i d)
  show ?thesis
  proof (cases "SLOT_SIZE + length d \<le> free_space p \<and> i \<le> slot_count p")
    case True
    with insert_tuple_at_ok [OF wf, of d i] PInsertAt show ?thesis by (auto simp: ok_page_def)
  next
    case False
    then have "\<exists>e. insert_tuple_at p i d = Inl e"
      by (auto simp: insert_tuple_at_def Let_def)
    with False PInsertAt wf show ?thesis by (auto simp: ok_page_def)
  qed
next
  case (PDelete i)
  show ?thesis
  proof (cases "i < slot_count p")
    case True
    with delete_tuple_ok [OF wf True] PDelete show ?thesis by (auto simp: ok_page_def)
  next
    case False
    with slotted.del_range [of i p] PDelete wf show ?thesis by (simp add: ok_page_def list_update_beyond)
  qed
next
  case PClear
  with clear_tuples_ok [OF wf] cap show ?thesis by simp
qed

lemma page_run_refines_spec:
  assumes "page_wf p" "page_special p = PAGE_HEADER_SIZE + cap"
  shows "page_wf (page_run ops p) \<and>
    (tuples (page_run ops p), free_space (page_run ops p)) = fold (spec_step cap) ops (tuples p, free_space p)"
  using assms
proof (induction ops arbitrary: p)
  case Nil
  then show ?case by (simp add: page_run_def)
next
  case (Cons op ops)
  note step = page_step_refines [OF Cons.prems, of op]
  then show ?case
    using Cons.IH [of "page_step op p"] Cons.prems(2) by (simp add: page_run_def)
qed

text \<open>C23. A page refines a list of slots: any sequence of insertions, positional insertions,
  deletions and clearings keeps the page well formed, has the effect of the specification
  on the slots and on the free space (an operation that does not fit changes nothing), and
  reading a slot returns exactly the bytes the specification has there.\<close>

theorem page_refines_slots:
  assumes "page_wf p" "page_special p = PAGE_HEADER_SIZE + cap"
    and "fold (spec_step cap) ops (tuples p, free_space p) = (ts, room)"
  shows "page_wf (page_run ops p) \<and> tuples (page_run ops p) = ts \<and> free_space (page_run ops p) = room \<and>
    get_tuple (page_run ops p) i =
      (if i < length ts then (case ts ! i of Some d \<Rightarrow> Inr d | None \<Rightarrow> Inl (SlotOutOfRange i))
       else Inl (SlotOutOfRange i))"
proof -
  have "page_wf (page_run ops p)" "tuples (page_run ops p) = ts" "free_space (page_run ops p) = room"
    using page_run_refines_spec [OF assms(1,2), of ops] assms(3) by simp_all
  with slotted.get_view [of "page_run ops p" i] show ?thesis by simp
qed

theorem page_refines_slots_witness:
  "get_tuple (page_run [PInsert [1, 2], PInsertAt 0 [7], PDelete 1, PInsert [9]] (page_new 5)) 0 = Inr [7] \<and>
   free_space (page_run [PInsert [1, 2], PInsertAt 0 [7], PDelete 1, PInsert [9]] (page_new 5)) = 8128"
proof -
  let ?ops = "[PInsert [1, 2], PInsertAt 0 [7], PDelete 1, PInsert [9]]"
  have "page_wf (page_new 5)" "page_special (page_new 5) = PAGE_HEADER_SIZE + 8144"
    "tuples (page_new 5) = []" "free_space (page_new 5) = 8144"
    using page_new_wf [of 5] page_new_fields [of 5] by (simp_all add: tuples_def)
  moreover have "fold (spec_step 8144) ?ops ([], 8144) = ([Some [7], None, Some [9]], 8128)"
    by code_simp
  ultimately show ?thesis
    using page_refines_slots [of "page_new 5" 8144 ?ops "[Some [7], None, Some [9]]" 8128 0] by simp
qed

text \<open>A batch of tuples that fits is stored whole and read back: inserting tuples that need at
  most the free space of the page succeeds for each of them, and the slots after the old
  ones hold them in order.\<close>

lemma page_stores_batch:
  assumes "page_wf p" "sum_list (map (\<lambda>d. SLOT_SIZE + length d) ds) \<le> free_space p"
  shows "\<exists>q. foldl (\<lambda>r d. rbind r (\<lambda>p. map_sum id fst (insert_tuple p d))) (Inr p) ds = Inr q \<and>
    (\<forall>i < length ds. get_tuple q (slot_count p + i) = Inr (ds ! i)) \<and>
    (\<forall>i < slot_count p. get_tuple q i = get_tuple p i)"
proof -
  obtain q where q: "foldl (\<lambda>r d. rbind r (\<lambda>p. map_sum id fst (insert_tuple p d))) (Inr p) ds = Inr q"
    "page_wf q" "tuples q = tuples p @ map Some ds"
    using slotted.insert_batch [OF assms] by blast
  show ?thesis
    by (intro exI [of _ q] conjI q(1))
       (use q assms(1) in \<open>simp_all add: slotted.get_view nth_append del: nth_tuples length_tuples
          add: length_tuples [symmetric]\<close>)
qed

text \<open>Checksums: for a checksum function with 32-bit values, a page whose checksum was updated
  verifies, and the checksum does not depend on the bytes of its own field.\<close>

lemma checksum_verifies:
  assumes "\<And>bs. crc bs < 2 ^ 32" "length p = PAGE_SIZE"
  shows "verify_checksum crc (update_checksum crc p) \<and>
    compute_checksum crc (write_u32 p 16 v) = compute_checksum crc p"
proof -
  have eq: "write_u32 (write_u32 p 16 w) 16 0 = write_u32 p 16 0" for w
    using assms(2) by (simp add: write_u32_def blit_def)
  then show ?thesis
    using assms by (simp add: verify_checksum_def update_checksum_def compute_checksum_def
        page_checksum_def buf_simps)
qed

end
