(* ===== verification/Disk.thy ===== *)
theory Disk
  imports Page
begin

text \<open>
  Page I/O of \<^verbatim>\<open>crates/storage/src/disk.rs\<close>. The database file is its list of bytes:
  a positional read past the end is an I/O error, a positional write extends the file.
  Other failures of the operating system are not modelled. The locale \<open>page_store\<close> is the
  contract of a store of pages; the disk manager provides it.
\<close>

definition MAGIC :: "byte list" where
  "MAGIC = [79, 73, 71, 82, 65, 80, 0, 0]"

definition FORMAT_VERSION :: nat where
  "FORMAT_VERSION = 1"

record DiskManager =
  dm_file :: "byte list"
  dm_next_page_id :: nat

definition page_offset :: "nat \<Rightarrow> nat" where
  "page_offset i = (i * PAGE_SIZE) mod 2 ^ 64"

definition read_at :: "byte list \<Rightarrow> nat \<Rightarrow> nat \<Rightarrow> StorageError + byte list" where
  "read_at file n off = (if off + n \<le> length file then Inr (slice file off n) else Inl Io)"

definition write_at :: "byte list \<Rightarrow> byte list \<Rightarrow> nat \<Rightarrow> byte list" where
  "write_at file d off =
     blit (file @ replicate (off + length d - length file) 0) off d"

definition write_header_page :: "DiskManager \<Rightarrow> nat \<Rightarrow> DiskManager" where
  "write_header_page dm next_id =
     (let h = replicate PAGE_SIZE 0;
          h = blit h 0 MAGIC;
          h = blit h 8 (to_le 8 next_id);
          h = blit h 16 (to_le 4 FORMAT_VERSION)
      in dm\<lparr>dm_file := write_at (dm_file dm) h 0\<rparr>)"

definition disk_create :: DiskManager where
  "disk_create = write_header_page \<lparr>dm_file = [], dm_next_page_id = 1\<rparr> 1"

definition disk_open :: "byte list \<Rightarrow> StorageError + DiskManager" where
  "disk_open file =
     rbind (read_at file PAGE_SIZE 0) (\<lambda>h.
       if slice h 0 8 \<noteq> MAGIC then Inl Corruption
       else Inr \<lparr>dm_file = file, dm_next_page_id = from_le (slice h 8 8)\<rparr>)"

definition disk_read_page :: "DiskManager \<Rightarrow> nat \<Rightarrow> StorageError + page" where
  "disk_read_page dm i = read_at (dm_file dm) PAGE_SIZE (page_offset i)"

definition disk_write_page :: "DiskManager \<Rightarrow> nat \<Rightarrow> page \<Rightarrow> DiskManager" where
  "disk_write_page dm i d = dm\<lparr>dm_file := write_at (dm_file dm) d (page_offset i)\<rparr>"

definition allocate_page :: "DiskManager \<Rightarrow> nat \<times> DiskManager" where
  "allocate_page dm =
     (let i = dm_next_page_id dm;
          dm1 = dm\<lparr>dm_next_page_id := u64_add i 1\<rparr>;
          dm2 = disk_write_page dm1 i (replicate PAGE_SIZE 0)
      in (i, write_header_page dm2 (u64_add i 1)))"

definition page_count :: "DiskManager \<Rightarrow> nat" where
  "page_count dm = dm_next_page_id dm"

section \<open>The invariant\<close>

definition header_ok :: "DiskManager \<Rightarrow> bool" where
  "header_ok dm \<longleftrightarrow> slice (dm_file dm) 0 8 = MAGIC \<and> from_le (slice (dm_file dm) 8 8) = dm_next_page_id dm"

definition disk_inv :: "DiskManager \<Rightarrow> bool" where
  "disk_inv dm \<longleftrightarrow> 1 \<le> dm_next_page_id dm \<and> dm_next_page_id dm < 2 ^ 51 \<and>
     length (dm_file dm) = dm_next_page_id dm * PAGE_SIZE \<and> header_ok dm"

definition disk_page :: "DiskManager \<Rightarrow> nat \<Rightarrow> page option" where
  \<comment> \<open>the user pages\<close>
  "disk_page dm i = (if 0 < i \<and> i < dm_next_page_id dm
     then Some (slice (dm_file dm) (i * PAGE_SIZE) PAGE_SIZE) else None)"

lemma page_offset_small: "i < 2 ^ 51 \<Longrightarrow> page_offset i = i * PAGE_SIZE"
  by (simp add: page_offset_def)

lemma page_block:
  fixes i j :: nat
  shows "i < j \<Longrightarrow> i * PAGE_SIZE + PAGE_SIZE \<le> j * PAGE_SIZE"
  using mult_le_mono1 [of "Suc i" j PAGE_SIZE] by simp

lemma write_at_inside:
  "off + length d \<le> length file \<Longrightarrow> write_at file d off = blit file off d"
  by (simp add: write_at_def)

lemma length_header [simp]: "length MAGIC = 8"
  by (simp add: MAGIC_def)

lemma disk_read_page_eq:
  "disk_inv dm \<Longrightarrow> disk_page dm i = Some d \<Longrightarrow> disk_read_page dm i = Inr d"
  using page_block [of i "dm_next_page_id dm"]
  by (auto simp: disk_read_page_def read_at_def disk_page_def disk_inv_def page_offset_small split: if_splits)

lemma disk_read_page_None:
  "disk_inv dm \<Longrightarrow> dm_next_page_id dm \<le> i \<Longrightarrow> i < 2 ^ 51 \<Longrightarrow> disk_read_page dm i = Inl Io"
  using mult_le_mono1 [of "dm_next_page_id dm" i PAGE_SIZE]
  by (simp add: disk_read_page_def read_at_def disk_inv_def page_offset_small)

lemma disk_page_length: "disk_inv dm \<Longrightarrow> disk_page dm i = Some d \<Longrightarrow> length d = PAGE_SIZE"
  using page_block [of i "dm_next_page_id dm"]
  by (auto simp: disk_page_def disk_inv_def split: if_splits)

lemma disk_write_page_ok:
  assumes inv: "disk_inv dm" and i: "0 < i" "i < dm_next_page_id dm" and d: "length d = PAGE_SIZE"
  shows "disk_inv (disk_write_page dm i d) \<and>
    disk_page (disk_write_page dm i d) = (disk_page dm)(i \<mapsto> d) \<and>
    dm_next_page_id (disk_write_page dm i d) = dm_next_page_id dm"
proof -
  let ?f = "dm_file dm" and ?n = "dm_next_page_id dm"
  have fits: "i * PAGE_SIZE + length d \<le> length ?f"
    using page_block [OF i(2)] inv d by (simp add: disk_inv_def)
  have small: "i < 2 ^ 51" using i inv by (simp add: disk_inv_def)
  have fl: "dm_file (disk_write_page dm i d) = blit ?f (i * PAGE_SIZE) d"
    using fits by (simp add: disk_write_page_def page_offset_small [OF small] write_at_inside)
  have next_id: "dm_next_page_id (disk_write_page dm i d) = ?n" by (simp add: disk_write_page_def)
  have hdr: "slice (blit ?f (i * PAGE_SIZE) d) o1 8 = slice ?f o1 8" if "o1 \<le> 8" for o1
    using that fits i d by (intro slice_blit_before) simp_all
  have "slice (blit ?f (i * PAGE_SIZE) d) (j * PAGE_SIZE) PAGE_SIZE =
      (if j = i then d else slice ?f (j * PAGE_SIZE) PAGE_SIZE)" if "j < ?n" for j
  proof (cases "j = i")
    case True
    then show ?thesis using fits d by (simp add: slice_blit_same)
  next
    case False
    have "j * PAGE_SIZE + PAGE_SIZE \<le> length ?f"
      using page_block [OF that] inv by (simp add: disk_inv_def)
    moreover have "j * PAGE_SIZE + PAGE_SIZE \<le> i * PAGE_SIZE \<or> i * PAGE_SIZE + length d \<le> j * PAGE_SIZE"
      using False page_block [of j i] page_block [of i j] d by linarith
    ultimately show ?thesis
      using False fits by (simp add: slice_blit_disjoint)
  qed
  then have "disk_page (disk_write_page dm i d) = (disk_page dm)(i \<mapsto> d)"
    using i by (auto simp: disk_page_def fun_eq_iff fl next_id)
  moreover have "disk_inv (disk_write_page dm i d)"
    using inv fits hdr [of 0] hdr [of 8] by (simp add: disk_inv_def header_ok_def fl next_id)
  ultimately show ?thesis using next_id by simp
qed

lemma write_at_end: "length file = off \<Longrightarrow> write_at file d off = file @ d"
  by (simp add: write_at_def blit_def)

definition header_bytes :: "nat \<Rightarrow> byte list" where
  "header_bytes n = blit (blit (blit (replicate PAGE_SIZE 0) 0 MAGIC) 8 (to_le 8 n)) 16
     (to_le 4 FORMAT_VERSION)"

lemma header_bytes_slices:
  "length (header_bytes n) = PAGE_SIZE" "slice (header_bytes n) 0 8 = MAGIC"
  "n < 2 ^ 64 \<Longrightarrow> from_le (slice (header_bytes n) 8 8) = n"
  by (simp_all add: header_bytes_def slice_blit_disjoint slice_blit_same)

lemma write_header_page_eq:
  "write_header_page dm n = dm\<lparr>dm_file := write_at (dm_file dm) (header_bytes n) 0\<rparr>"
  by (simp add: write_header_page_def header_bytes_def Let_def)

lemma write_header_ok:
  assumes "0 < k" "length (dm_file dm) = k * PAGE_SIZE" "dm_next_page_id dm < 2 ^ 64"
  shows "header_ok (write_header_page dm (dm_next_page_id dm)) \<and>
    length (dm_file (write_header_page dm n)) = k * PAGE_SIZE \<and>
    (\<forall>j. 0 < j \<and> j < k \<longrightarrow> slice (dm_file (write_header_page dm n)) (j * PAGE_SIZE) PAGE_SIZE =
      slice (dm_file dm) (j * PAGE_SIZE) PAGE_SIZE)"
proof -
  have fits: "0 + length (header_bytes m) \<le> length (dm_file dm)" for m
    using assms(1,2) by (simp add: header_bytes_slices)
  have eq: "dm_file (write_header_page dm m) = blit (dm_file dm) 0 (header_bytes m)" for m
    using fits by (simp add: write_header_page_eq write_at_inside)
  have nx: "dm_next_page_id (write_header_page dm m) = dm_next_page_id dm" for m
    by (simp add: write_header_page_eq)
  have head: "slice (blit (dm_file dm) 0 (header_bytes m)) o1 8 = slice (header_bytes m) o1 8" if "o1 \<le> 8" for m o1
    using slice_blit_inside [OF fits, of o1 8] that by (simp add: header_bytes_slices)
  have "slice (blit (dm_file dm) 0 (header_bytes n)) (j * PAGE_SIZE) PAGE_SIZE =
      slice (dm_file dm) (j * PAGE_SIZE) PAGE_SIZE" if "0 < j" "j < k" for j
    using page_block [OF that(2)] that(1) assms(2) fits
    by (intro slice_blit_after) (simp_all add: header_bytes_slices)
  then show ?thesis
    using fits assms(2,3) head [of 0] head [of 8]
    by (simp add: header_ok_def eq header_bytes_slices nx)
qed

lemma disk_create_ok: "disk_inv disk_create \<and> dm_next_page_id disk_create = 1 \<and> disk_page disk_create = Map.empty"
  by (auto simp: disk_create_def write_header_page_eq disk_inv_def header_ok_def write_at_end
      header_bytes_slices disk_page_def fun_eq_iff)

lemma allocate_page_ok:
  assumes inv: "disk_inv dm" and room: "dm_next_page_id dm + 1 < 2 ^ 51"
  shows "fst (allocate_page dm) = dm_next_page_id dm \<and> disk_inv (snd (allocate_page dm)) \<and>
    dm_next_page_id (snd (allocate_page dm)) = dm_next_page_id dm + 1 \<and>
    disk_page (snd (allocate_page dm)) = (disk_page dm)(dm_next_page_id dm \<mapsto> replicate PAGE_SIZE 0)"
proof -
  let ?n = "dm_next_page_id dm"
  let ?d = "\<lparr>dm_file = dm_file dm @ replicate PAGE_SIZE 0, dm_next_page_id = ?n + 1\<rparr>"
  have len: "length (dm_file dm) = ?n * PAGE_SIZE" "1 \<le> ?n" using inv by (simp_all add: disk_inv_def)
  define w where "w = write_header_page ?d (?n + 1)"
  have eq: "allocate_page dm = (?n, w)"
    unfolding w_def using room len page_offset_small [of ?n]
    by (cases dm) (simp add: allocate_page_def Let_def disk_write_page_def write_at_end)
  have H: "header_ok w" "length (dm_file w) = (?n + 1) * PAGE_SIZE"
    "0 < j \<Longrightarrow> j < ?n + 1 \<Longrightarrow> slice (dm_file w) (j * PAGE_SIZE) PAGE_SIZE =
      slice (dm_file ?d) (j * PAGE_SIZE) PAGE_SIZE" for j
    unfolding w_def using write_header_ok [of "?n + 1" ?d "?n + 1"] len room by auto
  have nx: "dm_next_page_id w = ?n + 1"
    by (simp add: w_def write_header_page_eq)
  have old: "slice (dm_file ?d) (j * PAGE_SIZE) PAGE_SIZE =
      (if j = ?n then replicate PAGE_SIZE 0 else slice (dm_file dm) (j * PAGE_SIZE) PAGE_SIZE)" if "j < ?n + 1" for j
    using that page_block [of j ?n] len by (cases "j = ?n") (simp_all add: slice_append_left slice_append_right)
  have "disk_page w = (disk_page dm)(?n \<mapsto> replicate PAGE_SIZE 0)"
    using H(3) old len by (auto simp: disk_page_def fun_eq_iff nx)
  moreover have "disk_inv w"
    using H(1,2) nx room by (simp add: disk_inv_def)
  ultimately show ?thesis using eq nx by simp
qed

lemma disk_open_ok:
  assumes "disk_inv dm"
  shows "disk_open (dm_file dm) = Inr dm"
proof -
  have "PAGE_SIZE \<le> length (dm_file dm)" using assms by (simp add: disk_inv_def)
  then show ?thesis
    using assms slice_slice [of 0 8 PAGE_SIZE "dm_file dm" 0] slice_slice [of 8 8 PAGE_SIZE "dm_file dm" 0]
    by (simp add: disk_open_def read_at_def disk_inv_def header_ok_def)
qed

section \<open>The contract of a page store\<close>

datatype store_op = Alloc | Write nat page

fun store_step :: "('s \<Rightarrow> nat \<Rightarrow> page \<Rightarrow> 's) \<Rightarrow> ('s \<Rightarrow> nat \<times> 's) \<Rightarrow> store_op \<Rightarrow> 's \<Rightarrow> 's" where
  "store_step wr al Alloc s = snd (al s)"
| "store_step wr al (Write i d) s = wr s i d"

text \<open>The specification: the next page id and the contents of the pages below it.\<close>

fun store_spec :: "store_op \<Rightarrow> nat \<times> (nat \<rightharpoonup> page) \<Rightarrow> nat \<times> (nat \<rightharpoonup> page)" where
  "store_spec Alloc (n, m) = (n + 1, m(n \<mapsto> replicate PAGE_SIZE 0))"
| "store_spec (Write i d) (n, m) = (n, m(i \<mapsto> d))"

fun store_ops_ok :: "store_op list \<Rightarrow> nat \<Rightarrow> bool" where
  \<comment> \<open>writes go to allocated pages and write whole pages; page ids stay in range\<close>
  "store_ops_ok [] n \<longleftrightarrow> True"
| "store_ops_ok (Alloc # ops) n \<longleftrightarrow> n + 1 < 2 ^ 51 \<and> store_ops_ok ops (n + 1)"
| "store_ops_ok (Write i d # ops) n \<longleftrightarrow> 0 < i \<and> i < n \<and> length d = PAGE_SIZE \<and> store_ops_ok ops n"

locale page_store =
  fixes inv :: "'s \<Rightarrow> bool" and content :: "'s \<Rightarrow> nat \<Rightarrow> page option" and next_id :: "'s \<Rightarrow> nat"
    and rd :: "'s \<Rightarrow> nat \<Rightarrow> StorageError + page" and wr :: "'s \<Rightarrow> nat \<Rightarrow> page \<Rightarrow> 's"
    and al :: "'s \<Rightarrow> nat \<times> 's"
  assumes content_dom: "inv s \<Longrightarrow> content s i \<noteq> None \<longleftrightarrow> 0 < i \<and> i < next_id s"
    and content_size: "inv s \<Longrightarrow> content s i = Some d \<Longrightarrow> length d = PAGE_SIZE"
    and rd_ok: "inv s \<Longrightarrow> content s i = Some d \<Longrightarrow> rd s i = Inr d"
    and rd_beyond: "inv s \<Longrightarrow> next_id s \<le> i \<Longrightarrow> i < 2 ^ 51 \<Longrightarrow> rd s i = Inl Io"
    and wr_ok: "inv s \<Longrightarrow> 0 < i \<Longrightarrow> i < next_id s \<Longrightarrow> length d = PAGE_SIZE \<Longrightarrow>
      inv (wr s i d) \<and> content (wr s i d) = (content s)(i \<mapsto> d) \<and> next_id (wr s i d) = next_id s"
    and al_ok: "inv s \<Longrightarrow> next_id s + 1 < 2 ^ 51 \<Longrightarrow>
      fst (al s) = next_id s \<and> inv (snd (al s)) \<and> next_id (snd (al s)) = next_id s + 1 \<and>
      content (snd (al s)) = (content s)(next_id s \<mapsto> replicate PAGE_SIZE 0)"
begin

lemma rd_wr: "inv s \<Longrightarrow> 0 < i \<Longrightarrow> i < next_id s \<Longrightarrow> length d = PAGE_SIZE \<Longrightarrow> rd (wr s i d) i = Inr d"
  by (intro rd_ok) (simp_all add: wr_ok)

lemma run_refines:
  assumes "inv s" "store_ops_ok ops (next_id s)"
  shows "inv (fold (store_step wr al) ops s) \<and>
    (next_id (fold (store_step wr al) ops s), content (fold (store_step wr al) ops s)) =
      fold store_spec ops (next_id s, content s)"
  using assms
proof (induction ops arbitrary: s)
  case Nil
  then show ?case by simp
next
  case (Cons op ops)
  show ?case
  proof (cases op)
    case Alloc
    then have "next_id s + 1 < 2 ^ 51" using Cons.prems(2) by simp
    with al_ok [OF Cons.prems(1) this] Cons.IH [of "snd (al s)"] Cons.prems Alloc show ?thesis
      by (simp del: fun_upd_apply)
  next
    case (Write i d)
    with wr_ok [OF Cons.prems(1), of i d] Cons.IH [of "wr s i d"] Cons.prems show ?thesis
      by (simp del: fun_upd_apply)
  qed
qed

end

interpretation disk: page_store disk_inv disk_page dm_next_page_id disk_read_page disk_write_page allocate_page
proof
  show "disk_inv s \<Longrightarrow> disk_page s i \<noteq> None \<longleftrightarrow> 0 < i \<and> i < dm_next_page_id s" for s i
    by (simp add: disk_page_def)
qed (fact disk_page_length disk_read_page_eq disk_read_page_None disk_write_page_ok allocate_page_ok)+

text \<open>A database file survives a restart: after any sequence of page allocations and page
  writes on a new file, the file can be opened again, the reopened manager has the same
  page count, and reading a page returns what was written to it last (zeros for a page
  that was only allocated).\<close>

lemma disk_reopen:
  assumes "store_ops_ok ops 1"
    and "fold store_spec ops (1, Map.empty) = (n, m)"
  defines "dm \<equiv> fold (store_step disk_write_page allocate_page) ops disk_create"
  shows "\<exists>dm'. disk_open (dm_file dm) = Inr dm' \<and> page_count dm' = n \<and>
    (\<forall>i d. m i = Some d \<longrightarrow> disk_read_page dm' i = Inr d)"
proof -
  have "disk_inv dm" "dm_next_page_id dm = n" "disk_page dm = m"
    using disk.run_refines [of disk_create ops] disk_create_ok assms(1,2) by (simp_all add: dm_def)
  then show ?thesis
    using disk_open_ok [of dm] disk.rd_ok [of dm] by (simp add: page_count_def)
qed

end
