(* ===== verification/Wal.thy ===== *)
theory Wal
  imports Disk
begin

text \<open>
  The write-ahead log of \<^verbatim>\<open>crates/storage/src/wal.rs\<close>: the record format, the buffered writer
  and the reader. The log file is its list of bytes, as in \<open>Disk\<close>. The checksum of
  the \<^verbatim>\<open>crc32fast\<close> package is the parameter \<open>crc\<close>. A slice index out of range, which panics in
  the source, is the error \<open>Panic\<close>.
\<close>

abbreviation (input) WAL_HEADER_SIZE :: nat where "WAL_HEADER_SIZE \<equiv> 34"
abbreviation (input) WAL_BUFFER_SIZE :: nat where "WAL_BUFFER_SIZE \<equiv> 4 * 1024 * 1024"

definition RMGR_HEAP :: byte where "RMGR_HEAP = 0"
definition RMGR_XACT :: byte where "RMGR_XACT = 1"
definition HEAP_INSERT :: byte where "HEAP_INSERT = 0"
definition HEAP_UPDATE :: byte where "HEAP_UPDATE = 1"
definition HEAP_DELETE :: byte where "HEAP_DELETE = 2"
definition XACT_COMMIT :: byte where "XACT_COMMIT = 0"
definition XACT_ABORT :: byte where "XACT_ABORT = 1"
definition XACT_CHECKPOINT :: byte where "XACT_CHECKPOINT = 2"

datatype WalRecord =
    HeapInsert nat nat nat "byte list"
  | HeapUpdate nat nat nat nat nat nat "byte list"
  | HeapDelete nat nat nat nat
  | XactCommit nat
  | XactAbort nat
  | Checkpoint nat nat nat "nat list"

record DecodedRecord =
  dr_lsn :: nat
  dr_prev_lsn :: nat
  dr_xid :: nat
  dr_record :: WalRecord

record WalManager =
  wal_file :: "byte list"
  wal_buffer :: "byte list"
  wal_next_lsn :: nat
  wal_flushed_lsn :: nat
  wal_prev_lsn :: nat

record WalReader =
  wr_data :: "byte list"
  wr_pos :: nat
  wr_base_lsn :: nat

section \<open>Serialization\<close>

definition rmgr_and_type :: "WalRecord \<Rightarrow> byte \<times> byte" where
  "rmgr_and_type r =
     (case r of
        HeapInsert _ _ _ _ \<Rightarrow> (RMGR_HEAP, HEAP_INSERT)
      | HeapUpdate _ _ _ _ _ _ _ \<Rightarrow> (RMGR_HEAP, HEAP_UPDATE)
      | HeapDelete _ _ _ _ \<Rightarrow> (RMGR_HEAP, HEAP_DELETE)
      | XactCommit _ \<Rightarrow> (RMGR_XACT, XACT_COMMIT)
      | XactAbort _ \<Rightarrow> (RMGR_XACT, XACT_ABORT)
      | Checkpoint _ _ _ _ \<Rightarrow> (RMGR_XACT, XACT_CHECKPOINT))"

definition serialize_body :: "WalRecord \<Rightarrow> byte list" where
  "serialize_body r =
     (case r of
        HeapInsert t p s d \<Rightarrow> to_le 4 t @ to_le 8 p @ to_le 2 s @ to_le 2 (length d) @ d
      | HeapUpdate t op os np ns x d \<Rightarrow>
          to_le 4 t @ to_le 8 op @ to_le 2 os @ to_le 8 np @ to_le 2 ns @ to_le 8 x @
          to_le 2 (length d) @ d
      | HeapDelete t p s x \<Rightarrow> to_le 4 t @ to_le 8 p @ to_le 2 s @ to_le 8 x
      | XactCommit ts \<Rightarrow> to_le 8 ts
      | XactAbort ts \<Rightarrow> to_le 8 ts
      | Checkpoint l n ol xs \<Rightarrow>
          to_le 8 l @ to_le 8 n @ to_le 8 ol @ to_le 4 (length xs) @ concat (map (to_le 8) xs))"

definition build_header :: "(byte list \<Rightarrow> nat) \<Rightarrow> nat \<Rightarrow> nat \<Rightarrow> nat \<Rightarrow> WalRecord \<Rightarrow> nat \<Rightarrow> byte list \<Rightarrow> byte list" where
  "build_header crc lsn prev xid r total_len body =
     (let (rmgr, ty) = rmgr_and_type r;
          h = to_le 8 lsn @ to_le 8 prev @ to_le 8 xid @ [rmgr, ty] @ to_le 4 total_len
      in h @ to_le 4 (crc (h @ [0, 0, 0, 0] @ body)))"

definition field :: "nat \<Rightarrow> byte list \<Rightarrow> nat \<Rightarrow> StorageError + nat" where
  \<comment> \<open>\<^verbatim>\<open>u<8 n>::from_le_bytes(body[i..i+n].try_into().unwrap())\<close>\<close>
  "field n b i = (if i + n \<le> length b then Inr (from_le (slice b i n)) else Inl Panic)"

definition decode_body :: "byte \<Rightarrow> byte \<Rightarrow> byte list \<Rightarrow> StorageError + WalRecord" where
  "decode_body rmgr ty body =
     (if rmgr = RMGR_HEAP \<and> ty = HEAP_INSERT then
        if length body < 16 then Inl Corruption
        else rbind (field 4 body 0) (\<lambda>t. rbind (field 8 body 4) (\<lambda>p. rbind (field 2 body 12) (\<lambda>s.
             rbind (field 2 body 14) (\<lambda>n.
               if 16 + n \<le> length body then Inr (HeapInsert t p s (slice body 16 n)) else Inl Panic))))
      else if rmgr = RMGR_HEAP \<and> ty = HEAP_DELETE then
        if length body < 18 then Inl Corruption
        else rbind (field 4 body 0) (\<lambda>t. rbind (field 8 body 4) (\<lambda>p. rbind (field 2 body 12) (\<lambda>s.
             rbind (field 8 body 14) (\<lambda>x. Inr (HeapDelete t p s x)))))
      else if rmgr = RMGR_XACT \<and> ty = XACT_COMMIT then
        rbind (field 8 body 0) (\<lambda>ts. Inr (XactCommit ts))
      else if rmgr = RMGR_XACT \<and> ty = XACT_ABORT then
        rbind (field 8 body 0) (\<lambda>ts. Inr (XactAbort ts))
      else if rmgr = RMGR_XACT \<and> ty = XACT_CHECKPOINT then
        rbind (field 8 body 0) (\<lambda>l. rbind (field 8 body 8) (\<lambda>n. rbind (field 8 body 16) (\<lambda>ol.
        rbind (field 4 body 24) (\<lambda>k.
          if 28 + k * 8 \<le> length body
          then Inr (Checkpoint l n ol (map (\<lambda>i. from_le (slice body (28 + i * 8) 8)) [0 ..< k]))
          else Inl Panic))))
      else Inl Corruption)"

definition decode_record :: "byte list \<Rightarrow> nat \<Rightarrow> StorageError + DecodedRecord \<times> nat" where
  "decode_record data lsn =
     (if length data < WAL_HEADER_SIZE then Inl Corruption
      else
        let stored_lsn = from_le (slice data 0 8);
            prev_lsn = from_le (slice data 8 8);
            xid = from_le (slice data 16 8);
            rmgr_id = data ! 24;
            record_type = data ! 25;
            total_len = from_le (slice data 26 4)
        in if stored_lsn \<noteq> lsn then Inl Corruption
           else if total_len < WAL_HEADER_SIZE \<or> length data < total_len then Inl Corruption
           else rbind (decode_body rmgr_id record_type
                        (slice data WAL_HEADER_SIZE (total_len - WAL_HEADER_SIZE)))
                  (\<lambda>r. Inr (\<lparr>dr_lsn = lsn, dr_prev_lsn = prev_lsn, dr_xid = xid, dr_record = r\<rparr>, total_len)))"

section \<open>The log manager\<close>

definition wal_create :: WalManager where
  "wal_create = \<lparr>wal_file = [], wal_buffer = [], wal_next_lsn = 0, wal_flushed_lsn = 0, wal_prev_lsn = 0\<rparr>"

definition scan_wal_end :: "byte list \<Rightarrow> nat" where
  "scan_wal_end file = length file"

definition wal_open :: "byte list \<Rightarrow> WalManager" where
  "wal_open file = \<lparr>wal_file = file, wal_buffer = [], wal_next_lsn = scan_wal_end file,
     wal_flushed_lsn = scan_wal_end file, wal_prev_lsn = 0\<rparr>"

definition wal_flush :: "WalManager \<Rightarrow> nat \<times> WalManager" where
  "wal_flush w =
     (if wal_buffer w = [] then (wal_flushed_lsn w, w)
      else
        let flushed = wal_flushed_lsn w;
            new_flushed = u64_add flushed (length (wal_buffer w))
        in (new_flushed, w\<lparr>wal_file := write_at (wal_file w) (wal_buffer w) flushed,
                           wal_flushed_lsn := new_flushed, wal_buffer := []\<rparr>))"

definition write_record :: "(byte list \<Rightarrow> nat) \<Rightarrow> WalManager \<Rightarrow> nat \<Rightarrow> WalRecord \<Rightarrow> nat \<times> WalManager" where
  "write_record crc w xid r =
     (let body = serialize_body r;
          total_len = WAL_HEADER_SIZE + length body;
          lsn = wal_next_lsn w;
          header = build_header crc lsn (wal_prev_lsn w) xid r total_len body;
          w1 = w\<lparr>wal_next_lsn := u64_add lsn total_len,
                 wal_buffer := wal_buffer w @ header @ body, wal_prev_lsn := lsn\<rparr>;
          w2 = (if WAL_BUFFER_SIZE div 2 \<le> length (wal_buffer w1) then snd (wal_flush w1) else w1)
      in (lsn, w2))"

definition reader_new :: "byte list \<Rightarrow> nat \<Rightarrow> nat \<Rightarrow> StorageError + WalReader" where
  "reader_new file start_lsn end_lsn =
     (if end_lsn \<le> start_lsn then Inr \<lparr>wr_data = [], wr_pos = 0, wr_base_lsn = start_lsn\<rparr>
      else rbind (read_at file (end_lsn - start_lsn) start_lsn)
             (\<lambda>d. Inr \<lparr>wr_data = d, wr_pos = 0, wr_base_lsn = start_lsn\<rparr>))"

definition read_from :: "WalManager \<Rightarrow> nat \<Rightarrow> StorageError + WalReader" where
  "read_from w start_lsn = reader_new (wal_file w) start_lsn (wal_flushed_lsn w)"

definition next_record :: "WalReader \<Rightarrow> (StorageError + DecodedRecord) option \<times> WalReader" where
  "next_record rd =
     (if length (wr_data rd) < wr_pos rd + WAL_HEADER_SIZE then (None, rd)
      else case decode_record (drop (wr_pos rd) (wr_data rd)) (u64_add (wr_base_lsn rd) (wr_pos rd)) of
             Inr (rec, consumed) \<Rightarrow> (Some (Inr rec), rd\<lparr>wr_pos := wr_pos rd + consumed\<rparr>)
           | Inl e \<Rightarrow> (Some (Inl e), rd))"

section \<open>One record\<close>

text \<open>The fields in their machine ranges. Updates are excluded: the decoder does not know them.\<close>

fun record_ok :: "WalRecord \<Rightarrow> bool" where
  "record_ok (HeapInsert t p s d) \<longleftrightarrow> t < 2 ^ 32 \<and> p < 2 ^ 64 \<and> s < 2 ^ 16 \<and> length d < 2 ^ 16"
| "record_ok (HeapUpdate _ _ _ _ _ _ _) \<longleftrightarrow> False"
| "record_ok (HeapDelete t p s x) \<longleftrightarrow> t < 2 ^ 32 \<and> p < 2 ^ 64 \<and> s < 2 ^ 16 \<and> x < 2 ^ 64"
| "record_ok (XactCommit ts) \<longleftrightarrow> ts < 2 ^ 64"
| "record_ok (XactAbort ts) \<longleftrightarrow> ts < 2 ^ 64"
| "record_ok (Checkpoint l n ol xs) \<longleftrightarrow> l < 2 ^ 64 \<and> n < 2 ^ 64 \<and> ol < 2 ^ 64 \<and> length xs < 2 ^ 24 \<and>
     (\<forall>x \<in> set xs. x < 2 ^ 64)"

lemmas tag_defs = RMGR_HEAP_def RMGR_XACT_def HEAP_INSERT_def HEAP_UPDATE_def HEAP_DELETE_def
  XACT_COMMIT_def XACT_ABORT_def XACT_CHECKPOINT_def

lemma length_concat_to_le [simp]: "length (concat (map (to_le k) xs)) = k * length xs"
  by (induction xs) simp_all

lemma slice_concat_to_le:
  "i < length xs \<Longrightarrow> slice (concat (map (to_le 8) xs)) (i * 8) 8 = to_le 8 (xs ! i)"
proof (induction xs arbitrary: i)
  case (Cons x xs)
  then show ?case
    by (cases i) (simp_all add: slice_append_right)
qed simp

lemma decode_serialize: "record_ok r \<Longrightarrow>
    decode_body (fst (rmgr_and_type r)) (snd (rmgr_and_type r)) (serialize_body r) = Inr r"
proof (cases r)
  case (Checkpoint l n ol xs)
  assume ok: "record_ok r"
  let ?b = "serialize_body r"
  have b: "?b = to_le 8 l @ to_le 8 n @ to_le 8 ol @ to_le 4 (length xs) @ concat (map (to_le 8) xs)"
    using Checkpoint by (simp add: serialize_body_def)
  have "slice ?b (28 + i * 8) 8 = to_le 8 (xs ! i)" if "i < length xs" for i
    using slice_concat_to_le [OF that] by (simp add: b slice_append_right)
  moreover have "i < length xs \<Longrightarrow> xs ! i < 2 ^ 64" for i using ok Checkpoint by simp
  ultimately have xs: "map (\<lambda>i. from_le (slice ?b (28 + i * 8) 8)) [0 ..< length xs] = xs"
    by (intro nth_equalityI) simp_all
  have "length ?b = 28 + length xs * 8" "field 8 ?b 0 = Inr l" "field 8 ?b 8 = Inr n" "field 8 ?b 16 = Inr ol"
    "field 4 ?b 24 = Inr (length xs)"
    unfolding b field_def using ok Checkpoint by (simp_all add: slice_append_right)
  with xs Checkpoint show ?thesis
    by (simp add: decode_body_def rmgr_and_type_def tag_defs)
qed (simp_all add: decode_body_def rmgr_and_type_def serialize_body_def tag_defs field_def slice_append_right)

definition encoded :: "(byte list \<Rightarrow> nat) \<Rightarrow> nat \<Rightarrow> nat \<Rightarrow> nat \<Rightarrow> WalRecord \<Rightarrow> byte list" where
  "encoded crc lsn prev xid r =
     build_header crc lsn prev xid r (WAL_HEADER_SIZE + length (serialize_body r)) (serialize_body r) @ serialize_body r"

lemma length_build_header [simp]: "length (build_header crc lsn prev xid r n b) = 34"
  by (simp add: build_header_def Let_def split: prod.split)

lemma length_encoded: "length (encoded crc lsn prev xid r) = 34 + length (serialize_body r)"
  by (simp add: encoded_def)

lemma length_body: "record_ok r \<Longrightarrow> length (serialize_body r) < 2 ^ 28"
  by (cases r) (simp_all add: serialize_body_def)

lemma decode_encoded:
  assumes "record_ok r" "lsn < 2 ^ 64" "prev < 2 ^ 64" "xid < 2 ^ 64"
  shows "decode_record (encoded crc lsn prev xid r @ rest) lsn =
    Inr (\<lparr>dr_lsn = lsn, dr_prev_lsn = prev, dr_xid = xid, dr_record = r\<rparr>, length (encoded crc lsn prev xid r))"
proof -
  let ?b = "serialize_body r"
  obtain m t where mt: "rmgr_and_type r = (m, t)" by force
  obtain c where h: "encoded crc lsn prev xid r @ rest =
      to_le 8 lsn @ to_le 8 prev @ to_le 8 xid @ [m, t] @ to_le 4 (34 + length ?b) @ to_le 4 c @ ?b @ rest"
    by (simp add: encoded_def build_header_def mt Let_def)
  let ?d = "encoded crc lsn prev xid r @ rest"
  have "slice ?d 0 8 = to_le 8 lsn" "slice ?d 8 8 = to_le 8 prev" "slice ?d 16 8 = to_le 8 xid"
    "?d ! 24 = m" "?d ! 25 = t" "slice ?d 26 4 = to_le 4 (34 + length ?b)" "slice ?d 34 (length ?b) = ?b"
    unfolding h by (simp_all add: slice_append_right nth_append) (simp_all add: slice_def)
  then show ?thesis
    using assms length_body [OF assms(1)] decode_serialize [OF assms(1)] mt
    by (simp add: decode_record_def Let_def length_encoded)
qed

section \<open>The log as a sequence of records\<close>

text \<open>
  The bytes of a log that holds the records \<open>rs\<close>, each with the transaction that wrote it: the LSN of
  a record is its byte offset, and its header names the LSN of the record before it.
\<close>

definition lsn_at :: "(nat \<times> WalRecord) list \<Rightarrow> nat \<Rightarrow> nat" where
  "lsn_at rs i = (\<Sum>(x, r) \<leftarrow> take i rs. WAL_HEADER_SIZE + length (serialize_body r))"

definition prev_at :: "(nat \<times> WalRecord) list \<Rightarrow> nat \<Rightarrow> nat" where
  "prev_at rs i = (if i = 0 then 0 else lsn_at rs (i - 1))"

definition wal_entry :: "(nat \<times> WalRecord) list \<Rightarrow> nat \<Rightarrow> DecodedRecord" where
  "wal_entry rs i = \<lparr>dr_lsn = lsn_at rs i, dr_prev_lsn = prev_at rs i, dr_xid = fst (rs ! i), dr_record = snd (rs ! i)\<rparr>"

definition entry_bytes :: "(byte list \<Rightarrow> nat) \<Rightarrow> (nat \<times> WalRecord) list \<Rightarrow> nat \<Rightarrow> byte list" where
  "entry_bytes crc rs i = encoded crc (lsn_at rs i) (prev_at rs i) (fst (rs ! i)) (snd (rs ! i))"

definition log_bytes :: "(byte list \<Rightarrow> nat) \<Rightarrow> (nat \<times> WalRecord) list \<Rightarrow> nat \<Rightarrow> byte list" where
  \<comment> \<open>the first \<open>k\<close> records of \<open>rs\<close>\<close>
  "log_bytes crc rs k = concat (map (entry_bytes crc rs) [0 ..< k])"

lemma lsn_at_Suc: "i < length rs \<Longrightarrow> lsn_at rs (Suc i) = lsn_at rs i + length (entry_bytes crc rs i)"
  by (simp add: lsn_at_def take_Suc_conv_app_nth entry_bytes_def length_encoded split: prod.split)

lemma length_log_bytes: "k \<le> length rs \<Longrightarrow> length (log_bytes crc rs k) = lsn_at rs k"
proof (induction k)
  case 0
  show ?case by (simp add: log_bytes_def lsn_at_def)
next
  case (Suc k)
  then show ?case using lsn_at_Suc [of k rs crc] by (simp add: log_bytes_def)
qed

lemma lsn_at_mono: "i \<le> j \<Longrightarrow> lsn_at rs i \<le> lsn_at rs j"
proof -
  assume "i \<le> j"
  then obtain d where "j = i + d" using le_Suc_ex by blast
  then show ?thesis by (simp add: lsn_at_def take_add)
qed

lemma lsn_at_snoc: "i \<le> length rs \<Longrightarrow> lsn_at (rs @ ys) i = lsn_at rs i"
  by (simp add: lsn_at_def)

lemma entry_bytes_snoc: "i < length rs \<Longrightarrow> entry_bytes crc (rs @ ys) i = entry_bytes crc rs i"
  by (simp add: entry_bytes_def prev_at_def lsn_at_snoc nth_append)

lemma log_bytes_snoc: "k \<le> length rs \<Longrightarrow> log_bytes crc (rs @ ys) k = log_bytes crc rs k"
  unfolding log_bytes_def by (intro arg_cong [where f = concat] map_cong) (simp_all add: entry_bytes_snoc)

lemma log_bytes_extend: "log_bytes crc (rs @ [(x, r)]) (Suc (length rs)) =
    log_bytes crc rs (length rs) @ encoded crc (lsn_at rs (length rs)) (prev_at rs (length rs)) x r"
proof -
  have "prev_at (rs @ [(x, r)]) (length rs) = prev_at rs (length rs)" by (simp add: prev_at_def lsn_at_snoc)
  then show ?thesis
    using log_bytes_snoc [of "length rs" rs crc "[(x, r)]"]
    by (simp add: log_bytes_def) (simp add: entry_bytes_def lsn_at_snoc)
qed

lemma log_bytes_split:
  assumes "i < k"
  shows "drop (length (log_bytes crc rs i)) (log_bytes crc rs k) =
    entry_bytes crc rs i @ concat (map (entry_bytes crc rs) [Suc i ..< k])"
proof -
  have "[0 ..< k] = [0 ..< i] @ i # [Suc i ..< k]"
    using assms upt_add_eq_append [of 0 i "k - i"] upt_conv_Cons [of i k] by simp
  then show ?thesis by (simp add: log_bytes_def)
qed

definition records_ok :: "(nat \<times> WalRecord) list \<Rightarrow> bool" where
  "records_ok rs \<longleftrightarrow> (\<forall>(x, r) \<in> set rs. x < 2 ^ 64 \<and> record_ok r) \<and> lsn_at rs (length rs) < 2 ^ 64"

fun read_n :: "nat \<Rightarrow> WalReader \<Rightarrow> (StorageError + DecodedRecord) option list" where
  "read_n 0 rd = []"
| "read_n (Suc n) rd = (case next_record rd of (r, rd') \<Rightarrow> r # read_n n rd')"

lemma next_record_at:
  assumes ok: "records_ok rs" and k: "k \<le> length rs" and i: "i < k"
    and rd: "wr_data rd = log_bytes crc rs k @ torn" "wr_base_lsn rd = 0" "wr_pos rd = lsn_at rs i"
  shows "next_record rd = (Some (Inr (wal_entry rs i)), rd\<lparr>wr_pos := lsn_at rs (Suc i)\<rparr>)"
proof -
  have len: "length (log_bytes crc rs i) = lsn_at rs i" "length (log_bytes crc rs k) = lsn_at rs k"
    using length_log_bytes [of i rs] length_log_bytes [of k rs] k i by simp_all
  have s: "lsn_at rs (Suc i) = lsn_at rs i + length (entry_bytes crc rs i)" using lsn_at_Suc k i by simp
  have le: "lsn_at rs (Suc i) \<le> lsn_at rs k" "lsn_at rs i \<le> lsn_at rs (length rs)" "prev_at rs i \<le> lsn_at rs (length rs)"
    using lsn_at_mono k i by (simp_all add: prev_at_def lsn_at_mono)
  have h: "34 \<le> length (entry_bytes crc rs i)" by (simp add: entry_bytes_def length_encoded)
  have r: "record_ok (snd (rs ! i))" "fst (rs ! i) < 2 ^ 64"
    using ok k i nth_mem [of i rs] by (auto simp: records_ok_def case_prod_unfold)
  have b: "lsn_at rs i < 2 ^ 64" "prev_at rs i < 2 ^ 64" using ok le by (simp_all add: records_ok_def)
  have "drop (lsn_at rs i) (wr_data rd) = entry_bytes crc rs i @ concat (map (entry_bytes crc rs) [Suc i ..< k]) @ torn"
    using log_bytes_split [OF i, of crc rs] len rd le(1) s by simp
  then have "decode_record (drop (lsn_at rs i) (wr_data rd)) (lsn_at rs i) = Inr (wal_entry rs i, length (entry_bytes crc rs i))"
    using decode_encoded [OF r(1) b r(2)] by (simp add: entry_bytes_def wal_entry_def)
  then show ?thesis
    using rd len le(1) s h b by (simp add: next_record_def)
qed

lemma read_n_log:
  assumes ok: "records_ok rs" and k: "k \<le> length rs"
    and rd: "wr_data rd = log_bytes crc rs k @ torn" "wr_base_lsn rd = 0" "wr_pos rd = lsn_at rs i" and i: "i \<le> k"
  shows "read_n (Suc (k - i)) rd = map (\<lambda>j. Some (Inr (wal_entry rs j))) [i ..< k] @
    [fst (next_record (rd\<lparr>wr_pos := lsn_at rs k\<rparr>))]"
  using i rd
proof (induction "k - i" arbitrary: i rd)
  case 0
  then have "k = i" "rd\<lparr>wr_pos := lsn_at rs k\<rparr> = rd" by (cases rd, simp)+
  then show ?case by (simp add: case_prod_unfold)
next
  case (Suc n)
  then have i: "i < k" "k - i = Suc (k - Suc i)" "n = k - Suc i" by simp_all
  note N = next_record_at [OF ok k i(1) Suc.prems(2-4)]
  have "read_n (Suc (k - Suc i)) (rd\<lparr>wr_pos := lsn_at rs (Suc i)\<rparr>) =
      map (\<lambda>j. Some (Inr (wal_entry rs j))) [Suc i ..< k] @ [fst (next_record (rd\<lparr>wr_pos := lsn_at rs k\<rparr>))]"
    using Suc.hyps(1) [OF i(3), of "rd\<lparr>wr_pos := lsn_at rs (Suc i)\<rparr>"] Suc.prems i by simp
  then show ?case using N i(1) upt_conv_Cons [OF i(1)] unfolding i(2) by simp
qed

text \<open>A log whose last record was written only in part: the reader finds the end of the log when the header of
  that record is incomplete, and reports corruption when its body is.\<close>

lemma decode_torn:
  assumes "record_ok r" "34 \<le> j" "j < length (encoded crc lsn prev xid r)"
  shows "decode_record (take j (encoded crc lsn prev xid r)) lsn' = Inl Corruption"
proof -
  let ?b = "serialize_body r" and ?d = "take j (encoded crc lsn prev xid r)"
  obtain m t where mt: "rmgr_and_type r = (m, t)" by force
  obtain c where h: "encoded crc lsn prev xid r =
      (to_le 8 lsn @ to_le 8 prev @ to_le 8 xid @ [m, t]) @ to_le 4 (34 + length ?b) @ to_le 4 c @ ?b"
    by (simp add: encoded_def build_header_def mt Let_def)
  have "slice (encoded crc lsn prev xid r) 26 4 = to_le 4 (34 + length ?b)"
    unfolding h by (subst slice_append_right) simp_all
  moreover have "slice ?d 26 4 = slice (encoded crc lsn prev xid r) 26 4"
    using assms(2) by (simp add: slice_def drop_take min_def)
  ultimately have "from_le (slice ?d 26 4) = 34 + length ?b" "length ?d = j"
    using length_body [OF assms(1)] assms(3) by simp_all
  then show ?thesis using assms(2,3) by (simp add: decode_record_def Let_def length_encoded)
qed

lemma next_record_torn:
  assumes ok: "records_ok rs" and k: "k < length rs" and j: "j < length (entry_bytes crc rs k)"
    and rd: "wr_data rd = log_bytes crc rs k @ take j (entry_bytes crc rs k)" "wr_pos rd = lsn_at rs k"
  shows "fst (next_record rd) = (if j < 34 then None else Some (Inl Corruption))"
proof -
  have len: "length (log_bytes crc rs k) = lsn_at rs k" using length_log_bytes [of k rs] k by simp
  have "record_ok (snd (rs ! k))" using ok k nth_mem [of k rs] by (auto simp: records_ok_def case_prod_unfold)
  then show ?thesis
    using j rd len decode_torn [of "snd (rs ! k)" j crc] by (simp add: next_record_def entry_bytes_def)
qed

text \<open>A prefix of the log consists of its first records and a part of the next one.\<close>

lemma log_bytes_Suc: "log_bytes crc rs (Suc k) = log_bytes crc rs k @ entry_bytes crc rs k"
  by (simp add: log_bytes_def)

lemma log_bytes_take:
  assumes "m < lsn_at rs n" "n \<le> length rs"
  shows "\<exists>k < n. lsn_at rs k \<le> m \<and> m < lsn_at rs (Suc k) \<and>
    take m (log_bytes crc rs n) = log_bytes crc rs k @ take (m - lsn_at rs k) (entry_bytes crc rs k)"
  using assms
proof (induction n)
  case 0
  then show ?case by (simp add: lsn_at_def)
next
  case (Suc n)
  have len: "length (log_bytes crc rs n) = lsn_at rs n" using length_log_bytes [of n rs] Suc.prems by simp
  show ?case
  proof (cases "m < lsn_at rs n")
    case True
    then obtain k where "k < n" "lsn_at rs k \<le> m" "m < lsn_at rs (Suc k)"
      "take m (log_bytes crc rs n) = log_bytes crc rs k @ take (m - lsn_at rs k) (entry_bytes crc rs k)"
      using Suc by auto
    then show ?thesis using True len by (intro exI [of _ k]) (simp add: log_bytes_Suc)
  next
    case False
    then show ?thesis using Suc.prems len by (intro exI [of _ n]) (simp add: log_bytes_Suc)
  qed
qed

section \<open>Writing the log\<close>

definition holds_log :: "(byte list \<Rightarrow> nat) \<Rightarrow> WalManager \<Rightarrow> (nat \<times> WalRecord) list \<Rightarrow> nat \<Rightarrow> bool" where
  "holds_log crc w rs k \<longleftrightarrow> k \<le> length rs \<and> wal_file w = log_bytes crc rs k \<and>
     log_bytes crc rs k @ wal_buffer w = log_bytes crc rs (length rs) \<and>
     wal_flushed_lsn w = length (wal_file w) \<and> wal_next_lsn w = lsn_at rs (length rs) \<and>
     wal_prev_lsn w = prev_at rs (length rs)"

lemma holds_log_create: "holds_log crc wal_create [] 0"
  by (simp add: holds_log_def wal_create_def log_bytes_def lsn_at_def prev_at_def)

lemma wal_flush_ok:
  assumes h: "holds_log crc w rs k" and ok: "lsn_at rs (length rs) < 2 ^ 64"
  shows "holds_log crc (snd (wal_flush w)) rs (length rs)" "fst (wal_flush w) = lsn_at rs (length rs)"
proof -
  have len: "length (wal_file w @ wal_buffer w) = lsn_at rs (length rs)"
    using h length_log_bytes [of "length rs" rs crc] by (simp add: holds_log_def flip: length_append)
  have wr: "write_at (wal_file w) (wal_buffer w) (length (wal_file w)) = wal_file w @ wal_buffer w"
    by (simp add: write_at_def blit_def)
  have u: "u64_add (length (wal_file w)) (length (wal_buffer w)) = lsn_at rs (length rs)" using len ok by simp
  show "holds_log crc (snd (wal_flush w)) rs (length rs)"
    using h len ok wr u by (auto simp: holds_log_def wal_flush_def Let_def)
  show "fst (wal_flush w) = lsn_at rs (length rs)"
    using h len u by (cases "wal_buffer w = []") (auto simp: holds_log_def wal_flush_def Let_def)
qed

lemma write_record_ok:
  assumes h: "holds_log crc w rs k" and ok: "lsn_at (rs @ [(x, r)]) (Suc (length rs)) < 2 ^ 64"
  shows "fst (write_record crc w x r) = lsn_at rs (length rs)"
    "\<exists>k' \<ge> k. holds_log crc (snd (write_record crc w x r)) (rs @ [(x, r)]) k'"
proof -
  let ?w1 = "w\<lparr>wal_next_lsn := u64_add (wal_next_lsn w) (34 + length (serialize_body r)),
     wal_buffer := wal_buffer w @ encoded crc (wal_next_lsn w) (wal_prev_lsn w) x r, wal_prev_lsn := wal_next_lsn w\<rparr>"
  have s: "lsn_at (rs @ [(x, r)]) (Suc (length rs)) = lsn_at rs (length rs) + (34 + length (serialize_body r))"
    by (simp add: lsn_at_def)
  have eq: "write_record crc w x r = (wal_next_lsn w,
      if 2097152 \<le> length (wal_buffer ?w1) then snd (wal_flush ?w1) else ?w1)"
    by (simp add: write_record_def Let_def encoded_def)
  show "fst (write_record crc w x r) = lsn_at rs (length rs)" using h by (simp add: eq holds_log_def)
  have h1: "holds_log crc ?w1 (rs @ [(x, r)]) k"
    using h s ok log_bytes_extend [of crc rs x r] log_bytes_snoc [of k rs crc "[(x, r)]"] lsn_at_snoc [of "length rs" rs]
    by (simp add: holds_log_def prev_at_def flip: append_assoc)
  have "k \<le> length (rs @ [(x, r)])" using h by (simp add: holds_log_def)
  moreover have "lsn_at (rs @ [(x, r)]) (length (rs @ [(x, r)])) < 2 ^ 64" using ok by simp
  ultimately show "\<exists>k' \<ge> k. holds_log crc (snd (write_record crc w x r)) (rs @ [(x, r)]) k'"
    using h1 wal_flush_ok(1) [OF h1] unfolding eq by auto
qed

datatype wal_op = WriteRec nat WalRecord | Flush

fun wal_step :: "(byte list \<Rightarrow> nat) \<Rightarrow> wal_op \<Rightarrow> WalManager \<Rightarrow> WalManager" where
  "wal_step crc (WriteRec x r) w = snd (write_record crc w x r)"
| "wal_step crc Flush w = snd (wal_flush w)"

fun written :: "wal_op list \<Rightarrow> (nat \<times> WalRecord) list" where
  "written [] = []"
| "written (WriteRec x r # ops) = (x, r) # written ops"
| "written (Flush # ops) = written ops"

lemma written_append: "written (ops @ ops') = written ops @ written ops'"
  by (induction ops rule: written.induct) simp_all

lemma lsn_prefix: "lsn_at rs (length rs) \<le> lsn_at (rs @ ys) (length (rs @ ys))"
  by (simp add: lsn_at_def)

lemma wal_run_ok:
  assumes "holds_log crc w rs k" "lsn_at (rs @ written ops) (length (rs @ written ops)) < 2 ^ 64"
  shows "\<exists>k' \<ge> k. holds_log crc (fold (wal_step crc) ops w) (rs @ written ops) k'"
  using assms
proof (induction ops arbitrary: w rs k)
  case Nil
  then show ?case by auto
next
  case (Cons op ops)
  show ?case
  proof (cases op)
    case (WriteRec x r)
    let ?w = "snd (write_record crc w x r)" and ?rs = "rs @ [(x, r)]"
    have l: "lsn_at (?rs @ written ops) (length (?rs @ written ops)) < 2 ^ 64" using Cons.prems(2) WriteRec by simp
    then have "lsn_at ?rs (Suc (length rs)) < 2 ^ 64" using lsn_prefix [of ?rs "written ops"] by simp
    from write_record_ok(2) [OF Cons.prems(1) this] obtain k1 where k1: "k \<le> k1" "holds_log crc ?w ?rs k1" by blast
    from Cons.IH [OF k1(2) l] show ?thesis using k1(1) WriteRec by (auto intro: order_trans)
  next
    case Flush
    have "lsn_at rs (length rs) < 2 ^ 64" using lsn_prefix [of rs "written (op # ops)"] Cons.prems(2) by linarith
    note F = wal_flush_ok(1) [OF Cons.prems(1) this]
    have "k \<le> length rs" using Cons.prems(1) by (simp add: holds_log_def)
    with Cons.IH [OF F] Cons.prems(2) Flush show ?thesis by (auto intro: order_trans)
  qed
qed

lemma read_back_torn:
  assumes "records_ok rs" "k \<le> length rs" "bytes = log_bytes crc rs k @ torn"
  shows "\<exists>rd. read_from (wal_open bytes) 0 = Inr rd \<and>
    read_n (Suc k) rd = map (\<lambda>i. Some (Inr (wal_entry rs i))) [0 ..< k] @
      [fst (next_record \<lparr>wr_data = bytes, wr_pos = lsn_at rs k, wr_base_lsn = 0\<rparr>)]"
proof -
  let ?rd = "\<lparr>wr_data = bytes, wr_pos = 0, wr_base_lsn = 0\<rparr>"
  have "read_from (wal_open bytes) 0 = Inr ?rd"
    by (simp add: read_from_def wal_open_def scan_wal_end_def reader_new_def read_at_def)
  moreover have "read_n (Suc (k - 0)) ?rd = map (\<lambda>i. Some (Inr (wal_entry rs i))) [0 ..< k] @
      [fst (next_record (?rd\<lparr>wr_pos := lsn_at rs k\<rparr>))]"
    by (rule read_n_log [OF assms(1,2), of _ crc torn]) (use assms(3) in \<open>simp_all add: lsn_at_def\<close>)
  ultimately show ?thesis by simp
qed

lemma read_back:
  assumes "holds_log crc w rs k" "records_ok rs"
  shows "\<exists>rd. read_from (wal_open (wal_file w)) 0 = Inr rd \<and>
    read_n (Suc k) rd = map (\<lambda>i. Some (Inr (wal_entry rs i))) [0 ..< k] @ [None]"
proof -
  have k: "k \<le> length rs" "wal_file w = log_bytes crc rs k @ []" using assms by (simp_all add: holds_log_def)
  moreover have "fst (next_record \<lparr>wr_data = wal_file w, wr_pos = lsn_at rs k, wr_base_lsn = 0\<rparr>) = None"
    using k length_log_bytes [OF k(1), of crc] by (simp add: next_record_def)
  ultimately show ?thesis using read_back_torn [OF assms(2) k] by simp
qed

text \<open>The file the next start finds: the process may have stopped while it wrote the buffer, so the file ends
  after some byte of the buffer.\<close>

definition stopped_file :: "WalManager \<Rightarrow> nat \<Rightarrow> byte list" where
  "stopped_file w m = take m (wal_file w @ wal_buffer w)"

lemma stopped_file_reads:
  assumes h: "holds_log crc w rs k0" and ok: "records_ok rs"
  shows "\<exists>k rd e. k \<le> length rs \<and> (k < length rs \<longrightarrow> m < lsn_at rs (Suc k)) \<and>
    read_from (wal_open (stopped_file w m)) 0 = Inr rd \<and>
    read_n (Suc k) rd = map (\<lambda>i. Some (Inr (wal_entry rs i))) [0 ..< k] @ [e] \<and>
    (e = None \<or> e = Some (Inl Corruption)) \<and> (m = length (wal_file w) \<longrightarrow> e = None)"
proof -
  let ?n = "length rs"
  have bytes: "stopped_file w m = take m (log_bytes crc rs ?n)" using h by (simp add: stopped_file_def holds_log_def)
  have len: "length (log_bytes crc rs ?n) = lsn_at rs ?n" using length_log_bytes [of ?n rs] by simp
  show ?thesis
  proof (cases "m < lsn_at rs ?n")
    case True
    then obtain k where k: "k < ?n" "lsn_at rs k \<le> m" "m < lsn_at rs (Suc k)"
      "stopped_file w m = log_bytes crc rs k @ take (m - lsn_at rs k) (entry_bytes crc rs k)"
      using log_bytes_take [of m rs ?n crc] unfolding bytes by auto
    let ?e = "fst (next_record \<lparr>wr_data = stopped_file w m, wr_pos = lsn_at rs k, wr_base_lsn = 0\<rparr>)"
    have j: "m - lsn_at rs k < length (entry_bytes crc rs k)" using k(1-3) lsn_at_Suc [of k rs crc] by simp
    have e: "?e = (if m - lsn_at rs k < 34 then None else Some (Inl Corruption))"
      by (rule next_record_torn [OF ok k(1) j]) (simp_all add: k(4))
    have "k0 \<le> k" if m: "m = length (wal_file w)"
    proof (rule ccontr)
      assume "\<not> k0 \<le> k"
      then have "lsn_at rs (Suc k) \<le> lsn_at rs k0" by (intro lsn_at_mono) simp
      then show False using m h k(3) length_log_bytes [of k0 rs crc] by (simp add: holds_log_def)
    qed
    then have "?e = None" if "m = length (wal_file w)"
      using that h k(2) lsn_at_mono [of k0 k rs] length_log_bytes [of k0 rs crc] e by (simp add: holds_log_def)
    moreover have "?e = None \<or> ?e = Some (Inl Corruption)" using e by simp
    moreover obtain rd where "read_from (wal_open (stopped_file w m)) 0 = Inr rd"
      "read_n (Suc k) rd = map (\<lambda>i. Some (Inr (wal_entry rs i))) [0 ..< k] @ [?e]"
      using read_back_torn [OF ok less_imp_le [OF k(1)] k(4)] by blast
    ultimately show ?thesis using k(1,3) by (intro exI [of _ k] exI [of _ rd] exI [of _ ?e]) simp
  next
    case False
    then have all: "stopped_file w m = log_bytes crc rs ?n @ []" using bytes len by simp
    have "fst (next_record \<lparr>wr_data = stopped_file w m, wr_pos = lsn_at rs ?n, wr_base_lsn = 0\<rparr>) = None"
      using all len by (simp add: next_record_def)
    then show ?thesis using read_back_torn [OF ok order_refl all] by auto
  qed
qed

section \<open>Properties\<close>



text \<open>The reader stops at an update record: it reports corruption for the record, does not move,
  and so never reaches a record behind it, although the writer accepted all of them.\<close>

lemma update_stops_replay:
  assumes "wr_data rd = before @ encoded crc (length before) prev xid (HeapUpdate t op os np ns x d) @ rest"
    "wr_pos rd = length before" "wr_base_lsn rd = 0" "length before < 2 ^ 64" "length d < 2 ^ 16"
  shows "read_n n rd = replicate n (Some (Inl Corruption))"
proof -
  let ?r = "HeapUpdate t op os np ns x d"
  have mt: "rmgr_and_type ?r = (0, 1)" by (simp add: rmgr_and_type_def tag_defs)
  have dec: "decode_body 0 1 b = Inl Corruption" for b by (simp add: decode_body_def tag_defs)
  obtain c where h: "encoded crc (length before) prev xid ?r @ rest =
      to_le 8 (length before) @ to_le 8 prev @ to_le 8 xid @ [0, 1] @ to_le 4 (34 + length (serialize_body ?r)) @
      to_le 4 c @ serialize_body ?r @ rest"
    by (simp add: encoded_def build_header_def mt Let_def)
  let ?d = "encoded crc (length before) prev xid ?r @ rest"
  have "slice ?d 0 8 = to_le 8 (length before)" "?d ! 24 = 0" "?d ! 25 = 1" "34 \<le> length ?d"
    unfolding h by (simp_all add: slice_append_right nth_append)
  then have "decode_record ?d (length before) = Inl Corruption"
    using assms(4) dec by (simp add: decode_record_def Let_def)
  moreover have "length (wr_data rd) = length before + length ?d" "drop (length before) (wr_data rd) = ?d"
    using assms(1) by simp_all
  ultimately have "next_record rd = (Some (Inl Corruption), rd)"
    using \<open>34 \<le> length ?d\<close> assms(2-4) by (simp add: next_record_def)
  then show ?thesis by (induction n) simp_all
qed

text \<open>The length check of a delete record lets bodies through that the decoder then panics on.\<close>

lemma short_delete_panics: "length b = 18 \<Longrightarrow> decode_body RMGR_HEAP HEAP_DELETE b = Inl Panic"
  by (simp add: decode_body_def tag_defs field_def)

end
