(* ===== verification/Mvcc.thy ===== *)
theory Mvcc
  imports Wal
begin

text \<open>
  Transactions and visibility of \<^verbatim>\<open>crates/storage/src/mvcc.rs\<close>: tuple headers, snapshots and the
  transaction manager with its check for conflicting reads and writes. Hash sets are sets and hash
  maps association lists; the order of the active transactions in a snapshot has no effect, so they are
  a set. The wall clock of a commit or abort record is an argument.
\<close>

abbreviation (input) INVALID_XID :: nat where "INVALID_XID \<equiv> 0"
abbreviation (input) HEAP_XMIN_COMMITTED :: nat where "HEAP_XMIN_COMMITTED \<equiv> 256"

type_synonym tuple_key = "nat \<times> nat \<times> nat"

record TxSnapshot =
  snap_xmin :: nat
  snap_xmax :: nat
  snap_active :: "nat set"

record TupleHeader =
  th_xmin :: nat
  th_xmax :: nat
  th_cid :: nat
  th_infomask :: nat
  th_infomask2 :: nat

record TransactionManager =
  tm_next_xid :: nat
  tm_committed :: "nat set"
  tm_aborted :: "nat set"
  tm_active :: "nat set"
  tm_read_sets :: "(nat, tuple_key set) hmap"
  tm_write_sets :: "(nat, tuple_key set) hmap"

section \<open>Tuple headers\<close>

definition header_new_insert :: "nat \<Rightarrow> nat \<Rightarrow> TupleHeader" where
  "header_new_insert xid cid =
     \<lparr>th_xmin = xid, th_xmax = INVALID_XID, th_cid = cid, th_infomask = HEAP_XMIN_COMMITTED, th_infomask2 = 0\<rparr>"

definition header_encode :: "TupleHeader \<Rightarrow> byte list" where
  "header_encode h = to_le 8 (th_xmin h) @ to_le 8 (th_xmax h) @ to_le 4 (th_cid h) @
     to_le 2 (th_infomask h) @ to_le 2 (th_infomask2 h)"

definition header_decode :: "byte list \<Rightarrow> StorageError + TupleHeader" where
  "header_decode data =
     (if length data < TUPLE_HEADER_SIZE then Inl Corruption
      else Inr \<lparr>th_xmin = from_le (slice data 0 8), th_xmax = from_le (slice data 8 8),
                th_cid = from_le (slice data 16 4), th_infomask = from_le (slice data 20 2),
                th_infomask2 = from_le (slice data 22 2)\<rparr>)"

section \<open>The transaction manager\<close>

definition tm_new :: TransactionManager where
  "tm_new = \<lparr>tm_next_xid = 1, tm_committed = {}, tm_aborted = {}, tm_active = {},
     tm_read_sets = [], tm_write_sets = []\<rparr>"

definition tx_begin :: "TransactionManager \<Rightarrow> nat \<times> TransactionManager" where
  "tx_begin t =
     (let xid = tm_next_xid t
      in (xid, t\<lparr>tm_next_xid := u64_add xid 1, tm_active := insert xid (tm_active t)\<rparr>))"

definition add_key :: "nat \<Rightarrow> tuple_key \<Rightarrow> (nat, tuple_key set) hmap \<Rightarrow> (nat, tuple_key set) hmap" where
  \<comment> \<open>\<^verbatim>\<open>sets.entry(xid).or_default().insert(key)\<close>\<close>
  "add_key xid k m = hm_insert xid (insert k (case hm_get m xid of Some s \<Rightarrow> s | None \<Rightarrow> {})) m"

definition record_read :: "TransactionManager \<Rightarrow> nat \<Rightarrow> tuple_key \<Rightarrow> TransactionManager" where
  "record_read t xid k = t\<lparr>tm_read_sets := add_key xid k (tm_read_sets t)\<rparr>"

definition record_write :: "TransactionManager \<Rightarrow> nat \<Rightarrow> tuple_key \<Rightarrow> TransactionManager" where
  "record_write t xid k = t\<lparr>tm_write_sets := add_key xid k (tm_write_sets t)\<rparr>"

definition check_ssi_conflict :: "TransactionManager \<Rightarrow> nat \<Rightarrow> bool" where
  "check_ssi_conflict t xid =
     (case hm_get (tm_read_sets t) xid of
        None \<Rightarrow> False
      | Some my_reads \<Rightarrow>
          (case hm_get (tm_write_sets t) xid of
             None \<Rightarrow> False
           | Some my_writes \<Rightarrow>
               list_ex (\<lambda>(other_xid, other_writes).
                 other_xid \<noteq> xid \<and> my_reads \<inter> other_writes \<noteq> {} \<and>
                 (case hm_get (tm_read_sets t) other_xid of
                    Some other_reads \<Rightarrow> my_writes \<inter> other_reads \<noteq> {}
                  | None \<Rightarrow> False)) (tm_write_sets t)))"

definition forget :: "nat \<Rightarrow> TransactionManager \<Rightarrow> TransactionManager" where
  "forget xid t = t\<lparr>tm_read_sets := hm_remove xid (tm_read_sets t),
                     tm_write_sets := hm_remove xid (tm_write_sets t)\<rparr>"

definition tx_commit ::
  "(byte list \<Rightarrow> nat) \<Rightarrow> TransactionManager \<Rightarrow> nat \<Rightarrow> nat \<Rightarrow> WalManager \<Rightarrow> (StorageError + unit) \<times> TransactionManager \<times> WalManager" where
  "tx_commit crc t xid now w =
     (if xid \<notin> tm_active t then (Inl Corruption, t, w)
      else if check_ssi_conflict t xid
      then (Inl Corruption, forget xid (t\<lparr>tm_active := tm_active t - {xid}, tm_aborted := insert xid (tm_aborted t)\<rparr>), w)
      else let w1 = snd (wal_flush (snd (write_record crc w xid (XactCommit now))))
           in (Inr (), forget xid (t\<lparr>tm_active := tm_active t - {xid}, tm_committed := insert xid (tm_committed t)\<rparr>), w1))"

definition tx_abort ::
  "(byte list \<Rightarrow> nat) \<Rightarrow> TransactionManager \<Rightarrow> nat \<Rightarrow> nat \<Rightarrow> WalManager \<Rightarrow> (StorageError + unit) \<times> TransactionManager \<times> WalManager" where
  "tx_abort crc t xid now w =
     (if xid \<notin> tm_active t then (Inl Corruption, t, w)
      else (Inr (), forget xid (t\<lparr>tm_active := tm_active t - {xid}, tm_aborted := insert xid (tm_aborted t)\<rparr>),
            snd (write_record crc w xid (XactAbort now))))"

definition tx_snapshot :: "TransactionManager \<Rightarrow> TxSnapshot" where
  "tx_snapshot t =
     (let xmax = tm_next_xid t;
          xmin = (if tm_committed t = {} then xmax else Min (tm_committed t))
      in \<lparr>snap_xmin = xmin, snap_xmax = xmax, snap_active = tm_active t\<rparr>)"

definition is_committed_before :: "TransactionManager \<Rightarrow> nat \<Rightarrow> TxSnapshot \<Rightarrow> bool" where
  "is_committed_before t xid s =
     (if xid = INVALID_XID then False
      else if xid \<in> snap_active s then False
      else if xid < snap_xmin s then xid \<in> tm_committed t
      else if xid \<ge> snap_xmax s then False
      else xid \<in> tm_committed t)"

definition is_visible :: "TransactionManager \<Rightarrow> TupleHeader \<Rightarrow> TxSnapshot \<Rightarrow> bool" where
  "is_visible t h s =
     (if \<not> is_committed_before t (th_xmin h) s then False
      else if th_xmax h = INVALID_XID then True
      else \<not> is_committed_before t (th_xmax h) s)"

definition is_committed :: "TransactionManager \<Rightarrow> nat \<Rightarrow> bool" where
  "is_committed t xid \<longleftrightarrow> xid \<in> tm_committed t"

definition is_aborted :: "TransactionManager \<Rightarrow> nat \<Rightarrow> bool" where
  "is_aborted t xid \<longleftrightarrow> xid \<in> tm_aborted t"

definition force_abort :: "TransactionManager \<Rightarrow> nat \<Rightarrow> TransactionManager" where
  "force_abort t xid = forget xid (t\<lparr>tm_active := tm_active t - {xid}, tm_aborted := insert xid (tm_aborted t)\<rparr>)"

definition oldest_active_xid :: "TransactionManager \<Rightarrow> nat" where
  "oldest_active_xid t = (if tm_active t = {} then INVALID_XID else Min (tm_active t))"

section \<open>Runs of the manager\<close>

datatype tx_op = Begin | Read nat tuple_key | Wrote nat tuple_key | Commit nat nat | Abort nat nat | ForceAbort nat

fun tx_step :: "(byte list \<Rightarrow> nat) \<Rightarrow> tx_op \<Rightarrow> TransactionManager \<times> WalManager \<Rightarrow> TransactionManager \<times> WalManager" where
  "tx_step crc Begin (t, w) = (snd (tx_begin t), w)"
| "tx_step crc (Read x k) (t, w) = (record_read t x k, w)"
| "tx_step crc (Wrote x k) (t, w) = (record_write t x k, w)"
| "tx_step crc (Commit x now) (t, w) = snd (tx_commit crc t x now w)"
| "tx_step crc (Abort x now) (t, w) = snd (tx_abort crc t x now w)"
| "tx_step crc (ForceAbort x) (t, w) = (force_abort t x, w)"

definition tx_run :: "(byte list \<Rightarrow> nat) \<Rightarrow> tx_op list \<Rightarrow> TransactionManager \<Rightarrow> WalManager \<Rightarrow> TransactionManager" where
  "tx_run crc ops t w = fst (fold (tx_step crc) ops (t, w))"

text \<open>Every transaction that has begun is active or has ended, and a committed one is not active.\<close>

definition tm_inv :: "TransactionManager \<Rightarrow> bool" where
  "tm_inv t \<longleftrightarrow> 0 < tm_next_xid t \<and> finite (tm_committed t) \<and>
     (\<forall>x \<in> tm_committed t. 0 < x \<and> x < tm_next_xid t) \<and>
     (\<forall>x \<in> tm_active t. 0 < x \<and> x < tm_next_xid t \<and> x \<notin> tm_committed t) \<and>
     hm_wf (tm_read_sets t) \<and> hm_wf (tm_write_sets t)"

lemma forget_sel [simp]: "tm_next_xid (forget x t) = tm_next_xid t" "tm_committed (forget x t) = tm_committed t"
  "tm_aborted (forget x t) = tm_aborted t" "tm_active (forget x t) = tm_active t"
  "tm_read_sets (forget x t) = hm_remove x (tm_read_sets t)" "tm_write_sets (forget x t) = hm_remove x (tm_write_sets t)"
  by (simp_all add: forget_def)

lemma tm_new_inv: "tm_inv tm_new"
  by (simp add: tm_inv_def tm_new_def)

text \<open>What one step can do to the status of a transaction.\<close>

lemma tx_step_status:
  assumes "tx_step crc op (t, w) = (t', w')" "tm_next_xid t + 1 < 2 ^ 64"
  shows "tm_committed t \<subseteq> tm_committed t'" "tm_committed t' \<subseteq> tm_committed t \<union> tm_active t"
    "tm_active t' \<subseteq> insert (tm_next_xid t) (tm_active t)"
    "tm_next_xid t \<le> tm_next_xid t'" "tm_next_xid t' \<le> tm_next_xid t + 1"
  using assms
  by (cases op; auto simp: tx_begin_def record_read_def record_write_def tx_commit_def tx_abort_def force_abort_def
      Let_def split: if_splits)+

lemma tx_step_inv:
  assumes inv: "tm_inv t" and step: "tx_step crc op (t, w) = (t', w')" and n: "tm_next_xid t + 1 < 2 ^ 64"
  shows "tm_inv t'"
proof -
  have "hm_wf (tm_read_sets t') \<and> hm_wf (tm_write_sets t')"
    using inv step by (cases op) (simp_all add: tm_inv_def tx_begin_def record_read_def record_write_def add_key_def
        tx_commit_def tx_abort_def force_abort_def Let_def split: if_splits, auto)
  moreover have "finite (tm_committed t') \<and> 0 < tm_next_xid t' \<and>
      (\<forall>x \<in> tm_committed t'. 0 < x \<and> x < tm_next_xid t') \<and>
      (\<forall>x \<in> tm_active t'. 0 < x \<and> x < tm_next_xid t' \<and> x \<notin> tm_committed t')"
    using inv step n by (cases op) (auto simp: tm_inv_def tx_begin_def record_read_def record_write_def
        tx_commit_def tx_abort_def force_abort_def Let_def less_Suc_eq split: if_splits)
  ultimately show ?thesis by (simp add: tm_inv_def)
qed

section \<open>Snapshots\<close>

text \<open>The manager \<open>t\<close> has moved on from \<open>t0\<close>: transactions that had ended then have not changed.\<close>

definition later :: "TransactionManager \<Rightarrow> TransactionManager \<Rightarrow> bool" where
  "later t0 t \<longleftrightarrow> tm_next_xid t0 \<le> tm_next_xid t \<and>
     (\<forall>x < tm_next_xid t0. x \<in> tm_active t \<longrightarrow> x \<in> tm_active t0) \<and>
     (\<forall>x < tm_next_xid t0. x \<notin> tm_active t0 \<longrightarrow> (x \<in> tm_committed t \<longleftrightarrow> x \<in> tm_committed t0))"

lemma later_step:
  assumes "later t0 t" "tx_step crc op (t, w) = (t', w')" "tm_next_xid t + 1 < 2 ^ 64"
  shows "later t0 t'"
proof -
  note S = tx_step_status [OF assms(2,3)]
  show ?thesis
    unfolding later_def
  proof (intro conjI allI impI)
    show "tm_next_xid t0 \<le> tm_next_xid t'" using assms(1) S(4) by (simp add: later_def)
    fix x assume x: "x < tm_next_xid t0"
    then have ne: "x \<noteq> tm_next_xid t" using assms(1) by (simp add: later_def)
    show "x \<in> tm_active t'  \<Longrightarrow> x \<in> tm_active t0" using assms(1) S(3) x ne by (auto simp: later_def)
    show "x \<in> tm_committed t' \<longleftrightarrow> x \<in> tm_committed t0" if "x \<notin> tm_active t0"
      using assms(1) S(1,2) x that by (auto simp: later_def)
  qed
qed

lemma tx_run_later:
  assumes "later t0 t" "tm_next_xid t + length ops < 2 ^ 64"
  shows "later t0 (tx_run crc ops t w)"
  using assms
proof (induction ops arbitrary: t w)
  case Nil
  then show ?case by (simp add: tx_run_def)
next
  case (Cons op ops)
  obtain t' w' where st: "tx_step crc op (t, w) = (t', w')" by force
  have n: "tm_next_xid t + 1 < 2 ^ 64" using Cons.prems(2) by simp
  have "later t0 t'" "tm_next_xid t' + length ops < 2 ^ 64"
    using later_step [OF Cons.prems(1) st n] tx_step_status(5) [OF st n] Cons.prems(2) by simp_all
  from Cons.IH [OF this] st show ?case by (simp add: tx_run_def)
qed

lemma committed_before_snapshot:
  assumes inv: "tm_inv t0" and later: "later t0 t"
  shows "is_committed_before t x (tx_snapshot t0) \<longleftrightarrow> x \<in> tm_committed t0"
proof -
  have "x \<in> tm_committed t0 \<Longrightarrow> 0 < x \<and> x < tm_next_xid t0 \<and> x \<notin> tm_active t0"
    using inv by (auto simp: tm_inv_def)
  moreover have "x < snap_xmin (tx_snapshot t0) \<Longrightarrow> x < tm_next_xid t0"
  proof -
    assume "x < snap_xmin (tx_snapshot t0)"
    moreover have "tm_committed t0 \<noteq> {} \<Longrightarrow> Min (tm_committed t0) < tm_next_xid t0"
      using inv Min_in [of "tm_committed t0"] by (auto simp: tm_inv_def)
    ultimately show ?thesis by (auto simp: tx_snapshot_def Let_def split: if_splits)
  qed
  moreover have "x \<notin> tm_active t0 \<Longrightarrow> x < tm_next_xid t0 \<Longrightarrow> x \<in> tm_committed t \<longleftrightarrow> x \<in> tm_committed t0"
    using later by (simp add: later_def)
  ultimately show ?thesis
    by (auto simp: is_committed_before_def) (auto simp: tx_snapshot_def Let_def)
qed

section \<open>Conflicts\<close>

text \<open>Each of two transactions has read a tuple the other has written.\<close>

definition reads_what :: "TransactionManager \<Rightarrow> nat \<Rightarrow> nat \<Rightarrow> bool" where
  "reads_what t x y \<longleftrightarrow> (\<exists>r wr. hm_get (tm_read_sets t) x = Some r \<and> hm_get (tm_write_sets t) y = Some wr \<and> r \<inter> wr \<noteq> {})"

definition crossed :: "TransactionManager \<Rightarrow> nat \<Rightarrow> nat \<Rightarrow> bool" where
  "crossed t x y \<longleftrightarrow> x \<noteq> y \<and> x \<in> tm_active t \<and> y \<in> tm_active t \<and> reads_what t x y \<and> reads_what t y x"

definition settled :: "TransactionManager \<Rightarrow> nat \<Rightarrow> bool" where
  "settled t x \<longleftrightarrow> x \<notin> tm_active t \<and> x \<notin> tm_committed t \<and> x < tm_next_xid t"

lemma crossed_sym: "crossed t x y \<longleftrightarrow> crossed t y x"
  by (auto simp: crossed_def)

lemma crossed_conflict:
  assumes "crossed t x y"
  shows "check_ssi_conflict t x"
proof -
  obtain rx wy where r: "hm_get (tm_read_sets t) x = Some rx" "hm_get (tm_write_sets t) y = Some wy" "rx \<inter> wy \<noteq> {}"
    using assms by (auto simp: crossed_def reads_what_def)
  obtain ry wx where w: "hm_get (tm_read_sets t) y = Some ry" "hm_get (tm_write_sets t) x = Some wx" "ry \<inter> wx \<noteq> {}"
    using assms by (auto simp: crossed_def reads_what_def)
  have "(y, wy) \<in> set (tm_write_sets t)" "y \<noteq> x" using r(2) map_of_SomeD assms by (fastforce simp: crossed_def)+
  with r w show ?thesis
    by (auto simp: check_ssi_conflict_def list_ex_iff intro!: bexI [of _ "(y, wy)"])
qed

lemma settled_step:
  assumes "settled t x" "tx_step crc op (t, w) = (t', w')" "tm_next_xid t + 1 < 2 ^ 64"
  shows "settled t' x"
  using assms(1) tx_step_status [OF assms(2,3)] by (auto simp: settled_def)

lemma reads_what_add:
  assumes "reads_what t x y"
  shows "reads_what (record_read t z k) x y" "reads_what (record_write t z k) x y"
  using assms by (auto simp: reads_what_def record_read_def record_write_def add_key_def hm_insert_get)

lemma reads_what_forget: "reads_what t x y \<Longrightarrow> z \<noteq> x \<Longrightarrow> z \<noteq> y \<Longrightarrow> tm_read_sets t' = hm_remove z (tm_read_sets t) \<Longrightarrow>
    tm_write_sets t' = hm_remove z (tm_write_sets t) \<Longrightarrow> reads_what t' x y"
  by (auto simp: reads_what_def hm_remove_get)

lemma crossed_step:
  assumes inv: "tm_inv t" and c: "crossed t x y" and st: "tx_step crc op (t, w) = (t', w')"
    and n: "tm_next_xid t + 1 < 2 ^ 64"
  shows "crossed t' x y \<or> settled t' x \<or> settled t' y"
proof -
  have ended: "crossed t' x y \<or> settled t' x \<or> settled t' y"
    if e: "tm_active t' = tm_active t - {z}" "tm_read_sets t' = hm_remove z (tm_read_sets t)"
      "tm_write_sets t' = hm_remove z (tm_write_sets t)" "tm_next_xid t' = tm_next_xid t"
      and nc: "z = x \<or> z = y \<Longrightarrow> tm_committed t' = tm_committed t" for z
  proof (cases "z = x \<or> z = y")
    case True
    have "x \<notin> tm_committed t" "y \<notin> tm_committed t" "x < tm_next_xid t" "y < tm_next_xid t"
      using inv c by (auto simp: tm_inv_def crossed_def)
    then show ?thesis using True nc [OF True] e by (auto simp: settled_def)
  next
    case False
    then show ?thesis using c reads_what_forget [of t x y z t'] reads_what_forget [of t y x z t'] e
      by (auto simp: crossed_def)
  qed
  note conf = crossed_conflict [OF c] crossed_conflict [OF c [unfolded crossed_sym [of t x y]]]
  show ?thesis
  proof (cases op)
    case Begin
    then show ?thesis using st c by (auto simp: tx_begin_def crossed_def reads_what_def Let_def)
  next
    case (Read z k)
    then show ?thesis using st c reads_what_add(1) [of t _ _ z k] by (auto simp: crossed_def) (simp add: record_read_def)+
  next
    case (Wrote z k)
    then show ?thesis using st c reads_what_add(2) [of t _ _ z k] by (auto simp: crossed_def) (simp add: record_write_def)+
  next
    case (Commit z now)
    show ?thesis
    proof (cases "z \<in> tm_active t")
      case True
      show ?thesis
        by (rule ended [of z]) (use st Commit True conf in \<open>auto simp: tx_commit_def Let_def split: if_splits\<close>)
    qed (use st Commit c in \<open>simp add: tx_commit_def\<close>)
  next
    case (Abort z now)
    show ?thesis
    proof (cases "z \<in> tm_active t")
      case True
      show ?thesis by (rule ended [of z]) (use st Abort True in \<open>auto simp: tx_abort_def\<close>)
    qed (use st Abort c in \<open>simp add: tx_abort_def\<close>)
  next
    case (ForceAbort z)
    show ?thesis by (rule ended [of z]) (use st ForceAbort in \<open>auto simp: force_abort_def\<close>)
  qed
qed

lemma ssi_run:
  assumes "tm_inv t" "crossed t x y \<or> settled t x \<or> settled t y" "tm_next_xid t + length ops < 2 ^ 64"
  shows "let t' = tx_run crc ops t w in tm_inv t' \<and> (crossed t' x y \<or> settled t' x \<or> settled t' y)"
  using assms
proof (induction ops arbitrary: t w)
  case Nil
  then show ?case by (simp add: tx_run_def)
next
  case (Cons op ops)
  obtain t' w' where st: "tx_step crc op (t, w) = (t', w')" by force
  have n: "tm_next_xid t + 1 < 2 ^ 64" using Cons.prems(3) by simp
  have "tm_inv t'" "crossed t' x y \<or> settled t' x \<or> settled t' y" "tm_next_xid t' + length ops < 2 ^ 64"
    using tx_step_inv [OF Cons.prems(1) st n] crossed_step [OF Cons.prems(1) _ st n]
      settled_step [OF _ st n] tx_step_status(5) [OF st n] Cons.prems(2,3) by auto
  from Cons.IH [OF this, of w'] st show ?case by (simp add: tx_run_def)
qed

section \<open>Properties\<close>

text \<open>C2. Snapshot isolation: whatever transactions begin, commit or abort after a snapshot is taken, a tuple is
  visible to the snapshot exactly when the transaction that wrote it had committed when the snapshot
  was taken and none that deleted it had.\<close>

theorem snapshot_isolation:
  assumes "tm_inv t" "tm_next_xid t + length ops < 2 ^ 64"
  shows "is_visible (tx_run crc ops t w) h (tx_snapshot t) \<longleftrightarrow>
    is_committed t (th_xmin h) \<and> (th_xmax h = INVALID_XID \<or> \<not> is_committed t (th_xmax h))"
proof -
  have "later t (tx_run crc ops t w)" by (rule tx_run_later [OF _ assms(2)]) (simp add: later_def)
  then show ?thesis
    using committed_before_snapshot [OF assms(1)] by (auto simp: is_visible_def is_committed_def)
qed

theorem snapshot_isolation_witness:
  "let t = tx_run (\<lambda>_. 0) [Begin, Begin, Commit 1 5] tm_new wal_create;
       t' = tx_run (\<lambda>_. 0) [Commit 2 6, Begin] t wal_create
   in is_visible t' (header_new_insert 1 0) (tx_snapshot t) \<and> \<not> is_visible t' (header_new_insert 2 0) (tx_snapshot t)"
proof -
  let ?t = "tx_run (\<lambda>_. 0) [Begin, Begin, Commit 1 5] tm_new wal_create"
  have i: "tm_inv ?t"
    by (auto simp: tm_inv_def tx_run_def tm_new_def tx_begin_def tx_commit_def check_ssi_conflict_def Let_def)
  have n: "tm_next_xid ?t = 3" "is_committed ?t 1" "\<not> is_committed ?t 2"
    by (simp_all add: is_committed_def tx_run_def tm_new_def tx_begin_def tx_commit_def check_ssi_conflict_def Let_def)
  show ?thesis
    unfolding Let_def
    using snapshot_isolation [OF i, of "[Commit 2 6, Begin]" "\<lambda>_. 0" wal_create] n
    by (simp add: header_new_insert_def)
qed

text \<open>C8. Two active transactions that have each read what the other wrote never both commit, whatever
  happens afterwards: the first of them to ask for a commit is aborted.\<close>

theorem write_skew_prevented:
  assumes "tm_inv t" "x \<noteq> y" "x \<in> tm_active t" "y \<in> tm_active t" "reads_what t x y" "reads_what t y x"
    "tm_next_xid t + length ops < 2 ^ 64"
  shows "\<not> (is_committed (tx_run crc ops t w) x \<and> is_committed (tx_run crc ops t w) y) \<and>
    fst (tx_commit crc t x now w) = Inl Corruption"
proof -
  have c: "crossed t x y" using assms(2-6) by (simp add: crossed_def)
  let ?t = "tx_run crc ops t w"
  have "tm_inv ?t" "crossed ?t x y \<or> settled ?t x \<or> settled ?t y"
    using ssi_run [OF assms(1) _ assms(7), of x y crc w] c by (auto simp: Let_def)
  then have "\<not> (is_committed ?t x \<and> is_committed ?t y)"
    by (auto simp: crossed_def settled_def is_committed_def tm_inv_def)
  then show ?thesis using crossed_conflict [OF c] assms(3) by (simp add: tx_commit_def)
qed

definition ex_skew :: TransactionManager where
  "ex_skew = tx_run (\<lambda>_. 0) [Begin, Begin, Read 1 (7, 1, 0), Read 2 (7, 1, 1), Wrote 1 (7, 1, 1), Wrote 2 (7, 1, 0)]
     tm_new wal_create"

theorem write_skew_prevented_witness:
  "\<not> (is_committed (tx_run (\<lambda>_. 0) [Commit 1 5, Commit 2 6] ex_skew wal_create) 1 \<and>
      is_committed (tx_run (\<lambda>_. 0) [Commit 1 5, Commit 2 6] ex_skew wal_create) 2) \<and>
   fst (tx_commit (\<lambda>_. 0) ex_skew 1 5 wal_create) = Inl Corruption"
proof -
  have e: "ex_skew = \<lparr>tm_next_xid = 3, tm_committed = {}, tm_aborted = {}, tm_active = {1, 2},
      tm_read_sets = [(1, {(7, 1, 0)}), (2, {(7, 1, 1)})], tm_write_sets = [(1, {(7, 1, 1)}), (2, {(7, 1, 0)})]\<rparr>"
    by code_simp
  have "tm_inv ex_skew" "reads_what ex_skew 1 2" "reads_what ex_skew 2 1" "tm_next_xid ex_skew = 3"
    "1 \<in> tm_active ex_skew" "2 \<in> tm_active ex_skew"
    by (simp_all add: e tm_inv_def reads_what_def)
  then show ?thesis
    using write_skew_prevented [of ex_skew 1 2 "[Commit 1 5, Commit 2 6]" "\<lambda>_. 0" wal_create 5] by simp
qed

text \<open>A conflict that is completed only after the first commit goes unnoticed: the sets of a committed
  transaction are dropped although the other one is still running.\<close>

lemma late_conflict_missed:
  "let t = tx_run (\<lambda>_. 0) [Begin, Begin, Read 1 (7, 1, 0), Read 2 (7, 1, 1), Wrote 1 (7, 1, 1), Commit 1 5,
      Wrote 2 (7, 1, 0), Commit 2 6] tm_new wal_create
   in is_committed t 1 \<and> is_committed t 2"
  by (simp add: tx_run_def tm_new_def tx_begin_def record_read_def record_write_def add_key_def tx_commit_def
      check_ssi_conflict_def forget_def is_committed_def Let_def)

lemma header_roundtrip:
  assumes "th_xmin h < 2 ^ 64" "th_xmax h < 2 ^ 64" "th_cid h < 2 ^ 32" "th_infomask h < 2 ^ 16" "th_infomask2 h < 2 ^ 16"
  shows "header_decode (header_encode h @ rest) = Inr h" "length (header_encode h) = TUPLE_HEADER_SIZE"
  using assms by (simp_all add: header_decode_def header_encode_def slice_append_right)

end
