(* ===== verification/Lru_Replacer.thy ===== *)
theory Lru_Replacer
  imports Rust_Str
begin

text \<open>
  The eviction policy of \<^verbatim>\<open>crates/storage/src/replacer.rs\<close>. The specification keeps the
  frames in the order of their last access and the set of evictable frames; the maps of
  the implementation are shown to represent it. The locale \<open>eviction_policy\<close> is what the
  buffer pool relies on.
\<close>

record LruReplacer =
  lr_evictable :: "nat set"
  lr_access_order :: "(nat, nat) btmap"
  lr_frame_timestamp :: "(nat, nat) hmap"
  lr_clock :: nat

definition lru_new :: "nat \<Rightarrow> LruReplacer" where
  "lru_new capacity = \<lparr>lr_evictable = {}, lr_access_order = [], lr_frame_timestamp = [], lr_clock = 0\<rparr>"

definition record_access :: "LruReplacer \<Rightarrow> nat \<Rightarrow> LruReplacer" where
  "record_access r f =
     (let r1 = (case hm_get (lr_frame_timestamp r) f of
                  Some old_ts \<Rightarrow> r\<lparr>lr_access_order := bt_remove old_ts (lr_access_order r)\<rparr>
                | None \<Rightarrow> r);
          ts = u64_add (lr_clock r1) 1
      in r1\<lparr>lr_clock := ts,
            lr_access_order := bt_insert ts f (lr_access_order r1),
            lr_frame_timestamp := hm_insert f ts (lr_frame_timestamp r1)\<rparr>)"

definition set_evictable :: "LruReplacer \<Rightarrow> nat \<Rightarrow> bool \<Rightarrow> LruReplacer" where
  "set_evictable r f e =
     (if e then r\<lparr>lr_evictable := insert f (lr_evictable r)\<rparr>
      else r\<lparr>lr_evictable := lr_evictable r - {f}\<rparr>)"

definition evict :: "LruReplacer \<Rightarrow> nat option \<times> LruReplacer" where
  "evict r =
     (case find (\<lambda>(_, fid). fid \<in> lr_evictable r) (lr_access_order r) of
        None \<Rightarrow> (None, r)
      | Some (ts, f) \<Rightarrow>
          (Some f, r\<lparr>lr_access_order := bt_remove ts (lr_access_order r),
                     lr_frame_timestamp := hm_remove f (lr_frame_timestamp r),
                     lr_evictable := lr_evictable r - {f}\<rparr>))"

definition lru_remove :: "LruReplacer \<Rightarrow> nat \<Rightarrow> LruReplacer" where
  "lru_remove r f =
     (let r1 = (case hm_get (lr_frame_timestamp r) f of
                  Some ts \<Rightarrow> r\<lparr>lr_access_order := bt_remove ts (lr_access_order r)\<rparr>
                | None \<Rightarrow> r)
      in r1\<lparr>lr_frame_timestamp := hm_remove f (lr_frame_timestamp r1),
            lr_evictable := lr_evictable r1 - {f}\<rparr>)"

definition evictable_count :: "LruReplacer \<Rightarrow> nat" where
  "evictable_count r = card (lr_evictable r)"

lemma find_SomeD: "find P xs = Some x \<Longrightarrow> x \<in> set xs \<and> P x"
  by (metis find_Some_iff nth_mem)

section \<open>The invariant\<close>

definition lru_inv :: "LruReplacer \<Rightarrow> bool" where
  "lru_inv r \<longleftrightarrow> bt_wf (lr_access_order r) \<and>
     (\<forall>ts \<in> fst ` set (lr_access_order r). ts \<le> lr_clock r) \<and>
     (\<forall>ts f. (ts, f) \<in> set (lr_access_order r) \<longleftrightarrow> hm_get (lr_frame_timestamp r) f = Some ts) \<and>
     finite (lr_evictable r)"

definition lru_order :: "LruReplacer \<Rightarrow> nat list" where
  \<comment> \<open>the tracked frames, least recently accessed first\<close>
  "lru_order r = map snd (lr_access_order r)"

lemma lru_inv_new: "lru_inv (lru_new c)" "lru_order (lru_new c) = []"
  by (simp_all add: lru_inv_def lru_new_def lru_order_def)

lemma lru_invD:
  assumes "lru_inv r"
  shows "bt_wf (lr_access_order r)" "ts \<in> fst ` set (lr_access_order r) \<Longrightarrow> ts \<le> lr_clock r"
    "(ts, f) \<in> set (lr_access_order r) \<longleftrightarrow> hm_get (lr_frame_timestamp r) f = Some ts"
    "finite (lr_evictable r)"
  using assms by (auto simp: lru_inv_def)

lemma distinct_lru_order:
  assumes "lru_inv r"
  shows "distinct (lru_order r)"
proof -
  have "inj_on snd (set (lr_access_order r))"
    using lru_invD(3) [OF assms] by (force simp: inj_on_def)
  then show ?thesis
    using bt_wf_distinct [OF lru_invD(1) [OF assms]]
    by (simp add: lru_order_def distinct_map)
qed

lemma remove_by_timestamp:
  assumes "lru_inv r" "hm_get (lr_frame_timestamp r) f = Some ts"
  shows "map snd (bt_remove ts (lr_access_order r)) = removeAll f (lru_order r)"
    and "set (bt_remove ts (lr_access_order r)) = {x \<in> set (lr_access_order r). snd x \<noteq> f}"
proof -
  have key: "t = ts \<longleftrightarrow> g = f" if "(t, g) \<in> set (lr_access_order r)" for t g
  proof -
    have "(ts, f) \<in> set (lr_access_order r)" using assms lru_invD(3) [OF assms(1)] by simp
    then show ?thesis
      using that lru_invD(3) [OF assms(1)] bt_wf_distinct [OF lru_invD(1) [OF assms(1)]]
      by (metis eq_key_imp_eq_value option.inject)
  qed
  have f: "bt_remove ts (lr_access_order r) = filter (\<lambda>x. snd x \<noteq> f) (lr_access_order r)"
    unfolding bt_remove_def by (intro filter_cong refl) (use key in force)
  show "map snd (bt_remove ts (lr_access_order r)) = removeAll f (lru_order r)"
    unfolding f lru_order_def removeAll_filter_not_eq filter_map o_def by (simp add: eq_commute)
  show "set (bt_remove ts (lr_access_order r)) = {x \<in> set (lr_access_order r). snd x \<noteq> f}"
    by (auto simp: f)
qed

section \<open>The operations on the abstraction\<close>

lemma untracked:
  assumes "lru_inv r" "hm_get (lr_frame_timestamp r) f = None"
  shows "f \<notin> set (lru_order r)" "removeAll f (lru_order r) = lru_order r"
proof -
  show "f \<notin> set (lru_order r)"
    using assms(2) lru_invD(3) [OF assms(1)] by (force simp: lru_order_def)
  then show "removeAll f (lru_order r) = lru_order r" by simp
qed

lemma bt_wf_filter: "bt_wf m \<Longrightarrow> bt_wf (bt_remove ts m)"
  by simp

lemma fst_bt_remove: "fst ` set (bt_remove k m) \<subseteq> fst ` set m"
  by (auto simp: bt_remove_def)

text \<open>The access order without frame \<open>f\<close>, as both \<open>record_access\<close> and \<open>lru_remove\<close> compute it.\<close>

definition without :: "LruReplacer \<Rightarrow> nat \<Rightarrow> (nat, nat) btmap" where
  "without r f = (case hm_get (lr_frame_timestamp r) f of
     Some ts \<Rightarrow> bt_remove ts (lr_access_order r) | None \<Rightarrow> lr_access_order r)"

lemma without_props:
  assumes "lru_inv r"
  shows "bt_wf (without r f)" "ts \<in> fst ` set (without r f) \<Longrightarrow> ts \<le> lr_clock r"
    "map snd (without r f) = removeAll f (lru_order r)"
    "(ts, g) \<in> set (without r f) \<longleftrightarrow> g \<noteq> f \<and> hm_get (lr_frame_timestamp r) g = Some ts"
proof -
  show "bt_wf (without r f)"
    using lru_invD(1) [OF assms] by (simp add: without_def split: option.split)
  show "ts \<in> fst ` set (without r f) \<Longrightarrow> ts \<le> lr_clock r"
    using lru_invD(2) [OF assms, of ts] subsetD [OF fst_bt_remove, of ts _ "lr_access_order r"]
    by (cases "hm_get (lr_frame_timestamp r) f") (simp_all add: without_def)
  show "map snd (without r f) = removeAll f (lru_order r)"
  proof (cases "hm_get (lr_frame_timestamp r) f")
    case None
    with untracked [OF assms None] show ?thesis by (simp add: without_def lru_order_def)
  next
    case (Some t)
    with remove_by_timestamp(1) [OF assms Some] show ?thesis by (simp add: without_def)
  qed
  show "(ts, g) \<in> set (without r f) \<longleftrightarrow> g \<noteq> f \<and> hm_get (lr_frame_timestamp r) g = Some ts"
    using remove_by_timestamp(2) [OF assms] lru_invD(3) [OF assms]
    by (cases "hm_get (lr_frame_timestamp r) f") (auto simp: without_def)
qed

lemma record_access_ok:
  assumes inv: "lru_inv r" and c: "lr_clock r + 1 < 2 ^ 64"
  shows "lru_inv (record_access r f) \<and> lru_order (record_access r f) = removeAll f (lru_order r) @ [f] \<and>
    lr_evictable (record_access r f) = lr_evictable r \<and> lr_clock (record_access r f) = lr_clock r + 1"
proof -
  note W = without_props [OF inv, where f = f]
  have eq: "record_access r f = r\<lparr>lr_clock := lr_clock r + 1,
      lr_access_order := bt_insert (lr_clock r + 1) f (without r f),
      lr_frame_timestamp := hm_insert f (lr_clock r + 1) (lr_frame_timestamp r)\<rparr>"
    using c by (simp add: record_access_def without_def Let_def split: option.split)
  have ins: "bt_insert (lr_clock r + 1) f (without r f) = without r f @ [(lr_clock r + 1, f)]"
    using W(2) by (intro bt_insert_last) fastforce
  have wf: "bt_wf (without r f @ [(lr_clock r + 1, f)])"
    using bt_wf_insert [OF W(1), of "lr_clock r + 1" f] ins by simp
  have le: "\<forall>ts \<in> fst ` set (without r f @ [(lr_clock r + 1, f)]). ts \<le> lr_clock r + 1"
    using W(2) by fastforce
  have get: "(ts, g) \<in> set (without r f @ [(lr_clock r + 1, f)]) \<longleftrightarrow>
      hm_get (hm_insert f (lr_clock r + 1) (lr_frame_timestamp r)) g = Some ts" for ts g
    using W(4) [of ts g] by (auto simp: hm_insert_get)
  have "lru_inv (record_access r f)"
    using wf le get lru_invD(4) [OF inv] by (simp only: eq lru_inv_def ins) simp
  moreover have "lru_order (record_access r f) = removeAll f (lru_order r) @ [f]"
    unfolding eq lru_order_def using W(3) by (simp add: ins [simplified] lru_order_def)
  ultimately show ?thesis by (simp add: eq)
qed

lemma set_evictable_ok:
  "lru_inv r \<Longrightarrow> lru_inv (set_evictable r f e) \<and> lru_order (set_evictable r f e) = lru_order r \<and>
   lr_evictable (set_evictable r f e) = (if e then insert f (lr_evictable r) else lr_evictable r - {f}) \<and>
   lr_clock (set_evictable r f e) = lr_clock r"
  by (simp add: set_evictable_def lru_inv_def lru_order_def)

lemma lru_remove_ok:
  assumes inv: "lru_inv r"
  shows "lru_inv (lru_remove r f) \<and> lru_order (lru_remove r f) = removeAll f (lru_order r) \<and>
    lr_evictable (lru_remove r f) = lr_evictable r - {f} \<and> lr_clock (lru_remove r f) = lr_clock r"
proof -
  note W = without_props [OF inv, where f = f]
  have eq: "lru_remove r f = r\<lparr>lr_access_order := without r f,
      lr_frame_timestamp := hm_remove f (lr_frame_timestamp r), lr_evictable := lr_evictable r - {f}\<rparr>"
    by (simp add: lru_remove_def without_def Let_def split: option.split)
  show ?thesis
    unfolding eq lru_inv_def using W lru_invD(4) [OF inv]
    by (auto simp: hm_remove_get lru_order_def)
qed

lemma find_map: "find P (map f xs) = map_option f (find (P \<circ> f) xs)"
  by (induction xs) auto

lemma evict_ok:
  assumes inv: "lru_inv r"
  shows "fst (evict r) = find (\<lambda>f. f \<in> lr_evictable r) (lru_order r) \<and>
    snd (evict r) = (case fst (evict r) of None \<Rightarrow> r | Some f \<Rightarrow> lru_remove r f)"
proof (cases "find (\<lambda>(_, fid). fid \<in> lr_evictable r) (lr_access_order r)")
  case None
  then show ?thesis
    by (simp add: evict_def lru_order_def find_map o_def case_prod_unfold)
next
  case (Some p)
  obtain ts f where p: "p = (ts, f)" by force
  then have "(ts, f) \<in> set (lr_access_order r)"
    using find_SomeD [OF Some] by simp
  then have "hm_get (lr_frame_timestamp r) f = Some ts"
    using lru_invD(3) [OF inv] by simp
  then show ?thesis
    using Some by (simp add: evict_def lru_remove_def Let_def p lru_order_def find_map o_def case_prod_unfold)
qed

section \<open>What the buffer pool relies on\<close>

text \<open>
  \<open>cand\<close> is the set of frames that can be evicted. An eviction returns a candidate
  whenever there is one.
\<close>

locale eviction_policy =
  fixes inv :: "'r \<Rightarrow> bool" and cand :: "'r \<Rightarrow> nat set" and tracked :: "'r \<Rightarrow> nat set"
    and access :: "'r \<Rightarrow> nat \<Rightarrow> 'r" and mark :: "'r \<Rightarrow> nat \<Rightarrow> bool \<Rightarrow> 'r"
    and pick :: "'r \<Rightarrow> nat option \<times> 'r" and forget :: "'r \<Rightarrow> nat \<Rightarrow> 'r" and room :: "'r \<Rightarrow> nat"
  assumes access_ok: "inv r \<Longrightarrow> 0 < room r \<Longrightarrow> inv (access r f) \<and> cand (access r f) = cand r \<and>
      tracked (access r f) = insert f (tracked r) \<and> room r = Suc (room (access r f))"
    and mark_ok: "inv r \<Longrightarrow> inv (mark r f e) \<and>
      cand (mark r f e) = (if e then insert f (cand r) else cand r - {f}) \<and>
      tracked (mark r f e) = tracked r \<and> room (mark r f e) = room r"
    and forget_ok: "inv r \<Longrightarrow> inv (forget r f) \<and> cand (forget r f) = cand r - {f} \<and>
      tracked (forget r f) = tracked r - {f} \<and> room (forget r f) = room r"
    and pick_Some: "inv r \<Longrightarrow> pick r = (Some f, r') \<Longrightarrow> f \<in> cand r \<inter> tracked r \<and> r' = forget r f"
    and pick_None: "inv r \<Longrightarrow> pick r = (None, r') \<Longrightarrow> cand r \<inter> tracked r = {} \<and> r' = r"

interpretation lru: eviction_policy lru_inv lr_evictable "\<lambda>r. set (lru_order r)"
  record_access set_evictable evict lru_remove "\<lambda>r. 2 ^ 64 - 1 - lr_clock r"
proof
  fix r f r' e
  assume inv: "lru_inv r"
  show "0 < 2 ^ 64 - 1 - lr_clock r \<Longrightarrow> lru_inv (record_access r f) \<and>
      lr_evictable (record_access r f) = lr_evictable r \<and>
      set (lru_order (record_access r f)) = insert f (set (lru_order r)) \<and>
      2 ^ 64 - 1 - lr_clock r = Suc (2 ^ 64 - 1 - lr_clock (record_access r f))"
    using record_access_ok [OF inv, of f] by auto
  show "lru_inv (set_evictable r f e) \<and>
      lr_evictable (set_evictable r f e) = (if e then insert f (lr_evictable r) else lr_evictable r - {f}) \<and>
      set (lru_order (set_evictable r f e)) = set (lru_order r) \<and>
      2 ^ 64 - 1 - lr_clock (set_evictable r f e) = 2 ^ 64 - 1 - lr_clock r"
    using set_evictable_ok [OF inv, of f e] by simp
  show "lru_inv (lru_remove r f) \<and> lr_evictable (lru_remove r f) = lr_evictable r - {f} \<and>
      set (lru_order (lru_remove r f)) = set (lru_order r) - {f} \<and>
      2 ^ 64 - 1 - lr_clock (lru_remove r f) = 2 ^ 64 - 1 - lr_clock r"
    using lru_remove_ok [OF inv, of f] by simp
  show "evict r = (Some f, r') \<Longrightarrow> f \<in> lr_evictable r \<inter> set (lru_order r) \<and> r' = lru_remove r f"
    using evict_ok [OF inv] find_SomeD [of "\<lambda>f. f \<in> lr_evictable r" "lru_order r" f] by simp
  show "evict r = (None, r') \<Longrightarrow> lr_evictable r \<inter> set (lru_order r) = {} \<and> r' = r"
    using evict_ok [OF inv] find_None_iff [of "\<lambda>f. f \<in> lr_evictable r" "lru_order r"] by auto
qed

section \<open>Least recently used\<close>

datatype lru_op = Access nat | Mark nat bool | Evict | Remove nat

fun lru_step :: "lru_op \<Rightarrow> LruReplacer \<Rightarrow> LruReplacer" where
  "lru_step (Access f) r = record_access r f"
| "lru_step (Mark f e) r = set_evictable r f e"
| "lru_step Evict r = snd (evict r)"
| "lru_step (Remove f) r = lru_remove r f"

fun lru_spec :: "lru_op \<Rightarrow> nat list \<times> nat set \<Rightarrow> nat list \<times> nat set" where
  "lru_spec (Access f) (fs, e) = (removeAll f fs @ [f], e)"
| "lru_spec (Mark f b) (fs, e) = (fs, if b then insert f e else e - {f})"
| "lru_spec Evict (fs, e) =
     (case find (\<lambda>f. f \<in> e) fs of None \<Rightarrow> (fs, e) | Some f \<Rightarrow> (removeAll f fs, e - {f}))"
| "lru_spec (Remove f) (fs, e) = (removeAll f fs, e - {f})"

lemma lru_step_refines:
  assumes "lru_inv r" "lr_clock r + 1 < 2 ^ 64"
  shows "lru_inv (lru_step op r) \<and>
    (lru_order (lru_step op r), lr_evictable (lru_step op r)) = lru_spec op (lru_order r, lr_evictable r) \<and>
    lr_clock (lru_step op r) \<le> lr_clock r + 1"
proof (cases op)
  case (Access f)
  with record_access_ok [OF assms, of f] show ?thesis by simp
next
  case (Mark f e)
  with set_evictable_ok [OF assms(1), of f e] show ?thesis by simp
next
  case Evict
  show ?thesis
  proof (cases "find (\<lambda>f. f \<in> lr_evictable r) (lru_order r)")
    case None
    with Evict evict_ok [OF assms(1)] assms(1) show ?thesis by simp
  next
    case (Some f)
    with Evict evict_ok [OF assms(1)] lru_remove_ok [OF assms(1), of f] show ?thesis by simp
  qed
next
  case (Remove f)
  with lru_remove_ok [OF assms(1), of f] show ?thesis by simp
qed

text \<open>The replacer is least-recently-used: after any sequence of calls (fewer than \<open>2 ^ 64\<close>
  accesses) its frames, oldest timestamp first, are the frames in the order of their last
  access, and \<^verbatim>\<open>evict\<close> returns the least recently accessed evictable frame, or \<open>None\<close> when
  no accessed frame is evictable.\<close>

lemma lru_refines_access_order:
  assumes "length ops < 2 ^ 64 - 1"
    and "fold lru_spec ops ([], {}) = (fs, e)"
  shows "lru_inv (fold lru_step ops (lru_new c)) \<and> lru_order (fold lru_step ops (lru_new c)) = fs \<and>
    lr_evictable (fold lru_step ops (lru_new c)) = e \<and>
    fst (evict (fold lru_step ops (lru_new c))) = find (\<lambda>f. f \<in> e) fs"
proof -
  have gen: "lru_inv (fold lru_step ops r) \<and>
      (lru_order (fold lru_step ops r), lr_evictable (fold lru_step ops r)) =
        fold lru_spec ops (lru_order r, lr_evictable r)"
    if "lru_inv r" "lr_clock r + length ops < 2 ^ 64 - 1" for r
    using that
  proof (induction ops arbitrary: r)
    case Nil
    then show ?case by simp
  next
    case (Cons op ops)
    have "lr_clock r + 1 < 2 ^ 64" using Cons.prems by simp
    note step = lru_step_refines [OF Cons.prems(1) this, of op]
    with Cons.prems(2) have "lr_clock (lru_step op r) + length ops < 2 ^ 64 - 1" by simp
    with Cons.IH [of "lru_step op r"] step show ?case by simp
  qed
  have "lru_inv (lru_new c)" "lr_clock (lru_new c) = 0" "lru_order (lru_new c) = []"
    "lr_evictable (lru_new c) = {}"
    using lru_inv_new [of c] by (simp_all add: lru_new_def)
  then show ?thesis
    using gen [of "lru_new c"] assms evict_ok [of "fold lru_step ops (lru_new c)"] by simp
qed

end
