(* ===== verification/Buffer_Pool.thy ===== *)
theory Buffer_Pool
  imports Disk Lru_Replacer
begin

text \<open>
  The buffer pool of \<^verbatim>\<open>crates/storage/src/buffer_pool.rs\<close>, on top of the disk manager and
  the replacer. Every operation returns its result beside the pool, because a failed call
  can have changed it. \<open>pool_content\<close> is the page a client sees under a page id, in the
  pool or on disk; the pool refines the map of these contents: fetching, unpinning,
  eviction and flushing do not change it.
\<close>

record Frame =
  fr_page :: page
  fr_page_id :: "nat option"
  fr_pin_count :: nat
  fr_is_dirty :: bool

record BufferPool =
  bp_frames :: "Frame list"
  bp_page_table :: "(nat, nat) hmap"
  bp_free_list :: "nat list"
  bp_replacer :: LruReplacer
  bp_disk :: DiskManager

definition frame_empty :: "nat \<Rightarrow> Frame" where
  "frame_empty f = \<lparr>fr_page = page_new f, fr_page_id = None, fr_pin_count = 0, fr_is_dirty = False\<rparr>"

definition pool_new :: "nat \<Rightarrow> DiskManager \<Rightarrow> BufferPool" where
  "pool_new pool_size disk =
     \<lparr>bp_frames = map frame_empty [0 ..< pool_size], bp_page_table = [],
      bp_free_list = [0 ..< pool_size], bp_replacer = lru_new pool_size, bp_disk = disk\<rparr>"

definition set_frame :: "nat \<Rightarrow> (Frame \<Rightarrow> Frame) \<Rightarrow> BufferPool \<Rightarrow> BufferPool" where
  "set_frame f g p = p\<lparr>bp_frames := (bp_frames p)[f := g (bp_frames p ! f)]\<rparr>"

definition find_free_frame :: "BufferPool \<Rightarrow> (StorageError + nat) \<times> BufferPool" where
  "find_free_frame p =
     (case bp_free_list p of
        f # fs \<Rightarrow> (Inr f, p\<lparr>bp_free_list := fs\<rparr>)
      | [] \<Rightarrow>
          (case evict (bp_replacer p) of
             (None, r) \<Rightarrow> (Inl BufferFull, p\<lparr>bp_replacer := r\<rparr>)
           | (Some f, r) \<Rightarrow>
               let p1 = p\<lparr>bp_replacer := r\<rparr>;
                   fr = bp_frames p1 ! f
               in if fr_is_dirty fr \<and> fr_page_id fr = None then (Inl Panic, p1)
                  else
                    let p2 = (if fr_is_dirty fr
                              then set_frame f (\<lambda>x. x\<lparr>fr_is_dirty := False\<rparr>)
                                     (p1\<lparr>bp_disk := disk_write_page (bp_disk p1) (the (fr_page_id fr)) (fr_page fr)\<rparr>)
                              else p1);
                        p3 = (case fr_page_id (bp_frames p2 ! f) of
                                Some evicted \<Rightarrow> p2\<lparr>bp_page_table := hm_remove evicted (bp_page_table p2)\<rparr>
                              | None \<Rightarrow> p2)
                    in (Inr f, set_frame f (\<lambda>x. x\<lparr>fr_page_id := None\<rparr>) p3)))"

definition fetch_page :: "BufferPool \<Rightarrow> nat \<Rightarrow> (StorageError + nat) \<times> BufferPool" where
  "fetch_page p pid =
     (case hm_get (bp_page_table p) pid of
        Some f \<Rightarrow>
          let p1 = set_frame f (\<lambda>x. x\<lparr>fr_pin_count := (fr_pin_count x + 1) mod 2 ^ 32\<rparr>) p
          in (Inr f, p1\<lparr>bp_replacer := record_access (set_evictable (bp_replacer p1) f False) f\<rparr>)
      | None \<Rightarrow>
          (case find_free_frame p of
             (Inl e, p1) \<Rightarrow> (Inl e, p1)
           | (Inr f, p1) \<Rightarrow>
               (case disk_read_page (bp_disk p1) pid of
                  Inl e \<Rightarrow> (Inl e, p1)
                | Inr buf \<Rightarrow>
                    let p2 = set_frame f (\<lambda>x. x\<lparr>fr_page := buf, fr_page_id := Some pid,
                                               fr_pin_count := 1, fr_is_dirty := False\<rparr>) p1
                    in (Inr f, p2\<lparr>bp_page_table := hm_insert pid f (bp_page_table p2),
                                  bp_replacer := set_evictable (record_access (bp_replacer p2) f) f False\<rparr>))))"

definition new_page :: "BufferPool \<Rightarrow> (StorageError + nat \<times> nat) \<times> BufferPool" where
  "new_page p =
     (case find_free_frame p of
        (Inl e, p1) \<Rightarrow> (Inl e, p1)
      | (Inr f, p1) \<Rightarrow>
          let (pid, disk) = allocate_page (bp_disk p1);
              p2 = set_frame f (\<lambda>x. x\<lparr>fr_page := page_new pid, fr_page_id := Some pid,
                                         fr_pin_count := 1, fr_is_dirty := True\<rparr>) (p1\<lparr>bp_disk := disk\<rparr>)
          in (Inr (pid, f), p2\<lparr>bp_page_table := hm_insert pid f (bp_page_table p2),
                                bp_replacer := set_evictable (record_access (bp_replacer p2) f) f False\<rparr>))"

definition pool_page :: "BufferPool \<Rightarrow> nat \<Rightarrow> page" where
  "pool_page p f = fr_page (bp_frames p ! f)"

definition page_mut :: "nat \<Rightarrow> (page \<Rightarrow> page) \<Rightarrow> BufferPool \<Rightarrow> BufferPool" where
  \<comment> \<open>the caller's use of the mutable reference is the function \<open>g\<close>\<close>
  "page_mut f g p = set_frame f (\<lambda>x. x\<lparr>fr_page := g (fr_page x)\<rparr>) p"

definition unpin_page :: "BufferPool \<Rightarrow> nat \<Rightarrow> bool \<Rightarrow> (StorageError + unit) \<times> BufferPool" where
  "unpin_page p pid is_dirty =
     (case hm_get (bp_page_table p) pid of
        None \<Rightarrow> (Inl (PageNotFound pid), p)
      | Some f \<Rightarrow>
          if fr_pin_count (bp_frames p ! f) = 0 then (Inl (PageNotPinned pid), p)
          else
            let p1 = set_frame f (\<lambda>x. x\<lparr>fr_pin_count := fr_pin_count x - 1\<rparr>) p;
                p2 = (if is_dirty then set_frame f (\<lambda>x. x\<lparr>fr_is_dirty := True\<rparr>) p1 else p1)
            in (Inr (),
                if fr_pin_count (bp_frames p2 ! f) = 0
                then p2\<lparr>bp_replacer := set_evictable (bp_replacer p2) f True\<rparr> else p2))"

definition flush_page :: "BufferPool \<Rightarrow> nat \<Rightarrow> (StorageError + unit) \<times> BufferPool" where
  "flush_page p pid =
     (case hm_get (bp_page_table p) pid of
        None \<Rightarrow> (Inl (PageNotFound pid), p)
      | Some f \<Rightarrow>
          if fr_is_dirty (bp_frames p ! f)
          then (Inr (), set_frame f (\<lambda>x. x\<lparr>fr_is_dirty := False\<rparr>)
                  (p\<lparr>bp_disk := disk_write_page (bp_disk p) pid (fr_page (bp_frames p ! f))\<rparr>))
          else (Inr (), p))"

fun flush_pages :: "nat list \<Rightarrow> BufferPool \<Rightarrow> (StorageError + unit) \<times> BufferPool" where
  "flush_pages [] p = (Inr (), p)"
| "flush_pages (pid # pids) p =
     (case flush_page p pid of
        (Inl e, p1) \<Rightarrow> (Inl e, p1)
      | (Inr _, p1) \<Rightarrow> flush_pages pids p1)"

definition dirty_pages :: "BufferPool \<Rightarrow> nat list" where
  "dirty_pages p = List.map_filter (\<lambda>f. if fr_is_dirty f then fr_page_id f else None) (bp_frames p)"

definition flush_all :: "BufferPool \<Rightarrow> (StorageError + unit) \<times> BufferPool" where
  "flush_all p = flush_pages (dirty_pages p) p"

definition delete_page :: "BufferPool \<Rightarrow> nat \<Rightarrow> (StorageError + unit) \<times> BufferPool" where
  "delete_page p pid =
     (case hm_get (bp_page_table p) pid of
        None \<Rightarrow> (Inr (), p)
      | Some f \<Rightarrow>
          if fr_pin_count (bp_frames p ! f) > 0 then (Inl Corruption, p)
          else
            let p1 = p\<lparr>bp_page_table := hm_remove pid (bp_page_table p),
                       bp_replacer := lru_remove (bp_replacer p) f\<rparr>;
                p2 = set_frame f (\<lambda>x. x\<lparr>fr_page_id := None, fr_is_dirty := False, fr_pin_count := 0\<rparr>) p1
            in (Inr (), p2\<lparr>bp_free_list := bp_free_list p2 @ [f]\<rparr>))"

definition pool_size :: "BufferPool \<Rightarrow> nat" where
  "pool_size p = length (bp_frames p)"

definition free_frames :: "BufferPool \<Rightarrow> nat" where
  "free_frames p = length (bp_free_list p)"

definition contains_page :: "BufferPool \<Rightarrow> nat \<Rightarrow> bool" where
  "contains_page p pid \<longleftrightarrow> hm_get (bp_page_table p) pid \<noteq> None"

section \<open>The invariant\<close>

definition holds_page :: "BufferPool \<Rightarrow> nat \<Rightarrow> nat \<Rightarrow> bool" where
  "holds_page p f pid \<longleftrightarrow> f < length (bp_frames p) \<and> fr_page_id (bp_frames p ! f) = Some pid"

definition used_frames :: "BufferPool \<Rightarrow> nat set" where
  "used_frames p = {f. \<exists>pid. holds_page p f pid}"

definition pool_inv :: "BufferPool \<Rightarrow> bool" where
  "pool_inv p \<longleftrightarrow>
     (\<forall>pid f. hm_get (bp_page_table p) pid = Some f \<longleftrightarrow> holds_page p f pid) \<and>
     distinct (bp_free_list p) \<and>
     (\<forall>f \<in> set (bp_free_list p). f < length (bp_frames p) \<and> fr_page_id (bp_frames p ! f) = None) \<and>
     lru_inv (bp_replacer p) \<and> set (lru_order (bp_replacer p)) = used_frames p \<and>
     lr_evictable (bp_replacer p) = {f \<in> used_frames p. fr_pin_count (bp_frames p ! f) = 0} \<and>
     disk_inv (bp_disk p) \<and>
     (\<forall>f pid. holds_page p f pid \<longrightarrow>
        0 < pid \<and> pid < dm_next_page_id (bp_disk p) \<and> length (fr_page (bp_frames p ! f)) = PAGE_SIZE \<and>
        (fr_pin_count (bp_frames p ! f) = 0 \<and> \<not> fr_is_dirty (bp_frames p ! f) \<longrightarrow>
           disk_page (bp_disk p) pid = Some (fr_page (bp_frames p ! f))))"

definition pool_content :: "BufferPool \<Rightarrow> nat \<Rightarrow> page option" where
  "pool_content p pid =
     (case hm_get (bp_page_table p) pid of
        Some f \<Rightarrow> Some (fr_page (bp_frames p ! f))
      | None \<Rightarrow> disk_page (bp_disk p) pid)"

lemma pool_invD:
  assumes "pool_inv p"
  shows inv_table: "hm_get (bp_page_table p) pid = Some f \<longleftrightarrow> holds_page p f pid"
    and inv_free_distinct: "distinct (bp_free_list p)"
    and inv_free: "f \<in> set (bp_free_list p) \<Longrightarrow> f < length (bp_frames p) \<and> fr_page_id (bp_frames p ! f) = None"
    and inv_lru: "lru_inv (bp_replacer p)"
    and inv_tracked: "set (lru_order (bp_replacer p)) = used_frames p"
    and inv_evictable: "lr_evictable (bp_replacer p) = {f \<in> used_frames p. fr_pin_count (bp_frames p ! f) = 0}"
    and inv_disk: "disk_inv (bp_disk p)"
    and inv_pid: "holds_page p f pid \<Longrightarrow> 0 < pid \<and> pid < dm_next_page_id (bp_disk p) \<and>
      length (fr_page (bp_frames p ! f)) = PAGE_SIZE"
    and inv_clean: "holds_page p f pid \<Longrightarrow> fr_pin_count (bp_frames p ! f) = 0 \<Longrightarrow>
      \<not> fr_is_dirty (bp_frames p ! f) \<Longrightarrow> disk_page (bp_disk p) pid = Some (fr_page (bp_frames p ! f))"
  using assms unfolding pool_inv_def by blast+

lemma holds_page_unique:
  "pool_inv p \<Longrightarrow> holds_page p f pid \<Longrightarrow> holds_page p g pid \<Longrightarrow> f = g"
  using inv_table [of p pid] by (metis option.inject)

lemma pool_new_inv: "disk_inv d \<Longrightarrow> pool_inv (pool_new n d) \<and> pool_content (pool_new n d) = disk_page d"
  using lru_inv_new [of n]
  by (auto simp: pool_inv_def pool_new_def holds_page_def used_frames_def frame_empty_def
      pool_content_def fun_eq_iff lru_new_def)

section \<open>Finding a frame\<close>

text \<open>The pool after the eviction of frame \<open>f\<close>, whose page is written back if dirty.\<close>

definition evicted :: "BufferPool \<Rightarrow> nat \<Rightarrow> nat \<Rightarrow> BufferPool" where
  "evicted p f pid = p\<lparr>bp_replacer := lru_remove (bp_replacer p) f,
     bp_disk := (if fr_is_dirty (bp_frames p ! f)
                 then disk_write_page (bp_disk p) pid (fr_page (bp_frames p ! f)) else bp_disk p),
     bp_frames := (bp_frames p)[f := (bp_frames p ! f)\<lparr>fr_is_dirty := False, fr_page_id := None\<rparr>],
     bp_page_table := hm_remove pid (bp_page_table p)\<rparr>"

lemma frame_clean: "\<not> fr_is_dirty fr \<Longrightarrow> fr\<lparr>fr_is_dirty := False\<rparr> = fr"
  by (cases fr) simp

lemma find_free_frame_cases:
  assumes inv: "pool_inv p"
  obtains (free) f fs where "bp_free_list p = f # fs" "find_free_frame p = (Inr f, p\<lparr>bp_free_list := fs\<rparr>)"
  | (full) "bp_free_list p = []" "find_free_frame p = (Inl BufferFull, p)"
      "\<And>f pid. holds_page p f pid \<Longrightarrow> fr_pin_count (bp_frames p ! f) \<noteq> 0"
  | (evict) f pid where "bp_free_list p = []" "holds_page p f pid" "fr_pin_count (bp_frames p ! f) = 0"
      "find_free_frame p = (Inr f, evicted p f pid)"
proof (cases "bp_free_list p")
  case (Cons f fs)
  then show ?thesis by (intro free) (simp_all add: find_free_frame_def)
next
  case Nil
  obtain fo r where ev: "evict (bp_replacer p) = (fo, r)" by force
  show ?thesis
  proof (cases fo)
    case None
    then have "lr_evictable (bp_replacer p) \<inter> set (lru_order (bp_replacer p)) = {}" "r = bp_replacer p"
      using lru.pick_None [OF inv_lru [OF inv]] ev by auto
    then show ?thesis
      using Nil ev None inv_evictable [OF inv] inv_tracked [OF inv]
      by (intro full) (auto simp: find_free_frame_def used_frames_def)
  next
    case (Some f)
    then have f: "f \<in> lr_evictable (bp_replacer p)" "r = lru_remove (bp_replacer p) f"
      using lru.pick_Some [OF inv_lru [OF inv]] ev by auto
    then obtain pid where pid: "holds_page p f pid" "fr_pin_count (bp_frames p ! f) = 0"
      using inv_evictable [OF inv] by (auto simp: used_frames_def)
    have "find_free_frame p = (Inr f, evicted p f pid)"
      using Nil ev Some f pid
      by (cases "fr_is_dirty (bp_frames p ! f)")
         (simp_all add: find_free_frame_def evicted_def set_frame_def Let_def holds_page_def frame_clean)
    with Nil pid show ?thesis by (intro evict)
  qed
qed

lemma evicted_ok:
  assumes inv: "pool_inv p" and h: "holds_page p f pid" and pin: "fr_pin_count (bp_frames p ! f) = 0"
  shows "pool_inv (evicted p f pid)" "pool_content (evicted p f pid) = pool_content p"
    "dm_next_page_id (bp_disk (evicted p f pid)) = dm_next_page_id (bp_disk p)"
    "holds_page (evicted p f pid) g pid' \<longleftrightarrow> g \<noteq> f \<and> holds_page p g pid'"
    "f < length (bp_frames (evicted p f pid))" "fr_page_id (bp_frames (evicted p f pid) ! f) = None"
proof -
  let ?q = "evicted p f pid" and ?fr = "bp_frames p ! f"
  have f: "f < length (bp_frames p)" "fr_page_id ?fr = Some pid"
    using h by (simp_all add: holds_page_def)
  note P = inv_pid [OF inv h]
  have D: "disk_inv (bp_disk ?q)" "disk_page (bp_disk ?q) = (disk_page (bp_disk p))(pid \<mapsto> fr_page ?fr)"
    "dm_next_page_id (bp_disk ?q) = dm_next_page_id (bp_disk p)"
    using disk.wr_ok [OF inv_disk [OF inv], of pid "fr_page ?fr"] P inv_disk [OF inv] inv_clean [OF inv h pin]
    by (auto simp: evicted_def)
  have holds: "holds_page ?q g pid' \<longleftrightarrow> g \<noteq> f \<and> holds_page p g pid'" for g pid'
    using f by (auto simp: holds_page_def evicted_def nth_list_update)
  have other: "pid' \<noteq> pid" if "g \<noteq> f" "holds_page p g pid'" for g pid'
    using that holds_page_unique [OF inv h] by blast
  have frames: "bp_frames ?q ! g = bp_frames p ! g" if "g \<noteq> f" for g
    using that by (simp add: evicted_def)
  have table: "hm_get (bp_page_table ?q) pid' = Some g \<longleftrightarrow> holds_page ?q g pid'" for pid' g
    using inv_table [OF inv, of pid' g] holds other [of g pid'] f
    by (auto simp: evicted_def hm_remove_get holds_page_def)
  have used: "used_frames ?q = used_frames p - {f}"
    using holds by (auto simp: used_frames_def)
  note R = lru_remove_ok [OF inv_lru [OF inv], of f]
  show "pool_inv ?q"
    unfolding pool_inv_def
  proof (intro conjI allI impI ballI)
    show "hm_get (bp_page_table ?q) pid' = Some g \<longleftrightarrow> holds_page ?q g pid'" for pid' g by (rule table)
    show "distinct (bp_free_list ?q)" using inv_free_distinct [OF inv] by (simp add: evicted_def)
    show "g < length (bp_frames ?q)" "fr_page_id (bp_frames ?q ! g) = None"
      if "g \<in> set (bp_free_list ?q)" for g
      using that inv_free [OF inv, of g] f by (auto simp: evicted_def nth_list_update)
    show "lru_inv (bp_replacer ?q)" using R by (simp add: evicted_def)
    show "set (lru_order (bp_replacer ?q)) = used_frames ?q"
      using R inv_tracked [OF inv] used by (simp add: evicted_def)
    show "lr_evictable (bp_replacer ?q) = {g \<in> used_frames ?q. fr_pin_count (bp_frames ?q ! g) = 0}"
    proof -
      have "lr_evictable (bp_replacer ?q) = lr_evictable (bp_replacer p) - {f}"
        using R by (simp add: evicted_def)
      then show ?thesis unfolding used inv_evictable [OF inv] using frames by auto
    qed
    show "disk_inv (bp_disk ?q)" by (rule D)
  next
    fix g pid' assume "holds_page ?q g pid'"
    then have g: "g \<noteq> f" "holds_page p g pid'" using holds by auto
    with inv_pid [OF inv g(2)] inv_clean [OF inv g(2)] other [OF g] frames [OF g(1)] D
    show "0 < pid'" "pid' < dm_next_page_id (bp_disk ?q)" "length (fr_page (bp_frames ?q ! g)) = PAGE_SIZE"
      "fr_pin_count (bp_frames ?q ! g) = 0 \<and> \<not> fr_is_dirty (bp_frames ?q ! g) \<Longrightarrow>
        disk_page (bp_disk ?q) pid' = Some (fr_page (bp_frames ?q ! g))"
      by auto
  qed
  show "pool_content ?q = pool_content p"
  proof
    fix pid'
    show "pool_content ?q pid' = pool_content p pid'"
    proof (cases "hm_get (bp_page_table ?q) pid'")
      case None
      then have "hm_get (bp_page_table p) pid' = None \<or> pid' = pid"
        by (auto simp: evicted_def hm_remove_get split: if_splits)
      then show ?thesis
        using None D(2) inv_table [OF inv, of pid f] h by (auto simp: pool_content_def)
    next
      case (Some g)
      then have "g \<noteq> f" "hm_get (bp_page_table p) pid' = Some g"
        using table holds inv_table [OF inv] by auto
      then show ?thesis using Some frames by (simp add: pool_content_def)
    qed
  qed
  show "dm_next_page_id (bp_disk ?q) = dm_next_page_id (bp_disk p)" by (rule D)
  show "holds_page ?q g pid' \<longleftrightarrow> g \<noteq> f \<and> holds_page p g pid'" by (rule holds)
  show "f < length (bp_frames ?q)" "fr_page_id (bp_frames ?q ! f) = None"
    using f by (simp_all add: evicted_def)
qed

section \<open>Loading a page into a frame\<close>

definition installed :: "BufferPool \<Rightarrow> DiskManager \<Rightarrow> nat \<Rightarrow> nat \<Rightarrow> page \<Rightarrow> bool \<Rightarrow> BufferPool" where
  "installed q disk f pid pg dirty = q\<lparr>bp_disk := disk,
     bp_frames := (bp_frames q)[f := \<lparr>fr_page = pg, fr_page_id = Some pid, fr_pin_count = 1, fr_is_dirty = dirty\<rparr>],
     bp_page_table := hm_insert pid f (bp_page_table q),
     bp_replacer := set_evictable (record_access (bp_replacer q) f) f False\<rparr>"

lemma frame_eq: "fr\<lparr>fr_page := a, fr_page_id := b, fr_pin_count := c, fr_is_dirty := d\<rparr> =
    \<lparr>fr_page = a, fr_page_id = b, fr_pin_count = c, fr_is_dirty = d\<rparr>"
  by (cases fr) simp

lemma installed_ok:
  assumes inv: "pool_inv q" and f: "f < length (bp_frames q)" "fr_page_id (bp_frames q ! f) = None"
      "f \<notin> set (bp_free_list q)"
    and pid: "hm_get (bp_page_table q) pid = None" "0 < pid" "pid < dm_next_page_id disk"
    and pg: "length pg = PAGE_SIZE" and clock: "lr_clock (bp_replacer q) + 1 < 2 ^ 64"
    and disk: "disk_inv disk" "dm_next_page_id (bp_disk q) \<le> dm_next_page_id disk"
      "\<And>i. i \<noteq> pid \<Longrightarrow> disk_page disk i = disk_page (bp_disk q) i"
  shows "pool_inv (installed q disk f pid pg dirty)"
    "pool_content (installed q disk f pid pg dirty) = (pool_content q)(pid \<mapsto> pg)"
    "holds_page (installed q disk f pid pg dirty) g pid' \<longleftrightarrow>
       (if g = f then pid' = pid else holds_page q g pid')"
proof -
  let ?r = "installed q disk f pid pg dirty"
  have frames: "bp_frames ?r ! g = (if g = f
      then \<lparr>fr_page = pg, fr_page_id = Some pid, fr_pin_count = 1, fr_is_dirty = dirty\<rparr> else bp_frames q ! g)" for g
    using f by (simp add: installed_def nth_list_update)
  have len: "length (bp_frames ?r) = length (bp_frames q)" by (simp add: installed_def)
  have notf: "\<not> holds_page q f pid'" for pid' using f by (simp add: holds_page_def)
  have holds: "holds_page ?r g pid' \<longleftrightarrow> (if g = f then pid' = pid else holds_page q g pid')" for g pid'
    using f by (auto simp: holds_page_def frames len)
  have other: "pid' \<noteq> pid" if "holds_page q g pid'" for g pid'
    using that pid(1) inv_table [OF inv, of pid' g] by auto
  have table: "hm_get (bp_page_table ?r) pid' = (if pid' = pid then Some f else hm_get (bp_page_table q) pid')" for pid'
    by (simp add: installed_def hm_insert_get)
  have used: "used_frames ?r = insert f (used_frames q)"
    unfolding used_frames_def set_eq_iff mem_Collect_eq insert_iff holds by (metis notf)
  have nused: "f \<notin> used_frames q" using notf by (simp add: used_frames_def)
  note A = record_access_ok [OF inv_lru [OF inv] clock, of f]
  note S = set_evictable_ok [of "record_access (bp_replacer q) f" f False]
  have R: "lru_inv (bp_replacer ?r)" "set (lru_order (bp_replacer ?r)) = insert f (set (lru_order (bp_replacer q)))"
    "lr_evictable (bp_replacer ?r) = lr_evictable (bp_replacer q) - {f}"
    using A S by (auto simp: installed_def)
  show "pool_inv ?r"
    unfolding pool_inv_def
  proof (intro conjI allI impI ballI)
    show "hm_get (bp_page_table ?r) pid' = Some g \<longleftrightarrow> holds_page ?r g pid'" for pid' g
      unfolding table holds using inv_table [OF inv, of pid' g] other [of g pid'] notf by auto
    show "distinct (bp_free_list ?r)" using inv_free_distinct [OF inv] by (simp add: installed_def)
    have fl: "bp_free_list ?r = bp_free_list q" by (simp add: installed_def)
    show "g < length (bp_frames ?r)" "fr_page_id (bp_frames ?r ! g) = None"
      if "g \<in> set (bp_free_list ?r)" for g
      using that inv_free [OF inv, of g] f(3) unfolding fl len frames by auto
    show "lru_inv (bp_replacer ?r)" by (rule R)
    show "set (lru_order (bp_replacer ?r)) = used_frames ?r"
      unfolding R(2) used inv_tracked [OF inv] ..
    show "lr_evictable (bp_replacer ?r) = {g \<in> used_frames ?r. fr_pin_count (bp_frames ?r ! g) = 0}"
      unfolding R(3) used inv_evictable [OF inv] frames using nused by auto
    show "disk_inv (bp_disk ?r)" using disk by (simp add: installed_def)
  next
    fix g pid' assume h: "holds_page ?r g pid'"
    have d: "bp_disk ?r = disk" by (simp add: installed_def)
    show "0 < pid'" "pid' < dm_next_page_id (bp_disk ?r)" "length (fr_page (bp_frames ?r ! g)) = PAGE_SIZE"
      "fr_pin_count (bp_frames ?r ! g) = 0 \<and> \<not> fr_is_dirty (bp_frames ?r ! g) \<Longrightarrow>
        disk_page (bp_disk ?r) pid' = Some (fr_page (bp_frames ?r ! g))"
      using h inv_pid [OF inv, of g pid'] inv_clean [OF inv, of g pid'] other [of g pid'] pid pg disk
      unfolding holds d frames by (auto split: if_splits)
  qed
  have "pool_content ?r i = ((pool_content q)(pid \<mapsto> pg)) i" for i
  proof (cases "hm_get (bp_page_table q) i")
    case None
    then show ?thesis using disk(3) [of i] frames [of f]
      by (simp add: pool_content_def table) (simp add: installed_def)
  next
    case (Some g)
    then have "g \<noteq> f" using inv_table [OF inv, of i g] notf by auto
    with Some frames show ?thesis by (simp add: pool_content_def table)
  qed
  then show "pool_content ?r = (pool_content q)(pid \<mapsto> pg)" by blast
  show "holds_page ?r g pid' \<longleftrightarrow> (if g = f then pid' = pid else holds_page q g pid')" by (rule holds)
qed

text \<open>What a successful search for a frame leaves: a frame in no list, and the pages of the pool
  as they were.\<close>

definition frame_ready :: "BufferPool \<Rightarrow> nat \<Rightarrow> BufferPool \<Rightarrow> bool" where
  "frame_ready p f q \<longleftrightarrow> pool_inv q \<and> pool_content q = pool_content p \<and>
     dm_next_page_id (bp_disk q) = dm_next_page_id (bp_disk p) \<and>
     f < length (bp_frames q) \<and> fr_page_id (bp_frames q ! f) = None \<and> f \<notin> set (bp_free_list q) \<and>
     lr_clock (bp_replacer q) = lr_clock (bp_replacer p) \<and>
     (\<forall>pid. hm_get (bp_page_table p) pid = None \<longrightarrow>
        hm_get (bp_page_table q) pid = None \<and> disk_page (bp_disk q) pid = disk_page (bp_disk p) pid)"

lemma find_free_frame_ok:
  assumes inv: "pool_inv p" and ff: "find_free_frame p = (Inr f, q)"
  shows "frame_ready p f q"
proof (rule find_free_frame_cases [OF inv])
  fix g fs assume fr: "bp_free_list p = g # fs" "find_free_frame p = (Inr g, p\<lparr>bp_free_list := fs\<rparr>)"
  have "pool_inv (p\<lparr>bp_free_list := fs\<rparr>)"
    using inv fr(1) by (simp add: pool_inv_def holds_page_def used_frames_def)
  with fr ff inv_free [OF inv, of g] inv_free_distinct [OF inv] show ?thesis
    by (auto simp: frame_ready_def pool_content_def fun_eq_iff split: option.split)
next
  assume "find_free_frame p = (Inl BufferFull, p)"
  with ff show ?thesis by simp
next
  fix g pid' assume ev: "bp_free_list p = []" "holds_page p g pid'" "fr_pin_count (bp_frames p ! g) = 0"
    "find_free_frame p = (Inr g, evicted p g pid')"
  then have q: "f = g" "q = evicted p g pid'" using ff by auto
  note E = evicted_ok [OF inv ev(2,3)]
  have "hm_get (bp_page_table q) pid = None" "disk_page (bp_disk q) pid = disk_page (bp_disk p) pid"
    if n: "hm_get (bp_page_table p) pid = None" for pid
  proof -
    show n': "hm_get (bp_page_table q) pid = None" using n by (simp add: q evicted_def hm_remove_get)
    have "pool_content q pid = pool_content p pid" using E(2) q by simp
    with n n' show "disk_page (bp_disk q) pid = disk_page (bp_disk p) pid" by (simp add: pool_content_def)
  qed
  moreover have "lr_clock (bp_replacer q) = lr_clock (bp_replacer p)"
    by (simp add: q evicted_def lru_remove_def Let_def split: option.split)
  ultimately show ?thesis
    using E ev(1) by (auto simp: frame_ready_def q evicted_def)
qed

section \<open>Updating a frame in place\<close>

text \<open>The frames nobody can be given: neither free, nor holding an unpinned page.\<close>

definition busy :: "BufferPool \<Rightarrow> nat set" where
  "busy p = {f. f < length (bp_frames p) \<and> f \<notin> set (bp_free_list p) \<and>
     \<not> (\<exists>pid. holds_page p f pid \<and> fr_pin_count (bp_frames p ! f) = 0)}"

definition updated :: "BufferPool \<Rightarrow> nat \<Rightarrow> Frame \<Rightarrow> LruReplacer \<Rightarrow> DiskManager \<Rightarrow> BufferPool" where
  "updated p f fr r d = p\<lparr>bp_frames := (bp_frames p)[f := fr], bp_replacer := r, bp_disk := d\<rparr>"

lemma updated_ok:
  assumes inv: "pool_inv p" and h: "holds_page p f pid"
    and fr: "fr_page_id fr = Some pid" "length (fr_page fr) = PAGE_SIZE"
    and r: "lru_inv r" "set (lru_order r) = set (lru_order (bp_replacer p))"
      "lr_evictable r = (if fr_pin_count fr = 0 then insert f (lr_evictable (bp_replacer p))
                         else lr_evictable (bp_replacer p) - {f})"
    and d: "disk_inv d" "dm_next_page_id d = dm_next_page_id (bp_disk p)"
      "\<And>i. i \<noteq> pid \<Longrightarrow> disk_page d i = disk_page (bp_disk p) i"
    and clean: "fr_pin_count fr = 0 \<Longrightarrow> \<not> fr_is_dirty fr \<Longrightarrow> disk_page d pid = Some (fr_page fr)"
  shows "pool_inv (updated p f fr r d)"
    "pool_content (updated p f fr r d) = (pool_content p)(pid \<mapsto> fr_page fr)"
    "holds_page (updated p f fr r d) = holds_page p"
    "busy (updated p f fr r d) = (if fr_pin_count fr = 0 then busy p - {f} else insert f (busy p))"
proof -
  let ?q = "updated p f fr r d"
  have f: "f < length (bp_frames p)" "fr_page_id (bp_frames p ! f) = Some pid"
    using h by (simp_all add: holds_page_def)
  have nfree: "f \<notin> set (bp_free_list p)" using f inv_free [OF inv, of f] by auto
  have sel: "bp_free_list ?q = bp_free_list p" "bp_page_table ?q = bp_page_table p" "bp_disk ?q = d"
    "bp_replacer ?q = r" "length (bp_frames ?q) = length (bp_frames p)" by (simp_all add: updated_def)
  have frames: "bp_frames ?q ! g = (if g = f then fr else bp_frames p ! g)" for g
    using f by (simp add: updated_def nth_list_update)
  show holds: "holds_page ?q = holds_page p"
    using f fr by (auto simp: holds_page_def fun_eq_iff frames sel)
  have used: "used_frames ?q = used_frames p" by (simp add: used_frames_def holds)
  have fu: "f \<in> used_frames p" using h by (auto simp: used_frames_def)
  show "pool_inv ?q"
    unfolding pool_inv_def sel holds
  proof (intro conjI allI impI ballI)
    show "hm_get (bp_page_table p) pid' = Some g \<longleftrightarrow> holds_page p g pid'" for pid' g by (rule inv_table [OF inv])
    show "distinct (bp_free_list p)" by (rule inv_free_distinct [OF inv])
    show "g < length (bp_frames p)" "fr_page_id (bp_frames ?q ! g) = None" if "g \<in> set (bp_free_list p)" for g
      using that inv_free [OF inv, of g] nfree frames by auto
    show "set (lru_order r) = used_frames ?q" using r inv_tracked [OF inv] used by simp
    show "lr_evictable r = {g \<in> used_frames ?q. fr_pin_count (bp_frames ?q ! g) = 0}"
      unfolding r(3) used inv_evictable [OF inv] frames using fu by auto
  next
    fix g pid' assume g: "holds_page p g pid'"
    have ne: "pid' \<noteq> pid" if "g \<noteq> f" using that holds_page_unique [OF inv h] g by blast
    show "0 < pid'" "pid' < dm_next_page_id d" "length (fr_page (bp_frames ?q ! g)) = PAGE_SIZE"
      using inv_pid [OF inv g] fr d frames by auto
    assume c: "fr_pin_count (bp_frames ?q ! g) = 0 \<and> \<not> fr_is_dirty (bp_frames ?q ! g)"
    show "disk_page d pid' = Some (fr_page (bp_frames ?q ! g))"
    proof (cases "g = f")
      case True
      then show ?thesis using c clean g f frames [of f] by (simp add: holds_page_def)
    next
      case False
      then show ?thesis using c d(3) [OF ne] inv_clean [OF inv g] frames [of g] by simp
    qed
  qed (use r d in simp_all)
  have "pool_content ?q i = ((pool_content p)(pid \<mapsto> fr_page fr)) i" for i
  proof (cases "i = pid")
    case True
    then show ?thesis using h inv_table [OF inv, of pid f] frames [of f] by (simp add: pool_content_def sel)
  next
    case ne: False
    show ?thesis
    proof (cases "hm_get (bp_page_table p) i")
      case None
      then show ?thesis using ne d(3) [OF ne] by (simp add: pool_content_def sel)
    next
      case (Some g)
      then have "g \<noteq> f" using ne f inv_table [OF inv, of i g] by (auto simp: holds_page_def)
      with ne Some frames show ?thesis by (simp add: pool_content_def sel)
    qed
  qed
  then show "pool_content ?q = (pool_content p)(pid \<mapsto> fr_page fr)" by blast
  show "busy ?q = (if fr_pin_count fr = 0 then busy p - {f} else insert f (busy p))"
  proof (cases "fr_pin_count fr = 0")
    case True
    with h show ?thesis unfolding busy_def sel holds frames by auto
  next
    case False
    with f nfree show ?thesis unfolding busy_def sel holds frames by auto
  qed
qed

lemma pin_not_busy:
  "pool_inv p \<Longrightarrow> holds_page p f pid \<Longrightarrow> f \<in> busy p \<longleftrightarrow> fr_pin_count (bp_frames p ! f) \<noteq> 0"
  using inv_free [of p f] by (auto simp: busy_def holds_page_def)

lemma content_held: "pool_inv p \<Longrightarrow> holds_page p f pid \<Longrightarrow> pool_content p pid = Some (fr_page (bp_frames p ! f))"
  using inv_table [of p pid f] by (simp add: pool_content_def)

section \<open>The operations\<close>

text \<open>A call that ends with page \<open>pid\<close>, contents \<open>pg\<close>, pinned in frame \<open>f\<close>.\<close>

definition pinned_in :: "BufferPool \<Rightarrow> nat \<Rightarrow> nat \<Rightarrow> page \<Rightarrow> BufferPool \<Rightarrow> bool" where
  "pinned_in p f pid pg q \<longleftrightarrow> pool_inv q \<and> holds_page q f pid \<and> fr_page (bp_frames q ! f) = pg \<and>
     fr_pin_count (bp_frames q ! f) = (if contains_page p pid then fr_pin_count (bp_frames p ! f) + 1 else 1) \<and>
     busy q = insert f (busy p) \<and> lr_clock (bp_replacer q) = lr_clock (bp_replacer p) + 1 \<and>
     length (bp_frames q) = length (bp_frames p)"

lemma find_free_frame_busy:
  assumes inv: "pool_inv p" and ff: "find_free_frame p = (Inr f, q)"
  shows "busy q = insert f (busy p)" "length (bp_frames q) = length (bp_frames p)"
    "holds_page q g pid \<longleftrightarrow> g \<noteq> f \<and> holds_page p g pid"
    "g \<noteq> f \<Longrightarrow> bp_frames q ! g = bp_frames p ! g"
    "f \<notin> busy p"
proof (atomize (full), rule find_free_frame_cases [OF inv], goal_cases)
  case (1 f' fs)
  then have q: "q = p\<lparr>bp_free_list := fs\<rparr>" "f' = f" using ff by auto
  have f: "f < length (bp_frames p)" "fr_page_id (bp_frames p ! f) = None" "f \<notin> set fs"
    using inv_free [OF inv, of f] inv_free_distinct [OF inv] 1 q by auto
  have "holds_page q g pid \<longleftrightarrow> holds_page p g pid" for g pid by (simp add: q holds_page_def)
  moreover have "\<not> holds_page p f pid" for pid using f by (simp add: holds_page_def)
  ultimately show ?case using 1(1) f unfolding busy_def by (auto simp: q)
next
  case 2
  with ff show ?case by simp
next
  case (3 f' pid')
  then have q: "q = evicted p f pid'" "f' = f" using ff by auto
  note E = evicted_ok [OF inv, of f pid']
  have h: "holds_page p f pid'" "fr_pin_count (bp_frames p ! f) = 0" using 3 q by auto
  have fl: "bp_free_list q = []" "length (bp_frames q) = length (bp_frames p)"
    using 3(1) by (simp_all add: q evicted_def)
  have frames: "bp_frames q ! g = bp_frames p ! g" if "g \<noteq> f" for g
    using that by (simp add: q evicted_def)
  have "busy q = insert f (busy p)"
  proof (rule set_eqI)
    fix g
    show "g \<in> busy q \<longleftrightarrow> g \<in> insert f (busy p)"
      using E(4) [OF h, of g] E(5) [OF h] frames [of g] fl 3(1) unfolding busy_def q(1) [symmetric]
      by (cases "g = f") simp_all
  qed
  moreover have "f \<notin> busy p" using h by (auto simp: busy_def)
  ultimately show ?case using E(4) [OF h, of g pid] fl frames [of g] unfolding q(1) [symmetric] by simp
qed

lemma find_free_frame_total:
  assumes inv: "pool_inv p" and g: "g < length (bp_frames p)" "g \<notin> busy p"
  obtains f q where "find_free_frame p = (Inr f, q)"
proof (rule find_free_frame_cases [OF inv])
  assume "bp_free_list p = []" and pinned: "\<And>f pid. holds_page p f pid \<Longrightarrow> fr_pin_count (bp_frames p ! f) \<noteq> 0"
  then show ?thesis using g pinned [of g] by (auto simp: busy_def)
qed (use that in blast)+

lemma installed_busy:
  assumes "pool_inv q" "f < length (bp_frames q)" "fr_page_id (bp_frames q ! f) = None" "f \<notin> set (bp_free_list q)"
  shows "busy (installed q disk f pid pg dirty) = insert f (busy q)"
    "lr_clock (bp_replacer q) + 1 < 2 ^ 64 \<Longrightarrow>
     lr_clock (bp_replacer (installed q disk f pid pg dirty)) = lr_clock (bp_replacer q) + 1"
    "bp_frames (installed q disk f pid pg dirty) ! f =
       \<lparr>fr_page = pg, fr_page_id = Some pid, fr_pin_count = 1, fr_is_dirty = dirty\<rparr>"
proof -
  have frames: "bp_frames (installed q disk f pid pg dirty) ! g = (if g = f
      then \<lparr>fr_page = pg, fr_page_id = Some pid, fr_pin_count = 1, fr_is_dirty = dirty\<rparr> else bp_frames q ! g)" for g
    using assms by (simp add: installed_def nth_list_update)
  then show "bp_frames (installed q disk f pid pg dirty) ! f =
       \<lparr>fr_page = pg, fr_page_id = Some pid, fr_pin_count = 1, fr_is_dirty = dirty\<rparr>" by simp
  have sel: "length (bp_frames (installed q disk f pid pg dirty)) = length (bp_frames q)"
    "bp_free_list (installed q disk f pid pg dirty) = bp_free_list q" by (simp_all add: installed_def)
  show "busy (installed q disk f pid pg dirty) = insert f (busy q)"
    using assms by (auto simp: busy_def holds_page_def frames sel)
  show "lr_clock (bp_replacer (installed q disk f pid pg dirty)) = lr_clock (bp_replacer q) + 1"
    if "lr_clock (bp_replacer q) + 1 < 2 ^ 64"
    using record_access_ok [OF inv_lru [OF assms(1)] that, of f] set_evictable_ok
    by (simp add: installed_def)
qed

lemma fetch_hit:
  assumes inv: "pool_inv p" and h: "holds_page p f pid" and clock: "lr_clock (bp_replacer p) + 1 < 2 ^ 64"
    and pins: "fr_pin_count (bp_frames p ! f) + 1 < 2 ^ 32"
  obtains q where "fetch_page p pid = (Inr f, q)" "pinned_in p f pid (fr_page (bp_frames p ! f)) q"
    "pool_content q = pool_content p" "bp_disk q = bp_disk p"
    "\<And>g pid'. holds_page q g pid' = holds_page p g pid'" "\<And>g. g \<noteq> f \<Longrightarrow> bp_frames q ! g = bp_frames p ! g"
    "fr_is_dirty (bp_frames q ! f) = fr_is_dirty (bp_frames p ! f)"
proof -
  let ?fr = "bp_frames p ! f"
  let ?fr' = "?fr\<lparr>fr_pin_count := fr_pin_count ?fr + 1\<rparr>"
  let ?r = "record_access (set_evictable (bp_replacer p) f False) f"
  define q where "q = updated p f ?fr' ?r (bp_disk p)"
  have tab: "hm_get (bp_page_table p) pid = Some f" using h inv_table [OF inv] by simp
  have f: "f < length (bp_frames p)" "fr_page_id ?fr = Some pid" using h by (simp_all add: holds_page_def)
  have eq: "fetch_page p pid = (Inr f, q)"
    using tab pins by (simp add: fetch_page_def q_def updated_def set_frame_def Let_def)
  note S = set_evictable_ok [OF inv_lru [OF inv], of f False]
  have c': "lr_clock (set_evictable (bp_replacer p) f False) + 1 < 2 ^ 64" using S clock by simp
  note R = record_access_ok [OF conjunct1 [OF S] c', of f]
  have "f \<in> set (lru_order (bp_replacer p))" using h inv_tracked [OF inv] by (auto simp: used_frames_def)
  then have "pool_inv q" "pool_content q = (pool_content p)(pid \<mapsto> fr_page ?fr')" "holds_page q = holds_page p"
    "busy q = insert f (busy p)"
    using updated_ok [OF inv h, of ?fr' ?r "bp_disk p"] R S f inv_pid [OF inv h] inv_disk [OF inv]
    by (auto simp: q_def)
  moreover have "bp_frames q ! f = ?fr'" "length (bp_frames q) = length (bp_frames p)" "bp_disk q = bp_disk p"
    "\<And>g. g \<noteq> f \<Longrightarrow> bp_frames q ! g = bp_frames p ! g" "lr_clock (bp_replacer q) = lr_clock (bp_replacer p) + 1"
    using f R S by (simp_all add: q_def updated_def)
  ultimately show ?thesis
    using that [OF eq] h tab fun_upd_idem [of "pool_content p" pid, OF content_held [OF inv h]]
    by (simp add: pinned_in_def contains_page_def)
qed

lemma fetch_miss:
  assumes inv: "pool_inv p" and n: "hm_get (bp_page_table p) pid = None" and c: "disk_page (bp_disk p) pid = Some pg"
    and clock: "lr_clock (bp_replacer p) + 1 < 2 ^ 64" and ff: "find_free_frame p = (Inr f, q)"
  obtains q' where "fetch_page p pid = (Inr f, q')" "q' = installed q (bp_disk q) f pid pg False"
    "pinned_in p f pid pg q'" "pool_content q' = pool_content p"
    "dm_next_page_id (bp_disk q') = dm_next_page_id (bp_disk p)" "disk_page (bp_disk q') pid = Some pg"
proof -
  note R = find_free_frame_ok [OF inv ff, unfolded frame_ready_def]
  note B = find_free_frame_busy [OF inv ff]
  have d: "disk_page (bp_disk q) pid = Some pg" "hm_get (bp_page_table q) pid = None" using R n c by auto
  have iq: "pool_inv q" using R by simp
  define q' where "q' = installed q (bp_disk q) f pid pg False"
  have eq: "fetch_page p pid = (Inr f, q')"
    using n ff disk_read_page_eq [OF inv_disk [OF iq] d(1)]
    by (simp add: fetch_page_def q'_def installed_def set_frame_def Let_def frame_eq)
  have pid: "0 < pid" "pid < dm_next_page_id (bp_disk q)" using d(1) by (auto simp: disk_page_def split: if_splits)
  note I = installed_ok [OF iq _ _ _ d(2) pid disk_page_length [OF inv_disk [OF iq] d(1)],
    where f = f and dirty = False]
  have q': "pool_inv q'" "pool_content q' = (pool_content q)(pid \<mapsto> pg)" "holds_page q' f pid"
    using I R clock inv_disk [OF iq] by (simp_all add: q'_def)
  have len: "length (bp_frames q') = length (bp_frames p)" using B(2) by (simp add: q'_def installed_def)
  have "pinned_in p f pid pg q'"
    using q' R B(1) n installed_busy [OF iq, of f "bp_disk q" pid pg False] clock len
    by (simp add: pinned_in_def contains_page_def q'_def)
  moreover have "pool_content q' = pool_content p"
    using q'(2) R fun_upd_idem [of "pool_content p" pid "Some pg"] n c by (simp add: pool_content_def)
  moreover have "dm_next_page_id (bp_disk q') = dm_next_page_id (bp_disk p)" "disk_page (bp_disk q') pid = Some pg"
    using R d by (simp_all add: q'_def installed_def)
  ultimately show ?thesis using that [OF eq q'_def] by blast
qed

lemma length_page_new [simp]: "length (page_new i) = PAGE_SIZE"
  using page_new_wf [of i] by (simp add: page_wf_def)

lemma new_page_ok:
  assumes inv: "pool_inv p" and ff: "find_free_frame p = (Inr f, q)"
    and clock: "lr_clock (bp_replacer p) + 1 < 2 ^ 64" and room: "dm_next_page_id (bp_disk p) + 1 < 2 ^ 51"
  defines "pid \<equiv> dm_next_page_id (bp_disk p)"
  obtains q' where "new_page p = (Inr (pid, f), q')" "pinned_in p f pid (page_new pid) q'"
    "pool_content q' = (pool_content p)(pid \<mapsto> page_new pid)" "dm_next_page_id (bp_disk q') = pid + 1"
    "fr_is_dirty (bp_frames q' ! f)"
proof -
  note R = find_free_frame_ok [OF inv ff, unfolded frame_ready_def]
  note B = find_free_frame_busy [OF inv ff]
  have iq: "pool_inv q" and pq: "dm_next_page_id (bp_disk q) = pid" using R by (simp_all add: pid_def)
  obtain disk where al: "allocate_page (bp_disk q) = (pid, disk)" and D: "disk_inv disk"
    "dm_next_page_id disk = pid + 1" "disk_page disk = (disk_page (bp_disk q))(pid \<mapsto> replicate PAGE_SIZE 0)"
    using allocate_page_ok [OF inv_disk [OF iq]] room pq
    by (cases "allocate_page (bp_disk q)") (auto simp: pid_def)
  define q' where "q' = installed q disk f pid (page_new pid) True"
  have eq: "new_page p = (Inr (pid, f), q')"
    using ff al by (simp add: new_page_def q'_def installed_def set_frame_def Let_def frame_eq)
  have n: "hm_get (bp_page_table q) pid = None"
    using inv_table [OF iq, of pid] inv_pid [OF iq, of _ pid] pq
    by (cases "hm_get (bp_page_table q) pid") auto
  have pos: "0 < pid" using inv_disk [OF iq] pq by (simp add: disk_inv_def)
  note I = installed_ok [OF iq _ _ _ n pos, where f = f and dirty = True and disk = disk and pg = "page_new pid"]
  have q': "pool_inv q'" "pool_content q' = (pool_content q)(pid \<mapsto> page_new pid)" "holds_page q' f pid"
    using I R clock D pq by (simp_all add: q'_def)
  have len: "length (bp_frames q') = length (bp_frames p)" using B(2) by (simp add: q'_def installed_def)
  have "\<not> contains_page p pid"
    using inv_table [OF inv, of pid] inv_pid [OF inv, of _ pid] unfolding pid_def
    by (cases "hm_get (bp_page_table p) (dm_next_page_id (bp_disk p))") (auto simp: contains_page_def)
  then have "pinned_in p f pid (page_new pid) q'"
    using q' R B(1) installed_busy [OF iq, of f disk pid "page_new pid" True] clock len
    by (simp add: pinned_in_def q'_def)
  moreover have "dm_next_page_id (bp_disk q') = pid + 1" "fr_is_dirty (bp_frames q' ! f)"
    using D R installed_busy(3) [OF iq, of f disk pid "page_new pid" True] by (simp_all add: q'_def) (simp add: installed_def)
  ultimately show ?thesis using that [OF eq] q'(2) R by simp
qed

lemma page_mut_ok:
  assumes inv: "pool_inv p" and h: "holds_page p f pid" and pin: "0 < fr_pin_count (bp_frames p ! f)"
    and g: "length (g (fr_page (bp_frames p ! f))) = PAGE_SIZE"
  shows "pool_inv (page_mut f g p)" "holds_page (page_mut f g p) = holds_page p"
    "pool_content (page_mut f g p) = (pool_content p)(pid \<mapsto> g (fr_page (bp_frames p ! f)))"
    "busy (page_mut f g p) = insert f (busy p)"
    "bp_frames (page_mut f g p) ! f = (bp_frames p ! f)\<lparr>fr_page := g (fr_page (bp_frames p ! f))\<rparr>"
proof -
  let ?fr = "(bp_frames p ! f)\<lparr>fr_page := g (fr_page (bp_frames p ! f))\<rparr>"
  have f: "f < length (bp_frames p)" "fr_page_id (bp_frames p ! f) = Some pid" using h by (simp_all add: holds_page_def)
  have eq: "page_mut f g p = updated p f ?fr (bp_replacer p) (bp_disk p)"
    by (simp add: page_mut_def set_frame_def updated_def)
  have "f \<notin> lr_evictable (bp_replacer p)" using inv_evictable [OF inv] pin by simp
  then show "pool_inv (page_mut f g p)" "holds_page (page_mut f g p) = holds_page p"
    "pool_content (page_mut f g p) = (pool_content p)(pid \<mapsto> g (fr_page (bp_frames p ! f)))"
    "busy (page_mut f g p) = insert f (busy p)"
    using updated_ok [OF inv h, of ?fr "bp_replacer p" "bp_disk p"] f g pin inv_lru [OF inv] inv_disk [OF inv]
    unfolding eq by simp_all
  show "bp_frames (page_mut f g p) ! f = ?fr" using f by (simp add: eq updated_def)
qed

lemma unpin_page_ok:
  assumes inv: "pool_inv p" and h: "holds_page p f pid" and pin: "fr_pin_count (bp_frames p ! f) = 1"
    and safe: "dirty \<or> fr_is_dirty (bp_frames p ! f) \<or> disk_page (bp_disk p) pid = Some (fr_page (bp_frames p ! f))"
  obtains q where "unpin_page p pid dirty = (Inr (), q)" "pool_inv q" "pool_content q = pool_content p"
    "busy q = busy p - {f}" "holds_page q = holds_page p" "bp_disk q = bp_disk p"
    "lr_clock (bp_replacer q) = lr_clock (bp_replacer p)" "length (bp_frames q) = length (bp_frames p)"
proof -
  let ?fr = "(bp_frames p ! f)\<lparr>fr_pin_count := 0, fr_is_dirty := (dirty \<or> fr_is_dirty (bp_frames p ! f))\<rparr>"
  let ?r = "set_evictable (bp_replacer p) f True"
  have f: "f < length (bp_frames p)" "fr_page_id (bp_frames p ! f) = Some pid" using h by (simp_all add: holds_page_def)
  have tab: "hm_get (bp_page_table p) pid = Some f" using h inv_table [OF inv] by simp
  have fr: "\<not> dirty \<Longrightarrow> ?fr = (bp_frames p ! f)\<lparr>fr_pin_count := 0\<rparr>" by (cases "bp_frames p ! f") simp
  define q where "q = updated p f ?fr ?r (bp_disk p)"
  have eq: "unpin_page p pid dirty = (Inr (), q)"
    using tab pin f fr by (cases dirty) (simp_all add: unpin_page_def set_frame_def q_def updated_def Let_def)
  note S = set_evictable_ok [OF inv_lru [OF inv], of f True]
  have "pool_inv q" "pool_content q = (pool_content p)(pid \<mapsto> fr_page (bp_frames p ! f))" "holds_page q = holds_page p"
    "busy q = busy p - {f}"
    using updated_ok [OF inv h, of ?fr ?r "bp_disk p"] S f safe inv_pid [OF inv h] inv_disk [OF inv]
    by (auto simp: q_def)
  moreover have "bp_disk q = bp_disk p" "lr_clock (bp_replacer q) = lr_clock (bp_replacer p)"
    "length (bp_frames q) = length (bp_frames p)"
    using S by (simp_all add: q_def updated_def)
  ultimately show ?thesis
    using that [OF eq] fun_upd_idem [of "pool_content p" pid, OF content_held [OF inv h]] by simp
qed

lemma flush_page_ok:
  assumes inv: "pool_inv p" and h: "holds_page p f pid"
  obtains q where "flush_page p pid = (Inr (), q)" "pool_inv q" "pool_content q = pool_content p"
    "busy q = busy p" "holds_page q = holds_page p" "\<not> fr_is_dirty (bp_frames q ! f)"
    "\<And>g. g \<noteq> f \<Longrightarrow> bp_frames q ! g = bp_frames p ! g" "bp_replacer q = bp_replacer p"
    "dm_next_page_id (bp_disk q) = dm_next_page_id (bp_disk p)" "length (bp_frames q) = length (bp_frames p)"
proof (cases "fr_is_dirty (bp_frames p ! f)")
  case False
  then have "flush_page p pid = (Inr (), p)" using h inv_table [OF inv, of pid f] by (simp add: flush_page_def)
  with that inv False show ?thesis by blast
next
  case True
  let ?fr = "(bp_frames p ! f)\<lparr>fr_is_dirty := False\<rparr>"
  let ?d = "disk_write_page (bp_disk p) pid (fr_page (bp_frames p ! f))"
  have f: "f < length (bp_frames p)" "fr_page_id (bp_frames p ! f) = Some pid" using h by (simp_all add: holds_page_def)
  define q where "q = updated p f ?fr (bp_replacer p) ?d"
  have eq: "flush_page p pid = (Inr (), q)"
    using h True inv_table [OF inv, of pid f] by (simp add: flush_page_def q_def updated_def set_frame_def)
  have D: "disk_inv ?d" "disk_page ?d = (disk_page (bp_disk p))(pid \<mapsto> fr_page (bp_frames p ! f))"
    "dm_next_page_id ?d = dm_next_page_id (bp_disk p)"
    using disk_write_page_ok [OF inv_disk [OF inv], of pid "fr_page (bp_frames p ! f)"] inv_pid [OF inv h] by auto
  have fe: "lr_evictable (bp_replacer p) = (if fr_pin_count ?fr = 0
      then insert f (lr_evictable (bp_replacer p)) else lr_evictable (bp_replacer p) - {f})"
    using inv_evictable [OF inv] h by (auto simp: used_frames_def)
  have fb: "f \<in> busy p \<longleftrightarrow> fr_pin_count (bp_frames p ! f) \<noteq> 0"
    using pin_not_busy [OF inv h] by simp
  have "pool_inv q" "pool_content q = (pool_content p)(pid \<mapsto> fr_page (bp_frames p ! f))" "holds_page q = holds_page p"
    "busy q = busy p"
    using updated_ok [OF inv h _ _ inv_lru [OF inv] refl fe D(1)] D f fb inv_pid [OF inv h]
    by (auto simp: q_def)
  moreover have "\<not> fr_is_dirty (bp_frames q ! f)" "\<And>g. g \<noteq> f \<Longrightarrow> bp_frames q ! g = bp_frames p ! g"
    "bp_replacer q = bp_replacer p" "length (bp_frames q) = length (bp_frames p)"
    "dm_next_page_id (bp_disk q) = dm_next_page_id (bp_disk p)"
    using f D by (simp_all add: q_def updated_def)
  ultimately show ?thesis
    using that [OF eq] fun_upd_idem [of "pool_content p" pid, OF content_held [OF inv h]] by simp
qed

lemma flush_pages_ok:
  assumes "pool_inv p" "\<forall>pid \<in> set pids. \<exists>f. holds_page p f pid"
  obtains q where "flush_pages pids p = (Inr (), q)" "pool_inv q" "pool_content q = pool_content p"
    "busy q = busy p" "holds_page q = holds_page p" "bp_replacer q = bp_replacer p"
    "\<And>f pid. holds_page p f pid \<Longrightarrow> fr_is_dirty (bp_frames q ! f) \<Longrightarrow>
       fr_is_dirty (bp_frames p ! f) \<and> pid \<notin> set pids"
    "dm_next_page_id (bp_disk q) = dm_next_page_id (bp_disk p)" "length (bp_frames q) = length (bp_frames p)"
  using assms
proof (induction pids arbitrary: p thesis)
  case Nil
  then show ?case by simp
next
  case (Cons pid pids)
  from Cons.prems obtain f where h: "holds_page p f pid" by auto
  obtain p1 where p1: "flush_page p pid = (Inr (), p1)" "pool_inv p1" "pool_content p1 = pool_content p"
    "busy p1 = busy p" "holds_page p1 = holds_page p" "\<not> fr_is_dirty (bp_frames p1 ! f)"
    "\<And>g. g \<noteq> f \<Longrightarrow> bp_frames p1 ! g = bp_frames p ! g" "bp_replacer p1 = bp_replacer p"
    "dm_next_page_id (bp_disk p1) = dm_next_page_id (bp_disk p)" "length (bp_frames p1) = length (bp_frames p)"
    using flush_page_ok [OF Cons.prems(2) h] by metis
  have "\<forall>i \<in> set pids. \<exists>g. holds_page p1 g i" using Cons.prems p1(5) by simp
  from Cons.IH [OF _ p1(2) this] obtain q where q: "flush_pages pids p1 = (Inr (), q)" "pool_inv q"
    "pool_content q = pool_content p1" "busy q = busy p1" "holds_page q = holds_page p1" "bp_replacer q = bp_replacer p1"
    "\<And>g i. holds_page p1 g i \<Longrightarrow> fr_is_dirty (bp_frames q ! g) \<Longrightarrow> fr_is_dirty (bp_frames p1 ! g) \<and> i \<notin> set pids"
    "dm_next_page_id (bp_disk q) = dm_next_page_id (bp_disk p1)" "length (bp_frames q) = length (bp_frames p1)"
    by blast
  have "fr_is_dirty (bp_frames p ! g) \<and> i \<notin> set (pid # pids)"
    if g: "holds_page p g i" "fr_is_dirty (bp_frames q ! g)" for g i
  proof -
    have d: "fr_is_dirty (bp_frames p1 ! g)" "i \<notin> set pids" using q(7) [of g i] g p1(5) by auto
    then have "g \<noteq> f" using p1(6) by blast
    moreover from this have "i \<noteq> pid" using holds_page_unique [OF Cons.prems(2) h, of g] g(1) by blast
    ultimately show ?thesis using d p1(7) by simp
  qed
  moreover have "flush_pages (pid # pids) p = (Inr (), q)" using p1(1) q(1) by simp
  ultimately show ?case using Cons.prems(1) q p1 by simp
qed

lemma dirty_pages_held: "pid \<in> set (dirty_pages p) \<longleftrightarrow> (\<exists>f. holds_page p f pid \<and> fr_is_dirty (bp_frames p ! f))"
  by (auto simp: dirty_pages_def map_filter_def holds_page_def in_set_conv_nth image_iff split: if_splits)

section \<open>Clients of the pool\<close>

text \<open>
  The way the heap file and the indexes use the pool: fetch a page, read or change it,
  unpin it. A page store that only does this has no pinned page between two calls.
\<close>

definition client_read :: "BufferPool \<Rightarrow> nat \<Rightarrow> (StorageError + page) \<times> BufferPool" where
  "client_read p pid =
     (case fetch_page p pid of
        (Inl e, p1) \<Rightarrow> (Inl e, p1)
      | (Inr f, p1) \<Rightarrow>
          (case unpin_page p1 pid False of
             (Inl e, p2) \<Rightarrow> (Inl e, p2)
           | (Inr _, p2) \<Rightarrow> (Inr (pool_page p1 f), p2)))"

definition client_write :: "BufferPool \<Rightarrow> nat \<Rightarrow> (page \<Rightarrow> page) \<Rightarrow> (StorageError + page) \<times> BufferPool" where
  "client_write p pid g =
     (case fetch_page p pid of
        (Inl e, p1) \<Rightarrow> (Inl e, p1)
      | (Inr f, p1) \<Rightarrow>
          let p2 = page_mut f g p1
          in (case unpin_page p2 pid True of
                (Inl e, p3) \<Rightarrow> (Inl e, p3)
              | (Inr _, p3) \<Rightarrow> (Inr (pool_page p2 f), p3)))"

definition client_alloc :: "BufferPool \<Rightarrow> (StorageError + page) \<times> BufferPool" where
  "client_alloc p =
     (case new_page p of
        (Inl e, p1) \<Rightarrow> (Inl e, p1)
      | (Inr (pid, f), p1) \<Rightarrow>
          (case unpin_page p1 pid True of
             (Inl e, p2) \<Rightarrow> (Inl e, p2)
           | (Inr _, p2) \<Rightarrow> (Inr (pool_page p1 f), p2)))"

definition idle :: "BufferPool \<Rightarrow> bool" where
  "idle p \<longleftrightarrow> pool_inv p \<and> busy p = {} \<and> bp_frames p \<noteq> []"

text \<open>One client call on an idle pool, against the map of the pages.\<close>

definition client_ok :: "BufferPool \<Rightarrow> (nat \<Rightarrow> page option) \<Rightarrow> nat \<Rightarrow> BufferPool \<Rightarrow> bool" where
  "client_ok p m n q \<longleftrightarrow> idle q \<and> pool_content q = m \<and> dm_next_page_id (bp_disk q) = n \<and>
     lr_clock (bp_replacer q) \<le> lr_clock (bp_replacer p) + 1"

lemma fetch_idle:
  assumes idle: "idle p" and c: "pool_content p pid = Some pg" and clock: "lr_clock (bp_replacer p) + 1 < 2 ^ 64"
  obtains f q where "fetch_page p pid = (Inr f, q)" "pool_inv q" "pool_content q = pool_content p"
    "holds_page q f pid" "fr_page (bp_frames q ! f) = pg" "fr_pin_count (bp_frames q ! f) = 1"
    "busy q = {f}" "fr_is_dirty (bp_frames q ! f) \<or> disk_page (bp_disk q) pid = Some pg"
    "lr_clock (bp_replacer q) = lr_clock (bp_replacer p) + 1" "length (bp_frames q) = length (bp_frames p)"
    "dm_next_page_id (bp_disk q) = dm_next_page_id (bp_disk p)"
proof (cases "hm_get (bp_page_table p) pid")
  case None
  have inv: "pool_inv p" and b: "busy p = {}" "0 < length (bp_frames p)" using idle by (auto simp: idle_def)
  have d: "disk_page (bp_disk p) pid = Some pg" using c None by (simp add: pool_content_def)
  obtain f q where ff: "find_free_frame p = (Inr f, q)"
    using find_free_frame_total [OF inv b(2)] b(1) by auto
  obtain q' where q': "fetch_page p pid = (Inr f, q')" "pinned_in p f pid pg q'" "pool_content q' = pool_content p"
    "dm_next_page_id (bp_disk q') = dm_next_page_id (bp_disk p)" "disk_page (bp_disk q') pid = Some pg"
    using fetch_miss [OF inv None d clock ff] by metis
  then show ?thesis using that [OF q'(1)] b None by (simp add: pinned_in_def contains_page_def)
next
  case (Some f)
  have inv: "pool_inv p" and b: "busy p = {}" using idle by (auto simp: idle_def)
  have h: "holds_page p f pid" using Some inv_table [OF inv] by simp
  have pin: "fr_pin_count (bp_frames p ! f) = 0"
    using pin_not_busy [OF inv h] b by simp
  have pg: "pg = fr_page (bp_frames p ! f)" using c content_held [OF inv h] by simp
  obtain q where q: "fetch_page p pid = (Inr f, q)" "pinned_in p f pid pg q" "pool_content q = pool_content p"
    "bp_disk q = bp_disk p" "fr_is_dirty (bp_frames q ! f) = fr_is_dirty (bp_frames p ! f)"
    using fetch_hit [OF inv h clock] pin pg by (metis add_0 one_less_numeral_iff power_one_right
      one_less_power semiring_norm(76) zero_less_numeral)
  have "fr_is_dirty (bp_frames q ! f) \<or> disk_page (bp_disk q) pid = Some pg"
    using inv_clean [OF inv h pin] q pg by auto
  then show ?thesis using that [OF q(1)] q b Some pin by (simp add: pinned_in_def contains_page_def)
qed

lemma client_read_ok:
  assumes "idle p" "pool_content p pid = Some pg" "lr_clock (bp_replacer p) + 1 < 2 ^ 64"
  obtains q where "client_read p pid = (Inr pg, q)" "client_ok p (pool_content p) (dm_next_page_id (bp_disk p)) q"
proof -
  obtain f p1 where p1: "fetch_page p pid = (Inr f, p1)" "pool_inv p1" "pool_content p1 = pool_content p"
    "holds_page p1 f pid" "fr_page (bp_frames p1 ! f) = pg" "fr_pin_count (bp_frames p1 ! f) = 1"
    "busy p1 = {f}" "fr_is_dirty (bp_frames p1 ! f) \<or> disk_page (bp_disk p1) pid = Some pg"
    "lr_clock (bp_replacer p1) = lr_clock (bp_replacer p) + 1" "length (bp_frames p1) = length (bp_frames p)"
    "dm_next_page_id (bp_disk p1) = dm_next_page_id (bp_disk p)"
    using fetch_idle [OF assms] by metis
  obtain p2 where p2: "unpin_page p1 pid False = (Inr (), p2)" "pool_inv p2" "pool_content p2 = pool_content p1"
    "busy p2 = busy p1 - {f}" "bp_disk p2 = bp_disk p1" "lr_clock (bp_replacer p2) = lr_clock (bp_replacer p1)"
    "length (bp_frames p2) = length (bp_frames p1)"
    using unpin_page_ok [OF p1(2,4,6), of False] p1(5,8) by metis
  have "client_read p pid = (Inr pg, p2)" using p1(1,5) p2(1) by (simp add: client_read_def pool_page_def)
  moreover have "bp_frames p2 \<noteq> []" using p1(10) p2(7) assms(1) by (auto simp: idle_def)
  ultimately show ?thesis using that p1 p2 by (simp add: client_ok_def idle_def)
qed

lemma client_write_ok:
  assumes "idle p" "pool_content p pid = Some pg" "lr_clock (bp_replacer p) + 1 < 2 ^ 64" "length (g pg) = PAGE_SIZE"
  obtains q where "client_write p pid g = (Inr (g pg), q)"
    "client_ok p ((pool_content p)(pid \<mapsto> g pg)) (dm_next_page_id (bp_disk p)) q"
proof -
  obtain f p1 where p1: "fetch_page p pid = (Inr f, p1)" "pool_inv p1" "pool_content p1 = pool_content p"
    "holds_page p1 f pid" "fr_page (bp_frames p1 ! f) = pg" "fr_pin_count (bp_frames p1 ! f) = 1"
    "busy p1 = {f}" "lr_clock (bp_replacer p1) = lr_clock (bp_replacer p) + 1"
    "length (bp_frames p1) = length (bp_frames p)" "dm_next_page_id (bp_disk p1) = dm_next_page_id (bp_disk p)"
    using fetch_idle [OF assms(1-3)] by metis
  let ?p2 = "page_mut f g p1"
  have m: "pool_inv ?p2" "holds_page ?p2 = holds_page p1" "pool_content ?p2 = (pool_content p1)(pid \<mapsto> g pg)"
    "busy ?p2 = {f}" "bp_frames ?p2 ! f = (bp_frames p1 ! f)\<lparr>fr_page := g pg\<rparr>"
    using page_mut_ok [OF p1(2,4), of g] p1 assms(4) by simp_all
  have eqs: "bp_disk ?p2 = bp_disk p1" "bp_replacer ?p2 = bp_replacer p1" "length (bp_frames ?p2) = length (bp_frames p1)"
    by (simp_all add: page_mut_def set_frame_def)
  have h: "holds_page ?p2 f pid" "fr_pin_count (bp_frames ?p2 ! f) = 1" using m p1 by simp_all
  obtain p3 where p3: "unpin_page ?p2 pid True = (Inr (), p3)" "pool_inv p3" "pool_content p3 = pool_content ?p2"
    "busy p3 = busy ?p2 - {f}" "bp_disk p3 = bp_disk ?p2" "lr_clock (bp_replacer p3) = lr_clock (bp_replacer ?p2)"
    "length (bp_frames p3) = length (bp_frames ?p2)"
    using unpin_page_ok [OF m(1) h, of True] by metis
  have "client_write p pid g = (Inr (g pg), p3)"
    using p1(1) p3(1) m(5) by (simp add: client_write_def pool_page_def)
  moreover have "bp_frames p3 \<noteq> []" using p1(9) eqs p3(7) assms(1) by (auto simp: idle_def)
  ultimately show ?thesis using that p1 p3 m eqs by (simp add: client_ok_def idle_def)
qed

lemma client_alloc_ok:
  assumes idle: "idle p" and clock: "lr_clock (bp_replacer p) + 1 < 2 ^ 64"
    and room: "dm_next_page_id (bp_disk p) + 1 < 2 ^ 51"
  obtains q where "client_alloc p = (Inr (page_new (dm_next_page_id (bp_disk p))), q)"
    "client_ok p ((pool_content p)(dm_next_page_id (bp_disk p) \<mapsto> page_new (dm_next_page_id (bp_disk p))))
       (dm_next_page_id (bp_disk p) + 1) q"
proof -
  let ?n = "dm_next_page_id (bp_disk p)"
  have inv: "pool_inv p" and b: "busy p = {}" "0 < length (bp_frames p)" using idle by (auto simp: idle_def)
  obtain f q where ff: "find_free_frame p = (Inr f, q)" using find_free_frame_total [OF inv b(2)] b(1) by auto
  obtain p1 where p1: "new_page p = (Inr (?n, f), p1)" "pinned_in p f ?n (page_new ?n) p1"
    "pool_content p1 = (pool_content p)(?n \<mapsto> page_new ?n)" "dm_next_page_id (bp_disk p1) = ?n + 1"
    using new_page_ok [OF inv ff clock room] by metis
  have nc: "\<not> contains_page p ?n"
    using inv_table [OF inv, of ?n] inv_pid [OF inv, of _ ?n]
    by (cases "hm_get (bp_page_table p) ?n") (auto simp: contains_page_def)
  then have q1: "pool_inv p1" "holds_page p1 f ?n" "fr_pin_count (bp_frames p1 ! f) = 1" "busy p1 = {f}"
    "fr_page (bp_frames p1 ! f) = page_new ?n"
    "lr_clock (bp_replacer p1) = lr_clock (bp_replacer p) + 1" "length (bp_frames p1) = length (bp_frames p)"
    using p1(2) b by (simp_all add: pinned_in_def)
  obtain p2 where p2: "unpin_page p1 ?n True = (Inr (), p2)" "pool_inv p2" "pool_content p2 = pool_content p1"
    "busy p2 = busy p1 - {f}" "bp_disk p2 = bp_disk p1" "lr_clock (bp_replacer p2) = lr_clock (bp_replacer p1)"
    "length (bp_frames p2) = length (bp_frames p1)"
    using unpin_page_ok [OF q1(1-3), of True] by metis
  have "client_alloc p = (Inr (page_new ?n), p2)" using p1(1) p2(1) q1(5) by (simp add: client_alloc_def pool_page_def)
  moreover have "bp_frames p2 \<noteq> []" using q1(7) p2(7) b by auto
  ultimately show ?thesis using that p1 p2 q1 by (simp add: client_ok_def idle_def)
qed

text \<open>A page that differs from its copy on disk and is not marked dirty. Under the invariant it is pinned: its
  holder has changed it and not unpinned it yet.\<close>

definition unsaved :: "BufferPool \<Rightarrow> nat \<Rightarrow> bool" where
  "unsaved p pid \<longleftrightarrow> disk_page (bp_disk p) pid \<noteq> pool_content p pid \<and> pid \<notin> set (dirty_pages p)"

lemma unsaved_pinned:
  assumes inv: "pool_inv p" and u: "unsaved p pid"
  obtains f where "holds_page p f pid" "f \<in> busy p"
proof (cases "hm_get (bp_page_table p) pid")
  case None
  then show ?thesis using u by (simp add: unsaved_def pool_content_def)
next
  case (Some f)
  then have h: "holds_page p f pid" using inv_table [OF inv] by simp
  then have "\<not> fr_is_dirty (bp_frames p ! f)" using u dirty_pages_held by (auto simp: unsaved_def)
  then have "fr_pin_count (bp_frames p ! f) \<noteq> 0" using u inv_clean [OF inv h] content_held [OF inv h] by (auto simp: unsaved_def)
  then show ?thesis using that [OF h] pin_not_busy [OF inv h] by simp
qed

lemma flush_page_saved:
  assumes inv: "pool_inv p" and h: "holds_page p f pid" and saved: "\<not> unsaved p i" and q: "flush_page p pid = (Inr (), q)"
  shows "\<not> unsaved q i"
proof (cases "fr_is_dirty (bp_frames p ! f)")
  case False
  then show ?thesis using saved q h inv_table [OF inv, of pid f] by (simp add: flush_page_def)
next
  case True
  let ?d = "disk_write_page (bp_disk p) pid (fr_page (bp_frames p ! f))"
  have D: "disk_page ?d = (disk_page (bp_disk p))(pid \<mapsto> fr_page (bp_frames p ! f))"
    using disk_write_page_ok [OF inv_disk [OF inv], of pid "fr_page (bp_frames p ! f)"] inv_pid [OF inv h] by auto
  have disk: "bp_disk q = ?d"
    using q True h inv_table [OF inv, of pid f] by (auto simp: flush_page_def set_frame_def)
  obtain q' where Q: "flush_page p pid = (Inr (), q')" "pool_content q' = pool_content p" "holds_page q' = holds_page p"
    "\<And>g. g \<noteq> f \<Longrightarrow> bp_frames q' ! g = bp_frames p ! g"
    using flush_page_ok [OF inv h] by metis
  have q': "q' = q" using q Q(1) by simp
  show ?thesis
  proof (cases "i = pid")
    case True
    then show ?thesis using D disk Q(2) q' content_held [OF inv h] by (simp add: unsaved_def)
  next
    case ne: False
    have "i \<in> set (dirty_pages q)" if "i \<in> set (dirty_pages p)"
    proof -
      obtain g where g: "holds_page p g i" "fr_is_dirty (bp_frames p ! g)" using \<open>i \<in> set (dirty_pages p)\<close> dirty_pages_held by blast
      then have "g \<noteq> f" using h ne by (auto simp: holds_page_def)
      then show ?thesis using g Q(3,4) q' dirty_pages_held by metis
    qed
    then show ?thesis using saved ne D disk Q(2) q' by (auto simp: unsaved_def)
  qed
qed

lemma flush_pages_saved:
  assumes "pool_inv p" "\<forall>pid \<in> set pids. \<exists>f. holds_page p f pid" "\<not> unsaved p i" "flush_pages pids p = (Inr (), q)"
  shows "\<not> unsaved q i"
  using assms
proof (induction pids arbitrary: p)
  case (Cons pid pids)
  from Cons.prems obtain f where h: "holds_page p f pid" by auto
  obtain p1 where p1: "flush_page p pid = (Inr (), p1)" "pool_inv p1" "holds_page p1 = holds_page p"
    using flush_page_ok [OF Cons.prems(1) h] by metis
  show ?case
    using Cons.IH [OF p1(2)] Cons.prems p1 flush_page_saved [OF Cons.prems(1) h Cons.prems(3) p1(1)] by simp
qed simp

lemma flush_all_saves:
  assumes inv: "pool_inv p"
  obtains q where "flush_all p = (Inr (), q)" "pool_inv q" "pool_content q = pool_content p" "busy q = busy p"
    "bp_replacer q = bp_replacer p" "dm_next_page_id (bp_disk q) = dm_next_page_id (bp_disk p)"
    "length (bp_frames q) = length (bp_frames p)"
    "\<And>pid. \<not> unsaved p pid \<Longrightarrow> disk_page (bp_disk q) pid = pool_content p pid"
proof -
  have held: "\<forall>pid \<in> set (dirty_pages p). \<exists>f. holds_page p f pid" using dirty_pages_held by blast
  obtain q where q: "flush_pages (dirty_pages p) p = (Inr (), q)" "pool_inv q" "pool_content q = pool_content p"
    "busy q = busy p" "holds_page q = holds_page p" "bp_replacer q = bp_replacer p"
    "\<And>f pid. holds_page p f pid \<Longrightarrow> fr_is_dirty (bp_frames q ! f) \<Longrightarrow>
       fr_is_dirty (bp_frames p ! f) \<and> pid \<notin> set (dirty_pages p)"
    "dm_next_page_id (bp_disk q) = dm_next_page_id (bp_disk p)" "length (bp_frames q) = length (bp_frames p)"
    using flush_pages_ok [OF inv held] by blast
  have "i \<notin> set (dirty_pages q)" for i
    using q(5,7) dirty_pages_held [of i q] dirty_pages_held [of i p] by metis
  then have "disk_page (bp_disk q) i = pool_content p i" if "\<not> unsaved p i" for i
    using flush_pages_saved [OF inv held that q(1)] q(3) by (simp add: unsaved_def)
  then show ?thesis using that [of q] q by (simp add: flush_all_def)
qed

lemma flush_all_ok:
  assumes "idle p"
  obtains q where "flush_all p = (Inr (), q)" "client_ok p (pool_content p) (dm_next_page_id (bp_disk p)) q"
    "disk_page (bp_disk q) = pool_content p"
proof -
  have inv: "pool_inv p" and busy: "busy p = {}" "bp_frames p \<noteq> []" using assms by (auto simp: idle_def)
  have "\<not> unsaved p i" for i using unsaved_pinned [OF inv, of i] busy(1) by blast
  moreover obtain q where q: "flush_all p = (Inr (), q)" "pool_inv q" "pool_content q = pool_content p" "busy q = busy p"
    "bp_replacer q = bp_replacer p" "dm_next_page_id (bp_disk q) = dm_next_page_id (bp_disk p)"
    "length (bp_frames q) = length (bp_frames p)"
    "\<And>pid. \<not> unsaved p pid \<Longrightarrow> disk_page (bp_disk q) pid = pool_content p pid"
    using flush_all_saves [OF inv] by blast
  moreover have "bp_frames q \<noteq> []" using q(7) busy(2) by auto
  ultimately show ?thesis using that [of q] busy by (simp add: client_ok_def idle_def fun_eq_iff)
qed

section \<open>The pool refines a map of pages\<close>

datatype pool_op = ReadPage nat | WritePage nat "page \<Rightarrow> page" | AllocPage | FlushAll

fun pool_step :: "BufferPool \<Rightarrow> pool_op \<Rightarrow> (StorageError + page) \<times> BufferPool" where
  "pool_step p (ReadPage pid) = client_read p pid"
| "pool_step p (WritePage pid g) = client_write p pid g"
| "pool_step p AllocPage = client_alloc p"
| "pool_step p FlushAll = (case flush_all p of (r, q) \<Rightarrow> (rbind r (\<lambda>_. Inr []), q))"

fun pool_run :: "BufferPool \<Rightarrow> pool_op list \<Rightarrow> (StorageError + page) list \<times> BufferPool" where
  "pool_run p [] = ([], p)"
| "pool_run p (op # ops) =
     (case pool_step p op of (r, q) \<Rightarrow> (case pool_run q ops of (rs, q') \<Rightarrow> (r # rs, q')))"

text \<open>The specification: the pages and the next page id. \<open>None\<close> is a call outside the contract, a page
  that was never allocated or a change that gives a page of the wrong size.\<close>

fun pages_step :: "(nat \<Rightarrow> page option) \<times> nat \<Rightarrow> pool_op \<Rightarrow> (page \<times> (nat \<Rightarrow> page option) \<times> nat) option" where
  "pages_step (m, n) (ReadPage pid) = map_option (\<lambda>pg. (pg, m, n)) (m pid)"
| "pages_step (m, n) (WritePage pid g) =
     Option.bind (m pid) (\<lambda>pg. if length (g pg) = PAGE_SIZE then Some (g pg, m(pid \<mapsto> g pg), n) else None)"
| "pages_step (m, n) AllocPage = Some (page_new n, m(n \<mapsto> page_new n), n + 1)"
| "pages_step (m, n) FlushAll = Some ([], m, n)"

fun pages_run :: "(nat \<Rightarrow> page option) \<times> nat \<Rightarrow> pool_op list \<Rightarrow> (page list \<times> (nat \<Rightarrow> page option) \<times> nat) option" where
  "pages_run s [] = Some ([], s)"
| "pages_run s (op # ops) =
     Option.bind (pages_step s op) (\<lambda>(r, s'). map_option (\<lambda>(rs, s''). (r # rs, s'')) (pages_run s' ops))"

lemma pool_step_refines:
  assumes idle: "idle p" and clock: "lr_clock (bp_replacer p) + 1 < 2 ^ 64"
    and room: "dm_next_page_id (bp_disk p) + 1 < 2 ^ 51"
    and spec: "pages_step (pool_content p, dm_next_page_id (bp_disk p)) op = Some (r, m, n)"
  obtains q where "pool_step p op = (Inr r, q)" "client_ok p m n q" "n \<le> dm_next_page_id (bp_disk p) + 1"
proof (cases op)
  case (ReadPage pid)
  with spec have s: "pool_content p pid = Some r" "m = pool_content p" "n = dm_next_page_id (bp_disk p)" by auto
  show ?thesis by (rule client_read_ok [OF idle s(1) clock]) (use that ReadPage s in simp)
next
  case (WritePage pid g)
  with spec obtain pg where s: "pool_content p pid = Some pg" "length (g pg) = PAGE_SIZE" "r = g pg"
    "m = (pool_content p)(pid \<mapsto> g pg)" "n = dm_next_page_id (bp_disk p)"
    by (auto simp: bind_eq_Some_conv split: if_splits)
  show ?thesis by (rule client_write_ok [where g = g, OF idle s(1) clock s(2)]) (use that WritePage s in simp)
next
  case AllocPage
  show ?thesis by (rule client_alloc_ok [OF idle clock room]) (use that AllocPage spec in auto)
next
  case FlushAll
  show ?thesis by (rule flush_all_ok [OF idle]) (use that FlushAll spec in auto)
qed

lemma pool_run_refines:
  assumes "idle p" "lr_clock (bp_replacer p) + length ops < 2 ^ 64" "dm_next_page_id (bp_disk p) + length ops < 2 ^ 51"
    "pages_run (pool_content p, dm_next_page_id (bp_disk p)) ops = Some (rs, m, n)"
  shows "\<exists>q. pool_run p ops = (map Inr rs, q) \<and> idle q \<and> pool_content q = m \<and> dm_next_page_id (bp_disk q) = n"
  using assms
proof (induction ops arbitrary: p rs)
  case Nil
  then show ?case by simp
next
  case (Cons op ops)
  from Cons.prems(4) obtain r m1 n1 rs' where s: "pages_step (pool_content p, dm_next_page_id (bp_disk p)) op = Some (r, m1, n1)"
    "pages_run (m1, n1) ops = Some (rs', m, n)" "rs = r # rs'"
    by (auto simp: bind_eq_Some_conv)
  have c: "lr_clock (bp_replacer p) + 1 < 2 ^ 64" "dm_next_page_id (bp_disk p) + 1 < 2 ^ 51" using Cons.prems by simp_all
  obtain q where q: "pool_step p op = (Inr r, q)" "client_ok p m1 n1 q" "n1 \<le> dm_next_page_id (bp_disk p) + 1"
    using pool_step_refines [OF Cons.prems(1) c s(1)] by blast
  then have "idle q" "pool_content q = m1" "dm_next_page_id (bp_disk q) = n1"
    "lr_clock (bp_replacer q) + length ops < 2 ^ 64" "n1 + length ops < 2 ^ 51"
    using Cons.prems(2,3) by (simp_all add: client_ok_def)
  with Cons.IH [of q rs'] s(2,3) q(1) show ?case by auto
qed

lemma find_free_frame_keeps_pinned:
  assumes inv: "pool_inv p" and h: "holds_page p f pid" and pin: "fr_pin_count (bp_frames p ! f) \<noteq> 0"
    and ff: "find_free_frame p = (r, q)"
  shows "holds_page q f pid \<and> bp_frames q ! f = bp_frames p ! f \<and> r \<noteq> Inr f"
proof (cases r)
  case (Inl e)
  then show ?thesis using ff h by (cases rule: find_free_frame_cases [OF inv]) auto
next
  case (Inr g)
  note B = find_free_frame_busy [OF inv ff [unfolded Inr]]
  have "g \<noteq> f" using B(5) pin_not_busy [OF inv h] pin by auto
  with B(3) [of f pid] B(4) [of f] h Inr show ?thesis by simp
qed

lemma set_frame_other: "f \<noteq> g \<Longrightarrow> bp_frames (set_frame g u p) ! f = bp_frames p ! f"
  "length (bp_frames (set_frame g u p)) = length (bp_frames p)"
  by (simp_all add: set_frame_def)

lemma idle_pool_new: "disk_inv d \<Longrightarrow> 0 < n \<Longrightarrow> idle (pool_new n d)"
  using pool_new_inv [of d n] by (auto simp: idle_def busy_def pool_new_def)

lemma pool_new_sel: "bp_disk (pool_new n d) = d" "lr_clock (bp_replacer (pool_new n d)) = 0"
  by (simp_all add: pool_new_def lru_new_def)

text \<open>A new database with its first page allocated, as the concrete inputs below use it.\<close>

lemma first_page:
  assumes "0 < n"
  obtains p where "client_alloc (pool_new n disk_create) = (Inr (page_new 1), p)" "idle p"
    "pool_content p 1 = Some (page_new 1)" "lr_clock (bp_replacer p) \<le> 1"
proof -
  have d: "disk_inv disk_create" "dm_next_page_id disk_create = 1" using disk_create_ok by simp_all
  show ?thesis
    by (rule client_alloc_ok [OF idle_pool_new [OF d(1) assms]])
       (use that in \<open>auto simp: pool_new_sel d client_ok_def\<close>)
qed

section \<open>Properties\<close>

text \<open>C4. The buffer pool refines a map from page ids to pages. On a pool with no pinned page, of
  any size, a sequence of page reads, page changes, allocations and flushes by clients that unpin what they fetch
  never fails, returns the page the map holds, and leaves the map's contents, however pages moved
  between frames and disk.\<close>

theorem pool_refines_pages:
  assumes "idle p" "pages_run (pool_content p, page_count (bp_disk p)) ops = Some (rs, m, n)"
    "lr_clock (bp_replacer p) + length ops < 2 ^ 64" "page_count (bp_disk p) + length ops < 2 ^ 51"
  shows "\<exists>q. pool_run p ops = (map Inr rs, q) \<and> idle q \<and> pool_content q = m \<and> page_count (bp_disk q) = n"
  using pool_run_refines [of p ops rs m n] assms by (simp add: page_count_def)

theorem pool_refines_pages_witness:
  "\<exists>q. pool_run (pool_new 1 disk_create) [AllocPage, AllocPage, WritePage 1 (\<lambda>p. set_lsn p 7), ReadPage 2, ReadPage 1] =
     ([Inr (page_new 1), Inr (page_new 2), Inr (set_lsn (page_new 1) 7), Inr (page_new 2), Inr (set_lsn (page_new 1) 7)], q)"
proof -
  let ?ops = "[AllocPage, AllocPage, WritePage 1 (\<lambda>p. set_lsn p 7), ReadPage 2, ReadPage 1]"
  have d: "disk_inv disk_create" "dm_next_page_id disk_create = 1" using disk_create_ok by simp_all
  have i: "idle (pool_new 1 disk_create)" using idle_pool_new [OF d(1)] by simp
  have len: "length (set_lsn (page_new 1) 7) = PAGE_SIZE" by (simp add: set_lsn_def write_u64_def buf_simps)
  have "pages_run (pool_content (pool_new 1 disk_create), page_count (bp_disk (pool_new 1 disk_create))) ?ops =
    Some ([page_new 1, page_new 2, set_lsn (page_new 1) 7, page_new 2, set_lsn (page_new 1) 7],
      (pool_content (pool_new 1 disk_create))(1 \<mapsto> set_lsn (page_new 1) 7, 2 \<mapsto> page_new 2), 3)"
    using len by (simp add: pool_new_sel d page_count_def numeral_2_eq_2 numeral_3_eq_3 fun_upd_twist)
  from pool_refines_pages [OF i this] show ?thesis
    by (simp add: pool_new_sel d page_count_def del: pool_run.simps) blast
qed

text \<open>A pinned page stays: while a client holds a pin on a page, no fetch of any page and no
  allocation, failed or not, takes its frame away or changes its bytes.\<close>

lemma pinned_page_stays:
  assumes inv: "pool_inv p" and h: "hm_get (bp_page_table p) pid = Some f"
    and pin: "0 < fr_pin_count (bp_frames p ! f)"
  shows "holds_page (snd (fetch_page p i)) f pid \<and> pool_page (snd (fetch_page p i)) f = pool_page p f \<and>
    holds_page (snd (new_page p)) f pid \<and> pool_page (snd (new_page p)) f = pool_page p f"
proof -
  have hf: "holds_page p f pid" using h inv_table [OF inv] by simp
  obtain r q where ff: "find_free_frame p = (r, q)" by force
  have k: "holds_page q f pid" "bp_frames q ! f = bp_frames p ! f" "r \<noteq> Inr f"
    using find_free_frame_keeps_pinned [OF inv hf _ ff] pin by auto
  have ne: "f \<noteq> g" if "r = Inr g" for g using that k(3) by blast
  have "holds_page (snd (new_page p)) f pid \<and> pool_page (snd (new_page p)) f = pool_page p f"
  proof (cases r)
    case (Inr g)
    then show ?thesis using k ne [OF Inr] ff
      by (simp add: new_page_def Let_def holds_page_def pool_page_def set_frame_other split: prod.split)
  qed (use k ff in \<open>simp add: new_page_def pool_page_def\<close>)
  moreover have "holds_page (snd (fetch_page p i)) f pid \<and> pool_page (snd (fetch_page p i)) f = pool_page p f"
  proof (cases "hm_get (bp_page_table p) i")
    case (Some g)
    then show ?thesis using hf
      by (cases "f = g") (simp_all add: fetch_page_def Let_def holds_page_def pool_page_def set_frame_def)
  next
    case None
    show ?thesis
    proof (cases r)
      case (Inr g)
      then show ?thesis using k ne [OF Inr] ff None
        by (simp add: fetch_page_def Let_def holds_page_def pool_page_def set_frame_other split: sum.split)
    qed (use k ff None in \<open>simp add: fetch_page_def pool_page_def\<close>)
  qed
  ultimately show ?thesis by blast
qed

text \<open>C24. What is flushed is durable: after \<open>flush_all\<close>, with or without pinned pages, the database file can be
  opened again with the same number of pages, and a page read from it is the page the pool's clients saw. The one
  exception is a pinned page that its holder has changed but not yet unpinned as dirty; the pool and the pins are
  as before.\<close>

theorem flush_all_durable:
  assumes "pool_inv p" "pool_content p i = Some pg" "\<not> unsaved p i"
  shows "\<exists>q dm. flush_all p = (Inr (), q) \<and> pool_inv q \<and> pool_content q = pool_content p \<and> busy q = busy p \<and>
    disk_open (dm_file (bp_disk q)) = Inr dm \<and> page_count dm = page_count (bp_disk p) \<and> disk_read_page dm i = Inr pg"
proof -
  obtain q where q: "flush_all p = (Inr (), q)" "pool_inv q" "pool_content q = pool_content p" "busy q = busy p"
    "bp_replacer q = bp_replacer p" "dm_next_page_id (bp_disk q) = dm_next_page_id (bp_disk p)"
    "length (bp_frames q) = length (bp_frames p)"
    "\<And>pid. \<not> unsaved p pid \<Longrightarrow> disk_page (bp_disk q) pid = pool_content p pid"
    using flush_all_saves [OF assms(1)] by blast
  note inv = inv_disk [OF q(2)]
  show ?thesis
    using disk_open_ok [OF inv] disk.rd_ok [OF inv, of i pg] q assms(2,3) by (simp add: page_count_def)
qed

theorem flush_all_durable_witness:
  "\<exists>q dm. flush_all (snd (new_page (pool_new 2 disk_create))) = (Inr (), q) \<and> busy q = {0} \<and>
     disk_open (dm_file (bp_disk q)) = Inr dm \<and> disk_read_page dm 1 = Inr (page_new 1)"
proof -
  have d: "disk_inv disk_create" "dm_next_page_id disk_create = 1" using disk_create_ok by simp_all
  note inv = pool_new_inv [OF d(1), of 2, THEN conjunct1]
  let ?p = "pool_new 2 disk_create"
  have ff: "find_free_frame ?p = (Inr 0, ?p\<lparr>bp_free_list := [1]\<rparr>)"
    by (simp add: find_free_frame_def pool_new_def upt_rec)
  obtain p where p: "new_page ?p = (Inr (1, 0), p)" "pinned_in ?p 0 1 (page_new 1) p"
    "pool_content p = (pool_content ?p)(1 \<mapsto> page_new 1)" "fr_is_dirty (bp_frames p ! 0)"
    using new_page_ok [OF inv ff] d by (auto simp: pool_new_sel)
  have nc: "\<not> contains_page ?p 1" by (simp add: contains_page_def pool_new_def)
  have b0: "busy ?p = {}" using idle_pool_new [OF d(1), of 2] by (simp add: idle_def)
  have i: "pool_inv p" "holds_page p 0 1" "busy p = {0}" using p(2) nc b0 by (simp_all add: pinned_in_def)
  have "\<not> unsaved p 1" using p(4) i(2) dirty_pages_held [of 1 p] by (auto simp: unsaved_def)
  with flush_all_durable [OF i(1), of 1 "page_new 1"] p(1,3) i(3) show ?thesis by auto
qed

text \<open>A fetch that fails loses a frame. Fetching a page that was never allocated returns the
  I/O error and leaves every page as it was, but the frame found for it is neither free nor
  evictable afterwards: an idle pool has a frame in nobody's hands that no later call can use.\<close>

lemma failed_fetch_loses_frame:
  assumes "idle p" "page_count (bp_disk p) \<le> pid" "pid < 2 ^ 51"
  shows "\<exists>q f. fetch_page p pid = (Inl Io, q) \<and> pool_inv q \<and> pool_content q = pool_content p \<and>
    f < pool_size q \<and> f \<notin> set (bp_free_list q) \<and> f \<notin> lr_evictable (bp_replacer q) \<and>
    (\<forall>i. \<not> holds_page q f i)"
proof -
  have inv: "pool_inv p" and b: "busy p = {}" "0 < length (bp_frames p)" using assms by (auto simp: idle_def)
  obtain f q where ff: "find_free_frame p = (Inr f, q)" using find_free_frame_total [OF inv b(2)] b(1) by auto
  note R = find_free_frame_ok [OF inv ff, unfolded frame_ready_def]
  have n: "hm_get (bp_page_table p) pid = None"
    using inv_table [OF inv, of pid] inv_pid [OF inv, of _ pid] assms(2)
    by (cases "hm_get (bp_page_table p) pid") (auto simp: page_count_def)
  have "disk_read_page (bp_disk q) pid = Inl Io"
    using disk_read_page_None [of "bp_disk q" pid] R inv_disk [of q] assms by (simp add: page_count_def)
  then have "fetch_page p pid = (Inl Io, q)" using n ff by (simp add: fetch_page_def)
  moreover have "f \<notin> lr_evictable (bp_replacer q)"
    using R inv_evictable [of q] by (auto simp: used_frames_def holds_page_def)
  ultimately show ?thesis using R by (intro exI [of _ q] exI [of _ f]) (auto simp: pool_size_def holds_page_def)
qed

end
