(* ===== verification/Free_Space_Map.thy ===== *)
theory Free_Space_Map
  imports Prelude
begin

text \<open>
  The free space map of \<^verbatim>\<open>crates/storage/src/heap.rs\<close>: a binary tree in an array whose leaves hold
  the free space of the pages in units of 32 bytes and whose inner nodes hold the maximum of
  their children. The invariant \<open>fsm_inv\<close> is that maximum property; \<open>fsm_leaf\<close> is the abstraction,
  the value recorded for each page.
\<close>

record FreeSpaceMap =
  fsm_tree :: "nat list"
  fsm_capacity :: nat
  fsm_first_page_id :: nat

function next_power_of_two :: "nat \<Rightarrow> nat" where
  "next_power_of_two n = (if n \<le> 1 then 1 else 2 * next_power_of_two ((n + 1) div 2))"
  by pat_completeness auto
termination by (relation "measure id") auto

declare next_power_of_two.simps [simp del]

definition fsm_new :: "nat \<Rightarrow> nat \<Rightarrow> FreeSpaceMap" where
  "fsm_new capacity first_page_id =
     (let cap = max (next_power_of_two capacity) 1
      in \<lparr>fsm_tree = replicate (cap * 2) 0, fsm_capacity = cap, fsm_first_page_id = first_page_id\<rparr>)"

definition encode_free :: "nat \<Rightarrow> nat" where
  "encode_free free_bytes = min (free_bytes div 32) 255"

definition leaf_index :: "FreeSpaceMap \<Rightarrow> nat \<Rightarrow> nat" where
  "leaf_index m pid = u64_add (fsm_capacity m) ((pid + 2 ^ 64 - fsm_first_page_id m) mod 2 ^ 64)"

function propagate_loop :: "nat list \<Rightarrow> nat \<Rightarrow> nat list" where
  "propagate_loop t idx =
     (if idx < 1 then t
      else propagate_loop (t[idx := max (t ! (2 * idx)) (t ! (2 * idx + 1))]) (idx div 2))"
  by pat_completeness auto
termination by (relation "measure snd") auto

declare propagate_loop.simps [simp del]

definition propagate_up :: "nat list \<Rightarrow> nat \<Rightarrow> nat list" where
  "propagate_up t idx = propagate_loop t (idx div 2)"

definition fsm_update :: "FreeSpaceMap \<Rightarrow> nat \<Rightarrow> nat \<Rightarrow> FreeSpaceMap" where
  "fsm_update m pid free_bytes =
     (let idx = leaf_index m pid
      in if idx \<ge> fsm_capacity m * 2 then m
         else m\<lparr>fsm_tree := propagate_up ((fsm_tree m)[idx := encode_free free_bytes]) idx\<rparr>)"

function descend :: "nat list \<Rightarrow> nat \<Rightarrow> nat \<Rightarrow> nat \<Rightarrow> nat" where
  \<comment> \<open>the loop of \<open>find_page\<close>; it starts at 1, so its index is never 0\<close>
  "descend t cap needed idx =
     (if 0 < idx \<and> idx < cap
      then descend t cap needed (if t ! (2 * idx) \<ge> needed then 2 * idx else 2 * idx + 1)
      else idx)"
  by pat_completeness auto
termination by (relation "measure (\<lambda>(t, cap, needed, idx). cap - idx)") auto

declare descend.simps [simp del]

definition find_page :: "FreeSpaceMap \<Rightarrow> nat \<Rightarrow> nat option" where
  "find_page m needed_bytes =
     (let needed = encode_free needed_bytes
      in if fsm_tree m ! 1 < needed then None
         else let idx = descend (fsm_tree m) (fsm_capacity m) needed 1;
                  page_offset = idx - fsm_capacity m
              in Some (u64_add (fsm_first_page_id m) page_offset))"

section \<open>The invariant\<close>

definition node_ok :: "nat list \<Rightarrow> nat \<Rightarrow> bool" where
  "node_ok t i \<longleftrightarrow> t ! i = max (t ! (2 * i)) (t ! (2 * i + 1))"

definition fsm_inv :: "FreeSpaceMap \<Rightarrow> bool" where
  "fsm_inv m \<longleftrightarrow> 0 < fsm_capacity m \<and> fsm_capacity m < 2 ^ 62 \<and> fsm_first_page_id m < 2 ^ 62 \<and>
     length (fsm_tree m) = 2 * fsm_capacity m \<and> (\<forall>i. 0 < i \<and> i < fsm_capacity m \<longrightarrow> node_ok (fsm_tree m) i)"

definition tracked :: "FreeSpaceMap \<Rightarrow> nat \<Rightarrow> bool" where
  "tracked m pid \<longleftrightarrow> fsm_first_page_id m \<le> pid \<and> pid < fsm_first_page_id m + fsm_capacity m"

definition fsm_leaf :: "FreeSpaceMap \<Rightarrow> nat \<Rightarrow> nat" where
  "fsm_leaf m pid = fsm_tree m ! (fsm_capacity m + (pid - fsm_first_page_id m))"

lemma next_power_of_two_even: "1 < n \<Longrightarrow> even (next_power_of_two n)"
  by (subst next_power_of_two.simps) simp

lemma next_power_of_two_ge: "n \<le> next_power_of_two n \<and> 0 < next_power_of_two n"
proof (induction n rule: next_power_of_two.induct)
  case (1 n)
  then show ?case by (cases "n \<le> 1") (auto simp: next_power_of_two.simps [of n])
qed

lemma next_power_of_two_less: "0 < n \<Longrightarrow> next_power_of_two n < 2 * n"
proof (induction n rule: next_power_of_two.induct)
  case (1 n)
  show ?case
  proof (cases "n \<le> 1")
    case False
    let ?h = "(n + 1) div 2"
    have IH: "next_power_of_two ?h < 2 * ?h" using 1 False by simp
    have "next_power_of_two ?h < n"
    proof (cases "even n")
      case True
      with IH show ?thesis by auto
    next
      case odd: False
      then have "even (next_power_of_two ?h)" using next_power_of_two_even [of ?h] False by auto
      moreover have "2 * ?h = n + 1" using odd by simp
      ultimately show ?thesis using IH odd by presburger
    qed
    then show ?thesis using False next_power_of_two.simps [of n] by simp
  qed (use 1 in \<open>simp add: next_power_of_two.simps [of n]\<close>)
qed

lemma leaf_index_tracked:
  assumes "fsm_inv m" "fsm_first_page_id m \<le> pid" "pid < 2 ^ 62"
  shows "leaf_index m pid = fsm_capacity m + (pid - fsm_first_page_id m)"
proof -
  have "(pid + 2 ^ 64 - fsm_first_page_id m) mod 2 ^ 64 = (pid - fsm_first_page_id m + 2 ^ 64) mod 2 ^ 64"
    using assms(2) by simp
  also have "\<dots> = pid - fsm_first_page_id m" using assms(3) by (simp del: power.simps)
  finally have e: "(pid + 2 ^ 64 - fsm_first_page_id m) mod 2 ^ 64 = pid - fsm_first_page_id m" .
  have "fsm_capacity m + (pid - fsm_first_page_id m) < 2 ^ 64" using assms by (auto simp: fsm_inv_def)
  then show ?thesis unfolding leaf_index_def e by (rule u64_add_small)
qed

lemma length_propagate_loop [simp]: "length (propagate_loop t i) = length t"
  by (induction t i rule: propagate_loop.induct) (simp add: propagate_loop.simps)

lemma propagate_loop_high: "i < j \<Longrightarrow> propagate_loop t i ! j = t ! j"
proof (induction t i rule: propagate_loop.induct)
  case (1 t i)
  then show ?case by (cases "i = 0") (simp_all add: propagate_loop.simps [of t])
qed

text \<open>One bad node moves up to the root and out.\<close>

lemma propagate_loop_ok:
  assumes "\<forall>i. 0 < i \<and> i < cap \<and> i \<noteq> cur \<longrightarrow> node_ok t i" "cur < cap" "length t = 2 * cap"
  shows "\<forall>i. 0 < i \<and> i < cap \<longrightarrow> node_ok (propagate_loop t cur) i"
  using assms
proof (induction t cur rule: propagate_loop.induct)
  case (1 t cur)
  show ?case
  proof (cases "cur = 0")
    case True
    then show ?thesis using 1 by (simp add: propagate_loop.simps [of t 0])
  next
    case pos: False
    let ?t = "t[cur := max (t ! (2 * cur)) (t ! (2 * cur + 1))]"
    have "node_ok ?t j" if j: "0 < j" "j < cap" "j \<noteq> cur div 2" for j
    proof (cases "j = cur")
      case True
      then show ?thesis using pos 1 by (simp add: node_ok_def)
    next
      case ne: False
      have "2 * j \<noteq> cur" "2 * j + 1 \<noteq> cur" using j(3) by auto
      moreover have "node_ok t j" using 1 j ne by blast
      ultimately show ?thesis using ne by (simp add: node_ok_def)
    qed
    moreover have "cur div 2 < cap" using 1 by simp
    ultimately show ?thesis using 1 pos by (simp add: propagate_loop.simps [of t cur])
  qed
qed

lemma fsm_new_inv:
  assumes "capacity < 2 ^ 60" "first < 2 ^ 62"
  shows "fsm_inv (fsm_new capacity first)" "fsm_first_page_id (fsm_new capacity first) = first"
    "capacity \<le> fsm_capacity (fsm_new capacity first)"
proof -
  have "next_power_of_two capacity < 2 ^ 62" "capacity \<le> next_power_of_two capacity" "0 < next_power_of_two capacity"
    using assms(1) next_power_of_two_ge [of capacity] next_power_of_two_less [of capacity]
    by (cases "capacity = 0", auto simp: next_power_of_two.simps [of 0])
  then show "fsm_inv (fsm_new capacity first)" "fsm_first_page_id (fsm_new capacity first) = first"
    "capacity \<le> fsm_capacity (fsm_new capacity first)"
    using assms(2) by (auto simp: fsm_new_def fsm_inv_def node_ok_def Let_def max_def)
qed

lemma fsm_update_ok:
  fixes free :: nat
  assumes inv: "fsm_inv m" and pid: "fsm_first_page_id m \<le> pid" "pid < 2 ^ 62"
  defines "m' \<equiv> fsm_update m pid free"
  shows "fsm_inv m'" "fsm_first_page_id m' = fsm_first_page_id m" "fsm_capacity m' = fsm_capacity m"
    "tracked m q \<Longrightarrow> fsm_leaf m' q = (if q = pid then encode_free free else fsm_leaf m q)"
proof -
  let ?cap = "fsm_capacity m" and ?idx = "fsm_capacity m + (pid - fsm_first_page_id m)"
  note L = leaf_index_tracked [OF inv pid]
  have same: "fsm_first_page_id m' = fsm_first_page_id m \<and> fsm_capacity m' = fsm_capacity m"
    by (simp add: m'_def fsm_update_def Let_def)
  show "fsm_first_page_id m' = fsm_first_page_id m" "fsm_capacity m' = fsm_capacity m" using same by simp_all
  have "fsm_inv m' \<and> (tracked m q \<longrightarrow> fsm_leaf m' q = (if q = pid then encode_free free else fsm_leaf m q))"
  proof (cases "?idx \<ge> ?cap * 2")
    case True
    then have "m' = m" using L by (simp add: m'_def fsm_update_def)
    then show ?thesis using inv True by (auto simp: tracked_def)
  next
    case False
    let ?t = "(fsm_tree m)[?idx := encode_free free]"
    have t: "fsm_tree m' = propagate_loop ?t (?idx div 2)"
      using L False by (simp add: m'_def fsm_update_def propagate_up_def Let_def)
    have len: "length (fsm_tree m) = 2 * ?cap" "0 < ?cap" using inv by (simp_all add: fsm_inv_def)
    have ok: "node_ok ?t j" if j: "0 < j" "j < ?cap" "j \<noteq> ?idx div 2" for j
    proof -
      have "2 * j \<noteq> ?idx" "2 * j + 1 \<noteq> ?idx" "j \<noteq> ?idx" using j by auto
      moreover have "node_ok (fsm_tree m) j" using inv j by (simp add: fsm_inv_def)
      ultimately show ?thesis by (simp add: node_ok_def)
    qed
    have half: "?idx div 2 < ?cap" using False by simp
    have "node_ok (fsm_tree m') i" if "0 < i" "i < ?cap" for i
      unfolding t using propagate_loop_ok [of ?cap "?idx div 2" ?t] ok half that len by simp
    moreover have "length (fsm_tree m') = 2 * ?cap" using len by (simp add: t)
    ultimately have "fsm_inv m'" using inv same by (simp add: fsm_inv_def)
    moreover have "fsm_leaf m' q = (if q = pid then encode_free free else fsm_leaf m q)" if q: "tracked m q"
    proof -
      have "?idx div 2 < ?cap + (q - fsm_first_page_id m)" using half by simp
      then have "fsm_leaf m' q = ?t ! (?cap + (q - fsm_first_page_id m))"
        using same propagate_loop_high by (simp add: fsm_leaf_def t)
      then show ?thesis
        using q pid len False by (auto simp: fsm_leaf_def tracked_def nth_list_update)
    qed
    ultimately show ?thesis by blast
  qed
  then show "fsm_inv m'" "tracked m q \<Longrightarrow> fsm_leaf m' q = (if q = pid then encode_free free else fsm_leaf m q)"
    by blast+
qed

section \<open>Searching\<close>

lemma node_le_root:
  assumes "fsm_inv m" "0 < j" "j < 2 * fsm_capacity m"
  shows "fsm_tree m ! j \<le> fsm_tree m ! 1"
  using assms(2,3)
proof (induction j rule: less_induct)
  case (less j)
  show ?case
  proof (cases "j = 1")
    case False
    then have h: "0 < j div 2" "j div 2 < j" "j div 2 < fsm_capacity m" using less.prems by auto
    have "j = 2 * (j div 2) \<or> j = 2 * (j div 2) + 1" by presburger
    then have "fsm_tree m ! j \<le> fsm_tree m ! (j div 2)"
      using assms(1) h unfolding fsm_inv_def node_ok_def by (metis max.cobounded1 max.cobounded2)
    then show ?thesis using less.IH [of "j div 2"] h by simp
  qed simp
qed

lemma descend_ok:
  assumes "fsm_inv m" "0 < idx" "idx < 2 * fsm_capacity m" "needed \<le> fsm_tree m ! idx"
  shows "let j = descend (fsm_tree m) (fsm_capacity m) needed idx
    in fsm_capacity m \<le> j \<and> j < 2 * fsm_capacity m \<and> needed \<le> fsm_tree m ! j"
  using assms
proof (induction "fsm_tree m" "fsm_capacity m" needed idx rule: descend.induct)
  case (1 needed idx)
  show ?case
  proof (cases "idx < fsm_capacity m")
    case True
    then have "node_ok (fsm_tree m) idx" using 1 by (simp add: fsm_inv_def)
    then have "needed \<le> fsm_tree m ! (if fsm_tree m ! (2 * idx) \<ge> needed then 2 * idx else 2 * idx + 1)"
      using 1 by (auto simp: node_ok_def)
    then show ?thesis
      using 1 True by (subst descend.simps) (simp split: if_splits)
  next
    case False
    then show ?thesis using 1 by (simp add: descend.simps)
  qed
qed

lemma find_page_Some:
  assumes inv: "fsm_inv m" and f: "find_page m needed = Some pid"
  shows "tracked m pid" "encode_free needed \<le> fsm_leaf m pid"
proof -
  let ?j = "descend (fsm_tree m) (fsm_capacity m) (encode_free needed) 1"
  have r: "encode_free needed \<le> fsm_tree m ! 1"
    using f by (simp add: find_page_def Let_def split: if_splits)
  have p: "pid = u64_add (fsm_first_page_id m) (?j - fsm_capacity m)"
    using f by (simp add: find_page_def Let_def split: if_splits)
  have "0 < fsm_capacity m" using inv by (simp add: fsm_inv_def)
  then have j: "fsm_capacity m \<le> ?j" "?j < 2 * fsm_capacity m" "encode_free needed \<le> fsm_tree m ! ?j"
    using descend_ok [OF inv _ _ r] by (simp_all add: Let_def)
  then have "fsm_first_page_id m + (?j - fsm_capacity m) < 2 ^ 64" using inv by (auto simp: fsm_inv_def)
  then have "pid = fsm_first_page_id m + (?j - fsm_capacity m)" unfolding p by (rule u64_add_small)
  then show "tracked m pid" "encode_free needed \<le> fsm_leaf m pid"
    using j by (auto simp: tracked_def fsm_leaf_def)
qed

lemma find_page_None:
  assumes inv: "fsm_inv m" and f: "find_page m needed = None" and t: "tracked m pid"
  shows "fsm_leaf m pid < encode_free needed"
proof -
  have "fsm_tree m ! 1 < encode_free needed"
    using f by (simp add: find_page_def Let_def split: if_splits)
  moreover have "fsm_leaf m pid \<le> fsm_tree m ! 1"
    using node_le_root [OF inv, of "fsm_capacity m + (pid - fsm_first_page_id m)"] t inv
    by (auto simp: fsm_leaf_def tracked_def fsm_inv_def)
  ultimately show ?thesis by simp
qed

lemma encode_free_exact:
  assumes "encode_free needed \<le> encode_free free" "32 dvd needed" "needed div 32 \<le> 255"
  shows "needed \<le> free"
proof -
  have "needed div 32 \<le> free div 32" using assms by (simp add: encode_free_def split: if_splits)
  then have "needed div 32 * 32 \<le> free div 32 * 32" by simp
  also have "\<dots> \<le> free" by simp
  finally show ?thesis using assms(2) by simp
qed

section \<open>Properties\<close>

text \<open>The free space map finds space exactly when a page it tracks has it: after any updates of pages it covers,
  \<open>find_page\<close> returns a tracked page whose last recorded value reaches the request, both in units of
  32 bytes, and answers \<open>None\<close> only if no tracked page does.\<close>

lemma fsm_finds_space:
  fixes capacity first :: nat and ups :: "(nat \<times> nat) list"
  defines "m \<equiv> fold (\<lambda>(pid, free) m. fsm_update m pid free) ups (fsm_new capacity first)"
  defines "recorded \<equiv> (\<lambda>pid. case map_of (rev ups) pid of Some f \<Rightarrow> f | None \<Rightarrow> 0)"
  assumes "capacity < 2 ^ 60" "first < 2 ^ 61"
    and "\<And>pid f. (pid, f) \<in> set ups \<Longrightarrow> first \<le> pid \<and> pid < first + capacity"
  shows "case find_page m needed of
      Some pid \<Rightarrow> tracked m pid \<and> encode_free needed \<le> encode_free (recorded pid)
    | None \<Rightarrow> \<forall>pid. first \<le> pid \<and> pid < first + capacity \<longrightarrow> encode_free (recorded pid) < encode_free needed"
proof -
  let ?run = "\<lambda>us. fold (\<lambda>(pid, free) m. fsm_update m pid free) us (fsm_new capacity first)"
  have "fsm_inv (?run us) \<and> fsm_first_page_id (?run us) = first \<and>
      fsm_capacity (?run us) = fsm_capacity (fsm_new capacity first) \<and>
      (\<forall>q. tracked (fsm_new capacity first) q \<longrightarrow>
        fsm_leaf (?run us) q = encode_free (case map_of (rev us) q of Some f \<Rightarrow> f | None \<Rightarrow> 0))"
    if "set us \<subseteq> set ups" for us
    using that
  proof (induction us rule: rev_induct)
    case Nil
    then show ?case using fsm_new_inv [of capacity first] assms(3,4)
      by (auto simp: tracked_def fsm_leaf_def fsm_new_def encode_free_def Let_def)
  next
    case (snoc u us)
    obtain pid f where u: "u = (pid, f)" by force
    have r: "first \<le> pid" "pid < 2 ^ 62" using snoc.prems u assms(3,4) assms(5) [of pid f] by auto
    have IH: "fsm_inv (?run us)" "fsm_first_page_id (?run us) = first"
      "fsm_capacity (?run us) = fsm_capacity (fsm_new capacity first)"
      "\<And>q. tracked (fsm_new capacity first) q \<Longrightarrow>
        fsm_leaf (?run us) q = encode_free (case map_of (rev us) q of Some f \<Rightarrow> f | None \<Rightarrow> 0)"
      using snoc by auto
    have tr: "tracked (?run us) q \<longleftrightarrow> tracked (fsm_new capacity first) q" for q
      using IH fsm_new_inv [of capacity first] assms(3,4) by (simp add: tracked_def)
    note U = fsm_update_ok [OF IH(1), where pid = pid and free = f]
    show ?case using U IH r tr by (auto simp: u)
  qed
  from this [of ups] have M: "fsm_inv m" "fsm_first_page_id m = first"
    "fsm_capacity m = fsm_capacity (fsm_new capacity first)"
    "\<And>q. tracked (fsm_new capacity first) q \<Longrightarrow> fsm_leaf m q = encode_free (recorded q)"
    by (auto simp: m_def recorded_def)
  have tr: "tracked m q \<longleftrightarrow> tracked (fsm_new capacity first) q" for q
    using M(2,3) fsm_new_inv [of capacity first] assms(3,4) by (simp add: tracked_def)
  have cov: "first \<le> q \<and> q < first + capacity \<Longrightarrow> tracked m q" for q
    using M(2,3) fsm_new_inv [of capacity first] assms(3,4) by (simp add: tracked_def)
  show ?thesis
    using find_page_Some [OF M(1), of needed] find_page_None [OF M(1), of needed] M(4) tr cov
    by (auto split: option.split)
qed

text \<open>A page with less free space than asked for can be returned: requests are rounded down like the
  recorded space, and a request below 32 bytes is met by every map.\<close>

lemma find_page_rounds_down:
  "find_page (fsm_update (fsm_new 1 9) 9 33) 60 = Some 9" "find_page (fsm_update (fsm_new 1 9) 9 0) 31 = Some 9"
  by code_simp+

end
