(* ===== verification/Heap_File.thy ===== *)
theory Heap_File
  imports Buffer_Pool Wal Free_Space_Map
begin

text \<open>
  Heap files of \<^verbatim>\<open>crates/storage/src/heap.rs\<close>, on top of the buffer pool, the write-ahead log and the
  free space map. Every operation returns its result beside the heap file, the pool and the log, because a
  failed call can have changed them. \<open>heap_view\<close> is the abstraction: the tuple stored under a tuple id.
\<close>

record HeapFile =
  hf_table_id :: nat
  hf_fsm :: FreeSpaceMap
  hf_pages :: "nat list"

definition heap_new :: "nat \<Rightarrow> HeapFile" where
  "heap_new table_id = \<lparr>hf_table_id = table_id, hf_fsm = fsm_new 64 0, hf_pages = []\<rparr>"

fun refresh_fsm :: "nat list \<Rightarrow> FreeSpaceMap \<Rightarrow> BufferPool \<Rightarrow> (StorageError + unit) \<times> FreeSpaceMap \<times> BufferPool" where
  \<comment> \<open>the loop of \<open>find_or_alloc_page\<close> over the pages of the table\<close>
  "refresh_fsm [] m p = (Inr (), m, p)"
| "refresh_fsm (pid # pids) m p =
     (case fetch_page p pid of
        (Inl e, p1) \<Rightarrow> (Inl e, m, p1)
      | (Inr fid, p1) \<Rightarrow>
          let free = free_space (pool_page p1 fid)
          in (case unpin_page p1 pid False of
                (Inl e, p2) \<Rightarrow> (Inl e, m, p2)
              | (Inr _, p2) \<Rightarrow> refresh_fsm pids (fsm_update m pid free) p2))"

definition find_or_alloc_page ::
  "HeapFile \<Rightarrow> BufferPool \<Rightarrow> nat \<Rightarrow> (StorageError + nat) \<times> HeapFile \<times> BufferPool" where
  "find_or_alloc_page h p needed =
     (let alloc =
        (case new_page p of
           (Inl e, p1) \<Rightarrow> (Inl e, h, p1)
         | (Inr (pid, _), p1) \<Rightarrow>
             (case unpin_page p1 pid True of
                (Inl e, p2) \<Rightarrow> (Inl e, h, p2)
              | (Inr _, p2) \<Rightarrow>
                  let pages = hf_pages h @ [pid];
                      m = fsm_new (next_power_of_two (length pages)) (hd pages)
                  in (case refresh_fsm pages m p2 of
                        (Inl e, m1, p3) \<Rightarrow> (Inl e, h\<lparr>hf_pages := pages, hf_fsm := m1\<rparr>, p3)
                      | (Inr _, m1, p3) \<Rightarrow> (Inr pid, h\<lparr>hf_pages := pages, hf_fsm := m1\<rparr>, p3))))
      in (case find_page (hf_fsm h) needed of
            Some pid \<Rightarrow> if pid \<in> set (hf_pages h) then (Inr pid, h, p) else alloc
          | None \<Rightarrow> alloc))"

definition heap_insert_tuple ::
  "(byte list \<Rightarrow> nat) \<Rightarrow> HeapFile \<Rightarrow> BufferPool \<Rightarrow> WalManager \<Rightarrow> nat \<Rightarrow> byte list
   \<Rightarrow> (StorageError + TupleId) \<times> HeapFile \<times> BufferPool \<times> WalManager" where
  "heap_insert_tuple crc h p w xid d =
     (case find_or_alloc_page h p (SLOT_SIZE + length d) of
        (Inl e, h1, p1) \<Rightarrow> (Inl e, h1, p1, w)
      | (Inr pid, h1, p1) \<Rightarrow>
          (case fetch_page p1 pid of
             (Inl e, p2) \<Rightarrow> (Inl e, h1, p2, w)
           | (Inr fid, p2) \<Rightarrow>
               (case insert_tuple (pool_page p2 fid) d of
                  Inl e \<Rightarrow> (Inl e, h1, p2, w)
                | Inr (pg, slot_id) \<Rightarrow>
                    let p3 = page_mut fid (\<lambda>_. pg) p2;
                        new_free = free_space (pool_page p3 fid);
                        (lsn, w1) = write_record crc w xid (HeapInsert (hf_table_id h1) pid slot_id d);
                        p4 = page_mut fid (\<lambda>x. set_lsn x (wal_flushed_lsn w1)) p3
                    in (case unpin_page p4 pid True of
                          (Inl e, p5) \<Rightarrow> (Inl e, h1, p5, w1)
                        | (Inr _, p5) \<Rightarrow>
                            (Inr \<lparr>tid_page_id = pid, tid_slot_id = slot_id\<rparr>,
                             h1\<lparr>hf_fsm := fsm_update (hf_fsm h1) pid new_free\<rparr>, p5, w1)))))"

definition heap_get_tuple :: "BufferPool \<Rightarrow> TupleId \<Rightarrow> (StorageError + byte list) \<times> BufferPool" where
  "heap_get_tuple p tid =
     (case fetch_page p (tid_page_id tid) of
        (Inl e, p1) \<Rightarrow> (Inl e, p1)
      | (Inr fid, p1) \<Rightarrow>
          (case get_tuple (pool_page p1 fid) (tid_slot_id tid) of
             Inl e \<Rightarrow> (Inl e, p1)
           | Inr d \<Rightarrow>
               (case unpin_page p1 (tid_page_id tid) False of
                  (Inl e, p2) \<Rightarrow> (Inl e, p2)
                | (Inr _, p2) \<Rightarrow> (Inr d, p2))))"

definition heap_delete_tuple ::
  "(byte list \<Rightarrow> nat) \<Rightarrow> HeapFile \<Rightarrow> BufferPool \<Rightarrow> WalManager \<Rightarrow> nat \<Rightarrow> TupleId \<Rightarrow> nat
   \<Rightarrow> (StorageError + unit) \<times> BufferPool \<times> WalManager" where
  "heap_delete_tuple crc h p w xid tid old_xmax =
     (case fetch_page p (tid_page_id tid) of
        (Inl e, p1) \<Rightarrow> (Inl e, p1, w)
      | (Inr fid, p1) \<Rightarrow>
          (case delete_tuple (pool_page p1 fid) (tid_slot_id tid) of
             Inl e \<Rightarrow> (Inl e, p1, w)
           | Inr pg \<Rightarrow>
               let p2 = page_mut fid (\<lambda>_. pg) p1;
                   (lsn, w1) = write_record crc w xid
                     (HeapDelete (hf_table_id h) (tid_page_id tid) (tid_slot_id tid) old_xmax);
                   p3 = page_mut fid (\<lambda>x. set_lsn x (wal_flushed_lsn w1)) p2
               in (case unpin_page p3 (tid_page_id tid) True of
                     (Inl e, p4) \<Rightarrow> (Inl e, p4, w1)
                   | (Inr _, p4) \<Rightarrow> (Inr (), p4, w1))))"

fun scan_slots :: "page \<Rightarrow> nat \<Rightarrow> nat list \<Rightarrow> StorageError + (TupleId \<times> byte list) list" where
  "scan_slots pg pid [] = Inr []"
| "scan_slots pg pid (slot_id # slots) =
     (if is_slot_used pg slot_id
      then rbind (get_tuple pg slot_id) (\<lambda>d. rbind (scan_slots pg pid slots)
             (\<lambda>rs. Inr ((\<lparr>tid_page_id = pid, tid_slot_id = slot_id\<rparr>, d) # rs)))
      else scan_slots pg pid slots)"

fun scan_pages :: "nat list \<Rightarrow> BufferPool \<Rightarrow> (StorageError + (TupleId \<times> byte list) list) \<times> BufferPool" where
  "scan_pages [] p = (Inr [], p)"
| "scan_pages (pid # pids) p =
     (case fetch_page p pid of
        (Inl e, p1) \<Rightarrow> (Inl e, p1)
      | (Inr fid, p1) \<Rightarrow>
          (case scan_slots (pool_page p1 fid) pid [0 ..< slot_count (pool_page p1 fid)] of
             Inl e \<Rightarrow> (Inl e, p1)
           | Inr rs \<Rightarrow>
               (case unpin_page p1 pid False of
                  (Inl e, p2) \<Rightarrow> (Inl e, p2)
                | (Inr _, p2) \<Rightarrow>
                    (case scan_pages pids p2 of (r, p3) \<Rightarrow> (rbind r (\<lambda>rs'. Inr (rs @ rs')), p3)))))"

definition heap_scan :: "HeapFile \<Rightarrow> BufferPool \<Rightarrow> (StorageError + (TupleId \<times> byte list) list) \<times> BufferPool" where
  "heap_scan h p = scan_pages (hf_pages h) p"

definition page_ids :: "HeapFile \<Rightarrow> nat list" where
  "page_ids h = hf_pages h"

definition update_fsm :: "HeapFile \<Rightarrow> nat \<Rightarrow> nat \<Rightarrow> HeapFile" where
  "update_fsm h pid free_bytes = h\<lparr>hf_fsm := fsm_update (hf_fsm h) pid free_bytes\<rparr>"

section \<open>The invariant and the abstraction\<close>

definition page_view :: "(nat \<Rightarrow> page option) \<Rightarrow> nat \<Rightarrow> nat \<Rightarrow> byte list option" where
  "page_view m pid i = (case m pid of
     Some pg \<Rightarrow> if i < slot_count pg then tuples pg ! i else None
   | None \<Rightarrow> None)"

definition heap_view :: "HeapFile \<Rightarrow> BufferPool \<Rightarrow> TupleId \<Rightarrow> byte list option" where
  "heap_view h p tid =
     (if tid_page_id tid \<in> set (hf_pages h) then page_view (pool_content p) (tid_page_id tid) (tid_slot_id tid)
      else None)"

definition heap_inv :: "HeapFile \<Rightarrow> BufferPool \<Rightarrow> bool" where
  "heap_inv h p \<longleftrightarrow> sorted_wrt (<) (hf_pages h) \<and> fsm_inv (hf_fsm h) \<and>
     (\<forall>pid \<in> set (hf_pages h). fsm_first_page_id (hf_fsm h) \<le> pid \<and>
        (\<exists>pg. pool_content p pid = Some pg \<and> page_wf pg \<and>
           (tracked (hf_fsm h) pid \<longrightarrow> fsm_leaf (hf_fsm h) pid = encode_free (free_space pg))))"

lemma set_lsn_keeps:
  assumes "page_wf p"
  shows "page_wf (set_lsn p v)" "tuples (set_lsn p v) = tuples p" "free_space (set_lsn p v) = free_space p"
    "slot_count (set_lsn p v) = slot_count p"
proof -
  have l: "length p = PAGE_SIZE" using assms by (simp add: page_wf_def)
  have h: "page_lower (set_lsn p v) = page_lower p" "page_upper (set_lsn p v) = page_upper p"
    "page_special (set_lsn p v) = page_special p" "length (set_lsn p v) = PAGE_SIZE"
    using l by (simp_all add: header_defs buf_simps)
  then show n: "slot_count (set_lsn p v) = slot_count p" "free_space (set_lsn p v) = free_space p"
    by (simp_all add: slot_count_def free_space_def)
  note W = wf_length [OF assms] wf_lower [OF assms] wf_lower_upper [OF assms] wf_upper_special [OF assms] wf_special [OF assms]
  have s: "read_slot (set_lsn p v) i = read_slot p i" if "i < slot_count p" for i
    using l W that by (simp add: header_defs read_slot_def Let_def buf_simps)
  have b: "slice (set_lsn p v) off len = slice p off len" if "48 \<le> off" "off + len \<le> PAGE_SIZE" for off len
    using l that by (simp add: header_defs write_u64_def buf_simps)
  have ok: "slot_ok (set_lsn p v) i" if "i < slot_count p" for i
    using wf_slot [OF assms that] s [OF that] h by (simp add: slot_ok_def)
  show "page_wf (set_lsn p v)" using assms h n ok by (simp add: page_wf_def)
  have "tuple_at (set_lsn p v) i = tuple_at p i" if "i < slot_count p" for i
  proof (cases "read_slot p i")
    case (Pair off len)
    then show ?thesis
      using wf_slot [OF assms that] s [OF that] b [of off len] W
      by (auto simp: tuple_at_def slot_ok_def)
  qed
  then show "tuples (set_lsn p v) = tuples p" by (simp add: tuples_def n)
qed

section \<open>Client calls\<close>

lemma content_bound:
  assumes "pool_inv p" "pool_content p i = Some pg"
  shows "0 < i" "i < dm_next_page_id (bp_disk p)"
proof -
  have "0 < i \<and> i < dm_next_page_id (bp_disk p)"
  proof (cases "hm_get (bp_page_table p) i")
    case None
    then show ?thesis using assms(2) by (auto simp: pool_content_def disk_page_def split: if_splits)
  next
    case (Some f)
    then show ?thesis using inv_table [OF assms(1), of i f] inv_pid [OF assms(1), of f i] by simp
  qed
  then show "0 < i" "i < dm_next_page_id (bp_disk p)" by simp_all
qed

text \<open>A fetched page, and what unpinning it leaves, unchanged or changed by \<open>g\<close>.\<close>

lemma fetch_idle_use:
  assumes idle: "idle p" and c: "pool_content p pid = Some pg" and clock: "lr_clock (bp_replacer p) + 1 < 2 ^ 64"
  obtains f p1 where "fetch_page p pid = (Inr f, p1)" "pool_page p1 f = pg" "f < length (bp_frames p1)"
    "pool_content p1 = pool_content p"
    "\<exists>q. unpin_page p1 pid False = (Inr (), q) \<and> client_ok p (pool_content p) (dm_next_page_id (bp_disk p)) q"
    "\<And>g. length (g pg) = PAGE_SIZE \<Longrightarrow> \<exists>q. unpin_page (page_mut f g p1) pid True = (Inr (), q) \<and>
       client_ok p ((pool_content p)(pid \<mapsto> g pg)) (dm_next_page_id (bp_disk p)) q"
proof -
  obtain f p1 where f: "fetch_page p pid = (Inr f, p1)" "pool_content p1 = pool_content p" "holds_page p1 f pid"
    "fr_page (bp_frames p1 ! f) = pg"
    by (rule fetch_idle [OF assms]) blast
  obtain q where q: "client_read p pid = (Inr pg, q)" "client_ok p (pool_content p) (dm_next_page_id (bp_disk p)) q"
    by (rule client_read_ok [OF assms])
  have "unpin_page p1 pid False = (Inr (), q)"
    using q(1) f(1) by (auto simp: client_read_def split: prod.splits sum.splits)
  moreover have "\<exists>q. unpin_page (page_mut f g p1) pid True = (Inr (), q) \<and>
       client_ok p ((pool_content p)(pid \<mapsto> g pg)) (dm_next_page_id (bp_disk p)) q" if g: "length (g pg) = PAGE_SIZE" for g
  proof -
    obtain q where q: "client_write p pid g = (Inr (g pg), q)"
      "client_ok p ((pool_content p)(pid \<mapsto> g pg)) (dm_next_page_id (bp_disk p)) q"
      by (rule client_write_ok [where g = g, OF assms g])
    then have "unpin_page (page_mut f g p1) pid True = (Inr (), q)"
      using f(1) by (auto simp: client_write_def Let_def split: prod.splits sum.splits)
    with q(2) show ?thesis by blast
  qed
  ultimately show ?thesis
    using that [OF f(1)] f q(2) by (auto simp: holds_page_def pool_page_def)
qed

lemma fetch_change:
  assumes "idle p" "pool_content p pid = Some pg" "lr_clock (bp_replacer p) + 1 < 2 ^ 64" "length (g pg) = PAGE_SIZE"
  obtains f p1 q where "fetch_page p pid = (Inr f, p1)" "pool_page p1 f = pg" "f < length (bp_frames p1)"
    "unpin_page (page_mut f g p1) pid True = (Inr (), q)"
    "client_ok p ((pool_content p)(pid \<mapsto> g pg)) (dm_next_page_id (bp_disk p)) q"
proof (rule fetch_idle_use [OF assms(1-3)])
  fix f p1 assume f: "fetch_page p pid = (Inr f, p1)" "pool_page p1 f = pg" "f < length (bp_frames p1)"
    and g: "\<And>g. length (g pg) = PAGE_SIZE \<Longrightarrow> \<exists>q. unpin_page (page_mut f g p1) pid True = (Inr (), q) \<and>
       client_ok p ((pool_content p)(pid \<mapsto> g pg)) (dm_next_page_id (bp_disk p)) q"
  from g [of g, OF assms(4)] show ?thesis using that f by blast
qed

lemma page_mut_twice:
  "f < length (bp_frames p) \<Longrightarrow> page_mut f g (page_mut f g' p) = page_mut f (\<lambda>x. g (g' x)) p"
  by (simp add: page_mut_def set_frame_def)

lemma pool_page_mut: "f < length (bp_frames p) \<Longrightarrow> pool_page (page_mut f g p) f = g (pool_page p f)"
  by (simp add: page_mut_def set_frame_def pool_page_def)

lemma client_okD:
  assumes "client_ok p m n q"
  shows "idle q" "pool_content q = m" "dm_next_page_id (bp_disk q) = n"
    "lr_clock (bp_replacer q) \<le> lr_clock (bp_replacer p) + 1"
  using assms by (simp_all add: client_ok_def)

section \<open>Finding a page for a tuple\<close>

lemma refresh_fsm_ok:
  assumes "idle p" "fsm_inv m" "lr_clock (bp_replacer p) + length pids < 2 ^ 64"
    "\<forall>pid \<in> set pids. fsm_first_page_id m \<le> pid \<and> pid < 2 ^ 62 \<and> pool_content p pid \<noteq> None"
  shows "\<exists>m' p'. refresh_fsm pids m p = (Inr (), m', p') \<and> idle p' \<and> pool_content p' = pool_content p \<and>
    dm_next_page_id (bp_disk p') = dm_next_page_id (bp_disk p) \<and>
    lr_clock (bp_replacer p') \<le> lr_clock (bp_replacer p) + length pids \<and>
    fsm_inv m' \<and> fsm_first_page_id m' = fsm_first_page_id m \<and> fsm_capacity m' = fsm_capacity m \<and>
    (\<forall>q. tracked m q \<longrightarrow> fsm_leaf m' q =
       (if q \<in> set pids then encode_free (free_space (the (pool_content p q))) else fsm_leaf m q))"
  using assms
proof (induction pids arbitrary: m p)
  case Nil
  then show ?case by simp
next
  case (Cons pid pids)
  obtain pg where c: "pool_content p pid = Some pg" using Cons.prems(4) by auto
  have clk: "lr_clock (bp_replacer p) + 1 < 2 ^ 64" using Cons.prems(3) by simp
  obtain f p1 q where f: "fetch_page p pid = (Inr f, p1)" "pool_page p1 f = pg" "unpin_page p1 pid False = (Inr (), q)"
    "client_ok p (pool_content p) (dm_next_page_id (bp_disk p)) q"
    by (rule fetch_idle_use [OF Cons.prems(1) c clk]) blast
  note Q = client_okD [OF f(4)]
  let ?m = "fsm_update m pid (free_space pg)"
  have U: "fsm_inv ?m" "fsm_first_page_id ?m = fsm_first_page_id m" "fsm_capacity ?m = fsm_capacity m"
    "\<And>r. tracked m r \<Longrightarrow> fsm_leaf ?m r = (if r = pid then encode_free (free_space pg) else fsm_leaf m r)"
    using fsm_update_ok [OF Cons.prems(2), of pid] Cons.prems(4) by auto
  have clk': "lr_clock (bp_replacer q) + length pids < 2 ^ 64" using Q(4) Cons.prems(3) by simp
  have tr: "tracked ?m r \<longleftrightarrow> tracked m r" for r using U by (simp add: tracked_def)
  from Cons.IH [OF Q(1) U(1) clk'] Cons.prems(4) U(2) Q(2)
  obtain m' p' where I: "refresh_fsm pids ?m q = (Inr (), m', p')" "idle p'" "pool_content p' = pool_content q"
    "dm_next_page_id (bp_disk p') = dm_next_page_id (bp_disk q)"
    "lr_clock (bp_replacer p') \<le> lr_clock (bp_replacer q) + length pids"
    "fsm_inv m'" "fsm_first_page_id m' = fsm_first_page_id ?m" "fsm_capacity m' = fsm_capacity ?m"
    "\<forall>r. tracked ?m r \<longrightarrow> fsm_leaf m' r =
       (if r \<in> set pids then encode_free (free_space (the (pool_content q r))) else fsm_leaf ?m r)"
    by auto
  have "refresh_fsm (pid # pids) m p = (Inr (), m', p')" using f I(1) by simp
  moreover have "lr_clock (bp_replacer p') \<le> lr_clock (bp_replacer p) + length (pid # pids)" using I(5) Q(4) by simp
  moreover have "\<forall>r. tracked m r \<longrightarrow> fsm_leaf m' r =
       (if r \<in> set (pid # pids) then encode_free (free_space (the (pool_content p r))) else fsm_leaf m r)"
    using I(9) U(4) tr Q(2) c by auto
  ultimately show ?case using I Q U by simp
qed

lemma heap_pages_bound:
  assumes "idle p" "heap_inv h p"
  shows "length (hf_pages h) \<le> dm_next_page_id (bp_disk p)"
    "pid \<in> set (hf_pages h) \<Longrightarrow> pid < dm_next_page_id (bp_disk p)"
proof -
  have inv: "pool_inv p" using assms(1) by (simp add: idle_def)
  show lt: "pid < dm_next_page_id (bp_disk p)" if "pid \<in> set (hf_pages h)" for pid
    using that assms(2) content_bound(2) [OF inv] by (auto simp: heap_inv_def)
  have "distinct (hf_pages h)" using assms(2) by (simp add: heap_inv_def strict_sorted_iff)
  then have "length (hf_pages h) = card (set (hf_pages h))" by (simp add: distinct_card)
  also have "\<dots> \<le> card {..< dm_next_page_id (bp_disk p)}" using lt by (intro card_mono) auto
  finally show "length (hf_pages h) \<le> dm_next_page_id (bp_disk p)" by simp
qed

text \<open>The page found for a tuple of \<open>needed\<close> bytes with its slot.\<close>

definition page_found :: "HeapFile \<Rightarrow> BufferPool \<Rightarrow> nat \<Rightarrow> nat \<Rightarrow> page \<Rightarrow> HeapFile \<Rightarrow> BufferPool \<Rightarrow> bool" where
  "page_found h p needed pid pg h1 p1 \<longleftrightarrow> idle p1 \<and> heap_inv h1 p1 \<and> pid \<in> set (hf_pages h1) \<and>
     pool_content p1 pid = Some pg \<and> page_wf pg \<and> hf_table_id h1 = hf_table_id h \<and>
     heap_view h1 p1 = heap_view h p \<and>
     lr_clock (bp_replacer p1) \<le> lr_clock (bp_replacer p) + length (hf_pages h) + 2 \<and>
     (32 dvd needed \<longrightarrow> needed \<le> 8144 \<longrightarrow> needed \<le> free_space pg)"

lemma heap_view_new:
  assumes "page_view m' pid = (\<lambda>_. None)" "\<And>q. q \<noteq> pid \<Longrightarrow> m' q = pool_content p q"
    "pool_content p1 = m'" "hf_pages h1 = hf_pages h @ [pid]" "pid \<notin> set (hf_pages h)"
  shows "heap_view h1 p1 = heap_view h p"
proof
  fix tid
  show "heap_view h1 p1 tid = heap_view h p tid"
    using assms by (cases "tid_page_id tid = pid") (auto simp: heap_view_def page_view_def)
qed

lemma find_or_alloc_page_ok:
  assumes idle: "idle p" and inv: "heap_inv h p"
    and clock: "lr_clock (bp_replacer p) + length (hf_pages h) + 2 < 2 ^ 64"
    and room: "dm_next_page_id (bp_disk p) + 1 < 2 ^ 51"
  obtains pid pg h1 p1 where "find_or_alloc_page h p needed = (Inr pid, h1, p1)" "page_found h p needed pid pg h1 p1"
proof (cases "\<exists>pid. find_page (hf_fsm h) needed = Some pid \<and> pid \<in> set (hf_pages h)")
  case True
  then obtain pid where pid: "find_page (hf_fsm h) needed = Some pid" "pid \<in> set (hf_pages h)" by blast
  have fi: "fsm_inv (hf_fsm h)" using inv by (simp add: heap_inv_def)
  note F = find_page_Some [OF fi pid(1)]
  obtain pg where pg: "pool_content p pid = Some pg" "page_wf pg" "fsm_leaf (hf_fsm h) pid = encode_free (free_space pg)"
    using inv pid(2) F(1) by (auto simp: heap_inv_def)
  have "32 dvd needed \<longrightarrow> needed \<le> 8144 \<longrightarrow> needed \<le> free_space pg"
    using encode_free_exact [of needed "free_space pg"] F(2) pg(3) by simp
  moreover have "find_or_alloc_page h p needed = (Inr pid, h, p)" using pid by (simp add: find_or_alloc_page_def)
  ultimately show ?thesis using that [of pid h p pg] idle inv pid pg by (simp add: page_found_def)
next
  case False
  let ?n = "dm_next_page_id (bp_disk p)" and ?pages = "hf_pages h @ [dm_next_page_id (bp_disk p)]"
  let ?m0 = "fsm_new (next_power_of_two (length ?pages)) (hd ?pages)"
  have clk: "lr_clock (bp_replacer p) + 1 < 2 ^ 64" using clock by simp
  obtain p2 where al: "client_alloc p = (Inr (page_new ?n), p2)"
    "client_ok p ((pool_content p)(?n \<mapsto> page_new ?n)) (?n + 1) p2"
    by (rule client_alloc_ok [OF idle clk room])
  note C = client_okD [OF al(2)]
  have pinv: "pool_inv p" using idle by (simp add: idle_def)
  obtain f p1 where np: "new_page p = (Inr (?n, f), p1)"
    "unpin_page p1 ?n True = (Inr (), p2)"
  proof -
    obtain f q where ff: "find_free_frame p = (Inr f, q)"
      using find_free_frame_total [OF pinv, of 0] idle by (auto simp: idle_def)
    obtain q' where "new_page p = (Inr (?n, f), q')" using new_page_ok [OF pinv ff clk room] by metis
    then show ?thesis using that al(1) by (auto simp: client_alloc_def split: prod.splits sum.splits)
  qed
  note B = heap_pages_bound [OF idle inv]
  have npages: "?n \<notin> set (hf_pages h)" using B(2) by blast
  have sorted: "sorted_wrt (<) ?pages" using inv B(2) by (auto simp: heap_inv_def sorted_wrt_append)
  have len: "length ?pages < 2 ^ 59" using B(1) room by simp
  have np2: "next_power_of_two (length ?pages) < 2 ^ 60" using next_power_of_two_less [of "length ?pages"] len by simp
  have hd: "hd ?pages \<le> q" if "q \<in> set ?pages" for q
    using sorted that by (cases ?pages) auto
  have hd62: "hd ?pages < 2 ^ 62" using hd [of ?n] room by simp
  note N = fsm_new_inv [OF np2 hd62]
  have cont: "pool_content p2 q \<noteq> None" if "q \<in> set ?pages" for q
    using that inv unfolding C(2) by (auto simp: heap_inv_def)
  have lt62: "q < 2 ^ 62" if "q \<in> set ?pages" for q using that B(2) [of q] room by auto
  have clk2: "lr_clock (bp_replacer p2) + length ?pages < 2 ^ 64" using C(4) clock by simp
  obtain m' p3 where R: "refresh_fsm ?pages ?m0 p2 = (Inr (), m', p3)" "idle p3" "pool_content p3 = pool_content p2"
    "lr_clock (bp_replacer p3) \<le> lr_clock (bp_replacer p2) + length ?pages"
    "fsm_inv m'" "fsm_first_page_id m' = fsm_first_page_id ?m0" "fsm_capacity m' = fsm_capacity ?m0"
    "\<forall>q. tracked ?m0 q \<longrightarrow> fsm_leaf m' q =
       (if q \<in> set ?pages then encode_free (free_space (the (pool_content p2 q))) else fsm_leaf ?m0 q)"
    using refresh_fsm_ok [OF C(1) N(1) clk2] N(2) hd lt62 cont by auto
  let ?h = "h\<lparr>hf_pages := ?pages, hf_fsm := m'\<rparr>"
  have eq: "find_or_alloc_page h p needed = (Inr ?n, ?h, p3)"
    using False np R(1) by (auto simp: find_or_alloc_page_def Let_def split: option.split)
  have new: "pool_content p3 ?n = Some (page_new ?n)" "page_wf (page_new ?n)" "free_space (page_new ?n) = 8144"
    using R(3) C(2) page_new_wf [of ?n] page_new_fields(6) [of ?n] by simp_all
  have "\<exists>pg. pool_content p3 q = Some pg \<and> page_wf pg" if "q \<in> set ?pages" for q
    using that inv new(1,2) npages unfolding R(3) C(2) by (auto simp: heap_inv_def)
  moreover have "fsm_leaf m' q = encode_free (free_space (the (pool_content p3 q)))"
    if "q \<in> set ?pages" "tracked m' q" for q
    using that R(3,6-8) by (simp add: tracked_def)
  moreover have "fsm_first_page_id m' \<le> q" if "q \<in> set ?pages" for q using hd [OF that] R(6) N(2) by simp
  ultimately have hinv: "heap_inv ?h p3"
    using sorted R(5) unfolding heap_inv_def by fastforce
  have "heap_view ?h p3 = heap_view h p"
    by (rule heap_view_new [where pid = ?n and m' = "(pool_content p)(?n \<mapsto> page_new ?n)"])
       (use npages page_new_wf [of ?n] R(3) C(2) in \<open>auto simp: page_view_def fun_eq_iff\<close>)
  moreover have "lr_clock (bp_replacer p3) \<le> lr_clock (bp_replacer p) + length (hf_pages h) + 2"
    using R(4) C(4) by simp
  ultimately show ?thesis using that [OF eq, of "page_new ?n"] R(2) hinv new by (simp add: page_found_def)
qed

section \<open>The operations on the abstraction\<close>

lemma heap_view_update:
  assumes "pid \<in> set (hf_pages h)" "pool_content p' = (pool_content p)(pid \<mapsto> pg')" "hf_pages h' = hf_pages h"
    "\<And>i. page_view (pool_content p') pid i = (if i = j then v else page_view (pool_content p) pid i)"
  shows "heap_view h' p' = (heap_view h p)(\<lparr>tid_page_id = pid, tid_slot_id = j\<rparr> := v)"
proof
  fix tid :: TupleId
  show "heap_view h' p' tid = ((heap_view h p)(\<lparr>tid_page_id = pid, tid_slot_id = j\<rparr> := v)) tid"
  proof (cases tid)
    case (fields q i)
    then show ?thesis using assms(1-3) assms(4) [of i]
      by (cases "q = pid") (auto simp: heap_view_def page_view_def)
  qed
qed

lemma heap_inv_update:
  assumes inv: "heap_inv h p" and pid: "pid \<in> set (hf_pages h)" "pid < 2 ^ 62"
    and c: "pool_content p' = (pool_content p)(pid \<mapsto> pg')" and wf: "page_wf pg'"
  shows "heap_inv (update_fsm h pid (free_space pg')) p'"
    "pool_content p pid = Some pg \<Longrightarrow> free_space pg' = free_space pg \<Longrightarrow> heap_inv h p'"
proof -
  let ?m = "hf_fsm h"
  have fi: "fsm_inv ?m" "fsm_first_page_id ?m \<le> pid" using inv pid by (auto simp: heap_inv_def)
  note U = fsm_update_ok [OF fi pid(2), where free = "free_space pg'"]
  have tr: "tracked (fsm_update ?m pid (free_space pg')) q \<longleftrightarrow> tracked ?m q" for q
    using U by (simp add: tracked_def)
  show "heap_inv (update_fsm h pid (free_space pg')) p'"
    unfolding heap_inv_def
  proof (intro conjI ballI)
    fix q assume q: "q \<in> set (hf_pages (update_fsm h pid (free_space pg')))"
    then have q': "q \<in> set (hf_pages h)" by (simp add: update_fsm_def)
    then obtain pgq where pgq: "pool_content p q = Some pgq" "page_wf pgq"
      "tracked ?m q \<Longrightarrow> fsm_leaf ?m q = encode_free (free_space pgq)" "fsm_first_page_id ?m \<le> q"
      using inv by (auto simp: heap_inv_def)
    show "fsm_first_page_id (hf_fsm (update_fsm h pid (free_space pg'))) \<le> q" using pgq(4) U(2) by (simp add: update_fsm_def)
    show "\<exists>pg. pool_content p' q = Some pg \<and> page_wf pg \<and>
        (tracked (hf_fsm (update_fsm h pid (free_space pg'))) q \<longrightarrow>
         fsm_leaf (hf_fsm (update_fsm h pid (free_space pg'))) q = encode_free (free_space pg))"
      using U(4) [of q] tr [of q] pgq wf by (cases "q = pid") (simp_all add: c update_fsm_def)
  qed (use inv U(1) in \<open>simp_all add: heap_inv_def update_fsm_def\<close>)
  show "heap_inv h p'" if "pool_content p pid = Some pg" "free_space pg' = free_space pg"
    using inv that wf by (auto simp: heap_inv_def c)
qed

lemma view_inserted:
  assumes "page_wf pg" "insert_tuple pg d = Inr (pg', s)" "m pid = Some pg" "m' pid = Some (set_lsn pg' l)"
  shows "page_wf pg'" "s = slot_count pg" "page_view m pid s = None"
    "page_view m' pid i = (if i = s then Some d else page_view m pid i)"
proof -
  have fit: "SLOT_SIZE + length d \<le> free_space pg"
    using assms(2) by (simp add: insert_tuple_def Let_def split: if_splits)
  obtain q where q: "insert_tuple pg d = Inr (q, slot_count pg)" "page_wf q" "tuples q = tuples pg @ [Some d]"
    using insert_tuple_ok [OF assms(1) fit] by blast
  then have e: "pg' = q" "s = slot_count pg" using assms(2) by simp_all
  show "page_wf pg'" "s = slot_count pg" using q e by simp_all
  show "page_view m pid s = None" using assms(3) e by (simp add: page_view_def)
  have n: "slot_count q = Suc (slot_count pg)" using arg_cong [OF q(3), of length] by simp
  show "page_view m' pid i = (if i = s then Some d else page_view m pid i)"
    using assms(3,4) e q(2,3) n set_lsn_keeps [OF q(2), of l]
    by (auto simp: page_view_def nth_append simp del: nth_tuples)
qed

text \<open>The insertion into the page found for it.\<close>

lemma heap_insert_into:
  assumes pf: "page_found h p (SLOT_SIZE + length d) pid pg h1 p1" and clock: "lr_clock (bp_replacer p1) + 1 < 2 ^ 64"
    and fa: "find_or_alloc_page h p (SLOT_SIZE + length d) = (Inr pid, h1, p1)"
    and ins: "insert_tuple pg d = Inr (pg', s)"
  obtains h2 p2 where "heap_insert_tuple crc h p w xid d =
      (Inr \<lparr>tid_page_id = pid, tid_slot_id = s\<rparr>, h2, p2,
       snd (write_record crc w xid (HeapInsert (hf_table_id h) pid s d)))"
    "idle p2" "heap_inv h2 p2" "heap_view h p \<lparr>tid_page_id = pid, tid_slot_id = s\<rparr> = None"
    "heap_view h2 p2 = (heap_view h p)(\<lparr>tid_page_id = pid, tid_slot_id = s\<rparr> \<mapsto> d)"
proof -
  have P: "idle p1" "heap_inv h1 p1" "pid \<in> set (hf_pages h1)" "pool_content p1 pid = Some pg" "page_wf pg"
    "hf_table_id h1 = hf_table_id h" "heap_view h1 p1 = heap_view h p"
    using pf by (simp_all add: page_found_def)
  define w1 where "w1 = snd (write_record crc w xid (HeapInsert (hf_table_id h) pid s d))"
  obtain lsn where wr: "write_record crc w xid (HeapInsert (hf_table_id h) pid s d) = (lsn, w1)"
    by (simp add: w1_def prod_eq_iff)
  let ?g = "\<lambda>_. set_lsn pg' (wal_flushed_lsn w1)"
  have wf': "page_wf pg'" using insert_tuple_ok [OF P(5), of d] ins
    by (auto simp: insert_tuple_def Let_def split: if_splits)
  note K = set_lsn_keeps [OF wf', of "wal_flushed_lsn w1"]
  have l: "length (?g pg) = PAGE_SIZE" using K(1) by (simp add: page_wf_def)
  obtain f q p2 where F: "fetch_page p1 pid = (Inr f, q)" "pool_page q f = pg" "f < length (bp_frames q)"
    "unpin_page (page_mut f ?g q) pid True = (Inr (), p2)"
    "client_ok p1 ((pool_content p1)(pid \<mapsto> ?g pg)) (dm_next_page_id (bp_disk p1)) p2"
    by (rule fetch_change [where g = ?g, OF P(1,4) clock l])
  note Q = client_okD [OF F(5)]
  let ?h2 = "update_fsm h1 pid (free_space (set_lsn pg' (wal_flushed_lsn w1)))"
  have eq: "heap_insert_tuple crc h p w xid d = (Inr \<lparr>tid_page_id = pid, tid_slot_id = s\<rparr>, ?h2, p2, w1)"
    using fa F ins P(6) K(3) wr
    by (simp add: heap_insert_tuple_def Let_def page_mut_twice pool_page_mut update_fsm_def)
  have c: "pool_content p2 = (pool_content p1)(pid \<mapsto> set_lsn pg' (wal_flushed_lsn w1))" using Q(2) by simp
  have "pool_inv p1" using P(1) by (simp add: idle_def)
  then have lt: "pid < 2 ^ 62" using content_bound(2) [of p1 pid pg] P(4) inv_disk [of p1] by (simp add: disk_inv_def)
  have V: "page_view (pool_content p1) pid s = None"
    "page_view (pool_content p2) pid i = (if i = s then Some d else page_view (pool_content p1) pid i)" for i
    using view_inserted(3,4) [where m = "pool_content p1" and m' = "pool_content p2", OF P(5) ins P(4),
        of "wal_flushed_lsn w1"] c by auto
  have "heap_view ?h2 p2 = (heap_view h1 p1)(\<lparr>tid_page_id = pid, tid_slot_id = s\<rparr> \<mapsto> d)"
    by (rule heap_view_update [OF P(3) c _ V(2)]) (simp add: update_fsm_def)
  moreover have "heap_view h1 p1 \<lparr>tid_page_id = pid, tid_slot_id = s\<rparr> = None" using V(1) by (simp add: heap_view_def)
  moreover have "heap_inv ?h2 p2" by (rule heap_inv_update(1) [OF P(2,3) lt c K(1)])
  ultimately show ?thesis using that [of ?h2 p2] eq Q(1) P(7) by (simp add: w1_def)
qed

lemma view_get:
  assumes "page_wf pg" "m pid = Some pg" "page_view m pid i = Some d"
  shows "get_tuple pg i = Inr d"
  using assms get_tuple_tuples [OF assms(1), of i] by (auto simp: page_view_def split: if_splits)

lemma heap_viewD:
  assumes "heap_inv h p" "heap_view h p tid = Some d"
  obtains pg where "tid_page_id tid \<in> set (hf_pages h)" "pool_content p (tid_page_id tid) = Some pg" "page_wf pg"
    "tid_slot_id tid < slot_count pg" "get_tuple pg (tid_slot_id tid) = Inr d"
proof -
  have pid: "tid_page_id tid \<in> set (hf_pages h)"
    and v: "page_view (pool_content p) (tid_page_id tid) (tid_slot_id tid) = Some d"
    using assms(2) by (simp_all add: heap_view_def split: if_splits)
  then obtain pg where pg: "pool_content p (tid_page_id tid) = Some pg" "page_wf pg"
    using assms(1) by (auto simp: heap_inv_def)
  with v have "tid_slot_id tid < slot_count pg" by (simp add: page_view_def split: if_splits)
  with that [OF pid pg] view_get [OF pg(2,1) v] show ?thesis by blast
qed

lemma heap_same_content:
  assumes "pool_content p' = pool_content p"
  shows "heap_view h p' = heap_view h p" "heap_inv h p' = heap_inv h p"
  unfolding heap_view_def [abs_def] heap_inv_def assms by (rule refl)+

lemma view_deleted:
  assumes "page_wf pg" "i < slot_count pg" "m pid = Some pg"
  obtains pg' where "delete_tuple pg i = Inr pg'" "page_wf pg'" "free_space pg' = free_space pg"
    "\<And>l m' j. m' pid = Some (set_lsn pg' l) \<Longrightarrow> page_view m' pid j = (if j = i then None else page_view m pid j)"
proof -
  obtain q where q: "delete_tuple pg i = Inr q" "page_wf q" "tuples q = (tuples pg)[i := None]" "free_space q = free_space pg"
    using delete_tuple_ok [OF assms(1,2)] by blast
  have n: "slot_count q = slot_count pg" using arg_cong [OF q(3), of length] by simp
  have "page_view m' pid j = (if j = i then None else page_view m pid j)" if "m' pid = Some (set_lsn q l)" for l m' j
    using that assms(2,3) q(3) n set_lsn_keeps [OF q(2), of l] by (simp add: page_view_def del: nth_tuples)
  with that [OF q(1,2,4)] show ?thesis by blast
qed

lemma heap_delete_ok:
  assumes idle: "idle p" and inv: "heap_inv h p" and v: "heap_view h p tid = Some d"
    and clock: "lr_clock (bp_replacer p) + 1 < 2 ^ 64"
  obtains q where "heap_delete_tuple crc h p w xid tid xm = (Inr (), q,
      snd (write_record crc w xid (HeapDelete (hf_table_id h) (tid_page_id tid) (tid_slot_id tid) xm)))"
    "idle q" "heap_inv h q" "heap_view h q = (heap_view h p)(tid := None)"
proof -
  obtain pg where pg: "tid_page_id tid \<in> set (hf_pages h)" "pool_content p (tid_page_id tid) = Some pg" "page_wf pg"
    "tid_slot_id tid < slot_count pg"
    by (rule heap_viewD [OF inv v])
  let ?pid = "tid_page_id tid" and ?i = "tid_slot_id tid"
  obtain pg' where D: "delete_tuple pg ?i = Inr pg'" "page_wf pg'" "free_space pg' = free_space pg"
    "\<And>l m' j. m' ?pid = Some (set_lsn pg' l) \<Longrightarrow>
       page_view m' ?pid j = (if j = ?i then None else page_view (pool_content p) ?pid j)"
    using view_deleted [where m = "pool_content p", OF pg(3,4,2)] by metis
  define w1 where "w1 = snd (write_record crc w xid (HeapDelete (hf_table_id h) ?pid ?i xm))"
  obtain lsn where wr: "write_record crc w xid (HeapDelete (hf_table_id h) ?pid ?i xm) = (lsn, w1)"
    by (simp add: w1_def prod_eq_iff)
  let ?g = "\<lambda>_. set_lsn pg' (wal_flushed_lsn w1)"
  note K = set_lsn_keeps [OF D(2), of "wal_flushed_lsn w1"]
  have l: "length (?g pg) = PAGE_SIZE" using K(1) by (simp add: page_wf_def)
  obtain f p1 q where F: "fetch_page p ?pid = (Inr f, p1)" "pool_page p1 f = pg" "f < length (bp_frames p1)"
    "unpin_page (page_mut f ?g p1) ?pid True = (Inr (), q)"
    "client_ok p ((pool_content p)(?pid \<mapsto> ?g pg)) (dm_next_page_id (bp_disk p)) q"
    by (rule fetch_change [where g = ?g, OF idle pg(2) clock l])
  note Q = client_okD [OF F(5)]
  have c: "pool_content q = (pool_content p)(?pid \<mapsto> set_lsn pg' (wal_flushed_lsn w1))" using Q(2) by simp
  have eq: "heap_delete_tuple crc h p w xid tid xm = (Inr (), q, w1)"
    using F D(1) wr by (simp add: heap_delete_tuple_def Let_def page_mut_twice)
  have "pool_inv p" using idle by (simp add: idle_def)
  then have lt: "?pid < 2 ^ 62" using content_bound(2) [of p ?pid pg] pg(2) inv_disk [of p] by (simp add: disk_inv_def)
  have tid: "\<lparr>tid_page_id = ?pid, tid_slot_id = ?i\<rparr> = tid" by simp
  have "heap_view h q = (heap_view h p)(\<lparr>tid_page_id = ?pid, tid_slot_id = ?i\<rparr> := None)"
    by (rule heap_view_update [OF pg(1) c refl]) (rule D(4), simp add: c)
  moreover have "heap_inv h q"
    by (rule heap_inv_update(2) [OF inv pg(1) lt c K(1) pg(2)]) (simp add: K(3) D(3))
  ultimately show ?thesis using that eq Q(1) unfolding tid by (simp add: w1_def)
qed

lemma heap_get_ok:
  assumes idle: "idle p" and inv: "heap_inv h p" and v: "heap_view h p tid = Some d"
    and clock: "lr_clock (bp_replacer p) + 1 < 2 ^ 64"
  obtains q where "heap_get_tuple p tid = (Inr d, q)" "idle q" "pool_content q = pool_content p"
proof -
  obtain pg where pg: "pool_content p (tid_page_id tid) = Some pg" "get_tuple pg (tid_slot_id tid) = Inr d"
    by (rule heap_viewD [OF inv v])
  obtain f p1 q where F: "fetch_page p (tid_page_id tid) = (Inr f, p1)" "pool_page p1 f = pg"
    "unpin_page p1 (tid_page_id tid) False = (Inr (), q)"
    "client_ok p (pool_content p) (dm_next_page_id (bp_disk p)) q"
    by (rule fetch_idle_use [OF idle pg(1) clock]) blast
  then show ?thesis using that client_okD [OF F(4)] pg(2) by (simp add: heap_get_tuple_def)
qed

section \<open>The scan\<close>

lemma scan_slots_ok:
  assumes wf: "page_wf pg" and m: "m pid = Some pg"
  shows "scan_slots pg pid slots = Inr (map (\<lambda>i. (\<lparr>tid_page_id = pid, tid_slot_id = i\<rparr>, the (page_view m pid i)))
    (filter (\<lambda>i. page_view m pid i \<noteq> None) slots))"
proof (induction slots)
  case (Cons i slots)
  have u: "is_slot_used pg i \<longleftrightarrow> page_view m pid i \<noteq> None"
    using m by (simp add: is_slot_used_tuples page_view_def del: nth_tuples)
  then show ?case using Cons view_get [where m = m, OF wf m, of i] by auto
qed simp

definition page_rows :: "(nat \<Rightarrow> page option) \<Rightarrow> nat \<Rightarrow> (TupleId \<times> byte list) list" where
  "page_rows m pid = map (\<lambda>i. (\<lparr>tid_page_id = pid, tid_slot_id = i\<rparr>, the (page_view m pid i)))
     (filter (\<lambda>i. page_view m pid i \<noteq> None) [0 ..< slot_count (the (m pid))])"

lemma scan_pages_ok:
  assumes "idle p" "lr_clock (bp_replacer p) + length pids < 2 ^ 64"
    "\<forall>pid \<in> set pids. \<exists>pg. pool_content p pid = Some pg \<and> page_wf pg"
  shows "\<exists>q. scan_pages pids p = (Inr (concat (map (page_rows (pool_content p)) pids)), q) \<and> idle q \<and>
    pool_content q = pool_content p"
  using assms
proof (induction pids arbitrary: p)
  case Nil
  then show ?case by simp
next
  case (Cons pid pids)
  obtain pg where pg: "pool_content p pid = Some pg" "page_wf pg" using Cons.prems(3) by auto
  have clk: "lr_clock (bp_replacer p) + 1 < 2 ^ 64" using Cons.prems(2) by simp
  obtain f p1 q where F: "fetch_page p pid = (Inr f, p1)" "pool_page p1 f = pg" "unpin_page p1 pid False = (Inr (), q)"
    "client_ok p (pool_content p) (dm_next_page_id (bp_disk p)) q"
    by (rule fetch_idle_use [OF Cons.prems(1) pg(1) clk]) blast
  note Q = client_okD [OF F(4)]
  have "lr_clock (bp_replacer q) + length pids < 2 ^ 64" using Q(4) Cons.prems(2) by simp
  from Cons.IH [OF Q(1) this] Cons.prems(3) Q(2) obtain q' where
    "scan_pages pids q = (Inr (concat (map (page_rows (pool_content p)) pids)), q')" "idle q'"
    "pool_content q' = pool_content p" by auto
  moreover have "scan_slots pg pid [0 ..< slot_count pg] = Inr (page_rows (pool_content p) pid)"
    using scan_slots_ok [where m = "pool_content p", OF pg(2,1)] pg(1) by (simp add: page_rows_def)
  ultimately show ?case using F by simp
qed

lemma page_rows_view: "(tid, d) \<in> set (page_rows m pid) \<longleftrightarrow>
    tid_page_id tid = pid \<and> page_view m pid (tid_slot_id tid) = Some d"
proof -
  have "page_view m pid i \<noteq> None \<Longrightarrow> i < slot_count (the (m pid))" for i
    by (auto simp: page_view_def split: option.splits if_splits)
  then show ?thesis by (cases tid) (force simp: page_rows_def)
qed

lemma distinct_rows: "distinct pids \<Longrightarrow> distinct (map fst (concat (map (page_rows m) pids)))"
proof (induction pids)
  case (Cons pid pids)
  have "distinct (map fst (page_rows m pid))"
    by (simp add: page_rows_def distinct_map inj_on_def)
  moreover have q: "tid_page_id (fst x) = q" if "x \<in> set (page_rows m q)" for x q
    using that by (auto simp: page_rows_def)
  moreover have "fst ` set (page_rows m pid) \<inter> fst ` set (concat (map (page_rows m) pids)) = {}"
  proof (rule ccontr)
    assume "\<not> ?thesis"
    then obtain t v v' r where "(t, v) \<in> set (page_rows m pid)" "r \<in> set pids" "(t, v') \<in> set (page_rows m r)" by auto
    with q [of "(t, v)" pid] q [of "(t, v')" r] Cons.prems show False by auto
  qed
  ultimately show ?case using Cons by simp
qed simp

section \<open>Properties\<close>

text \<open>C12. Inserting a tuple stores it: on a heap file whose pages are well formed, an insertion that
  succeeds returns a tuple id that held nothing, stores the bytes under it, changes no other tuple, and
  logs exactly this insertion. It can fail only for a tuple of more than 8140 bytes, which no page holds, or one
  whose size with its slot is not a multiple of 32 bytes, and then no tuple has changed and nothing is logged.
  No page of the pool is pinned before the call, and page ids and the access clock are below their limits.\<close>

theorem heap_insert_stores:
  assumes "idle p" "heap_inv h p"
    and "lr_clock (bp_replacer p) + length (page_ids h) + 3 < 2 ^ 64" "page_count (bp_disk p) + 1 < 2 ^ 51"
    and "heap_insert_tuple crc h p w xid d = (r, h', p', w')"
  shows "case r of
      Inr tid \<Rightarrow> idle p' \<and> heap_inv h' p' \<and> heap_view h p tid = None \<and> heap_view h' p' = (heap_view h p)(tid \<mapsto> d) \<and>
        w' = snd (write_record crc w xid (HeapInsert (hf_table_id h) (tid_page_id tid) (tid_slot_id tid) d))
    | Inl e \<Rightarrow> (8140 < length d \<or> \<not> 32 dvd SLOT_SIZE + length d) \<and> heap_view h' p' = heap_view h p \<and> w' = w"
proof -
  let ?n = "SLOT_SIZE + length d"
  obtain pid pg h1 p1 where fa: "find_or_alloc_page h p ?n = (Inr pid, h1, p1)" "page_found h p ?n pid pg h1 p1"
    by (rule find_or_alloc_page_ok [OF assms(1,2), of ?n]) (use assms(3,4) in \<open>auto simp: page_ids_def page_count_def\<close>)
  have clk: "lr_clock (bp_replacer p1) + 1 < 2 ^ 64" using fa(2) assms(3) by (simp add: page_found_def page_ids_def)
  show ?thesis
  proof (cases "insert_tuple pg d")
    case (Inr x)
    then obtain pg' s where ins: "insert_tuple pg d = Inr (pg', s)" by (cases x) auto
    show ?thesis
      by (rule heap_insert_into [OF fa(2) clk fa(1) ins, of crc w xid]) (use assms(5) in auto)
  next
    case (Inl e)
    have P: "idle p1" "pool_content p1 pid = Some pg" "page_wf pg" "heap_view h1 p1 = heap_view h p"
      "32 dvd ?n \<longrightarrow> ?n \<le> 8144 \<longrightarrow> ?n \<le> free_space pg"
      using fa(2) by (simp_all add: page_found_def)
    obtain f q where F: "fetch_page p1 pid = (Inr f, q)" "pool_page q f = pg" "pool_content q = pool_content p1"
      by (rule fetch_idle_use [OF P(1,2) clk]) blast
    have "heap_insert_tuple crc h p w xid d = (Inl e, h1, q, w)"
      using fa(1) F Inl by (simp add: heap_insert_tuple_def)
    moreover have "8140 < length d \<or> \<not> 32 dvd ?n" using P(5) Inl insert_tuple_ok [OF P(3), of d] by auto
    ultimately show ?thesis using assms(5) heap_same_content(1) [OF F(3)] P(4) by auto
  qed
qed

lemma heap_new_inv: "heap_inv (heap_new t) p"
  using fsm_new_inv [of 64 0] by (simp add: heap_inv_def heap_new_def)

theorem heap_insert_stores_witness:
  "\<exists>tid h' p' w'. heap_insert_tuple (\<lambda>_. 0) (heap_new 3) (pool_new 4 disk_create) wal_create 9 (replicate 60 7) =
      (Inr tid, h', p', w') \<and> heap_view h' p' tid = Some (replicate 60 7)"
proof -
  have d: "disk_inv disk_create" "dm_next_page_id disk_create = 1" using disk_create_ok by simp_all
  have i: "idle (pool_new 4 disk_create)" using idle_pool_new [OF d(1)] by simp
  obtain r h' p' w' where e: "heap_insert_tuple (\<lambda>_. 0) (heap_new 3) (pool_new 4 disk_create) wal_create 9 (replicate 60 7) =
      (r, h', p', w')" by (metis prod_cases4)
  have "case r of
      Inr tid \<Rightarrow> idle p' \<and> heap_inv h' p' \<and> heap_view (heap_new 3) (pool_new 4 disk_create) tid = None \<and>
        heap_view h' p' = (heap_view (heap_new 3) (pool_new 4 disk_create))(tid \<mapsto> replicate 60 7) \<and>
        w' = snd (write_record (\<lambda>_. 0) wal_create 9
          (HeapInsert (hf_table_id (heap_new 3)) (tid_page_id tid) (tid_slot_id tid) (replicate 60 7)))
    | Inl e \<Rightarrow> (8140 < length (replicate 60 (7 :: byte)) \<or> \<not> 32 dvd SLOT_SIZE + length (replicate 60 (7 :: byte))) \<and>
        heap_view h' p' = heap_view (heap_new 3) (pool_new 4 disk_create) \<and> w' = wal_create"
    by (rule heap_insert_stores [OF i heap_new_inv _ _ e])
       (simp_all add: pool_new_sel d page_ids_def heap_new_def page_count_def)
  with e show ?thesis by (cases r) auto
qed

text \<open>C14. What a heap file holds can be read, deleted and scanned: a stored tuple is read back under its id,
  deleting it removes exactly it and logs the deletion, and a scan returns every stored tuple once and nothing
  else; reading changes no tuple.\<close>

theorem heap_reads_deletes_scans:
  assumes "idle p" "heap_inv h p" "lr_clock (bp_replacer p) + length (page_ids h) + 1 < 2 ^ 64"
    and v: "heap_view h p tid = Some d"
  shows "(\<exists>q. heap_get_tuple p tid = (Inr d, q) \<and> idle q \<and> heap_view h q = heap_view h p) \<and>
    (\<exists>q. heap_delete_tuple crc h p w xid tid xm = (Inr (), q,
        snd (write_record crc w xid (HeapDelete (hf_table_id h) (tid_page_id tid) (tid_slot_id tid) xm))) \<and>
      idle q \<and> heap_inv h q \<and> heap_view h q = (heap_view h p)(tid := None)) \<and>
    (\<exists>rows q. heap_scan h p = (Inr rows, q) \<and> idle q \<and> heap_view h q = heap_view h p \<and>
      distinct (map fst rows) \<and> map_of rows = heap_view h p)"
proof (intro conjI)
  have clk: "lr_clock (bp_replacer p) + 1 < 2 ^ 64" using assms(3) by simp
  show "\<exists>q. heap_get_tuple p tid = (Inr d, q) \<and> idle q \<and> heap_view h q = heap_view h p"
    using heap_get_ok [OF assms(1,2) v clk] heap_same_content(1) by metis
  show "\<exists>q. heap_delete_tuple crc h p w xid tid xm = (Inr (), q,
        snd (write_record crc w xid (HeapDelete (hf_table_id h) (tid_page_id tid) (tid_slot_id tid) xm))) \<and>
      idle q \<and> heap_inv h q \<and> heap_view h q = (heap_view h p)(tid := None)"
    by (rule heap_delete_ok [OF assms(1,2) v clk, of crc w xid xm]) blast
  let ?rows = "concat (map (page_rows (pool_content p)) (hf_pages h))"
  have "\<forall>pid \<in> set (hf_pages h). \<exists>pg. pool_content p pid = Some pg \<and> page_wf pg" using assms(2) by (auto simp: heap_inv_def)
  then obtain q where q: "heap_scan h p = (Inr ?rows, q)" "idle q" "pool_content q = pool_content p"
    using scan_pages_ok [OF assms(1), of "hf_pages h"] assms(3) by (auto simp: heap_scan_def page_ids_def)
  have dist: "distinct (map fst ?rows)"
    using assms(2) by (intro distinct_rows) (simp add: heap_inv_def strict_sorted_iff)
  have "map_of ?rows t = heap_view h p t" for t
  proof -
    have "map_of ?rows t = Some v \<longleftrightarrow> heap_view h p t = Some v" for v
      using map_of_eq_Some_iff [OF dist, of t v] page_rows_view [of t v "pool_content p"]
      by (auto simp: heap_view_def split: if_splits)
    then show ?thesis by (metis option.exhaust)
  qed
  then show "\<exists>rows q. heap_scan h p = (Inr rows, q) \<and> idle q \<and> heap_view h q = heap_view h p \<and>
      distinct (map fst rows) \<and> map_of rows = heap_view h p"
    using q dist heap_same_content(1) [OF q(3)] by blast
qed

text \<open>A heap file of one given page, as the concrete inputs use it.\<close>

definition one_page_heap :: "page \<Rightarrow> HeapFile" where
  "one_page_heap pg = \<lparr>hf_table_id = 3, hf_fsm = fsm_update (fsm_new 1 1) 1 (free_space pg), hf_pages = [1]\<rparr>"

lemma one_page_heap_ok:
  assumes "page_wf pg"
  obtains p where "idle p" "pool_content p 1 = Some pg" "lr_clock (bp_replacer p) \<le> 2" "heap_inv (one_page_heap pg) p"
proof -
  obtain p1 where p1: "idle p1" "pool_content p1 1 = Some (page_new 1)" "lr_clock (bp_replacer p1) \<le> 1"
    by (rule first_page [of 2]) simp_all
  have l: "length ((\<lambda>_. pg) (page_new 1)) = PAGE_SIZE" using assms by (simp add: page_wf_def)
  obtain p where p: "client_ok p1 ((pool_content p1)(1 \<mapsto> pg)) (dm_next_page_id (bp_disk p1)) p"
    by (rule client_write_ok [where g = "\<lambda>_. pg", OF p1(1,2) _ l]) (use p1(3) in auto)
  note C = client_okD [OF p]
  note N = fsm_new_inv [of 1 1]
  have U: "fsm_inv (hf_fsm (one_page_heap pg))" "fsm_first_page_id (hf_fsm (one_page_heap pg)) = 1"
    "fsm_capacity (hf_fsm (one_page_heap pg)) = fsm_capacity (fsm_new 1 1)"
    "tracked (fsm_new 1 1) 1 \<Longrightarrow> fsm_leaf (hf_fsm (one_page_heap pg)) 1 = encode_free (free_space pg)"
    using fsm_update_ok [of "fsm_new 1 1" 1, where free = "free_space pg"] N by (auto simp: one_page_heap_def)
  then have "heap_inv (one_page_heap pg) p"
    using C(2) assms N by (auto simp: heap_inv_def tracked_def one_page_heap_def)
  with that C p1(3) show ?thesis by simp
qed

theorem heap_reads_deletes_scans_witness:
  "\<exists>h p tid rows q. heap_view h p = [tid \<mapsto> [7, 8, 9]] \<and> fst (heap_get_tuple p tid) = Inr [7, 8, 9] \<and>
     heap_scan h p = (Inr rows, q) \<and> map_of rows = [tid \<mapsto> [7, 8, 9]]"
proof -
  have new: "page_wf (page_new 1)" "free_space (page_new 1) = 8144" "slot_count (page_new 1) = 0"
    using page_new_wf [of 1] page_new_fields(6) [of 1] by simp_all
  obtain pg where pg: "insert_tuple (page_new 1) [7, 8, 9] = Inr (pg, 0)" "page_wf pg" "tuples pg = [Some [7, 8, 9]]"
    using insert_tuple_ok [OF new(1), of "[7, 8, 9]"] new by (auto simp: tuples_def)
  have n: "slot_count pg = 1" using arg_cong [OF pg(3), of length] by simp
  obtain p where p: "idle p" "pool_content p 1 = Some pg" "lr_clock (bp_replacer p) \<le> 2" "heap_inv (one_page_heap pg) p"
    by (rule one_page_heap_ok [OF pg(2)])
  let ?tid = "\<lparr>tid_page_id = 1, tid_slot_id = 0\<rparr>"
  have view: "heap_view (one_page_heap pg) p = [?tid \<mapsto> [7, 8, 9]]"
  proof
    fix t :: TupleId
    show "heap_view (one_page_heap pg) p t = [?tid \<mapsto> [7, 8, 9]] t"
      using p(2) n pg(3) by (cases t) (auto simp: heap_view_def page_view_def one_page_heap_def simp del: nth_tuples)
  qed
  have clk: "lr_clock (bp_replacer p) + length (page_ids (one_page_heap pg)) + 1 < 2 ^ 64"
    using p(3) by (simp add: page_ids_def one_page_heap_def)
  have "heap_view (one_page_heap pg) p ?tid = Some [7, 8, 9]" using view by simp
  from heap_reads_deletes_scans [OF p(1,4) clk this, of "\<lambda>_. 0" wal_create 9 0] view
  show ?thesis by (intro exI [of _ "one_page_heap pg"] exI [of _ p] exI [of _ ?tid]) auto
qed

end
