(* ===== verification/Recovery.thy ===== *)
theory Recovery
  imports Mvcc Heap_File
begin

text \<open>
  Crash recovery of \<^verbatim>\<open>crates/storage/src/mvcc.rs\<close>: reading the whole log, the analysis of the
  transactions in it, the redo of heap records on the pages and the undo of unfinished
  transactions. The loops over the log reader are \<open>drain\<close>, the records up to the end of the log or to the first
  error, and a fold over them; the reader makes progress with every record, so the loops end.
\<close>

section \<open>Reading the log\<close>

lemma next_record_progress:
  "next_record rd = (Some (Inr r), rd') \<Longrightarrow> wr_data rd' = wr_data rd \<and> wr_pos rd < wr_pos rd' \<and> wr_pos rd < length (wr_data rd)"
  by (auto simp: next_record_def decode_record_def Let_def rbind_Inr_iff split: if_splits sum.splits)

function drain :: "WalReader \<Rightarrow> DecodedRecord list \<times> StorageError option" where
  "drain rd =
     (case next_record rd of
        (None, _) \<Rightarrow> ([], None)
      | (Some (Inl e), _) \<Rightarrow> ([], Some e)
      | (Some (Inr r), rd') \<Rightarrow> (case drain rd' of (rs, e) \<Rightarrow> (r # rs, e)))"
  by pat_completeness auto
termination
proof (relation "measure (\<lambda>rd. length (wr_data rd) - wr_pos rd)")
  fix rd x rd' y r assume "(x, rd') = next_record rd" "x = Some y" "y = Inr r"
  then have "next_record rd = (Some (Inr r), rd')" by simp
  from next_record_progress [OF this]
  show "(rd', rd) \<in> measure (\<lambda>rd. length (wr_data rd) - wr_pos rd)" by auto
qed simp

declare drain.simps [simp del]

section \<open>Redo\<close>

definition redo_insert :: "BufferPool \<Rightarrow> nat \<Rightarrow> nat \<Rightarrow> byte list \<Rightarrow> nat \<Rightarrow> (StorageError + unit) \<times> BufferPool" where
  \<comment> \<open>the result of \<open>insert_tuple\<close> is ignored, the LSN is set in any case\<close>
  "redo_insert p pid slot d lsn =
     (case fetch_page p pid of
        (Inl e, p1) \<Rightarrow> (Inl e, p1)
      | (Inr f, p1) \<Rightarrow>
          if page_lsn (pool_page p1 f) < lsn \<and> \<not> is_slot_used (pool_page p1 f) slot
          then let p2 = page_mut f (\<lambda>pg. case insert_tuple pg d of Inr (pg', _) \<Rightarrow> pg' | Inl _ \<Rightarrow> pg) p1;
                   p3 = page_mut f (\<lambda>pg. set_lsn pg lsn) p2
               in unpin_page p3 pid True
          else unpin_page p1 pid False)"

definition redo_delete :: "BufferPool \<Rightarrow> nat \<Rightarrow> nat \<Rightarrow> nat \<Rightarrow> (StorageError + unit) \<times> BufferPool" where
  "redo_delete p pid slot lsn =
     (case fetch_page p pid of
        (Inl e, p1) \<Rightarrow> (Inl e, p1)
      | (Inr f, p1) \<Rightarrow>
          if page_lsn (pool_page p1 f) < lsn \<and> is_slot_used (pool_page p1 f) slot
          then (case delete_tuple (pool_page p1 f) slot of
                  Inl e \<Rightarrow> (Inl e, p1)
                | Inr pg \<Rightarrow>
                    let p2 = page_mut f (\<lambda>_. pg) p1;
                        p3 = page_mut f (\<lambda>pg. set_lsn pg lsn) p2
                    in unpin_page p3 pid True)
          else unpin_page p1 pid False)"

definition redo_record :: "BufferPool \<Rightarrow> DecodedRecord \<Rightarrow> (StorageError + unit) \<times> BufferPool" where
  "redo_record p rec =
     (case dr_record rec of
        HeapInsert _ pid slot d \<Rightarrow> redo_insert p pid slot d (dr_lsn rec)
      | HeapDelete _ pid slot _ \<Rightarrow> redo_delete p pid slot (dr_lsn rec)
      | HeapUpdate _ old_pid old_slot new_pid new_slot _ d \<Rightarrow>
          (case redo_delete p old_pid old_slot (dr_lsn rec) of
             (Inl e, p1) \<Rightarrow> (Inl e, p1)
           | (Inr _, p1) \<Rightarrow> redo_insert p1 new_pid new_slot d (dr_lsn rec))
      | _ \<Rightarrow> (Inr (), p))"

fun redo_records :: "DecodedRecord list \<Rightarrow> BufferPool \<Rightarrow> (StorageError + unit) \<times> BufferPool" where
  "redo_records [] p = (Inr (), p)"
| "redo_records (r # rs) p =
     (case redo_record p r of
        (Inl e, p1) \<Rightarrow> (Inl e, p1)
      | (Inr _, p1) \<Rightarrow> redo_records rs p1)"

definition redo_recover :: "WalManager \<Rightarrow> BufferPool \<Rightarrow> (StorageError + unit) \<times> BufferPool" where
  "redo_recover w p =
     (case read_from w 0 of
        Inl e \<Rightarrow> (Inl e, p)
      | Inr rd \<Rightarrow>
          (case drain rd of (rs, err) \<Rightarrow>
             (case redo_records rs p of
                (Inl e, p1) \<Rightarrow> (Inl e, p1)
              | (Inr _, p1) \<Rightarrow> (case err of Some e \<Rightarrow> Inl e | None \<Rightarrow> Inr (), p1))))"

section \<open>Analysis and undo\<close>

datatype RecTxnState = TxActive | TxCommitted | TxAborted

definition analyse_record :: "DecodedRecord \<Rightarrow> (nat, RecTxnState) hmap \<Rightarrow> (nat, RecTxnState) hmap" where
  "analyse_record rec m =
     (case dr_record rec of
        XactCommit _ \<Rightarrow> hm_insert (dr_xid rec) TxCommitted m
      | XactAbort _ \<Rightarrow> hm_insert (dr_xid rec) TxAborted m
      | Checkpoint _ _ _ _ \<Rightarrow> m
      | _ \<Rightarrow> (case hm_get m (dr_xid rec) of None \<Rightarrow> hm_insert (dr_xid rec) TxActive m | Some _ \<Rightarrow> m))"

definition restore_status :: "(nat, RecTxnState) hmap \<Rightarrow> TransactionManager \<Rightarrow> TransactionManager" where
  "restore_status m t =
     (let t1 = t\<lparr>tm_active := tm_active t \<union> {x. (x, TxActive) \<in> set m}\<rparr>;
          t2 = t1\<lparr>tm_committed := tm_committed t1 \<union> {x. (x, TxCommitted) \<in> set m},
                  tm_aborted := tm_aborted t1 \<union> {x. (x, TxAborted) \<in> set m}\<rparr>;
          max_xid = fold max (map fst m) 0
      in if max_xid \<ge> tm_next_xid t2 then t2\<lparr>tm_next_xid := u64_add max_xid 1\<rparr> else t2)"

definition recover :: "BufferPool \<Rightarrow> WalManager \<Rightarrow> TransactionManager \<Rightarrow> (StorageError + unit) \<times> BufferPool \<times> TransactionManager" where
  "recover p w t =
     (case read_from w 0 of
        Inl e \<Rightarrow> (Inl e, p, t)
      | Inr rd \<Rightarrow>
          (case drain rd of
             (rs, Some e) \<Rightarrow> (Inl e, p, t)
           | (rs, None) \<Rightarrow>
               (case redo_recover w p of
                  (Inl e, p1) \<Rightarrow> (Inl e, p1, t)
                | (Inr _, p1) \<Rightarrow> (Inr (), p1, restore_status (fold analyse_record rs []) t))))"

definition undo_recover :: "WalManager \<Rightarrow> TransactionManager \<Rightarrow> (StorageError + unit) \<times> TransactionManager" where
  "undo_recover w t =
     (case read_from w 0 of
        Inl e \<Rightarrow> (Inl e, t)
      | Inr rd \<Rightarrow>
          (case drain rd of
             (rs, Some e) \<Rightarrow> (Inl e, t)
           | (rs, None) \<Rightarrow>
               let all_xids = remdups (filter (\<lambda>x. x \<noteq> INVALID_XID) (map dr_xid rs));
                   committed = [dr_xid r. r \<leftarrow> rs, (case dr_record r of XactCommit _ \<Rightarrow> True | _ \<Rightarrow> False)];
                   explicitly_aborted = [dr_xid r. r \<leftarrow> rs, (case dr_record r of XactAbort _ \<Rightarrow> True | _ \<Rightarrow> False)]
               in (Inr (), fold (\<lambda>xid t. if xid \<notin> set committed \<and> xid \<notin> set explicitly_aborted
                                         then force_abort t xid else t) all_xids t)))"

section \<open>Redo is idempotent\<close>

lemma page_lsn_set: "length pg = PAGE_SIZE \<Longrightarrow> l < 2 ^ 64 \<Longrightarrow> page_lsn (set_lsn pg l) = l"
  by (simp add: header_defs buf_simps)

definition redone_insert :: "nat \<Rightarrow> byte list \<Rightarrow> nat \<Rightarrow> page \<Rightarrow> page" where
  "redone_insert slot d lsn pg =
     (if page_lsn pg < lsn \<and> \<not> is_slot_used pg slot
      then set_lsn (case insert_tuple pg d of Inr (pg', _) \<Rightarrow> pg' | Inl _ \<Rightarrow> pg) lsn else pg)"

definition redone_delete :: "nat \<Rightarrow> nat \<Rightarrow> page \<Rightarrow> page" where
  "redone_delete slot lsn pg =
     (if page_lsn pg < lsn \<and> is_slot_used pg slot
      then set_lsn (case delete_tuple pg slot of Inr pg' \<Rightarrow> pg' | Inl _ \<Rightarrow> pg) lsn else pg)"

lemma redone_wf:
  assumes "page_wf pg"
  shows "page_wf (redone_insert slot d lsn pg)" "page_wf (redone_delete slot lsn pg)"
    "page_wf (case insert_tuple pg d of Inr (pg', _) \<Rightarrow> pg' | Inl _ \<Rightarrow> pg)"
    "is_slot_used pg slot \<Longrightarrow> \<exists>pg'. delete_tuple pg slot = Inr pg' \<and> page_wf pg'"
proof -
  have i: "page_wf (case insert_tuple pg d of Inr (pg', _) \<Rightarrow> pg' | Inl _ \<Rightarrow> pg)"
  proof (cases "SLOT_SIZE + length d \<le> free_space pg")
    case True
    then show ?thesis using insert_tuple_ok [OF assms] by fastforce
  next
    case False
    then show ?thesis using assms by (simp add: insert_tuple_def Let_def)
  qed
  then show "page_wf (redone_insert slot d lsn pg)"
    "page_wf (case insert_tuple pg d of Inr (pg', _) \<Rightarrow> pg' | Inl _ \<Rightarrow> pg)"
    using assms set_lsn_keeps(1) by (auto simp: redone_insert_def)
  have d: "is_slot_used pg s \<Longrightarrow> \<exists>pg'. delete_tuple pg s = Inr pg' \<and> page_wf pg'" for s
    using delete_tuple_ok [OF assms, of s] by (auto simp: is_slot_used_tuples)
  then show "is_slot_used pg slot \<Longrightarrow> \<exists>pg'. delete_tuple pg slot = Inr pg' \<and> page_wf pg'" .
  show "page_wf (redone_delete slot lsn pg)"
    using assms d [of slot] set_lsn_keeps(1) by (auto simp: redone_delete_def)
qed

lemma redo_insert_ok:
  assumes idle: "idle p" and c: "pool_content p pid = Some pg" "page_wf pg" and clock: "lr_clock (bp_replacer p) + 1 < 2 ^ 64"
  shows "\<exists>q. redo_insert p pid slot d lsn = (Inr (), q) \<and>
    client_ok p ((pool_content p)(pid \<mapsto> redone_insert slot d lsn pg)) (dm_next_page_id (bp_disk p)) q"
proof (rule fetch_idle_use [OF idle c(1) clock])
  fix f p1 assume F: "fetch_page p pid = (Inr f, p1)" "pool_page p1 f = pg" "f < length (bp_frames p1)"
    and keep: "\<exists>q. unpin_page p1 pid False = (Inr (), q) \<and> client_ok p (pool_content p) (dm_next_page_id (bp_disk p)) q"
    and change: "\<And>g. length (g pg) = PAGE_SIZE \<Longrightarrow> \<exists>q. unpin_page (page_mut f g p1) pid True = (Inr (), q) \<and>
       client_ok p ((pool_content p)(pid \<mapsto> g pg)) (dm_next_page_id (bp_disk p)) q"
  show ?thesis
  proof (cases "page_lsn pg < lsn \<and> \<not> is_slot_used pg slot")
    case True
    let ?g = "\<lambda>pg. set_lsn (case insert_tuple pg d of Inr (pg', _) \<Rightarrow> pg' | Inl _ \<Rightarrow> pg) lsn"
    have "length (?g pg) = PAGE_SIZE"
      using set_lsn_keeps(1) [OF redone_wf(3) [OF c(2), of d], of lsn] by (simp add: page_wf_def)
    from change [of ?g, OF this] True F show ?thesis
      by (simp add: redo_insert_def redone_insert_def page_mut_twice Let_def)
  next
    case False
    have "(pool_content p)(pid \<mapsto> pg) = pool_content p" using c(1) by (simp add: fun_upd_idem)
    with keep False F show ?thesis by (auto simp: redo_insert_def redone_insert_def)
  qed
qed

lemma redo_delete_ok:
  assumes idle: "idle p" and c: "pool_content p pid = Some pg" "page_wf pg" and clock: "lr_clock (bp_replacer p) + 1 < 2 ^ 64"
  shows "\<exists>q. redo_delete p pid slot lsn = (Inr (), q) \<and>
    client_ok p ((pool_content p)(pid \<mapsto> redone_delete slot lsn pg)) (dm_next_page_id (bp_disk p)) q"
proof (rule fetch_idle_use [OF idle c(1) clock])
  fix f p1 assume F: "fetch_page p pid = (Inr f, p1)" "pool_page p1 f = pg" "f < length (bp_frames p1)"
    and keep: "\<exists>q. unpin_page p1 pid False = (Inr (), q) \<and> client_ok p (pool_content p) (dm_next_page_id (bp_disk p)) q"
    and change: "\<And>g. length (g pg) = PAGE_SIZE \<Longrightarrow> \<exists>q. unpin_page (page_mut f g p1) pid True = (Inr (), q) \<and>
       client_ok p ((pool_content p)(pid \<mapsto> g pg)) (dm_next_page_id (bp_disk p)) q"
  show ?thesis
  proof (cases "page_lsn pg < lsn \<and> is_slot_used pg slot")
    case True
    then obtain pg' where pg': "delete_tuple pg slot = Inr pg'" "page_wf pg'" using redone_wf(4) [OF c(2)] by blast
    have "length ((\<lambda>_. set_lsn pg' lsn) pg) = PAGE_SIZE"
      using set_lsn_keeps(1) [OF pg'(2), of lsn] by (simp add: page_wf_def)
    from change [of "\<lambda>_. set_lsn pg' lsn", OF this] True F pg'(1) show ?thesis
      by (simp add: redo_delete_def redone_delete_def page_mut_twice Let_def)
  next
    case False
    have "(pool_content p)(pid \<mapsto> pg) = pool_content p" using c(1) by (simp add: fun_upd_idem)
    with keep False F show ?thesis by (auto simp: redo_delete_def redone_delete_def)
  qed
qed

text \<open>A log as the changes it makes to single pages, in order.\<close>

datatype page_act = ActInsert nat "byte list" nat | ActDelete nat nat

fun act_page :: "page_act \<Rightarrow> page \<Rightarrow> page" where
  "act_page (ActInsert slot d lsn) pg = redone_insert slot d lsn pg"
| "act_page (ActDelete slot lsn) pg = redone_delete slot lsn pg"

fun act_lsn :: "page_act \<Rightarrow> nat" where
  "act_lsn (ActInsert slot d lsn) = lsn"
| "act_lsn (ActDelete slot lsn) = lsn"

definition act_map :: "nat \<times> page_act \<Rightarrow> (nat \<Rightarrow> page option) \<Rightarrow> nat \<Rightarrow> page option" where
  "act_map a m = m(fst a := map_option (act_page (snd a)) (m (fst a)))"

definition acts_of :: "DecodedRecord \<Rightarrow> (nat \<times> page_act) list" where
  "acts_of rec = (case dr_record rec of
     HeapInsert _ pid slot d \<Rightarrow> [(pid, ActInsert slot d (dr_lsn rec))]
   | HeapDelete _ pid slot _ \<Rightarrow> [(pid, ActDelete slot (dr_lsn rec))]
   | HeapUpdate _ pid slot pid' slot' _ d \<Rightarrow> [(pid, ActDelete slot (dr_lsn rec)), (pid', ActInsert slot' d (dr_lsn rec))]
   | _ \<Rightarrow> [])"

definition acts_ok :: "(nat \<times> page_act) list \<Rightarrow> (nat \<Rightarrow> page option) \<Rightarrow> bool" where
  "acts_ok as m \<longleftrightarrow> (\<forall>a \<in> set as. \<exists>pg. m (fst a) = Some pg \<and> page_wf pg)"

lemma act_page_wf: "page_wf pg \<Longrightarrow> page_wf (act_page a pg)"
  using redone_wf by (cases a) simp_all

lemma acts_ok_step: "acts_ok as m \<Longrightarrow> acts_ok as (act_map a m)"
  unfolding acts_ok_def act_map_def using act_page_wf by fastforce

lemma acts_ok_fold: "acts_ok as m \<Longrightarrow> acts_ok as (fold act_map bs m)"
  by (induction bs arbitrary: m) (simp_all add: acts_ok_step)

lemma redo_record_ok:
  assumes "idle p" "acts_ok (acts_of r) (pool_content p)" "lr_clock (bp_replacer p) + 2 < 2 ^ 64"
  shows "\<exists>q. redo_record p r = (Inr (), q) \<and> idle q \<and> pool_content q = fold act_map (acts_of r) (pool_content p) \<and>
    lr_clock (bp_replacer q) \<le> lr_clock (bp_replacer p) + 2"
proof -
  have clk: "lr_clock (bp_replacer p) + 1 < 2 ^ 64" using assms(3) by simp
  show ?thesis
  proof (cases "dr_record r")
    case (HeapInsert t pid slot d)
    then obtain pg where pg: "pool_content p pid = Some pg" "page_wf pg" using assms(2) by (auto simp: acts_ok_def acts_of_def)
    from redo_insert_ok [OF assms(1) pg clk, of slot d "dr_lsn r"] HeapInsert pg show ?thesis
      by (auto simp: redo_record_def acts_of_def act_map_def client_ok_def)
  next
    case (HeapDelete t pid slot x)
    then obtain pg where pg: "pool_content p pid = Some pg" "page_wf pg" using assms(2) by (auto simp: acts_ok_def acts_of_def)
    from redo_delete_ok [OF assms(1) pg clk, of slot "dr_lsn r"] HeapDelete pg show ?thesis
      by (auto simp: redo_record_def acts_of_def act_map_def client_ok_def)
  next
    case (HeapUpdate t pid slot pid' slot' x d)
    then obtain pg where pg: "pool_content p pid = Some pg" "page_wf pg" using assms(2) by (auto simp: acts_ok_def acts_of_def)
    obtain q where q: "redo_delete p pid slot (dr_lsn r) = (Inr (), q)"
      "client_ok p ((pool_content p)(pid \<mapsto> redone_delete slot (dr_lsn r) pg)) (dm_next_page_id (bp_disk p)) q"
      using redo_delete_ok [OF assms(1) pg clk] by blast
    note Q = client_okD [OF q(2)]
    have m: "pool_content q = act_map (pid, ActDelete slot (dr_lsn r)) (pool_content p)"
      using Q(2) pg(1) by (simp add: act_map_def)
    have "acts_ok (acts_of r) (pool_content q)" unfolding m by (rule acts_ok_step [OF assms(2)])
    then obtain pg' where pg': "pool_content q pid' = Some pg'" "page_wf pg'"
      using HeapUpdate by (auto simp: acts_ok_def acts_of_def)
    have "lr_clock (bp_replacer q) + 1 < 2 ^ 64" using Q(4) assms(3) by simp
    from redo_insert_ok [OF Q(1) pg' this, of slot' d "dr_lsn r"] obtain q' where
      q': "redo_insert q pid' slot' d (dr_lsn r) = (Inr (), q')"
      "client_ok q ((pool_content q)(pid' \<mapsto> redone_insert slot' d (dr_lsn r) pg')) (dm_next_page_id (bp_disk q)) q'" by blast
    note Q' = client_okD [OF q'(2)]
    have "pool_content q' = fold act_map (acts_of r) (pool_content p)"
      using HeapUpdate Q'(2) pg'(1) m by (simp add: acts_of_def) (simp add: act_map_def)
    then show ?thesis using HeapUpdate q(1) q'(1) Q(4) Q'(1,4) by (simp add: redo_record_def)
  qed (use assms in \<open>simp_all add: redo_record_def acts_of_def\<close>)
qed

lemma redo_records_ok:
  assumes "idle p" "acts_ok (concat (map acts_of rs)) (pool_content p)" "lr_clock (bp_replacer p) + 2 * length rs < 2 ^ 64"
  shows "\<exists>q. redo_records rs p = (Inr (), q) \<and> idle q \<and>
    pool_content q = fold act_map (concat (map acts_of rs)) (pool_content p) \<and>
    lr_clock (bp_replacer q) \<le> lr_clock (bp_replacer p) + 2 * length rs"
  using assms
proof (induction rs arbitrary: p)
  case Nil
  then show ?case by simp
next
  case (Cons r rs)
  have r: "acts_ok (acts_of r) (pool_content p)" "lr_clock (bp_replacer p) + 2 < 2 ^ 64"
    using Cons.prems by (simp_all add: acts_ok_def)
  obtain q where q: "redo_record p r = (Inr (), q)" "idle q" "pool_content q = fold act_map (acts_of r) (pool_content p)"
    "lr_clock (bp_replacer q) \<le> lr_clock (bp_replacer p) + 2"
    using redo_record_ok [OF Cons.prems(1) r] by blast
  have "acts_ok (concat (map acts_of rs)) (pool_content q)"
    using acts_ok_fold [of "concat (map acts_of rs)" "pool_content p" "acts_of r"] Cons.prems(2) q(3)
    by (auto simp: acts_ok_def)
  moreover have "lr_clock (bp_replacer q) + 2 * length rs < 2 ^ 64" using q(4) Cons.prems(3) by simp
  ultimately obtain q' where "redo_records rs q = (Inr (), q')" "idle q'"
    "pool_content q' = fold act_map (concat (map acts_of rs)) (pool_content q)"
    "lr_clock (bp_replacer q') \<le> lr_clock (bp_replacer q) + 2 * length rs"
    using Cons.IH [OF q(2)] by blast
  then show ?case using q by simp
qed

text \<open>An action does nothing to a page that is as new as its LSN, and leaves a page it changes that new.\<close>

definition inert :: "page_act \<Rightarrow> page \<Rightarrow> bool" where
  "inert a pg \<longleftrightarrow> act_page a pg = pg"

lemma act_old: "\<not> page_lsn pg < act_lsn a \<Longrightarrow> inert a pg"
  by (cases a) (simp_all add: inert_def redone_insert_def redone_delete_def)

lemma act_fires:
  assumes "page_wf pg" "act_lsn a < 2 ^ 64" "\<not> inert a pg"
  shows "page_lsn (act_page a pg) = act_lsn a"
proof (cases a)
  case (ActInsert slot d lsn)
  have "length (case insert_tuple pg d of Inr (pg', _) \<Rightarrow> pg' | Inl _ \<Rightarrow> pg) = PAGE_SIZE"
    using redone_wf(3) [OF assms(1), of d] by (simp add: page_wf_def)
  then show ?thesis
    using ActInsert assms page_lsn_set by (auto simp: inert_def redone_insert_def split: if_splits)
next
  case (ActDelete slot lsn)
  then have used: "page_lsn pg < lsn" "is_slot_used pg slot"
    using assms(3) by (auto simp: inert_def redone_delete_def split: if_splits)
  then obtain pg' where "delete_tuple pg slot = Inr pg'" "page_wf pg'" using redone_wf(4) [OF assms(1)] by blast
  then show ?thesis
    using ActDelete assms(2) used page_lsn_set [of pg' lsn] by (simp add: redone_delete_def page_wf_def)
qed

lemma fold_act_inert:
  assumes "page_wf pg" "sorted (map act_lsn as)" "\<forall>a \<in> set as. act_lsn a < 2 ^ 64"
  shows "page_wf (fold act_page as pg) \<and> (\<forall>a \<in> set as. inert a (fold act_page as pg))"
  using assms
proof (induction as rule: rev_induct)
  case Nil
  then show ?case by simp
next
  case (snoc a as)
  let ?q = "fold act_page as pg"
  have q: "page_wf ?q" "\<forall>b \<in> set as. inert b ?q" using snoc by (auto simp: sorted_append)
  have le: "act_lsn b \<le> act_lsn a" if "b \<in> set as" for b using snoc.prems(2) that by (auto simp: sorted_append)
  show ?case
  proof (cases "inert a ?q")
    case True
    then show ?thesis using q by (simp add: inert_def)
  next
    case False
    have l: "page_lsn (act_page a ?q) = act_lsn a" using act_fires [OF q(1) _ False] snoc.prems(3) by simp
    have "inert b (act_page a ?q)" if "b \<in> set as \<or> b = a" for b
      using that le [of b] l by (intro act_old) auto
    then show ?thesis using act_page_wf [OF q(1)] by auto
  qed
qed

lemma fold_inert: "\<forall>a \<in> set as. inert a pg \<Longrightarrow> fold act_page as pg = pg"
  by (induction as) (simp_all add: inert_def)

definition page_acts :: "nat \<Rightarrow> (nat \<times> page_act) list \<Rightarrow> page_act list" where
  "page_acts pid as = map snd (filter (\<lambda>x. fst x = pid) as)"

lemma fold_act_map: "fold act_map as m pid = map_option (fold act_page (page_acts pid as)) (m pid)"
proof (induction as arbitrary: m)
  case Nil
  then show ?case by (simp add: page_acts_def option.map_ident)
next
  case (Cons a as)
  then show ?case by (cases a) (auto simp: page_acts_def act_map_def option.map_comp o_def)
qed

text \<open>Replaying a prefix first changes nothing about the outcome of the whole.\<close>

lemma redo_map_restart:
  assumes "acts_ok (as @ bs) m" "sorted (map (\<lambda>x. act_lsn (snd x)) as)" "\<forall>a \<in> set as. act_lsn (snd a) < 2 ^ 64"
  shows "fold act_map (as @ bs) (fold act_map as m) = fold act_map (as @ bs) m"
proof -
  have "fold act_map as (fold act_map as m) pid = fold act_map as m pid" for pid
  proof (cases "page_acts pid as = []")
    case True
    then show ?thesis unfolding fold_act_map by (simp add: option.map_id)
  next
    case False
    have srt: "sorted (map act_lsn (page_acts pid as))"
      using sorted_filter [OF assms(2), of "\<lambda>x. fst x = pid"] by (simp add: page_acts_def o_def)
    have l: "\<forall>a \<in> set (page_acts pid as). act_lsn a < 2 ^ 64" using assms(3) by (auto simp: page_acts_def)
    from False obtain a where "(pid, a) \<in> set as" by (auto simp: page_acts_def filter_empty_conv)
    then obtain pg where pg: "m pid = Some pg" "page_wf pg" using assms(1) by (force simp: acts_ok_def)
    then show ?thesis
      unfolding fold_act_map using fold_inert fold_act_inert [OF pg(2) srt l] by simp
  qed
  then have "fold act_map as (fold act_map as m) = fold act_map as m" by blast
  then show ?thesis by simp
qed

section \<open>The records of the log\<close>

lemma drain_sorted:
  assumes "drain rd = (rs, e)" "wr_base_lsn rd = 0" "length (wr_data rd) < 2 ^ 64"
  shows "sorted (map dr_lsn rs) \<and> (\<forall>r \<in> set rs. wr_pos rd \<le> dr_lsn r \<and> dr_lsn r < 2 ^ 64)"
  using assms
proof (induction rd arbitrary: rs e rule: drain.induct)
  case (1 rd)
  obtain x rd' where n: "next_record rd = (x, rd')" by force
  show ?case
  proof (cases x)
    case None
    then show ?thesis using 1(2) n by (simp add: drain.simps [of rd])
  next
    case (Some y)
    show ?thesis
    proof (cases y)
      case (Inl err)
      then show ?thesis using 1(2) n Some by (simp add: drain.simps [of rd])
    next
      case (Inr r)
      obtain rs' e' where d: "drain rd' = (rs', e')" by force
      have eq: "next_record rd = (Some (Inr r), rd')" using n Some Inr by simp
      note P = next_record_progress [OF eq]
      have l: "dr_lsn r = wr_pos rd" "wr_base_lsn rd' = 0"
        using eq 1(3,4) P by (auto simp: next_record_def decode_record_def Let_def rbind_Inr_iff split: if_splits sum.splits)
      have rs: "rs = r # rs'" using 1(2) eq d by (simp add: drain.simps [of rd])
      have "sorted (map dr_lsn rs') \<and> (\<forall>r \<in> set rs'. wr_pos rd' \<le> dr_lsn r \<and> dr_lsn r < 2 ^ 64)"
        using 1(1) [OF _ _ _ d] n Some Inr l(2) 1(4) P by auto
      then show ?thesis using rs l(1) P 1(4) by auto
    qed
  qed
qed

text \<open>Reading record by record and reading the whole log agree.\<close>

lemma drain_read:
  "read_n (Suc (length rs)) rd = map (\<lambda>r. Some (Inr r)) rs @ [None] \<Longrightarrow> drain rd = (rs, None)"
proof (induction rs arbitrary: rd)
  case Nil
  then show ?case by (cases "next_record rd") (simp add: drain.simps [of rd])
next
  case (Cons r rs)
  obtain x rd' where n: "next_record rd = (x, rd')" by force
  then have "x = Some (Inr r)" "read_n (Suc (length rs)) rd' = map (\<lambda>r. Some (Inr r)) rs @ [None]"
    using Cons.prems by simp_all
  with n Cons.IH [of rd'] show ?case by (simp add: drain.simps [of rd])
qed

lemma acts_of_lsn: "x \<in> set (acts_of r) \<Longrightarrow> act_lsn (snd x) = dr_lsn r"
  by (auto simp: acts_of_def split: WalRecord.splits)

lemma sorted_acts: "sorted (map dr_lsn rs) \<Longrightarrow> sorted (map (\<lambda>x. act_lsn (snd x)) (concat (map acts_of rs)))"
proof (induction rs)
  case (Cons r rs)
  have "map (\<lambda>x. act_lsn (snd x)) (acts_of r) = replicate (length (acts_of r)) (dr_lsn r)"
    using acts_of_lsn [of _ r] by (intro replicate_eqI) auto
  then have "sorted (map (\<lambda>x. act_lsn (snd x)) (acts_of r))" by simp
  then show ?case using Cons acts_of_lsn by (auto simp: sorted_append)
qed simp

section \<open>The status of the transactions\<close>

fun decision :: "DecodedRecord \<Rightarrow> bool option" where
  "decision r = (case dr_record r of XactCommit _ \<Rightarrow> Some True | XactAbort _ \<Rightarrow> Some False | _ \<Rightarrow> None)"

definition decisions :: "nat \<Rightarrow> DecodedRecord list \<Rightarrow> bool list" where
  "decisions x rs = List.map_filter decision (filter (\<lambda>r. dr_xid r = x) rs)"

lemma decisions_none: "decisions x rs = [] \<longleftrightarrow> (\<forall>r \<in> set rs. dr_xid r = x \<longrightarrow>
    \<not> (case dr_record r of XactCommit _ \<Rightarrow> True | _ \<Rightarrow> False) \<and> \<not> (case dr_record r of XactAbort _ \<Rightarrow> True | _ \<Rightarrow> False))"
proof -
  have "decision r = None \<longleftrightarrow> \<not> (case dr_record r of XactCommit _ \<Rightarrow> True | _ \<Rightarrow> False) \<and>
      \<not> (case dr_record r of XactAbort _ \<Rightarrow> True | _ \<Rightarrow> False)" for r
    by (cases "dr_record r") simp_all
  then show ?thesis by (auto simp: decisions_def map_filter_def filter_empty_conv simp del: decision.simps)
qed

lemma analyse_status:
  "hm_get (fold analyse_record rs []) x = Some TxCommitted \<longleftrightarrow> decisions x rs \<noteq> [] \<and> last (decisions x rs)"
  "hm_get (fold analyse_record rs []) x = Some TxAborted \<longleftrightarrow> decisions x rs \<noteq> [] \<and> \<not> last (decisions x rs)"
proof (induction rs rule: rev_induct)
  case Nil
  {
    case 1
    show ?case by (simp add: decisions_def map_filter_def)
  next
    case 2
    show ?case by (simp add: decisions_def map_filter_def)
  }
next
  case (snoc r rs)
  {
    case 1
    show ?case using snoc
      by (cases "dr_record r") (auto simp: decisions_def map_filter_def analyse_record_def hm_insert_get split: option.split)
  next
    case 2
    show ?case using snoc
      by (cases "dr_record r") (auto simp: decisions_def map_filter_def analyse_record_def hm_insert_get split: option.split)
  }
qed

lemma analyse_wf: "hm_wf (fold analyse_record rs [])"
proof (induction rs rule: rev_induct)
  case (snoc r rs)
  then show ?case by (cases "dr_record r") (auto simp: analyse_record_def split: option.split)
qed simp

lemma fold_force_abort:
  "tm_aborted (fold (\<lambda>x t. if P x then force_abort t x else t) xs t) = tm_aborted t \<union> {x \<in> set xs. P x} \<and>
   tm_committed (fold (\<lambda>x t. if P x then force_abort t x else t) xs t) = tm_committed t \<and>
   tm_active (fold (\<lambda>x t. if P x then force_abort t x else t) xs t) = tm_active t - {x \<in> set xs. P x}"
  by (induction xs arbitrary: t) (auto simp: force_abort_def)

lemma read_from_start:
  assumes "read_from w 0 = Inr rd"
  shows "wr_base_lsn rd = 0" "wr_pos rd = 0" "length (wr_data rd) \<le> wal_flushed_lsn w"
proof -
  have "wr_base_lsn rd = 0 \<and> wr_pos rd = 0 \<and> length (wr_data rd) \<le> wal_flushed_lsn w"
  proof (cases "wal_flushed_lsn w = 0")
    case False
    then have "read_at (wal_file w) (wal_flushed_lsn w) 0 = Inr (wr_data rd)" "wr_base_lsn rd = 0" "wr_pos rd = 0"
      using assms by (auto simp: read_from_def reader_new_def rbind_Inr_iff)
    then show ?thesis by (simp add: read_at_def slice_def split: if_splits) (metis length_take min.cobounded2)
  qed (use assms in \<open>auto simp: read_from_def reader_new_def\<close>)
  then show "wr_base_lsn rd = 0" "wr_pos rd = 0" "length (wr_data rd) \<le> wal_flushed_lsn w" by simp_all
qed

section \<open>Properties\<close>

text \<open>C15. Redo can be interrupted and restarted. Replaying a log that can be read, over pages that
  exist, succeeds; and if a first attempt stops after any number of records, replaying the whole log over
  the pages it left gives exactly the pages of one undisturbed replay. In particular replaying twice is
  replaying once.\<close>

theorem redo_restarts:
  assumes "idle p" "read_from w 0 = Inr rd" "drain rd = (rs, None)" "wal_flushed_lsn w < 2 ^ 64"
    and "acts_ok (concat (map acts_of rs)) (pool_content p)"
    and "lr_clock (bp_replacer p) + 4 * length rs < 2 ^ 64"
  shows "\<exists>q p1 q1. redo_recover w p = (Inr (), q) \<and> redo_records (take k rs) p = (Inr (), p1) \<and>
    redo_recover w p1 = (Inr (), q1) \<and> pool_content q1 = pool_content q"
proof -
  note R = read_from_start [OF assms(2)]
  have srt: "sorted (map dr_lsn rs)" "\<forall>r \<in> set rs. dr_lsn r < 2 ^ 64"
    using drain_sorted [OF assms(3) R(1)] R(3) assms(4) by auto
  let ?as = "concat (map acts_of rs)" and ?pre = "concat (map acts_of (take k rs))"
  have split: "?as = ?pre @ concat (map acts_of (drop k rs))" by (metis append_take_drop_id concat_append map_append)
  have pre: "sorted (map (\<lambda>x. act_lsn (snd x)) ?pre)" "\<forall>a \<in> set ?pre. act_lsn (snd a) < 2 ^ 64"
    using sorted_acts [of "take k rs"] srt acts_of_lsn
    by (auto simp flip: take_map simp: sorted_wrt_take dest!: in_set_takeD)
  obtain q where q: "redo_records rs p = (Inr (), q)" "pool_content q = fold act_map ?as (pool_content p)"
    using redo_records_ok [OF assms(1,5)] assms(6) by auto
  have ok: "acts_ok ?pre (pool_content p)" using assms(5) unfolding split by (simp add: acts_ok_def)
  have len: "length (take k rs) \<le> length rs" by simp
  obtain p1 where p1: "redo_records (take k rs) p = (Inr (), p1)" "idle p1"
    "pool_content p1 = fold act_map ?pre (pool_content p)"
    "lr_clock (bp_replacer p1) \<le> lr_clock (bp_replacer p) + 2 * length (take k rs)"
    using redo_records_ok [OF assms(1) ok] assms(6) len by force
  have "acts_ok ?as (pool_content p1)" unfolding p1(3) by (rule acts_ok_fold [OF assms(5)])
  moreover have "lr_clock (bp_replacer p1) + 2 * length rs < 2 ^ 64" using p1(4) assms(6) by simp
  ultimately obtain q1 where q1: "redo_records rs p1 = (Inr (), q1)"
    "pool_content q1 = fold act_map ?as (pool_content p1)"
    using redo_records_ok [OF p1(2)] by blast
  have "pool_content q1 = pool_content q"
    using redo_map_restart [of ?pre _ "pool_content p"] pre assms(5) unfolding q1(2) q(2) p1(3) split by simp
  then show ?thesis using assms(2,3) q(1) p1(1) q1(1) by (simp add: redo_recover_def)
qed

text \<open>C16. Recovery restores the status of every transaction: after \<open>recover\<close> a transaction counts as
  committed exactly if it did before or the last decision about it in the log is its commit, and
  \<open>undo_recover\<close> aborts exactly the transactions of the log without a decision.\<close>

theorem recovery_restores_status:
  assumes "read_from w 0 = Inr rd" "drain rd = (rs, None)" "redo_recover w p = (Inr (), p')"
  shows "\<exists>t1 t2. recover p w t = (Inr (), p', t1) \<and> undo_recover w t = (Inr (), t2) \<and>
    (is_committed t1 x \<longleftrightarrow> is_committed t x \<or> decisions x rs \<noteq> [] \<and> last (decisions x rs)) \<and>
    (is_aborted t2 x \<longleftrightarrow> is_aborted t x \<or> x \<noteq> INVALID_XID \<and> x \<in> dr_xid ` set rs \<and> decisions x rs = []) \<and>
    (is_committed t2 x \<longleftrightarrow> is_committed t x)"
proof -
  let ?m = "fold analyse_record rs []"
  let ?P = "\<lambda>y. y \<notin> set [dr_xid r. r \<leftarrow> rs, (case dr_record r of XactCommit _ \<Rightarrow> True | _ \<Rightarrow> False)] \<and>
    y \<notin> set [dr_xid r. r \<leftarrow> rs, (case dr_record r of XactAbort _ \<Rightarrow> True | _ \<Rightarrow> False)]"
  have P: "?P y \<longleftrightarrow> decisions y rs = []" for y
    unfolding decisions_none by auto
  define t2 where "t2 = fold (\<lambda>y t. if ?P y then force_abort t y else t)
    (remdups (filter (\<lambda>y. y \<noteq> INVALID_XID) (map dr_xid rs))) t"
  have "recover p w t = (Inr (), p', restore_status ?m t)" using assms by (simp add: recover_def)
  moreover have "is_committed (restore_status ?m t) x \<longleftrightarrow>
      is_committed t x \<or> decisions x rs \<noteq> [] \<and> last (decisions x rs)"
    using map_of_eq_Some_iff [OF analyse_wf [of rs], of x TxCommitted] analyse_status(1) [of rs x]
    by (auto simp: restore_status_def is_committed_def Let_def)
  moreover have "undo_recover w t = (Inr (), t2)"
    using assms by (simp add: undo_recover_def t2_def)
  moreover have "tm_aborted t2 = tm_aborted t \<union> {y \<in> set (filter (\<lambda>y. y \<noteq> INVALID_XID) (map dr_xid rs)). decisions y rs = []}"
    "tm_committed t2 = tm_committed t"
    using fold_force_abort [of ?P "remdups (filter (\<lambda>y. y \<noteq> INVALID_XID) (map dr_xid rs))" t]
    unfolding t2_def P set_remdups by blast+
  ultimately show ?thesis
    by (intro exI [of _ "restore_status ?m t"] exI [of _ t2]) (auto simp: is_aborted_def is_committed_def)
qed

text \<open>A log of an aborted, a committed and an unfinished transaction, for concrete inputs.\<close>

definition ex_written :: "(nat \<times> WalRecord) list" where
  "ex_written = [(8, XactAbort 4), (9, HeapInsert 1 1 0 [7]), (9, XactCommit 5), (10, HeapDelete 1 1 0 0)]"

definition ex_wal :: WalManager where
  "ex_wal = wal_open (wal_file (fold (wal_step (\<lambda>_. 0)) (map (\<lambda>(x, r). WriteRec x r) ex_written @ [Flush]) wal_create))"

definition ex_records :: "DecodedRecord list" where
  "ex_records = map (wal_entry ex_written) [0 ..< 4]"

lemma ex_records_eq: "map dr_xid ex_records = [8, 9, 9, 10]"
  "map dr_record ex_records = map snd ex_written" "length ex_records = 4"
  by (simp_all add: ex_records_def ex_written_def wal_entry_def upt_rec)

lemma ex_wal_read:
  obtains rd where "read_from ex_wal 0 = Inr rd" "drain rd = (ex_records, None)" "wal_flushed_lsn ex_wal < 2 ^ 64"
proof -
  let ?ops = "map (\<lambda>(x, r). WriteRec x r) ex_written"
  have wr: "written ?ops = ex_written" "length ex_written = 4" by (simp_all add: ex_written_def)
  have l: "lsn_at ex_written 4 < 2 ^ 64" by (simp add: lsn_at_def ex_written_def serialize_body_def)
  have ok: "records_ok ex_written"
    using l wr(2) by (simp add: records_ok_def) (simp add: ex_written_def)
  obtain k where "holds_log (\<lambda>_. 0) (fold (wal_step (\<lambda>_. 0)) ?ops wal_create) ex_written k"
    using wal_run_ok [OF holds_log_create, of ?ops] l wr by auto
  from wal_flush_ok(1) [OF this] l wr(2)
  have h: "holds_log (\<lambda>_. 0) (fold (wal_step (\<lambda>_. 0)) (?ops @ [Flush]) wal_create) ex_written 4" by simp
  obtain rd where rd: "read_from ex_wal 0 = Inr rd"
    "read_n (Suc 4) rd = map (\<lambda>i. Some (Inr (wal_entry ex_written i))) [0 ..< 4] @ [None]"
    using read_back [OF h ok] unfolding ex_wal_def by blast
  have "drain rd = (ex_records, None)"
    by (rule drain_read) (use rd(2) in \<open>simp add: ex_records_def o_def del: read_n.simps upt_rec_numeral\<close>)
  moreover have "wal_flushed_lsn ex_wal < 2 ^ 64"
    using h l length_log_bytes [of 4 ex_written] wr(2)
    by (simp add: ex_wal_def wal_open_def scan_wal_end_def holds_log_def)
  ultimately show ?thesis using that rd(1) by blast
qed

theorem redo_restarts_witness:
  "\<exists>p q p1 q1. redo_recover ex_wal p = (Inr (), q) \<and> redo_records (take 2 ex_records) p = (Inr (), p1) \<and>
    redo_recover ex_wal p1 = (Inr (), q1) \<and> pool_content q1 = pool_content q"
proof -
  obtain p where p: "idle p" "pool_content p 1 = Some (page_new 1)" "lr_clock (bp_replacer p) \<le> 1"
    by (rule first_page [of 2]) simp_all
  obtain rd where rd: "read_from ex_wal 0 = Inr rd" "drain rd = (ex_records, None)" "wal_flushed_lsn ex_wal < 2 ^ 64"
    by (rule ex_wal_read)
  have "acts_ok (concat (map acts_of ex_records)) (pool_content p)"
    using p(2) page_new_wf [of 1]
    by (simp add: acts_ok_def ex_records_def acts_of_def wal_entry_def ex_written_def upt_rec)
  with redo_restarts [OF p(1) rd, of 2] p(3) show ?thesis by (auto simp: ex_records_eq)
qed

theorem recovery_restores_status_witness:
  "\<exists>p p' t1 t2. recover p ex_wal tm_new = (Inr (), p', t1) \<and> undo_recover ex_wal tm_new = (Inr (), t2) \<and>
    is_committed t1 9 \<and> is_aborted t2 10"
proof -
  obtain p where p: "idle p" "pool_content p 1 = Some (page_new 1)" "lr_clock (bp_replacer p) \<le> 1"
    by (rule first_page [of 2]) simp_all
  obtain rd where rd: "read_from ex_wal 0 = Inr rd" "drain rd = (ex_records, None)" by (rule ex_wal_read)
  have "acts_ok (concat (map acts_of ex_records)) (pool_content p)"
    using p(2) page_new_wf [of 1]
    by (simp add: acts_ok_def ex_records_def acts_of_def wal_entry_def ex_written_def upt_rec)
  moreover have "lr_clock (bp_replacer p) + 2 * length ex_records < 2 ^ 64" using p(3) by (simp add: ex_records_eq)
  ultimately obtain p' where "redo_records ex_records p = (Inr (), p')" using redo_records_ok [OF p(1)] by blast
  then have r: "redo_recover ex_wal p = (Inr (), p')" using rd by (simp add: redo_recover_def)
  have d: "decisions 9 ex_records = [True]" "decisions 10 ex_records = []" "10 \<in> dr_xid ` set ex_records"
    by (auto simp: decisions_def ex_records_def map_filter_def wal_entry_def ex_written_def upt_rec)
  show ?thesis
    using recovery_restores_status [OF rd r, of tm_new 9] recovery_restores_status [OF rd r, of tm_new 10] d by auto
qed

text \<open>The record at the start of the log has LSN 0, and no page is older than that: it is never redone.\<close>

lemma first_record_not_redone: "act_page (ActInsert slot d 0) pg = pg" "act_page (ActDelete slot 0) pg = pg"
  by (simp_all add: redone_insert_def redone_delete_def)

text \<open>An update within one page is redone as a deletion only: the deletion sets the LSN the insertion is
  compared with.\<close>

lemma update_in_page_loses_tuple:
  assumes "page_wf pg" "page_lsn pg < lsn" "is_slot_used pg slot" "lsn < 2 ^ 64"
  shows "redone_insert slot' d lsn (redone_delete slot lsn pg) = redone_delete slot lsn pg"
proof -
  obtain pg' where "delete_tuple pg slot = Inr pg'" "page_wf pg'" using redone_wf(4) [OF assms(1,3)] by blast
  then have "page_lsn (redone_delete slot lsn pg) = lsn"
    using assms page_lsn_set [of pg' lsn] by (simp add: redone_delete_def page_wf_def)
  then show ?thesis by (simp add: redone_insert_def)
qed

end
