(* ===== verification/Lock_Manager.thy ===== *)
theory Lock_Manager
  imports Heap_File
begin

text \<open>
  The lock manager of \<^verbatim>\<open>crates/storage/src/lock.rs\<close>. Every method holds the one mutex, so it is a
  function on the lock table. A call of \<open>acquire\<close> that has to wait gives the mutex up: the call is the part
  before its first wait, \<open>acquire_start\<close>, and one turn of its loop per wake-up, \<open>acquire_wake\<close>. The
  relation \<open>lock_reach\<close> interleaves these parts of all transactions in any order.
\<close>

datatype LockTarget = Table nat | Tuple nat TupleId

datatype LockMode = Shared | Exclusive

record LockRequest =
  lr_xid :: nat
  lr_target :: LockTarget
  lr_mode :: LockMode

record LockEntry =
  le_holders :: "(nat \<times> LockMode) list"
  le_waiters :: "(nat \<times> LockMode) list"

type_synonym lock_table = "(LockTarget, LockEntry) hmap"

definition entry_new :: LockEntry where
  "entry_new = \<lparr>le_holders = [], le_waiters = []\<rparr>"

definition is_compatible :: "LockMode \<Rightarrow> LockMode \<Rightarrow> bool" where
  "is_compatible held requested \<longleftrightarrow> held = Shared \<and> requested = Shared"

definition all_compatible :: "LockEntry \<Rightarrow> LockMode \<Rightarrow> bool" where
  "all_compatible e mode = list_all (\<lambda>(_, held). is_compatible held mode) (le_holders e)"

definition already_holds :: "LockEntry \<Rightarrow> nat \<Rightarrow> LockMode \<Rightarrow> bool" where
  "already_holds e xid mode =
     list_ex (\<lambda>(hxid, hmode). hxid = xid \<and> (hmode = mode \<or> hmode = Exclusive)) (le_holders e)"

section \<open>Deadlock detection\<close>

definition is_waiting :: "nat \<Rightarrow> LockEntry \<Rightarrow> bool" where
  "is_waiting xid e = list_ex (\<lambda>(wxid, _). wxid = xid) (le_waiters e)"

definition blockers :: "lock_table \<Rightarrow> nat \<Rightarrow> nat list" where
  \<comment> \<open>the holders of the entries \<open>xid\<close> waits on, in the order the loops visit them\<close>
  "blockers locks xid = concat (map (\<lambda>(_, e). if is_waiting xid e then map fst (le_holders e) else []) locks)"

definition all_holders :: "lock_table \<Rightarrow> nat list" where
  "all_holders locks = concat (map (\<lambda>(_, e). map fst (le_holders e)) locks)"

lemma blockers_holders: "set (blockers locks x) \<subseteq> set (all_holders locks)"
proof (induction locks)
  case (Cons a locks)
  then have "set (blockers (a # locks) x) \<subseteq> fst ` set (le_holders (snd a)) \<union> set (all_holders locks)"
    by (cases "is_waiting x (snd a)") (simp_all add: blockers_def case_prod_unfold le_supI1 le_supI2)
  then show ?case by (simp add: all_holders_def case_prod_unfold)
qed (simp add: blockers_def)

function detect_loop :: "nat \<Rightarrow> lock_table \<Rightarrow> nat set \<Rightarrow> nat list \<Rightarrow> bool" where
  "detect_loop w locks visited [] = False"
| "detect_loop w locks visited (xid # stack) =
     (if xid \<in> visited then detect_loop w locks visited stack
      else if xid \<noteq> w \<and> w \<in> set (blockers locks xid) then True
      else detect_loop w locks (insert xid visited) (rev (blockers locks xid) @ stack))"
  by pat_completeness auto
termination
proof (relation "measures [\<lambda>(w, locks, visited, stack). card (set stack \<union> set (all_holders locks) - visited),
    \<lambda>(w, locks, visited, stack). length stack]")
  fix w :: nat and locks :: lock_table and visited :: "nat set" and stack :: "nat list" and xid :: nat
  show "((w, locks, visited, stack), (w, locks, visited, xid # stack)) \<in>
      measures [\<lambda>(w, locks, visited, stack). card (set stack \<union> set (all_holders locks) - visited),
        \<lambda>(w, locks, visited, stack). length stack]" if "xid \<in> visited"
  proof -
    have "set (xid # stack) \<union> set (all_holders locks) - visited = set stack \<union> set (all_holders locks) - visited"
      using that by auto
    then show ?thesis by simp
  qed
  show "((w, locks, insert xid visited, rev (blockers locks xid) @ stack), (w, locks, visited, xid # stack)) \<in>
      measures [\<lambda>(w, locks, visited, stack). card (set stack \<union> set (all_holders locks) - visited),
        \<lambda>(w, locks, visited, stack). length stack]" if "xid \<notin> visited"
  proof -
    have "set (rev (blockers locks xid) @ stack) \<union> set (all_holders locks) - insert xid visited \<subset>
        set (xid # stack) \<union> set (all_holders locks) - visited"
      using that blockers_holders [of locks xid] by auto
    then have "card (set (rev (blockers locks xid) @ stack) \<union> set (all_holders locks) - insert xid visited) <
        card (set (xid # stack) \<union> set (all_holders locks) - visited)"
      by (intro psubset_card_mono finite_Diff finite_UnI finite_set)
    then show ?thesis by simp
  qed
qed simp

definition detect_deadlock :: "nat \<Rightarrow> lock_table \<Rightarrow> bool" where
  "detect_deadlock waiting_xid locks = detect_loop waiting_xid locks {} [waiting_xid]"

section \<open>The operations\<close>

datatype acquire_result = Granted | Deadlock | Waiting

definition entry_of :: "LockTarget \<Rightarrow> lock_table \<Rightarrow> LockEntry" where
  "entry_of target locks = (case hm_get locks target of Some e \<Rightarrow> e | None \<Rightarrow> entry_new)"

definition acquire_pass :: "LockRequest \<Rightarrow> lock_table \<Rightarrow> acquire_result \<times> lock_table" where
  "acquire_pass req locks =
     (let e = entry_of (lr_target req) locks;
          locks1 = hm_insert (lr_target req) e locks
      in if all_compatible e (lr_mode req) \<and> le_waiters e = []
         then (Granted, hm_insert (lr_target req) (e\<lparr>le_holders := le_holders e @ [(lr_xid req, lr_mode req)]\<rparr>) locks1)
         else if detect_deadlock (lr_xid req) locks1 then (Deadlock, locks1)
         else (Waiting,
               if is_waiting (lr_xid req) e then locks1
               else hm_insert (lr_target req) (e\<lparr>le_waiters := le_waiters e @ [(lr_xid req, lr_mode req)]\<rparr>) locks1))"

definition acquire_start :: "LockRequest \<Rightarrow> lock_table \<Rightarrow> acquire_result \<times> lock_table" where
  "acquire_start req locks =
     (case hm_get locks (lr_target req) of
        Some e \<Rightarrow> if already_holds e (lr_xid req) (lr_mode req) then (Granted, locks) else acquire_pass req locks
      | None \<Rightarrow> acquire_pass req locks)"

definition unqueue :: "LockRequest \<Rightarrow> lock_table \<Rightarrow> lock_table" where
  "unqueue req locks =
     (case hm_get locks (lr_target req) of
        Some e \<Rightarrow> hm_insert (lr_target req) (e\<lparr>le_waiters := filter (\<lambda>(wxid, _). wxid \<noteq> lr_xid req) (le_waiters e)\<rparr>) locks
      | None \<Rightarrow> locks)"

definition acquire_wake :: "LockRequest \<Rightarrow> lock_table \<Rightarrow> acquire_result \<times> lock_table" where
  "acquire_wake req locks = acquire_pass req (unqueue req locks)"

definition release_all :: "nat \<Rightarrow> lock_table \<Rightarrow> lock_table" where
  "release_all xid locks =
     filter (\<lambda>(_, e). le_holders e \<noteq> [] \<or> le_waiters e \<noteq> [])
       (map (\<lambda>(t, e). (t, e\<lparr>le_holders := filter (\<lambda>(hxid, _). hxid \<noteq> xid) (le_holders e)\<rparr>)) locks)"

definition holders :: "LockTarget \<Rightarrow> lock_table \<Rightarrow> nat list" where
  "holders target locks = (case hm_get locks target of Some e \<Rightarrow> map fst (le_holders e) | None \<Rightarrow> [])"

section \<open>Interleaved transactions\<close>

text \<open>The lock table and the requests of the transactions that wait.\<close>

inductive lock_reach :: "lock_table \<Rightarrow> (nat \<rightharpoonup> LockRequest) \<Rightarrow> bool" where
  init: "lock_reach [] Map.empty"
| start_wait: "lock_reach L P \<Longrightarrow> P (lr_xid req) = None \<Longrightarrow> acquire_start req L = (Waiting, L') \<Longrightarrow>
    lock_reach L' (P(lr_xid req \<mapsto> req))"
| start_done: "lock_reach L P \<Longrightarrow> P (lr_xid req) = None \<Longrightarrow> acquire_start req L = (res, L') \<Longrightarrow> res \<noteq> Waiting \<Longrightarrow>
    lock_reach L' P"
| wake_wait: "lock_reach L P \<Longrightarrow> P x = Some req \<Longrightarrow> acquire_wake req L = (Waiting, L') \<Longrightarrow> lock_reach L' P"
| wake_done: "lock_reach L P \<Longrightarrow> P x = Some req \<Longrightarrow> acquire_wake req L = (res, L') \<Longrightarrow> res \<noteq> Waiting \<Longrightarrow>
    lock_reach L' (P(x := None))"
| release: "lock_reach L P \<Longrightarrow> P x = None \<Longrightarrow> lock_reach (release_all x L) P"

section \<open>The search is exact\<close>

definition waits_for :: "lock_table \<Rightarrow> (nat \<times> nat) set" where
  "waits_for locks = {(x, y). \<exists>e \<in> snd ` set locks. x \<in> fst ` set (le_waiters e) \<and> y \<in> fst ` set (le_holders e)}"

lemma is_waiting_iff: "is_waiting x e \<longleftrightarrow> x \<in> fst ` set (le_waiters e)"
  unfolding is_waiting_def list_ex_iff by force

lemma blockers_waits: "y \<in> set (blockers locks x) \<longleftrightarrow> (x, y) \<in> waits_for locks"
proof (induction locks)
  case (Cons a locks)
  then show ?case
    by (cases "is_waiting x (snd a)") (simp_all add: blockers_def waits_for_def is_waiting_iff case_prod_unfold)
qed (simp add: blockers_def waits_for_def)

lemma detect_loop_exact:
  assumes "\<And>v. v \<in> visited \<Longrightarrow> set (blockers locks v) \<subseteq> visited \<union> set stack"
    and "\<And>v. v \<in> visited \<Longrightarrow> v \<noteq> w \<Longrightarrow> w \<notin> set (blockers locks v)"
  shows "detect_loop w locks visited stack \<longleftrightarrow>
    (\<exists>s y. s \<in> set stack \<union> visited \<and> (s, y) \<in> (waits_for locks)\<^sup>* \<and> y \<noteq> w \<and> (y, w) \<in> waits_for locks)"
  using assms
proof (induction w locks visited stack rule: detect_loop.induct)
  case (1 w locks visited)
  have "y \<in> visited" if "s \<in> visited" "(s, y) \<in> (waits_for locks)\<^sup>*" for s y
    using that(2,1)
  proof (induction rule: rtrancl_induct)
    case (step y z)
    then have "z \<in> set (blockers locks y)" using blockers_waits by simp
    then show ?case using 1(1) [of y] step by auto
  qed
  then show ?case using 1(2) blockers_waits by auto
next
  case (2 w locks visited x stack)
  show ?case
  proof (cases "x \<in> visited")
    case True
    have eq: "set (x # stack) \<union> visited = set stack \<union> visited" using True by auto
    have IH: "detect_loop w locks visited stack \<longleftrightarrow>
        (\<exists>s y. s \<in> set stack \<union> visited \<and> (s, y) \<in> (waits_for locks)\<^sup>* \<and> y \<noteq> w \<and> (y, w) \<in> waits_for locks)"
      by (rule 2(1) [OF True]) (use 2(3,4) True in auto)
    show ?thesis unfolding eq using IH True by simp
  next
    case new: False
    show ?thesis
    proof (cases "x \<noteq> w \<and> w \<in> set (blockers locks x)")
      case True
      then show ?thesis using new blockers_waits by auto
    next
      case False
      let ?st = "rev (blockers locks x) @ stack"
      have IH: "detect_loop w locks (insert x visited) ?st \<longleftrightarrow>
          (\<exists>s y. s \<in> set ?st \<union> insert x visited \<and> (s, y) \<in> (waits_for locks)\<^sup>* \<and> y \<noteq> w \<and> (y, w) \<in> waits_for locks)"
        by (rule 2(2) [OF new False]) (use 2(3,4) False in auto)
      have "(x, y) \<in> (waits_for locks)\<^sup>*" if "s \<in> set (blockers locks x)" "(s, y) \<in> (waits_for locks)\<^sup>*" for s y
        using that blockers_waits by (meson converse_rtrancl_into_rtrancl)
      then show ?thesis using new False IH by auto
    qed
  qed
qed

section \<open>The invariant\<close>

definition exclusive_alone :: "LockEntry \<Rightarrow> bool" where
  "exclusive_alone e \<longleftrightarrow> length (le_holders e) \<le> 1 \<or> (\<forall>h \<in> set (le_holders e). snd h = Shared)"

definition entry_ok :: "(nat \<rightharpoonup> LockRequest) \<Rightarrow> LockTarget \<Rightarrow> LockEntry \<Rightarrow> bool" where
  "entry_ok P t e \<longleftrightarrow> exclusive_alone e \<and>
     (\<forall>x \<in> fst ` set (le_waiters e). \<exists>req. P x = Some req \<and> lr_target req = t)"

definition lock_inv :: "lock_table \<Rightarrow> (nat \<rightharpoonup> LockRequest) \<Rightarrow> bool" where
  "lock_inv L P \<longleftrightarrow> hm_wf L \<and> (\<forall>x req. P x = Some req \<longrightarrow> lr_xid req = x) \<and>
     (\<forall>t e. hm_get L t = Some e \<longrightarrow> entry_ok P t e)"

definition not_waiting :: "nat \<Rightarrow> lock_table \<Rightarrow> bool" where
  "not_waiting x L \<longleftrightarrow> (\<forall>t e. hm_get L t = Some e \<longrightarrow> \<not> is_waiting x e)"

lemma no_deadlock_seen:
  assumes "hm_wf L" "not_waiting x L"
  shows "\<not> detect_deadlock x L"
proof -
  have "\<not> is_waiting x (snd a)" if "a \<in> set L" for a
    using that assms(2) map_of_is_SomeI [OF assms(1), of "fst a" "snd a"]
    by (metis not_waiting_def prod.collapse)
  then have "blockers L x = []" by (simp add: blockers_def case_prod_unfold)
  then show ?thesis by (simp add: detect_deadlock_def)
qed

lemma all_compatible_iff: "all_compatible e m \<longleftrightarrow> (\<forall>h \<in> set (le_holders e). snd h = Shared \<and> m = Shared)"
  by (simp add: all_compatible_def list_all_iff is_compatible_def case_prod_unfold)

lemma lock_invD:
  assumes "lock_inv L P"
  shows "hm_wf L" "P x = Some req \<Longrightarrow> lr_xid req = x" "entry_ok P t (entry_of t L)"
  using assms by (auto simp: lock_inv_def entry_of_def entry_ok_def entry_new_def exclusive_alone_def split: option.split)

lemma lock_inv_insert:
  assumes "lock_inv L P" "entry_ok P t e"
  shows "lock_inv (hm_insert t e L) P"
  using assms by (simp add: lock_inv_def hm_insert_get)

lemma entry_ok_mono:
  assumes "entry_ok P t e" "\<And>y. y \<in> fst ` set (le_waiters e) \<Longrightarrow> P y = P' y"
  shows "entry_ok P' t e"
  using assms by (simp add: entry_ok_def)

text \<open>One turn of the loop, for a request of a transaction that is queued nowhere.\<close>

lemma acquire_pass_ok:
  assumes inv: "lock_inv L P" and nw: "not_waiting (lr_xid req) L"
    and pass: "acquire_pass req L = (res, L')"
  shows "res \<noteq> Deadlock" "res = Granted \<Longrightarrow> lock_inv L' P"
    "res = Waiting \<Longrightarrow> P (lr_xid req) = None \<or> P (lr_xid req) = Some req \<Longrightarrow> lock_inv L' (P(lr_xid req \<mapsto> req))"
proof -
  let ?t = "lr_target req" and ?x = "lr_xid req"
  define e where "e = entry_of ?t L"
  define L1 where "L1 = hm_insert ?t e L"
  have e: "entry_ok P ?t e" "\<not> is_waiting ?x e"
    using lock_invD(3) [OF inv, of ?t] nw
    by (simp_all add: e_def entry_of_def not_waiting_def entry_new_def is_waiting_def split: option.split)
  have L1: "lock_inv L1 P" unfolding L1_def by (rule lock_inv_insert [OF inv e(1)])
  have "not_waiting ?x L1" using nw e(2) by (simp add: not_waiting_def L1_def hm_insert_get)
  then have nd: "\<not> detect_deadlock ?x L1" using no_deadlock_seen lock_invD(1) [OF L1] by blast
  let ?g = "all_compatible e (lr_mode req) \<and> le_waiters e = []"
  have eq: "acquire_pass req L = (if ?g
      then (Granted, hm_insert ?t (e\<lparr>le_holders := le_holders e @ [(?x, lr_mode req)]\<rparr>) L1)
      else (Waiting, hm_insert ?t (e\<lparr>le_waiters := le_waiters e @ [(?x, lr_mode req)]\<rparr>) L1))"
    using nd e(2) unfolding acquire_pass_def Let_def e_def [symmetric] L1_def [symmetric] by simp
  show "res \<noteq> Deadlock" using pass eq by (simp split: if_splits)
  show "lock_inv L' P" if "res = Granted"
  proof -
    have g: "?g" and L': "L' = hm_insert ?t (e\<lparr>le_holders := le_holders e @ [(?x, lr_mode req)]\<rparr>) L1"
      using pass eq that by (simp_all split: if_splits)
    have "entry_ok P ?t (e\<lparr>le_holders := le_holders e @ [(?x, lr_mode req)]\<rparr>)"
    proof (cases "le_holders e = []")
      case True
      then show ?thesis using g by (simp add: entry_ok_def exclusive_alone_def)
    next
      case False
      then obtain h where "h \<in> set (le_holders e)" by (meson last_in_set)
      then have "lr_mode req = Shared" "\<forall>h \<in> set (le_holders e). snd h = Shared"
        using g by (simp_all add: all_compatible_iff)
      then show ?thesis using g by (simp add: entry_ok_def exclusive_alone_def)
    qed
    then show ?thesis unfolding L' by (rule lock_inv_insert [OF L1])
  qed
  show "lock_inv L' (P(?x \<mapsto> req))" if w: "res = Waiting" "P ?x = None \<or> P ?x = Some req"
  proof -
    have L': "L' = hm_insert ?t (e\<lparr>le_waiters := le_waiters e @ [(?x, lr_mode req)]\<rparr>) L1"
      using pass eq w(1) by (simp split: if_splits)
    have ok: "entry_ok (P(?x \<mapsto> req)) t f" if "entry_ok P t f" "\<not> is_waiting ?x f" for t f
      using that(2) by (intro entry_ok_mono [OF that(1)]) (metis fun_upd_apply is_waiting_iff)
    have "entry_ok (P(?x \<mapsto> req)) t f" if "hm_get L1 t = Some f" for t f
      using that L1 \<open>not_waiting ?x L1\<close> by (intro ok) (simp_all add: lock_inv_def not_waiting_def)
    then have "lock_inv L1 (P(?x \<mapsto> req))" using L1 by (simp add: lock_inv_def)
    moreover have "entry_ok (P(?x \<mapsto> req)) ?t (e\<lparr>le_waiters := le_waiters e @ [(?x, lr_mode req)]\<rparr>)"
      using ok [OF e] by (simp add: entry_ok_def exclusive_alone_def)
    ultimately show ?thesis unfolding L' by (rule lock_inv_insert)
  qed
qed

lemma inv_not_waiting:
  assumes "lock_inv L P" "P x = None"
  shows "not_waiting x L"
  unfolding not_waiting_def is_waiting_iff
proof (intro allI impI notI)
  fix t e
  assume "hm_get L t = Some e" "x \<in> fst ` set (le_waiters e)"
  then have "\<exists>req. P x = Some req" using assms(1) unfolding lock_inv_def entry_ok_def by blast
  then show False using assms(2) by simp
qed

lemma fst_filter_neq: "fst ` set (filter (\<lambda>(k, _). k \<noteq> x) xs) = fst ` set xs - {x}"
  by (induction xs) auto

lemma unqueue_inv:
  assumes inv: "lock_inv L P" and P: "P (lr_xid req) = Some req"
  shows "lock_inv (unqueue req L) (P(lr_xid req := None))"
    and "not_waiting (lr_xid req) (unqueue req L)"
proof -
  let ?x = "lr_xid req" and ?t = "lr_target req" and ?P = "P(lr_xid req := None)"
  have other: "?x \<notin> fst ` set (le_waiters e)" if "hm_get L t = Some e" "t \<noteq> ?t" for t e
  proof
    assume "?x \<in> fst ` set (le_waiters e)"
    then have "lr_target req = t" using inv that(1) P unfolding lock_inv_def entry_ok_def by (metis option.inject)
    then show False using that(2) by simp
  qed
  have keep: "entry_ok ?P t e" if "hm_get L t = Some e" "t \<noteq> ?t" for t e
  proof (rule entry_ok_mono)
    show "entry_ok P t e" using inv that(1) by (simp add: lock_inv_def)
    show "P y = ?P y" if "y \<in> fst ` set (le_waiters e)" for y
      using other [OF \<open>hm_get L t = Some e\<close> \<open>t \<noteq> ?t\<close>] that by (metis fun_upd_apply)
  qed
  have xid: "lr_xid r = y" if "?P y = Some r" for y r
    using inv that by (simp add: lock_inv_def split: if_splits)
  have "lock_inv (unqueue req L) ?P \<and> not_waiting ?x (unqueue req L)"
  proof (cases "hm_get L ?t")
    case None
    then have eq: "unqueue req L = L" by (simp add: unqueue_def)
    have "entry_ok ?P t f \<and> \<not> is_waiting ?x f" if get: "hm_get L t = Some f" for t f
    proof -
      have "t \<noteq> ?t" using None get by (metis option.distinct(1))
      then show ?thesis using keep [OF get] other [OF get] unfolding is_waiting_iff by blast
    qed
    then show ?thesis unfolding eq using xid lock_invD(1) [OF inv] unfolding lock_inv_def not_waiting_def by blast
  next
    case (Some e)
    let ?e = "e\<lparr>le_waiters := filter (\<lambda>(wxid, _). wxid \<noteq> ?x) (le_waiters e)\<rparr>"
    have e: "entry_ok P ?t e" using inv Some by (simp add: lock_inv_def)
    have sub: "fst ` set (le_waiters ?e) = fst ` set (le_waiters e) - {?x}"
      using fst_filter_neq [of ?x "le_waiters e"] by simp
    have ok: "entry_ok ?P ?t ?e"
      using e unfolding entry_ok_def exclusive_alone_def sub by simp blast
    have get: "t = ?t \<and> f = ?e \<or> t \<noteq> ?t \<and> hm_get L t = Some f" if "hm_get (unqueue req L) t = Some f" for t f
      using that Some by (simp add: unqueue_def hm_insert_get split: if_splits)
    have "hm_wf (unqueue req L)" using Some lock_invD(1) [OF inv] by (simp add: unqueue_def)
    moreover have "entry_ok ?P t f \<and> \<not> is_waiting ?x f" if "hm_get (unqueue req L) t = Some f" for t f
      using get [OF that]
    proof
      assume "t = ?t \<and> f = ?e"
      moreover have "\<not> is_waiting ?x ?e" unfolding is_waiting_iff sub by simp
      ultimately show ?thesis using ok by simp
    next
      assume "t \<noteq> ?t \<and> hm_get L t = Some f"
      then show ?thesis using keep [of t f] other [of t f] unfolding is_waiting_iff by simp
    qed
    ultimately show ?thesis using xid unfolding lock_inv_def not_waiting_def by blast
  qed
  then show "lock_inv (unqueue req L) ?P" "not_waiting ?x (unqueue req L)" by simp_all
qed

lemma release_get:
  assumes "hm_wf L" "hm_get (release_all x L) t = Some e'"
  obtains e where "hm_get L t = Some e" "le_waiters e' = le_waiters e"
    "le_holders e' = filter (\<lambda>(hxid, _). hxid \<noteq> x) (le_holders e)"
proof -
  have "(t, e') \<in> set (release_all x L)" using assms(2) by (rule map_of_SomeD)
  then obtain a where "a \<in> set L" "t = fst a"
    "e' = (snd a)\<lparr>le_holders := filter (\<lambda>(hxid, _). hxid \<noteq> x) (le_holders (snd a))\<rparr>"
    by (auto simp: release_all_def)
  moreover have "hm_get L (fst a) = Some (snd a)"
    using \<open>a \<in> set L\<close> by (intro map_of_is_SomeI [OF assms(1)]) simp
  ultimately show ?thesis by (intro that [of "snd a"]) simp_all
qed

lemma release_inv:
  assumes "lock_inv L P"
  shows "lock_inv (release_all x L) P"
proof -
  have keys: "map fst (map (\<lambda>(t, e). (t, f e)) L) = map fst L" for f :: "LockEntry \<Rightarrow> LockEntry"
    by (simp add: case_prod_unfold comp_def)
  have wf: "hm_wf (release_all x L)"
    unfolding release_all_def using lock_invD(1) [OF assms] by (intro distinct_map_filter) (simp only: keys)
  have "entry_ok P t e'" if get: "hm_get (release_all x L) t = Some e'" for t e'
  proof -
    obtain e where e: "hm_get L t = Some e" "le_waiters e' = le_waiters e"
      "le_holders e' = filter (\<lambda>(hxid, _). hxid \<noteq> x) (le_holders e)"
      using release_get [OF lock_invD(1) [OF assms] get] .
    have "entry_ok P t e" using assms e(1) by (simp add: lock_inv_def)
    moreover have "length (le_holders e') \<le> length (le_holders e)" "set (le_holders e') \<subseteq> set (le_holders e)"
      unfolding e(3) by (rule length_filter_le, rule filter_is_subset)
    ultimately show ?thesis
      unfolding entry_ok_def exclusive_alone_def e(2) by (meson le_trans subsetD)
  qed
  then show ?thesis using wf assms by (simp add: lock_inv_def)
qed

lemma acquire_start_ok:
  assumes inv: "lock_inv L P" and P: "P (lr_xid req) = None" and start: "acquire_start req L = (res, L')"
  shows "res \<noteq> Deadlock" "res = Granted \<Longrightarrow> lock_inv L' P" "res = Waiting \<Longrightarrow> lock_inv L' (P(lr_xid req \<mapsto> req))"
proof -
  have "res = Granted \<and> L' = L \<or> acquire_pass req L = (res, L')"
    using start unfolding acquire_start_def by (simp split: option.splits if_splits)
  then show "res \<noteq> Deadlock" "res = Granted \<Longrightarrow> lock_inv L' P" "res = Waiting \<Longrightarrow> lock_inv L' (P(lr_xid req \<mapsto> req))"
    using acquire_pass_ok [OF inv inv_not_waiting [OF inv P]] inv P by blast+
qed

lemma acquire_wake_ok:
  assumes inv: "lock_inv L P" and P: "P x = Some req" and wake: "acquire_wake req L = (res, L')"
  shows "res \<noteq> Deadlock" "res = Granted \<Longrightarrow> lock_inv L' (P(x := None))" "res = Waiting \<Longrightarrow> lock_inv L' P"
proof -
  have x: "lr_xid req = x" using lock_invD(2) [OF inv P] .
  note pass = acquire_pass_ok [OF unqueue_inv [OF inv P [folded x]] wake [unfolded acquire_wake_def]]
  show "res \<noteq> Deadlock" using pass(1) .
  show "lock_inv L' (P(x := None))" if "res = Granted" using pass(2) that x by simp
  show "lock_inv L' P" if "res = Waiting" using pass(3) that x P by (simp add: fun_upd_idem)
qed

lemma reach_inv: "lock_reach L P \<Longrightarrow> lock_inv L P"
proof (induction rule: lock_reach.induct)
  case (start_done L P req res L')
  then show ?case using acquire_start_ok(1,2) [of L P req res L'] by (cases res) simp_all
next
  case (wake_done L P x req res L')
  then show ?case using acquire_wake_ok(1,2) [of L P x req res L'] by (cases res) (simp_all del: fun_upd_apply)
qed (simp_all add: acquire_start_ok(3) acquire_wake_ok(3) release_inv lock_inv_def [of "[]"] del: fun_upd_apply)

section \<open>Properties\<close>

text \<open>C11. Two-phase locking is safe: whatever the order in which transactions request locks, are
  woken and release theirs, a target held in exclusive mode has that holder and no other.\<close>

theorem exclusive_excludes:
  assumes "lock_reach L P" "hm_get L t = Some e" "(x, Exclusive) \<in> set (le_holders e)"
  shows "le_holders e = [(x, Exclusive)]"
proof -
  have "exclusive_alone e"
    using reach_inv [OF assms(1)] assms(2) unfolding lock_inv_def entry_ok_def by blast
  then have "length (le_holders e) \<le> 1" using assms(3) unfolding exclusive_alone_def by force
  then show ?thesis using assms(3) by (cases "le_holders e") simp_all
qed

text \<open>C40. The search of the waits-for graph ends on every lock table, cycles included, and reports a
  deadlock exactly when another transaction that the given one waits for, directly or through others,
  waits for it.\<close>

theorem detect_deadlock_exact:
  "detect_deadlock w L \<longleftrightarrow> (\<exists>y. y \<noteq> w \<and> (w, y) \<in> (waits_for L)\<^sup>* \<and> (y, w) \<in> waits_for L)"
  unfolding detect_deadlock_def using detect_loop_exact [of "{}" L "[w]" w] by auto

text \<open>No request is ever refused for a deadlock, although cycles arise: the search runs before the
  requester is queued, so the graph it searches has no edge out of the requester.\<close>

lemma deadlock_never_reported:
  assumes "lock_reach L P"
  shows "(P (lr_xid req) = None \<longrightarrow> fst (acquire_start req L) \<noteq> Deadlock) \<and>
    (P x = Some req \<longrightarrow> fst (acquire_wake req L) \<noteq> Deadlock)"
  using acquire_start_ok(1) [OF reach_inv [OF assms], of req "fst (acquire_start req L)" "snd (acquire_start req L)"]
    acquire_wake_ok(1) [OF reach_inv [OF assms], of x req "fst (acquire_wake req L)" "snd (acquire_wake req L)"]
  by simp

section \<open>Witnesses\<close>

definition lock_req :: "nat \<Rightarrow> nat \<Rightarrow> LockMode \<Rightarrow> LockRequest" where
  "lock_req x oid m = \<lparr>lr_xid = x, lr_target = Table oid, lr_mode = m\<rparr>"

text \<open>Transactions 1 and 2 hold a table each and request the other's.\<close>

definition ex_cycle :: lock_table where
  "ex_cycle = (let go = (\<lambda>x oid L. snd (acquire_start (lock_req x oid Exclusive) L))
     in go 2 10 (go 1 20 (go 2 20 (go 1 10 []))))"

definition ex_pending :: "nat \<rightharpoonup> LockRequest" where
  "ex_pending = [1 \<mapsto> lock_req 1 20 Exclusive, 2 \<mapsto> lock_req 2 10 Exclusive]"

lemma ex_cycle_eval: "ex_cycle =
  [(Table 10, \<lparr>le_holders = [(1, Exclusive)], le_waiters = [(2, Exclusive)]\<rparr>),
   (Table 20, \<lparr>le_holders = [(2, Exclusive)], le_waiters = [(1, Exclusive)]\<rparr>)]"
  by code_simp

lemma ex_cycle_reach: "lock_reach ex_cycle ex_pending"
proof -
  let ?r = "\<lambda>x oid. lock_req x oid Exclusive"
  define A where "A = snd (acquire_start (?r 1 10) [])"
  define B where "B = snd (acquire_start (?r 2 20) A)"
  define C where "C = snd (acquire_start (?r 1 20) B)"
  have eval: "fst (acquire_start (?r 1 10) []) = Granted" "fst (acquire_start (?r 2 20) A) = Granted"
    "fst (acquire_start (?r 1 20) B) = Waiting" "fst (acquire_start (?r 2 10) C) = Waiting"
    unfolding C_def B_def A_def by code_simp+
  have xid: "lr_xid (?r x oid) = x" for x oid by (simp add: lock_req_def)
  have "lock_reach A Map.empty"
    by (rule lock_reach.start_done [OF lock_reach.init, of "?r 1 10" Granted])
      (simp_all add: A_def eval prod_eq_iff del: One_nat_def)
  then have "lock_reach B Map.empty"
    by (rule lock_reach.start_done [of _ _ "?r 2 20" Granted]) (simp_all add: B_def eval prod_eq_iff del: One_nat_def)
  then have "lock_reach C [1 \<mapsto> ?r 1 20]"
    by (rule lock_reach.start_wait [of _ _ "?r 1 20", unfolded xid]) (simp_all add: C_def eval prod_eq_iff del: One_nat_def)
  then have "lock_reach (snd (acquire_start (?r 2 10) C)) ([1 \<mapsto> ?r 1 20](2 \<mapsto> ?r 2 10))"
    by (rule lock_reach.start_wait [of _ _ "?r 2 10", unfolded xid]) (simp_all add: eval prod_eq_iff del: One_nat_def)
  moreover have "ex_cycle = snd (acquire_start (?r 2 10) C)"
    by (simp add: ex_cycle_def A_def B_def C_def Let_def)
  ultimately show ?thesis by (simp add: ex_pending_def)
qed

theorem exclusive_excludes_witness:
  "map_option le_holders (hm_get ex_cycle (Table 10)) = Some [(1, Exclusive)]"
  using exclusive_excludes [OF ex_cycle_reach, of "Table 10" _ 1] by (simp add: ex_cycle_eval)

section \<open>Requests that never return\<close>

text \<open>A transaction that holds a shared lock and requests the exclusive one waits for itself: no other
  transaction has to act for it to stay so at each wake-up.\<close>

lemma upgrade_waits_forever:
  assumes "hm_get L t = Some e" "(x, Shared) \<in> set (le_holders e)"
  shows "fst (acquire_wake \<lparr>lr_xid = x, lr_target = t, lr_mode = Exclusive\<rparr> L) \<noteq> Granted"
proof -
  let ?req = "\<lparr>lr_xid = x, lr_target = t, lr_mode = Exclusive\<rparr>"
  have "le_holders (entry_of t (unqueue ?req L)) = le_holders e"
    using assms(1) by (simp add: entry_of_def unqueue_def hm_insert_get)
  then have "\<not> all_compatible (entry_of t (unqueue ?req L)) Exclusive"
    using assms(2) unfolding all_compatible_iff by fastforce
  then show ?thesis by (simp add: acquire_wake_def acquire_pass_def Let_def)
qed

text \<open>Two transactions wait for an exclusive lock that is released: each is woken, each finds the other
  queued, and both wait again on a target nobody holds.\<close>

definition ex_stall :: lock_table where
  "ex_stall = (let go = (\<lambda>x L. snd (acquire_start (lock_req x 10 Exclusive) L))
     in release_all 1 (go 3 (go 2 (go 1 []))))"

lemma two_waiters_stall:
  "holders (Table 10) ex_stall = [] \<and>
   fst (acquire_wake (lock_req 2 10 Exclusive) ex_stall) = Waiting \<and>
   fst (acquire_wake (lock_req 3 10 Exclusive) (snd (acquire_wake (lock_req 2 10 Exclusive) ex_stall))) = Waiting"
  by code_simp

end
