(* ===== verification/Vacuum.thy ===== *)
theory Vacuum
  imports Heap_File Mvcc
begin

text \<open>
  Dead tuple reclamation of \<^verbatim>\<open>crates/storage/src/vacuum.rs\<close>: \<open>vacuum_table\<close> visits every page of a heap
  file, rebuilds the pages that have dead tuples from their live ones, logs the removed slots and updates
  the free space map. The property is about \<open>page_data\<close>, the tuples of a page in slot order.
\<close>

record VacuumStats =
  pages_scanned :: nat
  tuples_examined :: nat
  tuples_removed :: nat
  pages_compacted :: nat

definition vstats_zero :: VacuumStats where
  "vstats_zero = \<lparr>pages_scanned = 0, tuples_examined = 0, tuples_removed = 0, pages_compacted = 0\<rparr>"

definition is_dead :: "TransactionManager \<Rightarrow> byte list \<Rightarrow> bool" where
  "is_dead t d =
     (if TUPLE_HEADER_SIZE \<le> length d
      then (case header_decode d of
              Inr hdr \<Rightarrow> th_xmax hdr \<noteq> INVALID_XID \<and> (is_committed t (th_xmax hdr) \<or> is_aborted t (th_xmax hdr))
            | Inl _ \<Rightarrow> False)
      else False)"

fun collect_slots :: "TransactionManager \<Rightarrow> page \<Rightarrow> nat list \<Rightarrow> VacuumStats
    \<Rightarrow> StorageError + byte list list \<times> nat list \<times> VacuumStats" where
  "collect_slots t pg [] st = Inr ([], [], st)"
| "collect_slots t pg (slot_id # slots) st =
     (if \<not> is_slot_used pg slot_id then collect_slots t pg slots st
      else let st1 = st\<lparr>tuples_examined := tuples_examined st + 1\<rparr>
           in rbind (get_tuple pg slot_id) (\<lambda>d.
                if is_dead t d
                then rbind (collect_slots t pg slots (st1\<lparr>tuples_removed := tuples_removed st1 + 1\<rparr>))
                       (\<lambda>(live, dead, st2). Inr (live, slot_id # dead, st2))
                else rbind (collect_slots t pg slots st1)
                       (\<lambda>(live, dead, st2). Inr (d # live, dead, st2))))"

definition rebuild_page :: "nat \<Rightarrow> byte list list \<Rightarrow> page" where
  "rebuild_page pid live =
     foldl (\<lambda>pg d. case insert_tuple pg d of Inl _ \<Rightarrow> pg | Inr (pg1, _) \<Rightarrow> pg1) (page_new pid) live"

definition log_dead :: "(byte list \<Rightarrow> nat) \<Rightarrow> HeapFile \<Rightarrow> nat \<Rightarrow> nat list \<Rightarrow> WalManager \<Rightarrow> WalManager" where
  "log_dead crc h pid dead w =
     foldl (\<lambda>w slot_id. snd (write_record crc w 0 (HeapDelete (hf_table_id h) pid slot_id 0))) w dead"

definition vacuum_page :: "(byte list \<Rightarrow> nat) \<Rightarrow> TransactionManager \<Rightarrow> nat \<Rightarrow> VacuumStats \<Rightarrow> HeapFile \<Rightarrow> BufferPool
    \<Rightarrow> WalManager \<Rightarrow> (StorageError + VacuumStats) \<times> HeapFile \<times> BufferPool \<times> WalManager" where
  "vacuum_page crc t pid st h p w =
     (let st1 = st\<lparr>pages_scanned := pages_scanned st + 1\<rparr>
      in case fetch_page p pid of
           (Inl e, p1) \<Rightarrow> (Inl e, h, p1, w)
         | (Inr fid, p1) \<Rightarrow>
       (case collect_slots t (pool_page p1 fid) [0 ..< slot_count (pool_page p1 fid)] st1 of
           Inl e \<Rightarrow> (Inl e, h, p1, w)
         | Inr (live, dead, st2) \<Rightarrow>
       (case unpin_page p1 pid False of
           (Inl e, p2) \<Rightarrow> (Inl e, h, p2, w)
         | (Inr _, p2) \<Rightarrow>
       if dead = [] then (Inr st2, h, p2, w)
       else let st3 = st2\<lparr>pages_compacted := pages_compacted st2 + 1\<rparr>;
                pg = rebuild_page pid live
            in case fetch_page p2 pid of
                 (Inl e, p3) \<Rightarrow> (Inl e, h, p3, w)
               | (Inr fid, p3) \<Rightarrow>
             let p4 = page_mut fid (\<lambda>_. pg) p3;
                 w1 = log_dead crc h pid dead w;
                 p5 = page_mut fid (\<lambda>x. set_lsn x (wal_flushed_lsn w1)) p4
             in case unpin_page p5 pid True of
                  (Inl e, p6) \<Rightarrow> (Inl e, h, p6, w1)
                | (Inr _, p6) \<Rightarrow>
             (case fetch_page p6 pid of
                  (Inl e, p7) \<Rightarrow> (Inl e, h, p7, w1)
                | (Inr fid2, p7) \<Rightarrow>
              let free = free_space (pool_page p7 fid2)
              in case unpin_page p7 pid False of
                   (Inl e, p8) \<Rightarrow> (Inl e, h, p8, w1)
                 | (Inr _, p8) \<Rightarrow> (Inr st3, update_fsm h pid free, p8, w1)))))"

fun vacuum_pages :: "(byte list \<Rightarrow> nat) \<Rightarrow> TransactionManager \<Rightarrow> nat list \<Rightarrow> VacuumStats \<Rightarrow> HeapFile \<Rightarrow> BufferPool
    \<Rightarrow> WalManager \<Rightarrow> (StorageError + VacuumStats) \<times> HeapFile \<times> BufferPool \<times> WalManager" where
  "vacuum_pages crc t [] st h p w = (Inr st, h, p, w)"
| "vacuum_pages crc t (pid # pids) st h p w =
     (case vacuum_page crc t pid st h p w of
        (Inl e, h1, p1, w1) \<Rightarrow> (Inl e, h1, p1, w1)
      | (Inr st1, h1, p1, w1) \<Rightarrow> vacuum_pages crc t pids st1 h1 p1 w1)"

definition vacuum_table :: "(byte list \<Rightarrow> nat) \<Rightarrow> HeapFile \<Rightarrow> BufferPool \<Rightarrow> WalManager \<Rightarrow> TransactionManager
    \<Rightarrow> (StorageError + VacuumStats) \<times> HeapFile \<times> BufferPool \<times> WalManager" where
  "vacuum_table crc h p w t = vacuum_pages crc t (page_ids h) vstats_zero h p w"

section \<open>The tuples of a page\<close>

definition live_data :: "page \<Rightarrow> byte list list" where
  "live_data pg = map the (filter (\<lambda>v. v \<noteq> None) (tuples pg))"

definition page_data :: "BufferPool \<Rightarrow> nat \<Rightarrow> byte list list" where
  "page_data p pid = (case pool_content p pid of Some pg \<Rightarrow> live_data pg | None \<Rightarrow> [])"

definition data_size :: "byte list list \<Rightarrow> nat" where
  "data_size ds = sum_list (map (\<lambda>d. SLOT_SIZE + length d) ds)"

text \<open>The tuples of a page fit into the part of an empty page that is not free. Pages start so, and
  inserting and deleting tuples keep it.\<close>

definition packed :: "page \<Rightarrow> bool" where
  "packed pg \<longleftrightarrow> data_size (live_data pg) + free_space pg \<le> 8144"

lemma packed_new: "packed (page_new i)"
  using page_new_wf [of i] page_new_fields(6) [of i] by (simp add: packed_def live_data_def data_size_def tuples_def)

lemma packed_insert:
  assumes "page_wf pg" "packed pg" "insert_tuple pg d = Inr (pg', s)"
  shows "packed pg'"
proof -
  have fit: "SLOT_SIZE + length d \<le> free_space pg"
    using assms(3) by (simp add: insert_tuple_def Let_def split: if_splits)
  then obtain q where "insert_tuple pg d = Inr (q, slot_count pg)" "tuples q = tuples pg @ [Some d]"
    "free_space q = free_space pg - (SLOT_SIZE + length d)"
    using insert_tuple_ok [OF assms(1) fit] by blast
  then show ?thesis using assms(2,3) fit by (simp add: packed_def live_data_def data_size_def)
qed

lemma size_update_None:
  "sum_list (map (\<lambda>d. SLOT_SIZE + length (the d)) (filter (\<lambda>v. v \<noteq> None) (vs[i := None])))
   \<le> sum_list (map (\<lambda>d. SLOT_SIZE + length (the d)) (filter (\<lambda>v. v \<noteq> None) vs))"
  for vs :: "'a list option list"
proof (induction vs arbitrary: i)
  case (Cons v vs)
  then show ?case by (cases i) (auto simp: le_SucI add_mono trans_le_add2)
qed simp

lemma packed_delete:
  assumes "page_wf pg" "packed pg" "i < slot_count pg" "delete_tuple pg i = Inr pg'"
  shows "packed pg'"
proof -
  obtain q where "delete_tuple pg i = Inr q" "tuples q = (tuples pg)[i := None]" "free_space q = free_space pg"
    using delete_tuple_ok [OF assms(1,3)] by blast
  then show ?thesis using assms(2,4) size_update_None [of "tuples pg" i]
    by (simp add: packed_def live_data_def data_size_def comp_def)
qed

section \<open>One page\<close>

definition dead_slots :: "TransactionManager \<Rightarrow> page \<Rightarrow> nat list \<Rightarrow> nat list" where
  "dead_slots t pg = filter (\<lambda>i. case tuples pg ! i of Some d \<Rightarrow> is_dead t d | None \<Rightarrow> False)"

definition slot_data :: "page \<Rightarrow> nat list \<Rightarrow> byte list list" where
  "slot_data pg slots = map the (filter (\<lambda>v. v \<noteq> None) (map (\<lambda>i. tuples pg ! i) slots))"

lemma slot_data_all: "slot_data pg [0 ..< slot_count pg] = live_data pg"
  unfolding slot_data_def live_data_def using map_nth [of "tuples pg"] by simp

lemma dead_slots_length: "length (dead_slots t pg slots) = length (filter (is_dead t) (slot_data pg slots))"
  by (induction slots) (auto simp: dead_slots_def slot_data_def split: option.splits)

lemma collect_slots_ok:
  assumes wf: "page_wf pg" and "\<forall>i \<in> set slots. i < slot_count pg"
  shows "collect_slots t pg slots st = Inr (filter (\<lambda>d. \<not> is_dead t d) (slot_data pg slots), dead_slots t pg slots,
    st\<lparr>tuples_examined := tuples_examined st + length (slot_data pg slots),
      tuples_removed := tuples_removed st + length (dead_slots t pg slots)\<rparr>)"
  using assms(2)
proof (induction slots arbitrary: st)
  case (Cons i slots)
  then have i: "i < slot_count pg" by simp
  show ?case
  proof (cases "tuples pg ! i")
    case None
    then show ?thesis using Cons i by (simp add: is_slot_used_tuples dead_slots_def slot_data_def del: nth_tuples)
  next
    case (Some d)
    moreover have "get_tuple pg i = Inr d" using get_tuple_tuples [OF wf, of i] i Some by simp
    ultimately show ?thesis
      using Cons i by (simp add: is_slot_used_tuples dead_slots_def slot_data_def Let_def del: nth_tuples)
  qed
qed (simp add: slot_data_def dead_slots_def)

lemma rebuild_loop:
  assumes "page_wf pg" "packed pg" "data_size ds \<le> free_space pg"
    and "q = foldl (\<lambda>pg d. case insert_tuple pg d of Inl _ \<Rightarrow> pg | Inr (pg1, _) \<Rightarrow> pg1) pg ds"
  shows "page_wf q \<and> packed q \<and> tuples q = tuples pg @ map Some ds"
  using assms
proof (induction ds arbitrary: pg)
  case (Cons d ds)
  have fit: "SLOT_SIZE + length d \<le> free_space pg" using Cons.prems(3) by (simp add: data_size_def)
  obtain r where r: "insert_tuple pg d = Inr (r, slot_count pg)" "page_wf r" "tuples r = tuples pg @ [Some d]"
    "free_space r = free_space pg - (SLOT_SIZE + length d)"
    using insert_tuple_ok [OF Cons.prems(1) fit] by blast
  have "data_size ds \<le> free_space r" using r(4) Cons.prems(3) by (simp add: data_size_def)
  from Cons.IH [OF r(2) packed_insert [OF Cons.prems(1,2) r(1)] this] Cons.prems(4) show ?case using r by simp
qed simp

lemma rebuild_page_ok:
  assumes "data_size ds \<le> 8144"
  shows "page_wf (rebuild_page pid ds)" "packed (rebuild_page pid ds)" "tuples (rebuild_page pid ds) = map Some ds"
proof -
  have "tuples (page_new pid) = []" using page_new_wf [of pid] by (simp add: tuples_def)
  then show "page_wf (rebuild_page pid ds)" "packed (rebuild_page pid ds)" "tuples (rebuild_page pid ds) = map Some ds"
    using rebuild_loop [OF _ packed_new _ refl, of pid ds] page_new_wf [of pid] page_new_fields(6) [of pid] assms
    by (simp_all add: rebuild_page_def)
qed

lemma data_size_filter: "data_size (filter P ds) \<le> data_size ds"
  by (induction ds) (auto simp: data_size_def)

lemma vacuum_page_ok:
  assumes idle: "idle p" and inv: "heap_inv h p" and pid: "pid \<in> set (hf_pages h)"
    and packed: "\<And>pg. pool_content p pid = Some pg \<Longrightarrow> packed pg"
    and clock: "lr_clock (bp_replacer p) + 3 < 2 ^ 64"
  obtains st' h' p' w' where "vacuum_page crc t pid st h p w = (Inr st', h', p', w')"
    "idle p'" "heap_inv h' p'" "hf_pages h' = hf_pages h" "lr_clock (bp_replacer p') \<le> lr_clock (bp_replacer p) + 3"
    "\<And>q. q \<noteq> pid \<Longrightarrow> pool_content p' q = pool_content p q"
    "page_data p' pid = filter (\<lambda>d. \<not> is_dead t d) (page_data p pid)"
    "tuples_removed st' = tuples_removed st + length (filter (is_dead t) (page_data p pid))"
proof -
  obtain pg where pg: "pool_content p pid = Some pg" "page_wf pg" using inv pid by (auto simp: heap_inv_def)
  have clk: "lr_clock (bp_replacer p) + 1 < 2 ^ 64" using clock by simp
  obtain f p1 p2 where F: "fetch_page p pid = (Inr f, p1)" "pool_page p1 f = pg" "unpin_page p1 pid False = (Inr (), p2)"
    "client_ok p (pool_content p) (dm_next_page_id (bp_disk p)) p2"
    by (rule fetch_idle_use [OF idle pg(1) clk]) blast
  note Q = client_okD [OF F(4)]
  let ?live = "filter (\<lambda>d. \<not> is_dead t d) (live_data pg)" and ?dead = "dead_slots t pg [0 ..< slot_count pg]"
  let ?st1 = "st\<lparr>pages_scanned := pages_scanned st + 1\<rparr>"
  let ?st2 = "?st1\<lparr>tuples_examined := tuples_examined st + length (live_data pg),
      tuples_removed := tuples_removed st + length ?dead\<rparr>"
  have col: "collect_slots t pg [0 ..< slot_count pg] ?st1 = Inr (?live, ?dead, ?st2)"
    using collect_slots_ok [OF pg(2), of "[0 ..< slot_count pg]" t ?st1] by (simp add: slot_data_all)
  have n: "length ?dead = length (filter (is_dead t) (page_data p pid))"
    using pg(1) by (simp add: dead_slots_length slot_data_all page_data_def)
  show ?thesis
  proof (cases "?dead = []")
    case True
    then have "vacuum_page crc t pid st h p w = (Inr ?st2, h, p2, w)"
      using F col by (simp add: vacuum_page_def Let_def)
    moreover have "filter (\<lambda>d. \<not> is_dead t d) (page_data p pid) = page_data p pid"
      using n True by (simp add: filter_id_conv filter_empty_conv)
    ultimately show ?thesis
      using that Q n heap_same_content(2) [OF Q(2)] inv by (simp add: page_data_def)
  next
    case False
    define w1 where "w1 = log_dead crc h pid ?dead w"
    define pg' where "pg' = set_lsn (rebuild_page pid ?live) (wal_flushed_lsn w1)"
    have size: "data_size ?live \<le> 8144"
      using packed [OF pg(1)] data_size_filter [of "\<lambda>d. \<not> is_dead t d" "live_data pg"] by (simp add: packed_def)
    note R = rebuild_page_ok [OF size, of pid]
    note K = set_lsn_keeps [OF R(1), of "wal_flushed_lsn w1", folded pg'_def]
    have pg2: "pool_content p2 pid = Some pg" and clk2: "lr_clock (bp_replacer p2) + 1 < 2 ^ 64"
      using Q pg clock by simp_all
    have len: "length ((\<lambda>_. pg') pg) = PAGE_SIZE" using K(1) by (simp add: page_wf_def)
    obtain f2 p3 p6 where G: "fetch_page p2 pid = (Inr f2, p3)" "f2 < length (bp_frames p3)"
      "unpin_page (page_mut f2 (\<lambda>_. pg') p3) pid True = (Inr (), p6)"
      "client_ok p2 ((pool_content p2)(pid \<mapsto> pg')) (dm_next_page_id (bp_disk p2)) p6"
      by (rule fetch_change [where g = "\<lambda>_. pg'", OF Q(1) pg2 clk2 len]) blast
    note S = client_okD [OF G(4)]
    have pg6: "pool_content p6 pid = Some pg'" and clk6: "lr_clock (bp_replacer p6) + 1 < 2 ^ 64"
      using S Q clock by simp_all
    obtain f3 p7 p8 where H: "fetch_page p6 pid = (Inr f3, p7)" "pool_page p7 f3 = pg'"
      "unpin_page p7 pid False = (Inr (), p8)" "client_ok p6 (pool_content p6) (dm_next_page_id (bp_disk p6)) p8"
      by (rule fetch_idle_use [OF S(1) pg6 clk6]) blast
    note U = client_okD [OF H(4)]
    have "vacuum_page crc t pid st h p w =
        (Inr (?st2\<lparr>pages_compacted := pages_compacted ?st2 + 1\<rparr>), update_fsm h pid (free_space pg'), p8, w1)"
      using F col False G H unfolding vacuum_page_def Let_def
      by (simp add: page_mut_twice w1_def [symmetric] pg'_def [symmetric])
    moreover have c: "pool_content p8 = (pool_content p)(pid \<mapsto> pg')" using U S Q by simp
    moreover have "pid < 2 ^ 62"
      using content_bound(2) [of p pid pg] pg(1) idle inv_disk [of p] by (simp add: disk_inv_def idle_def)
    then have "heap_inv (update_fsm h pid (free_space pg')) p8"
      by (rule heap_inv_update(1) [OF inv pid _ c K(1)])
    moreover have "page_data p8 pid = ?live"
      using c K(2) R(3) by (simp add: page_data_def live_data_def filter_map comp_def)
    ultimately show ?thesis
      using that U S Q n pg(1) by (simp add: page_data_def update_fsm_def)
  qed
qed

lemma page_data_cong: "pool_content p' q = pool_content p q \<Longrightarrow> page_data p' q = page_data p q"
  by (simp add: page_data_def)

lemma vacuum_pages_ok:
  assumes "idle p" "heap_inv h p" "set pids \<subseteq> set (hf_pages h)" "distinct pids"
    and "\<forall>pid pg. pid \<in> set pids \<longrightarrow> pool_content p pid = Some pg \<longrightarrow> packed pg"
    and "lr_clock (bp_replacer p) + 3 * length pids < 2 ^ 64"
  shows "\<exists>st' h' p' w'. vacuum_pages crc t pids st h p w = (Inr st', h', p', w') \<and>
    idle p' \<and> heap_inv h' p' \<and> hf_pages h' = hf_pages h \<and>
    (\<forall>q. q \<notin> set pids \<longrightarrow> pool_content p' q = pool_content p q) \<and>
    (\<forall>q. q \<in> set pids \<longrightarrow> page_data p' q = filter (\<lambda>d. \<not> is_dead t d) (page_data p q)) \<and>
    tuples_removed st' = tuples_removed st + (\<Sum>q\<leftarrow>pids. length (filter (is_dead t) (page_data p q)))"
  using assms
proof (induction pids arbitrary: st h p w)
  case Nil
  then show ?case by simp
next
  case (Cons pid pids)
  have pk: "packed pg" if "pool_content p pid = Some pg" for pg using Cons.prems(5) that by simp
  have pid: "pid \<in> set (hf_pages h)" "lr_clock (bp_replacer p) + 3 < 2 ^ 64" using Cons.prems(3,6) by simp_all
  obtain st1 h1 p1 w1 where V: "vacuum_page crc t pid st h p w = (Inr st1, h1, p1, w1)"
    "idle p1" "heap_inv h1 p1" "hf_pages h1 = hf_pages h" "lr_clock (bp_replacer p1) \<le> lr_clock (bp_replacer p) + 3"
    "\<And>q. q \<noteq> pid \<Longrightarrow> pool_content p1 q = pool_content p q"
    "page_data p1 pid = filter (\<lambda>d. \<not> is_dead t d) (page_data p pid)"
    "tuples_removed st1 = tuples_removed st + length (filter (is_dead t) (page_data p pid))"
    by (rule vacuum_page_ok [OF Cons.prems(1,2) pid(1) pk pid(2)]) (assumption, blast)
  have other: "pool_content p1 q = pool_content p q" if "q \<in> set pids" for q
    using V(6) [of q] Cons.prems(4) that by (metis distinct.simps(2))
  have pks: "\<forall>q pg. q \<in> set pids \<longrightarrow> pool_content p1 q = Some pg \<longrightarrow> packed pg"
    using Cons.prems(5) other by simp
  have sub: "set pids \<subseteq> set (hf_pages h1)" "distinct pids" "lr_clock (bp_replacer p1) + 3 * length pids < 2 ^ 64"
    using Cons.prems(3,4,6) V(4,5) by simp_all
  obtain st' h' p' w' where I: "vacuum_pages crc t pids st1 h1 p1 w1 = (Inr st', h', p', w')"
    "idle p'" "heap_inv h' p'" "hf_pages h' = hf_pages h1"
    "\<forall>q. q \<notin> set pids \<longrightarrow> pool_content p' q = pool_content p1 q"
    "\<forall>q. q \<in> set pids \<longrightarrow> page_data p' q = filter (\<lambda>d. \<not> is_dead t d) (page_data p1 q)"
    "tuples_removed st' = tuples_removed st1 + (\<Sum>q\<leftarrow>pids. length (filter (is_dead t) (page_data p1 q)))"
    using Cons.IH [OF V(2,3) sub(1,2) pks sub(3)] by blast
  have same: "page_data p1 q = page_data p q" if "q \<in> set pids" for q
    using other [OF that] by (rule page_data_cong)
  have sum: "map (\<lambda>q. length (filter (is_dead t) (page_data p1 q))) pids = map (\<lambda>q. length (filter (is_dead t) (page_data p q))) pids"
    using same by simp
  have last: "page_data p' pid = page_data p1 pid"
    using I(5) Cons.prems(4) by (intro page_data_cong) simp
  show ?case
    using V(1,4,6,7,8) I sum same last by (intro exI [of _ st'] exI [of _ h'] exI [of _ p'] exI [of _ w']) auto
qed

section \<open>Properties\<close>

text \<open>The documentation of vacuum (\<^verbatim>\<open>docs/04_mvcc.md\<close>) calls a tuple dead when its deleter has committed and is
  older than every active transaction. The code asks only whether the deleter has ended. Both agree on the tuples
  whose deleter, if any, has not aborted, and is older than every active transaction if it has committed.\<close>

definition deleter :: "byte list \<Rightarrow> nat option" where
  "deleter d = (case header_decode d of
       Inr h \<Rightarrow> if th_xmax h = INVALID_XID then None else Some (th_xmax h)
     | Inl _ \<Rightarrow> None)"

definition dead_version :: "TransactionManager \<Rightarrow> byte list \<Rightarrow> bool" where
  "dead_version t d \<longleftrightarrow> (case deleter d of
       Some x \<Rightarrow> x \<in> tm_committed t \<and> (\<forall>a \<in> tm_active t. x < a)
     | None \<Rightarrow> False)"

definition settled :: "TransactionManager \<Rightarrow> byte list \<Rightarrow> bool" where
  "settled t d \<longleftrightarrow> (case deleter d of
       Some x \<Rightarrow> x \<notin> tm_aborted t \<and> (x \<in> tm_committed t \<longrightarrow> (\<forall>a \<in> tm_active t. x < a))
     | None \<Rightarrow> True)"

lemma is_dead_settled: "settled t d \<Longrightarrow> is_dead t d \<longleftrightarrow> dead_version t d"
  by (auto simp: settled_def dead_version_def deleter_def is_dead_def header_decode_def is_committed_def is_aborted_def
      split: if_splits)

text \<open>C25. Take a heap file in which no tuple was deleted by a transaction that aborted, or by one that committed and
  is not older than every active transaction. A vacuum of it returns, removes from each of its pages exactly the
  tuples that are dead as documented, those whose deleter committed and is older than every active transaction,
  keeps the others in their order, keeps the heap file and its free space map consistent, touches no page of
  another table, and reports the number of removed tuples. No page of the pool is pinned before the call.\<close>

theorem vacuum_keeps_live:
  assumes "idle p" "heap_inv h p"
    and "\<forall>pid pg. pid \<in> set (page_ids h) \<longrightarrow> pool_content p pid = Some pg \<longrightarrow> packed pg"
    and "\<forall>pid \<in> set (page_ids h). \<forall>d \<in> set (page_data p pid). settled t d"
    and "lr_clock (bp_replacer p) + 3 * length (page_ids h) < 2 ^ 64"
  shows "\<exists>st h' p' w'. vacuum_table crc h p w t = (Inr st, h', p', w') \<and>
    idle p' \<and> heap_inv h' p' \<and> page_ids h' = page_ids h \<and>
    (\<forall>q. q \<notin> set (page_ids h) \<longrightarrow> pool_content p' q = pool_content p q) \<and>
    (\<forall>q. q \<in> set (page_ids h) \<longrightarrow> page_data p' q = filter (\<lambda>d. \<not> dead_version t d) (page_data p q)) \<and>
    tuples_removed st = (\<Sum>q\<leftarrow>page_ids h. length (filter (dead_version t) (page_data p q)))"
proof -
  have "distinct (hf_pages h)" using assms(2) by (simp add: heap_inv_def strict_sorted_iff)
  moreover have "tuples_removed vstats_zero = 0" by (simp add: vstats_zero_def)
  ultimately obtain st h' p' w' where V: "vacuum_table crc h p w t = (Inr st, h', p', w')"
    "idle p'" "heap_inv h' p'" "page_ids h' = page_ids h" "\<forall>q. q \<notin> set (page_ids h) \<longrightarrow> pool_content p' q = pool_content p q"
    "\<forall>q. q \<in> set (page_ids h) \<longrightarrow> page_data p' q = filter (\<lambda>d. \<not> is_dead t d) (page_data p q)"
    "tuples_removed st = (\<Sum>q\<leftarrow>page_ids h. length (filter (is_dead t) (page_data p q)))"
    using vacuum_pages_ok [OF assms(1,2), of "hf_pages h" crc t vstats_zero w] assms(3,5)
    by (auto simp: vacuum_table_def page_ids_def)
  have same: "filter (\<lambda>d. \<not> is_dead t d) (page_data p q) = filter (\<lambda>d. \<not> dead_version t d) (page_data p q)"
    "filter (is_dead t) (page_data p q) = filter (dead_version t) (page_data p q)" if "q \<in> set (page_ids h)" for q
    using that assms(4) is_dead_settled by (auto intro!: filter_cong)
  have "tuples_removed st = (\<Sum>q\<leftarrow>page_ids h. length (filter (dead_version t) (page_data p q)))"
    unfolding V(7) using same(2) by (intro arg_cong [where f = sum_list] map_cong) simp_all
  then show ?thesis using V(1-6) same(1) by (intro exI [of _ st] exI [of _ h'] exI [of _ p'] exI [of _ w']) auto
qed

text \<open>A tuple whose deleter aborted, and one whose deleter committed after a snapshot was taken, are both
  visible to that snapshot and dead to the vacuum.\<close>

lemma header_dead:
  assumes "th_xmin h < 2 ^ 64" "th_xmax h < 2 ^ 64" "th_cid h < 2 ^ 32" "th_infomask h < 2 ^ 16" "th_infomask2 h < 2 ^ 16"
  shows "is_dead t (header_encode h @ d) \<longleftrightarrow> th_xmax h \<noteq> INVALID_XID \<and> (is_committed t (th_xmax h) \<or> is_aborted t (th_xmax h))"
  using header_roundtrip [OF assms] by (simp add: is_dead_def)

lemma visible_tuple_vacuumed:
  assumes "th_xmin h < 2 ^ 64" "th_xmax h < 2 ^ 64" "th_cid h < 2 ^ 32" "th_infomask h < 2 ^ 16" "th_infomask2 h < 2 ^ 16"
    and "is_committed_before t (th_xmin h) s" "th_xmax h \<noteq> INVALID_XID"
    and "is_aborted t (th_xmax h) \<and> \<not> is_committed t (th_xmax h) \<or> is_committed t (th_xmax h) \<and> th_xmax h \<in> snap_active s"
  shows "is_visible t h s \<and> is_dead t (header_encode h @ d)"
proof
  have "\<not> is_committed_before t (th_xmax h) s"
    using assms(8) by (simp add: is_committed_before_def is_committed_def) blast
  then show "is_visible t h s" using assms(6) by (simp add: is_visible_def)
  show "is_dead t (header_encode h @ d)" using assms(7,8) header_dead [OF assms(1-5), of t d] by blast
qed

section \<open>Witness\<close>

definition ex_deleted :: "byte list" where
  "ex_deleted = header_encode ((header_new_insert 1 0)\<lparr>th_xmax := 2\<rparr>)"

definition ex_tm :: TransactionManager where
  "ex_tm = tm_new\<lparr>tm_next_xid := 4, tm_committed := {1, 2}, tm_active := {3}\<rparr>"

theorem vacuum_keeps_live_witness:
  "\<exists>h p st h' p' w'. page_data p 1 = [ex_deleted, [7, 8, 9]] \<and>
     vacuum_table (\<lambda>_. 0) h p wal_create ex_tm = (Inr st, h', p', w') \<and>
     page_data p' 1 = [[7, 8, 9]] \<and> tuples_removed st = 1"
proof -
  have "header_decode ex_deleted = Inr ((header_new_insert 1 0)\<lparr>th_xmax := 2\<rparr>)" and len: "length ex_deleted = 24"
    using header_roundtrip(1) [of "(header_new_insert 1 0)\<lparr>th_xmax := 2\<rparr>" "[]"]
      header_roundtrip(2) [of "(header_new_insert 1 0)\<lparr>th_xmax := 2\<rparr>"]
    by (simp_all add: ex_deleted_def header_new_insert_def)
  then have del: "deleter ex_deleted = Some 2" "deleter [7, 8, 9] = None"
    by (simp_all add: deleter_def header_decode_def [of "[7, 8, 9]"])
  have dead: "dead_version ex_tm ex_deleted" "\<not> dead_version ex_tm [7, 8, 9]"
    "settled ex_tm ex_deleted" "settled ex_tm [7, 8, 9]"
    by (simp_all add: dead_version_def settled_def del ex_tm_def tm_new_def)
  define pg where "pg = rebuild_page 1 [ex_deleted, [7, 8, 9]]"
  have size: "data_size [ex_deleted, [7, 8, 9]] \<le> 8144" by (simp add: data_size_def len)
  note R = rebuild_page_ok [OF size, of 1, folded pg_def]
  have data: "live_data pg = [ex_deleted, [7, 8, 9]]" by (simp add: live_data_def R(3))
  obtain p where p: "idle p" "pool_content p 1 = Some pg" "lr_clock (bp_replacer p) \<le> 2" "heap_inv (one_page_heap pg) p"
    by (rule one_page_heap_ok [OF R(1)])
  have before: "page_data p 1 = [ex_deleted, [7, 8, 9]]" using p(2) data by (simp add: page_data_def)
  have ids: "page_ids (one_page_heap pg) = [1]" by (simp add: page_ids_def one_page_heap_def)
  have pk: "\<forall>pid qg. pid \<in> set (page_ids (one_page_heap pg)) \<longrightarrow> pool_content p pid = Some qg \<longrightarrow> packed qg"
    using p(2) R(2) ids by simp
  have st0: "\<forall>pid \<in> set (page_ids (one_page_heap pg)). \<forall>d \<in> set (page_data p pid). settled ex_tm d"
    using before dead(3,4) ids by simp
  have clk: "lr_clock (bp_replacer p) + 3 * length (page_ids (one_page_heap pg)) < 2 ^ 64" using p(3) ids by simp
  obtain st h' p' w' where V: "vacuum_table (\<lambda>_. 0) (one_page_heap pg) p wal_create ex_tm = (Inr st, h', p', w')"
    "page_data p' 1 = filter (\<lambda>d. \<not> dead_version ex_tm d) (page_data p 1)"
    "tuples_removed st = (\<Sum>q\<leftarrow>[1]. length (filter (dead_version ex_tm) (page_data p q)))"
    using vacuum_keeps_live [where crc = "\<lambda>_. 0" and w = wal_create and t = ex_tm, OF p(1,4) pk st0 clk] unfolding ids
    by (auto simp del: One_nat_def)
  have "page_data p' 1 = [[7, 8, 9]]" "tuples_removed st = 1" using V(2,3) before dead by simp_all
  with V(1) before show ?thesis by blast
qed

end
