(* ===== verification/Rust_Num.thy ===== *)
theory Rust_Num
  imports Rust_Str
begin

unbundle bit_operations_syntax

text \<open>
  Numbers and characters of the standard library, as the SQL and JSON readers use them. An \<^verbatim>\<open>i64\<close> is a
  64-bit word read by \<open>sint\<close>, an \<^verbatim>\<open>f64\<close> the 64-bit word of its IEEE 754 representation. Bytes are read as
  characters one by one (\<^verbatim>\<open>b as char\<close>), so a byte above 127 stands for a Latin-1 character.
\<close>

type_synonym i64 = "64 word"
type_synonym f64 = "64 word"

section \<open>Double precision numbers\<close>

text \<open>Rounding of a positive ratio \<open>a / b\<close> to the nearest double, ties to even: \<open>ratio_exp\<close> is its binary
  exponent, and the 53 bits of the significand carry into the exponent field.\<close>

definition round_div :: "nat \<Rightarrow> nat \<Rightarrow> nat" where
  "round_div a b =
     (let q = a div b; r = a mod b
      in if 2 * r > b \<or> 2 * r = b \<and> odd q then q + 1 else q)"

function nat_log2 :: "nat \<Rightarrow> nat" where
  "nat_log2 n = (if n < 2 then 0 else Suc (nat_log2 (n div 2)))"
  by pat_completeness auto
termination
  by (relation "measure id") auto

declare nat_log2.simps [simp del]

definition ratio_exp :: "nat \<Rightarrow> nat \<Rightarrow> int" where
  "ratio_exp a b =
     (let e = int (nat_log2 a) - int (nat_log2 b);
          small = (if 0 \<le> e then a < b * 2 ^ nat e else a * 2 ^ nat (- e) < b)
      in if small then e - 1 else e)"

definition f64_of_ratio :: "nat \<Rightarrow> nat \<Rightarrow> f64" where
  "f64_of_ratio a b =
     (if a = 0 then 0
      else let e = max (ratio_exp a b) (- 1022);
               s = e - 52;
               q = (if 0 \<le> s then round_div a (b * 2 ^ nat s) else round_div (a * 2 ^ nat (- s)) b);
               bits = nat (e + 1022) * 2 ^ 52 + q
           in if bits \<ge> 2047 * 2 ^ 52 then of_nat (2047 * 2 ^ 52) else of_nat bits)"

definition i64_as_f64 :: "i64 \<Rightarrow> f64" where
  "i64_as_f64 n = (if sint n < 0 then 2 ^ 63 + f64_of_ratio (nat (- sint n)) 1 else f64_of_ratio (nat (sint n)) 1)"

definition f64_nan :: "f64 \<Rightarrow> bool" where
  "f64_nan x \<longleftrightarrow> 2047 * 2 ^ 52 < unat x mod 2 ^ 63"

definition f64_rank :: "f64 \<Rightarrow> int" where
  \<comment> \<open>sign and magnitude: the order of the numbers, with both zeros at 0\<close>
  "f64_rank x = (if 2 ^ 63 \<le> unat x then - int (unat x mod 2 ^ 63) else int (unat x mod 2 ^ 63))"

datatype ordering = Less | Equal | Greater

definition ord_of :: "'a :: linorder \<Rightarrow> 'a \<Rightarrow> ordering" where
  "ord_of a b = (if a < b then Less else if a = b then Equal else Greater)"

definition f64_cmp :: "f64 \<Rightarrow> f64 \<Rightarrow> ordering option" where
  "f64_cmp a b = (if f64_nan a \<or> f64_nan b then None else Some (ord_of (f64_rank a) (f64_rank b)))"

definition f64_eq :: "f64 \<Rightarrow> f64 \<Rightarrow> bool" where
  "f64_eq a b \<longleftrightarrow> \<not> f64_nan a \<and> \<not> f64_nan b \<and> f64_rank a = f64_rank b"

section \<open>Characters\<close>

abbreviation (input) chr :: "char \<Rightarrow> byte" where "chr c \<equiv> of_char c"

definition bytes_of :: "string \<Rightarrow> str" where
  "bytes_of = map of_char"

definition is_digit :: "byte \<Rightarrow> bool" where
  "is_digit b \<longleftrightarrow> chr CHR ''0'' \<le> b \<and> b \<le> chr CHR ''9''"

definition is_letter :: "byte \<Rightarrow> bool" where
  "is_letter b \<longleftrightarrow> chr CHR ''a'' \<le> b \<and> b \<le> chr CHR ''z'' \<or> chr CHR ''A'' \<le> b \<and> b \<le> chr CHR ''Z''"

definition is_ascii_whitespace :: "byte \<Rightarrow> bool" where
  "is_ascii_whitespace b \<longleftrightarrow> b \<in> {32, 9, 10, 12, 13}"

definition latin1_utf8 :: "byte \<Rightarrow> str" where
  \<comment> \<open>\<^verbatim>\<open>String::push\<close> of the Latin-1 character of the byte\<close>
  "latin1_utf8 b = (if b < 0x80 then [b] else [0xC0 OR drop_bit 6 b, 0x80 OR (b AND 0x3F)])"

lemma latin1_ascii: "list_all (\<lambda>b. b < 0x80) s \<Longrightarrow> concat (map latin1_utf8 s) = s"
  by (induction s) (simp_all add: latin1_utf8_def)

section \<open>Parsing numbers\<close>

definition digits_val :: "byte list \<Rightarrow> nat" where
  "digits_val ds = foldl (\<lambda>n d. 10 * n + (unat d - 48)) 0 ds"

definition split_sign :: "str \<Rightarrow> bool \<times> str" where
  "split_sign s = (case s of
      x # xs \<Rightarrow> if x = chr CHR ''+'' then (False, xs) else if x = chr CHR ''-'' then (True, xs) else (False, s)
    | [] \<Rightarrow> (False, []))"

definition parse_i64 :: "str \<Rightarrow> i64 option" where
  "parse_i64 s =
     (case split_sign s of (neg, ds) \<Rightarrow>
        if ds = [] \<or> \<not> list_all is_digit ds then None
        else let n = digits_val ds
             in if neg then if n \<le> 2 ^ 63 then Some (- of_nat n) else None
                else if n < 2 ^ 63 then Some (of_nat n) else None)"

definition parse_usize :: "str \<Rightarrow> nat option" where
  "parse_usize s =
     (let ds = (case s of x # xs \<Rightarrow> if x = chr CHR ''+'' then xs else s | [] \<Rightarrow> [])
      in if ds = [] \<or> \<not> list_all is_digit ds \<or> 2 ^ 64 \<le> digits_val ds then None else Some (digits_val ds))"

definition decimal_f64 :: "nat \<Rightarrow> int \<Rightarrow> f64" where
  "decimal_f64 m e = (if 0 \<le> e then f64_of_ratio (m * 10 ^ nat e) 1 else f64_of_ratio m (10 ^ nat (- e)))"

definition parse_f64 :: "str \<Rightarrow> f64 option" where
  \<comment> \<open>\<^verbatim>\<open>str::parse\<close> on a sign, digits, a fraction and an exponent\<close>
  "parse_f64 s0 =
     (let (minus, s) = split_sign s0;
          ip = takeWhile is_digit s;
          r = dropWhile is_digit s;
          (fp, r') = (case r of
              c # cs \<Rightarrow> if c = chr CHR ''.'' then (takeWhile is_digit cs, dropWhile is_digit cs) else ([], r)
            | [] \<Rightarrow> ([], []));
          result = (\<lambda>e. Some ((if minus then 2 ^ 63 else 0) + decimal_f64 (digits_val (ip @ fp)) (e - int (length fp))))
      in if ip = [] \<and> fp = [] then None
         else (case r' of
             [] \<Rightarrow> result 0
           | c # cs \<Rightarrow>
               if c = chr CHR ''e'' \<or> c = chr CHR ''E'' then
                 let (neg, ds) = split_sign cs
                 in if ds = [] \<or> \<not> list_all is_digit ds then None
                    else result (if neg then - int (digits_val ds) else int (digits_val ds))
               else None))"

section \<open>Printing integers\<close>

function show_nat :: "nat \<Rightarrow> str" where
  "show_nat n = (if n < 10 then [of_nat (48 + n)] else show_nat (n div 10) @ [of_nat (48 + n mod 10)])"
  by pat_completeness auto
termination
  by (relation "measure id") auto

declare show_nat.simps [simp del]

definition show_i64 :: "i64 \<Rightarrow> str" where
  "show_i64 n = (if sint n < 0 then chr CHR ''-'' # show_nat (nat (- sint n)) else show_nat (nat (sint n)))"

lemma digit_byte: "d < 10 \<Longrightarrow> is_digit (of_nat (48 + d)) \<and> unat (of_nat (48 + d) :: byte) = 48 + d"
proof -
  assume d: "d < 10"
  then have u: "unat (of_nat (48 + d) :: byte) = 48 + d" by (subst unat_of_nat) simp
  then show ?thesis using d by (simp add: is_digit_def word_le_nat_alt)
qed

lemma digits_val_snoc: "digits_val (ds @ [d]) = 10 * digits_val ds + (unat d - 48)"
  by (simp add: digits_val_def)

lemma show_nat_ok: "list_all is_digit (show_nat n) \<and> show_nat n \<noteq> [] \<and> digits_val (show_nat n) = n"
proof (induction n rule: show_nat.induct)
  case (1 n)
  show ?case
  proof (cases "n < 10")
    case True
    then show ?thesis using digit_byte [of n] digits_val_snoc [of "[]"] by (simp add: show_nat.simps [of n] digits_val_def)
  next
    case False
    then show ?thesis using 1 digit_byte [of "n mod 10"] by (simp add: show_nat.simps [of n] digits_val_snoc)
  qed
qed

lemma digit_no_sign: "list_all is_digit ds \<Longrightarrow> ds \<noteq> [] \<Longrightarrow> split_sign ds = (False, ds)"
  by (cases ds) (auto simp: split_sign_def is_digit_def)

lemma i64_of_sint: "0 \<le> sint n \<Longrightarrow> of_nat (nat (sint n)) = n" "sint n < 0 \<Longrightarrow> - of_nat (nat (- sint n)) = n" for n :: i64
  by (simp_all add: of_nat_nat of_int_minus)

lemma parse_show_i64: "parse_i64 (show_i64 n) = Some n"
proof -
  have r: "- (2 ^ 63) \<le> sint n" "sint n < 2 ^ 63" using sint_range_size [of n] by (simp_all add: word_size)
  show ?thesis
  proof (cases "sint n < 0")
    case True
    have "nat (- sint n) \<le> 2 ^ 63" using r(1) by (simp add: nat_le_iff)
    then show ?thesis using True show_nat_ok [of "nat (- sint n)"] i64_of_sint(2) [OF True]
      by (simp add: parse_i64_def show_i64_def split_sign_def Let_def)
  next
    case False
    then have z: "0 \<le> sint n" by simp
    have "nat (sint n) < 2 ^ 63" using r(2) z by (simp add: nat_less_iff)
    then show ?thesis using False show_nat_ok [of "nat (sint n)"] i64_of_sint(1) [OF z]
      by (simp add: parse_i64_def show_i64_def digit_no_sign Let_def)
  qed
qed

section \<open>Scanning\<close>

function pos_while :: "(byte \<Rightarrow> bool) \<Rightarrow> byte list \<Rightarrow> nat \<Rightarrow> nat" where
  \<comment> \<open>\<^verbatim>\<open>while self.pos < self.input.len() && p(self.input[self.pos]) { self.pos += 1 }\<close>\<close>
  "pos_while p inp pos = (if pos < length inp \<and> p (inp ! pos) then pos_while p inp (pos + 1) else pos)"
  by pat_completeness auto
termination
  by (relation "measure (\<lambda>(p, inp, pos). length inp - pos)") auto

declare pos_while.simps [simp del]

lemma pos_while_ge: "pos \<le> pos_while p inp pos"
  by (induction p inp pos rule: pos_while.induct) (subst pos_while.simps, auto)

lemma pos_while_step: "pos < length inp \<Longrightarrow> p (inp ! pos) \<Longrightarrow> pos < pos_while p inp pos"
  using pos_while_ge [of "pos + 1" p inp] by (subst pos_while.simps) simp

lemma pos_while_stop:
  assumes "inp = pre @ xs @ rest" "pos = length pre" "list_all p xs" "rest = [] \<or> \<not> p (hd rest)"
  shows "pos_while p inp pos = pos + length xs"
  using assms
proof (induction xs arbitrary: pre pos)
  case Nil
  then show ?case by (subst pos_while.simps) (auto simp: nth_append hd_conv_nth)
next
  case (Cons x xs)
  have "pos_while p inp (pos + 1) = pos + 1 + length xs"
    by (rule Cons.IH [of "pre @ [x]"]) (use Cons.prems in auto)
  then show ?case using Cons.prems by (subst pos_while.simps) simp
qed

definition number_end :: "byte list \<Rightarrow> nat \<Rightarrow> nat \<times> bool" where
  \<comment> \<open>the end of digits, fraction and exponent, and whether there is more than digits\<close>
  "number_end inp start =
     (let p1 = pos_while is_digit inp start;
          dot = (p1 < length inp \<and> inp ! p1 = chr CHR ''.'');
          p2 = (if dot then pos_while is_digit inp (p1 + 1) else p1);
          exponent = (p2 < length inp \<and> (inp ! p2 = chr CHR ''e'' \<or> inp ! p2 = chr CHR ''E''));
          p3 = p2 + 1;
          p4 = (if p3 < length inp \<and> (inp ! p3 = chr CHR ''+'' \<or> inp ! p3 = chr CHR ''-'') then p3 + 1 else p3)
      in (if exponent then pos_while is_digit inp p4 else p2, dot \<or> exponent))"

lemma number_end_ge: "pos_while is_digit inp start \<le> fst (number_end inp start)"
proof -
  define p1 where "p1 = pos_while is_digit inp start"
  define p2 where "p2 = (if p1 < length inp \<and> inp ! p1 = chr CHR ''.'' then pos_while is_digit inp (p1 + 1) else p1)"
  define p4 where "p4 = (if p2 + 1 < length inp \<and> (inp ! (p2 + 1) = chr CHR ''+'' \<or> inp ! (p2 + 1) = chr CHR ''-'')
    then p2 + 1 + 1 else p2 + 1)"
  have ge: "p \<le> pos_while is_digit inp p" for p by (rule pos_while_ge)
  have "p1 \<le> p2" unfolding p2_def using ge [of "p1 + 1"] by (simp split: if_split)
  moreover have "p2 \<le> p4" unfolding p4_def by (simp split: if_split)
  ultimately have "p1 \<le> p2" "p1 \<le> pos_while is_digit inp p4" using ge [of p4] by linarith+
  then show ?thesis
    unfolding number_end_def Let_def p1_def [symmetric] p2_def [symmetric] p4_def [symmetric] by simp
qed

lemma number_end_digits:
  assumes "inp = pre @ ds @ rest" "list_all is_digit ds"
    and "rest = [] \<or> \<not> is_digit (hd rest) \<and> hd rest \<notin> {chr CHR ''.'', chr CHR ''e'', chr CHR ''E''}"
  shows "number_end inp (length pre) = (length pre + length ds, False)"
proof -
  have "pos_while is_digit inp (length pre) = length pre + length ds"
    by (rule pos_while_stop [OF assms(1) refl assms(2)]) (use assms(3) in blast)
  moreover have "\<not> (length pre + length ds < length inp \<and> inp ! (length pre + length ds) \<in> {chr CHR ''.'', chr CHR ''e'', chr CHR ''E''})"
    using assms(1,3) by (auto simp: nth_append hd_conv_nth)
  ultimately show ?thesis unfolding number_end_def Let_def by auto
qed

end
