(* ===== verification/Sql_Value.thy ===== *)
theory Sql_Value
  imports Page Rust_Num
begin

text \<open>
  Runtime values and column types of the SQL layer, from \<^verbatim>\<open>crates/sql/src/value.rs\<close>, the types of
  \<^verbatim>\<open>crates/sql/src/catalog.rs\<close> and \<^verbatim>\<open>crates/sql/src/ast.rs\<close> they use, and the errors of
  \<^verbatim>\<open>crates/sql/src/error.rs\<close>. An \<^verbatim>\<open>i64\<close> is a 64-bit word read by \<open>sint\<close>, an \<^verbatim>\<open>f64\<close> the 64-bit word
  of its IEEE 754 representation. Messages of errors are dropped.
\<close>

section \<open>Errors, types and values\<close>

datatype SqlError = Parse nat nat | Semantic | Execution | Storage StorageError | SqlPanic

datatype DataType =
    DBoolean | DInt16 | DInt32 | DInt64 | DFloat32 | DFloat64 | DText | DVarchar nat | DChar nat
  | DBytea | DTimestamp | DDate | DTime | DJson | DJsonb | DVector nat

datatype SqlType = TBoolean | TInt64 | TFloat64 | TText

definition from_ast :: "DataType \<Rightarrow> SqlType option" where
  "from_ast dt = (case dt of
      DBoolean \<Rightarrow> Some TBoolean
    | DInt16 \<Rightarrow> Some TInt64 | DInt32 \<Rightarrow> Some TInt64 | DInt64 \<Rightarrow> Some TInt64
    | DFloat32 \<Rightarrow> Some TFloat64 | DFloat64 \<Rightarrow> Some TFloat64
    | DText \<Rightarrow> Some TText | DVarchar _ \<Rightarrow> Some TText | DChar _ \<Rightarrow> Some TText
    | _ \<Rightarrow> None)"

record ColumnSchema =
  col_name :: str
  col_sql_type :: SqlType
  col_nullable :: bool
  col_primary_key :: bool

datatype Value = VNull | VBool bool | VInt64 i64 | VFloat64 f64 | VText str

definition is_null :: "Value \<Rightarrow> bool" where
  "is_null v \<longleftrightarrow> v = VNull"

definition coerce_to :: "Value \<Rightarrow> DataType \<Rightarrow> SqlError + Value" where
  "coerce_to v target =
     (case v of
        VNull \<Rightarrow> Inr VNull
      | VInt64 n \<Rightarrow>
          if target \<in> {DInt64, DInt32, DInt16} then Inr (VInt64 n)
          else if target \<in> {DFloat64, DFloat32} then Inr (VFloat64 (i64_as_f64 n))
          else Inl Semantic
      | VFloat64 f \<Rightarrow> if target \<in> {DFloat64, DFloat32} then Inr (VFloat64 f) else Inl Semantic
      | VBool b \<Rightarrow> if target = DBoolean then Inr (VBool b) else Inl Semantic
      | VText s \<Rightarrow> (case target of
            DText \<Rightarrow> Inr (VText s) | DVarchar _ \<Rightarrow> Inr (VText s) | DChar _ \<Rightarrow> Inr (VText s)
          | _ \<Rightarrow> Inl Semantic))"

definition to_be :: "nat \<Rightarrow> nat \<Rightarrow> byte list" where
  "to_be k n = rev (to_le k n)"

definition as_key_bytes :: "Value \<Rightarrow> byte list option" where
  "as_key_bytes v =
     (case v of
        VInt64 n \<Rightarrow> Some (to_be 8 (unat (n XOR push_bit 63 1)))
      | VText s \<Rightarrow> Some s
      | VBool b \<Rightarrow> Some [if b then 1 else 0]
      | _ \<Rightarrow> None)"

fun partial_cmp :: "Value \<Rightarrow> Value \<Rightarrow> ordering option" where
  "partial_cmp VNull VNull = Some Equal"
| "partial_cmp (VInt64 a) (VInt64 b) = Some (ord_of (sint a) (sint b))"
| "partial_cmp (VFloat64 a) (VFloat64 b) = f64_cmp a b"
| "partial_cmp (VInt64 a) (VFloat64 b) = f64_cmp (i64_as_f64 a) b"
| "partial_cmp (VFloat64 a) (VInt64 b) = f64_cmp a (i64_as_f64 b)"
| "partial_cmp (VText a) (VText b) = Some (ord_of a b)"
| "partial_cmp (VBool a) (VBool b) = Some (ord_of a b)"
| "partial_cmp _ _ = None"

text \<open>A value of a type, as a column of that type stores it.\<close>

fun has_type :: "SqlType \<Rightarrow> Value \<Rightarrow> bool" where
  "has_type _ VNull = True"
| "has_type TBoolean (VBool _) = True"
| "has_type TInt64 (VInt64 _) = True"
| "has_type TFloat64 (VFloat64 _) = True"
| "has_type TText (VText s) = utf8_valid s"
| "has_type _ _ = False"

section \<open>Coercion\<close>

lemma coerce_typed:
  assumes "from_ast target = Some t" "has_type t' v" "coerce_to v target = Inr v'"
  shows "has_type t v'"
  using assms by (cases v; cases target; cases t') (auto simp: from_ast_def coerce_to_def split: if_splits)

section \<open>Keys keep the order of values\<close>

lemma less_snoc:
  fixes a b :: "'a :: linorder"
  assumes "length xs = length ys"
  shows "xs @ [a] < ys @ [b] \<longleftrightarrow> xs < ys \<or> xs = ys \<and> a < b"
  using assms
proof (induction xs ys rule: list_induct2)
  case (Cons x xs y ys)
  then show ?case by (cases x y rule: linorder_cases) auto
qed simp

lemma to_be_Suc: "to_be (Suc k) n = to_be k (n div 256) @ [of_nat (n mod 256)]"
  by (simp add: to_be_def)

lemma length_to_be [simp]: "length (to_be k n) = k"
  by (simp add: to_be_def)

lemma to_be_inj: "m < 256 ^ k \<Longrightarrow> n < 256 ^ k \<Longrightarrow> to_be k m = to_be k n \<longleftrightarrow> m = n"
  unfolding to_be_def rev_is_rev_conv by (metis from_le_to_le)

lemma byte_less: "(of_nat (m mod 256) :: byte) < of_nat (n mod 256) \<longleftrightarrow> m mod 256 < n mod 256"
  unfolding word_less_nat_alt unat_byte_of_mod ..

lemma less_div_mod: "m < n \<longleftrightarrow> m div k < n div k \<or> m div k = n div k \<and> m mod k < n mod k" for m n k :: nat
proof (cases "m div k" "n div k" rule: linorder_cases)
  case less
  then show ?thesis using div_le_mono [of n m k] by (auto simp: not_le [symmetric])
next
  case equal
  then show ?thesis using div_mult_mod_eq [of m k] div_mult_mod_eq [of n k] by (metis nat_add_left_cancel_less less_irrefl_nat)
next
  case greater
  then show ?thesis using div_le_mono [of m n k] by auto
qed
lemma to_be_less: "m < 256 ^ k \<Longrightarrow> n < 256 ^ k \<Longrightarrow> to_be k m < to_be k n \<longleftrightarrow> m < n"
proof (induction k arbitrary: m n)
  case (Suc k)
  have d: "m div 256 < 256 ^ k" "n div 256 < 256 ^ k" using Suc.prems by auto
  show ?case
    unfolding to_be_Suc less_snoc [OF trans [OF length_to_be length_to_be [symmetric]]]
    using Suc.IH [OF d] to_be_inj [OF d] byte_less less_div_mod [of m n 256] by simp
qed (simp add: to_be_def)

lemma flip_sign: "int (unat (n XOR push_bit 63 1)) = sint n + 2 ^ 63" for n :: "64 word"
proof -
  have "n XOR push_bit 63 1 = n + 2 ^ 63"
    unfolding flip_bit_eq_xor [symmetric] flip_bit_eq_if unset_bit_eq set_bit_eq by simp
  then have "uint (n XOR push_bit 63 1) = (uint n + 2 ^ 63) mod 2 ^ 64"
    by (simp add: uint_word_arith_bintrs(1) take_bit_eq_mod)
  moreover have "sint n + 2 ^ 63 = (uint n + 2 ^ 63) mod 2 ^ 64"
    using signed_take_bit_eq_take_bit_shift [of 63 "uint n"] by (simp add: sint_uint take_bit_eq_mod)
  ultimately show ?thesis by (simp add: unat_eq_nat_uint)
qed
lemma ord_of_cong: "(a < b \<longleftrightarrow> c < d) \<Longrightarrow> (a = b \<longleftrightarrow> c = d) \<Longrightarrow> ord_of a b = ord_of c d"
  by (simp add: ord_of_def)

lemma key_Int64:
  "ord_of (to_be 8 (unat (a XOR push_bit 63 1))) (to_be 8 (unat (b XOR push_bit 63 1))) = ord_of (sint a) (sint b)"
  for a b :: i64
proof -
  let ?k = "\<lambda>n :: i64. unat (n XOR push_bit 63 1)"
  have r: "?k n < 256 ^ 8" for n using unsigned_less [of "n XOR push_bit 63 1"] by simp
  have less: "?k a < ?k b \<longleftrightarrow> sint a < sint b" and eq: "?k a = ?k b \<longleftrightarrow> sint a = sint b"
    using flip_sign [of a] flip_sign [of b] by linarith+
  show ?thesis
    by (rule ord_of_cong) (simp_all only: to_be_less [OF r r] to_be_inj [OF r r] less eq)
qed

lemma key_Bool: "ord_of [if a then 1 else 0 :: byte] [if b then 1 else 0] = ord_of a b"
  by (simp add: ord_of_def)

text \<open>C26. Index keys sort as the values do: whenever two values of one type have key bytes, comparing the
  byte strings gives the order of the values, negative integers below positive ones.\<close>

theorem key_order:
  assumes "has_type t v" "has_type t w" "as_key_bytes v = Some a" "as_key_bytes w = Some b"
  shows "partial_cmp v w = Some (ord_of a b)"
  using assms by (cases t; cases v; cases w) (auto simp: as_key_bytes_def key_Int64 [simplified] key_Bool)

theorem key_order_witness:
  "\<exists>a b. as_key_bytes (VInt64 (- 5)) = Some a \<and> as_key_bytes (VInt64 3) = Some b \<and>
     partial_cmp (VInt64 (- 5)) (VInt64 3) = Some (ord_of a b) \<and> ord_of a b = Less"
proof -
  obtain a b where k: "as_key_bytes (VInt64 (- 5)) = Some a" "as_key_bytes (VInt64 3) = Some b"
    by (simp add: as_key_bytes_def)
  then have "partial_cmp (VInt64 (- 5)) (VInt64 3) = Some (ord_of a b)" by (intro key_order [of TInt64]) simp_all
  moreover have "partial_cmp (VInt64 (- 5)) (VInt64 3) = Some Less" by (simp add: ord_of_def)
  ultimately show ?thesis using k by simp
qed

end
