(* ===== verification/Row_Codec.thy ===== *)
theory Row_Codec
  imports Sql_Value
begin

text \<open>
  The row format of \<^verbatim>\<open>crates/sql/src/codec.rs\<close>: a null bitmap, one bit per column, and the bytes of the
  columns that are not null. \<open>SqlPanic\<close> stands for the failed assertion of \<open>encode_row\<close> and for a slice
  out of range in \<open>decode_row\<close>.
\<close>

section \<open>Values\<close>

definition encode_value :: "Value \<Rightarrow> byte list" where
  "encode_value v = (case v of
      VBool b \<Rightarrow> [if b then 1 else 0]
    | VInt64 n \<Rightarrow> to_le 8 (unat n)
    | VFloat64 f \<Rightarrow> to_le 8 (unat f)
    | VText s \<Rightarrow> to_le 4 (length s mod 2 ^ 32) @ s
    | VNull \<Rightarrow> [])"

definition decode_value :: "SqlType \<Rightarrow> byte list \<Rightarrow> SqlError + Value \<times> nat" where
  "decode_value t bytes = (case t of
      TBoolean \<Rightarrow> if bytes = [] then Inl Execution else Inr (VBool (bytes ! 0 \<noteq> 0), 1)
    | TInt64 \<Rightarrow> if length bytes < 8 then Inl Execution else Inr (VInt64 (of_nat (from_le (slice bytes 0 8))), 8)
    | TFloat64 \<Rightarrow> if length bytes < 8 then Inl Execution else Inr (VFloat64 (of_nat (from_le (slice bytes 0 8))), 8)
    | TText \<Rightarrow>
        if length bytes < 4 then Inl Execution
        else let len = from_le (slice bytes 0 4)
             in if length bytes < 4 + len then Inl Execution
                else if utf8_valid (slice bytes 4 len) then Inr (VText (slice bytes 4 len), 4 + len)
                else Inl Execution)"

section \<open>Rows\<close>

definition bitmap_len :: "nat \<Rightarrow> nat" where
  "bitmap_len ncols = (ncols + 7) div 8"

definition set_bitmap :: "byte list \<Rightarrow> nat \<Rightarrow> byte list" where
  "set_bitmap bitmap i = bitmap[i div 8 := bitmap ! (i div 8) OR push_bit (i mod 8) 1]"

fun encode_columns :: "nat \<Rightarrow> Value list \<Rightarrow> byte list \<Rightarrow> byte list \<Rightarrow> byte list \<times> byte list" where
  "encode_columns i [] bitmap d = (bitmap, d)"
| "encode_columns i (v # vs) bitmap d =
     (if is_null v then encode_columns (Suc i) vs bitmap d
      else encode_columns (Suc i) vs (set_bitmap bitmap i) (d @ encode_value v))"

definition encode_row :: "ColumnSchema list \<Rightarrow> Value list \<Rightarrow> SqlError + byte list" where
  "encode_row schema vals =
     (if length schema \<noteq> length vals then Inl SqlPanic
      else case encode_columns 0 vals (replicate (bitmap_len (length vals)) 0) [] of
             (bitmap, d) \<Rightarrow> Inr (bitmap @ d))"

definition bitmap_bit :: "byte list \<Rightarrow> nat \<Rightarrow> bool" where
  "bitmap_bit bitmap i = (drop_bit (i mod 8) (bitmap ! (i div 8)) AND 1 = 1)"

fun decode_columns :: "byte list \<Rightarrow> nat \<Rightarrow> ColumnSchema list \<Rightarrow> byte list \<Rightarrow> nat \<Rightarrow> SqlError + Value list" where
  "decode_columns bitmap i [] bytes pos = Inr []"
| "decode_columns bitmap i (col # cols) bytes pos =
     (if bitmap_bit bitmap i
      then if length bytes < pos then Inl SqlPanic
           else rbind (decode_value (col_sql_type col) (drop pos bytes)) (\<lambda>(v, consumed).
             rbind (decode_columns bitmap (Suc i) cols bytes (pos + consumed)) (\<lambda>vs. Inr (v # vs)))
      else rbind (decode_columns bitmap (Suc i) cols bytes pos) (\<lambda>vs. Inr (VNull # vs)))"

definition decode_row :: "ColumnSchema list \<Rightarrow> byte list \<Rightarrow> SqlError + Value list" where
  "decode_row schema bytes =
     (let n = bitmap_len (length schema)
      in if length bytes < n then Inl Execution
         else decode_columns (take n bytes) 0 schema bytes n)"

text \<open>A row of a schema; a text value fits its 32-bit length field.\<close>

definition row_typed :: "ColumnSchema list \<Rightarrow> Value list \<Rightarrow> bool" where
  "row_typed schema vals \<longleftrightarrow> list_all2 (\<lambda>col v. has_type (col_sql_type col) v) schema vals"

definition fits :: "Value \<Rightarrow> bool" where
  "fits v = (case v of VText s \<Rightarrow> length s < 2 ^ 32 | _ \<Rightarrow> True)"

section \<open>The bitmap\<close>

lemma bitmap_bit_iff: "bitmap_bit bm i \<longleftrightarrow> bit (bm ! (i div 8)) (i mod 8)"
  by (simp add: bitmap_bit_def and_one_eq mod_2_eq_odd bit_iff_odd_drop_bit)

lemma length_set_bitmap [simp]: "length (set_bitmap bm i) = length bm"
  by (simp add: set_bitmap_def)

lemma bit_set_bitmap:
  assumes "i div 8 < length bm" "j div 8 < length bm"
  shows "bitmap_bit (set_bitmap bm i) j \<longleftrightarrow> bitmap_bit bm j \<or> j = i"
proof -
  have "j = i \<longleftrightarrow> j div 8 = i div 8 \<and> j mod 8 = i mod 8" by (metis div_mult_mod_eq)
  then show ?thesis
    using assms by (auto simp: bitmap_bit_iff set_bitmap_def nth_list_update bit_or_iff bit_exp_iff possible_bit_word)
qed

lemma bitmap_len_less: "i < n \<Longrightarrow> i div 8 < bitmap_len n"
  unfolding bitmap_len_def by linarith

lemma encode_columns_ok:
  assumes "i + length vs \<le> 8 * length bm" "encode_columns i vs bm d = (bm', d')"
  shows "length bm' = length bm" "d' = d @ concat (map encode_value vs)"
    "\<And>j. j < 8 * length bm \<Longrightarrow> bitmap_bit bm' j \<longleftrightarrow>
       bitmap_bit bm j \<or> i \<le> j \<and> j < i + length vs \<and> \<not> is_null (vs ! (j - i))"
proof -
  have "length bm' = length bm \<and> d' = d @ concat (map encode_value vs) \<and>
    (\<forall>j < 8 * length bm. bitmap_bit bm' j \<longleftrightarrow>
       bitmap_bit bm j \<or> i \<le> j \<and> j < i + length vs \<and> \<not> is_null (vs ! (j - i)))"
    using assms
  proof (induction vs arbitrary: i bm d)
    case (Cons v vs)
    have c: "(i \<le> j \<and> j < i + length (v # vs) \<and> \<not> is_null ((v # vs) ! (j - i))) \<longleftrightarrow>
        j = i \<and> \<not> is_null v \<or> Suc i \<le> j \<and> j < Suc i + length vs \<and> \<not> is_null (vs ! (j - Suc i))" for j
      by (cases "j = i") (auto simp: nth_Cons')
    show ?case
    proof (cases "is_null v")
      case True
      then have "encode_value v = []" by (simp add: is_null_def encode_value_def)
      then show ?thesis using Cons.IH [of "Suc i" bm d] Cons.prems True c by simp
    next
      case False
      have i: "i div 8 < length bm" using Cons.prems(1) by simp
      have b: "bitmap_bit (set_bitmap bm i) j \<longleftrightarrow> bitmap_bit bm j \<or> j = i" if "j < 8 * length bm" for j
        by (rule bit_set_bitmap [OF i]) (use that in linarith)
      show ?thesis using Cons.IH [of "Suc i" "set_bitmap bm i" "d @ encode_value v"] Cons.prems False c b by auto
    qed
  qed auto
  then show "length bm' = length bm" "d' = d @ concat (map encode_value vs)"
    "\<And>j. j < 8 * length bm \<Longrightarrow> bitmap_bit bm' j \<longleftrightarrow>
       bitmap_bit bm j \<or> i \<le> j \<and> j < i + length vs \<and> \<not> is_null (vs ! (j - i))" by blast+
qed

section \<open>Decoding\<close>

lemma decode_value_encode:
  assumes "has_type t v" "\<not> is_null v" "fits v"
  shows "decode_value t (encode_value v @ rest) = Inr (v, length (encode_value v))"
proof -
  have w: "from_le (to_le 8 (unat n)) = unat n" for n :: "64 word"
  proof -
    have "unat n < 2 ^ 64" using unsigned_less [of n] by simp
    then show ?thesis by simp
  qed
  show ?thesis
  proof (cases v)
    case (VBool b)
    then show ?thesis using assms by (cases t) (simp_all add: decode_value_def encode_value_def)
  next
    case (VInt64 n)
    then show ?thesis using assms w [of n] by (cases t) (simp_all add: decode_value_def encode_value_def)
  next
    case (VFloat64 f)
    then show ?thesis using assms w [of f] by (cases t) (simp_all add: decode_value_def encode_value_def)
  next
    case (VText u)
    then have t: "t = TText" "utf8_valid u" using assms(1) by (cases t; simp)+
    have l: "length u mod 2 ^ 32 = length u" "length u < 2 ^ 32" using VText assms(3) by (simp_all add: fits_def)
    have e: "encode_value v @ rest = to_le 4 (length u) @ u @ rest" unfolding encode_value_def VText Value.case l(1) by simp
    have sl: "slice (to_le 4 (length u) @ u @ rest) 4 (length u) = u" by (simp add: slice_append_right)
    have len: "length (encode_value v) = 4 + length u" unfolding encode_value_def VText Value.case by simp
    show ?thesis unfolding e len decode_value_def t(1) by (simp add: Let_def sl t(2) from_le_to_le_4 [OF l(2)] VText)
  qed (use assms in \<open>simp add: is_null_def\<close>)
qed

lemma decode_value_typed:
  assumes "decode_value t bytes = Inr (v, n)"
  shows "has_type t v" "n \<le> length bytes"
proof -
  have "has_type t v \<and> n \<le> length bytes"
    using assms by (cases t) (auto simp: decode_value_def Let_def Suc_le_eq not_less split: if_splits)
  then show "has_type t v" "n \<le> length bytes" by simp_all
qed

lemma decode_value_error: "decode_value t bytes = Inl e \<Longrightarrow> e = Execution"
  by (cases t) (auto simp: decode_value_def Let_def split: if_splits)

lemma decode_columns_encode:
  assumes "list_all2 (\<lambda>col v. has_type (col_sql_type col) v) cols vs" "list_all fits vs"
    and "\<And>k. k < length vs \<Longrightarrow> bitmap_bit bm (i + k) \<longleftrightarrow> \<not> is_null (vs ! k)"
    and "pos \<le> length bytes" "drop pos bytes = concat (map encode_value vs)"
  shows "decode_columns bm i cols bytes pos = Inr vs"
  using assms
proof (induction cols vs arbitrary: i pos rule: list_all2_induct)
  case Nil
  then show ?case by simp
next
  case (Cons col cols v vs)
  have bits: "bitmap_bit bm (Suc i + k) \<longleftrightarrow> \<not> is_null (vs ! k)" if "k < length vs" for k
    using Cons.prems(2) [of "Suc k"] that by simp
  show ?case
  proof (cases "is_null v")
    case True
    then have "encode_value v = []" "v = VNull" by (simp_all add: is_null_def encode_value_def)
    then show ?thesis using Cons.IH [OF _ bits Cons.prems(3)] Cons.prems Cons.prems(2) [of 0] True by simp
  next
    case False
    let ?n = "length (encode_value v)"
    have d: "drop pos bytes = encode_value v @ concat (map encode_value vs)" using Cons.prems(4) by simp
    have "drop (pos + ?n) bytes = drop ?n (drop pos bytes)" by (simp add: add.commute)
    then have d': "drop (pos + ?n) bytes = concat (map encode_value vs)" using d by simp
    have "length bytes - pos = ?n + length (concat (map encode_value vs))"
      using arg_cong [OF d, of length] by simp
    then have p: "pos + ?n \<le> length bytes" using Cons.prems(3) by linarith
    have "decode_value (col_sql_type col) (drop pos bytes) = Inr (v, ?n)"
      unfolding d by (rule decode_value_encode) (use Cons False in simp_all)
    then show ?thesis using Cons.IH [OF _ bits p d'] Cons.prems Cons.prems(2) [of 0] False by simp
  qed
qed

lemma decode_columns_typed:
  assumes "pos \<le> length bytes"
  shows "case decode_columns bm i cols bytes pos of
      Inr vs \<Rightarrow> list_all2 (\<lambda>col v. has_type (col_sql_type col) v) cols vs
    | Inl e \<Rightarrow> e = Execution"
  using assms
proof (induction cols arbitrary: i pos)
  case (Cons col cols)
  show ?case
  proof (cases "bitmap_bit bm i")
    case True
    show ?thesis
    proof (cases "decode_value (col_sql_type col) (drop pos bytes)")
      case (Inl e)
      then show ?thesis using True Cons.prems decode_value_error by auto
    next
      case (Inr x)
      then obtain v n where v: "decode_value (col_sql_type col) (drop pos bytes) = Inr (v, n)" by (cases x) auto
      have "pos + n \<le> length bytes" using decode_value_typed(2) [OF v] Cons.prems by simp
      from Cons.IH [OF this, of "Suc i"] show ?thesis
        using v True Cons.prems decode_value_typed(1) [OF v]
        by (cases "decode_columns bm (Suc i) cols bytes (pos + n)") auto
    qed
  next
    case False
    then show ?thesis using Cons.IH [OF Cons.prems, of "Suc i"]
      by (cases "decode_columns bm (Suc i) cols bytes pos") auto
  qed
qed simp

section \<open>Properties\<close>

text \<open>C13. A row that has the types of its schema is read back as it was written.\<close>

theorem row_roundtrip:
  assumes "row_typed schema vals" "list_all fits vals"
  shows "\<exists>bytes. encode_row schema vals = Inr bytes \<and> decode_row schema bytes = Inr vals"
proof -
  let ?n = "length vals" and ?bm = "replicate (bitmap_len (length vals)) (0 :: byte)"
  have len: "length schema = ?n" using assms(1) by (simp add: row_typed_def list_all2_lengthD)
  obtain bm d where e: "encode_columns 0 vals ?bm [] = (bm, d)" by (cases "encode_columns 0 vals ?bm []")
  have room: "0 + length vals \<le> 8 * length ?bm" unfolding bitmap_len_def by simp
  note E = encode_columns_ok [OF room e]
  have "bitmap_bit bm (0 + k) \<longleftrightarrow> \<not> is_null (vals ! k)" if "k < length vals" for k
  proof -
    have "k div 8 < bitmap_len ?n" "k < 8 * length ?bm" using that room bitmap_len_less by simp_all
    then show ?thesis using E(3) [of k] that by (simp add: bitmap_bit_iff [of ?bm])
  qed
  then have "decode_columns bm 0 schema (bm @ d) (length bm) = Inr vals"
    by (rule decode_columns_encode [OF assms(1) [unfolded row_typed_def] assms(2)]) (use E in simp_all)
  then show ?thesis using e len E(1) by (simp add: encode_row_def decode_row_def Let_def)
qed

text \<open>Decoding is total on arbitrary bytes and well typed: it never leaves its input, and what it returns
  is a row of the types of the schema.\<close>

lemma decode_row_typed:
  "case decode_row schema bytes of Inr vals \<Rightarrow> row_typed schema vals | Inl e \<Rightarrow> e = Execution"
proof (cases "length bytes < bitmap_len (length schema)")
  case True
  then show ?thesis by (simp add: decode_row_def Let_def)
next
  case False
  then show ?thesis
    using decode_columns_typed [where pos = "bitmap_len (length schema)" and bytes = bytes and cols = schema and i = 0
        and bm = "take (bitmap_len (length schema)) bytes"]
    by (simp add: decode_row_def row_typed_def Let_def split: sum.splits)
qed

section \<open>Witness\<close>

definition ex_col :: "SqlType \<Rightarrow> ColumnSchema" where
  "ex_col t = \<lparr>col_name = [99], col_sql_type = t, col_nullable = True, col_primary_key = False\<rparr>"

theorem row_roundtrip_witness:
  "\<exists>bytes. encode_row [ex_col TInt64, ex_col TText, ex_col TBoolean] [VInt64 (- 2), VNull, VBool True] = Inr bytes \<and>
     decode_row [ex_col TInt64, ex_col TText, ex_col TBoolean] bytes = Inr [VInt64 (- 2), VNull, VBool True]"
  by (rule row_roundtrip) (simp_all add: row_typed_def ex_col_def fits_def)

end
