(* ===== verification/Lexer.thy ===== *)
theory Lexer
  imports Sql_Value
begin

text \<open>
  The SQL lexer of \<^verbatim>\<open>crates/sql/src/lexer.rs\<close> on the bytes of its input. A keyword token of the enum is
  \<open>Keyword\<close> with its spelling in capitals. Characters are read byte by byte, so a byte above 127 stands
  for a Latin-1 character, as in \<^verbatim>\<open>b as char\<close>. \<open>SqlPanic\<close> stands for the \<^verbatim>\<open>unwrap\<close> of an identifier that
  is not UTF-8. The loops over the input are recursive functions with a measure; the loop of
  \<open>tokenize\<close>, which ends only because every token but the last consumes input, is a partial function.
\<close>

datatype (plugins only: code) Token =
    Keyword str
  | IntLiteral i64 | FloatLiteral f64 | StringLiteral str | Ident str | QuotedIdent str
  | Plus | Minus | Star | Slash | Percent | Caret | Eq | NotEq | Lt | Gt | LtEq | GtEq
  | Arrow | DoubleArrow | VectorDist | Contains | ContainedBy | DoubleColon | Concat | QuestionMark | HashArrow
  | Dot | Comma | Semicolon | Colon | LeftParen | RightParen | LeftBracket | RightBracket
  | EOF

record Lexer =
  lx_input :: "byte list"
  lx_pos :: nat
  lx_line :: nat
  lx_col :: nat

definition lexer_new :: "str \<Rightarrow> Lexer" where
  "lexer_new input = \<lparr>lx_input = input, lx_pos = 0, lx_line = 1, lx_col = 1\<rparr>"

section \<open>Characters\<close>

definition is_alphanumeric :: "byte \<Rightarrow> bool" where
  \<comment> \<open>of the Latin-1 character of the byte\<close>
  "is_alphanumeric b \<longleftrightarrow> is_letter b \<or> is_digit b \<or>
     b \<in> {0xAA, 0xB2, 0xB3, 0xB5, 0xB9, 0xBA, 0xBC, 0xBD, 0xBE} \<or> 0xC0 \<le> b \<and> b \<notin> {0xD7, 0xF7}"

definition to_upper :: "byte \<Rightarrow> byte" where
  \<comment> \<open>\<^verbatim>\<open>to_uppercase\<close>, on the words that can be keywords: no character whose capitals are ASCII
    (dotless i, long s, sharp s, the ligatures) is a sequence of bytes that \<open>scan_ident\<close> accepts\<close>
  "to_upper b = (if chr CHR ''a'' \<le> b \<and> b \<le> chr CHR ''z'' then b - 32 else b)"

section \<open>Keywords and numbers\<close>

definition KEYWORDS :: "string list" where
  "KEYWORDS = [
    ''SELECT'', ''FROM'', ''WHERE'', ''JOIN'', ''ON'', ''AS'', ''GROUP'', ''ORDER'', ''BY'', ''HAVING'',
    ''INSERT'', ''INTO'', ''VALUES'', ''UPDATE'', ''SET'', ''DELETE'', ''CREATE'', ''TABLE'', ''DROP'', ''ALTER'',
    ''INDEX'', ''AND'', ''OR'', ''NOT'', ''IN'', ''IS'', ''NULL'', ''LIKE'', ''BETWEEN'', ''EXISTS'',
    ''INNER'', ''LEFT'', ''RIGHT'', ''FULL'', ''CROSS'', ''OUTER'', ''ASC'', ''DESC'', ''LIMIT'', ''OFFSET'',
    ''DISTINCT'', ''ALL'', ''TRUE'', ''FALSE'', ''WITH'', ''RECURSIVE'', ''UNION'', ''INTERSECT'', ''EXCEPT'',
    ''CASE'', ''WHEN'', ''THEN'', ''ELSE'', ''END'', ''CAST'', ''PRIMARY'', ''KEY'', ''UNIQUE'', ''REFERENCES'',
    ''DEFAULT'', ''CHECK'', ''IF'', ''BEGIN'', ''COMMIT'', ''ROLLBACK'', ''TRANSACTION'', ''VACUUM'', ''ANALYZE'',
    ''EXPLAIN'', ''INT'', ''BIGINT'', ''INTEGER'', ''SMALLINT'', ''FLOAT'', ''DOUBLE'', ''PRECISION'', ''BOOL'',
    ''BOOLEAN'', ''TEXT'', ''VARCHAR'', ''CHAR'', ''BYTEA'', ''TIMESTAMP'', ''DATE'', ''TIME'', ''JSON'', ''JSONB'',
    ''VECTOR'', ''STORAGE'', ''COLUMNAR'', ''ROW'']"

definition keyword_or_ident :: "str \<Rightarrow> Token" where
  "keyword_or_ident word =
     (let w = map to_upper word
      in if w \<in> set (map bytes_of KEYWORDS) then Keyword w else Ident word)"

section \<open>Reading the input\<close>

definition peek :: "Lexer \<Rightarrow> byte option" where
  "peek l = (if lx_pos l < length (lx_input l) then Some (lx_input l ! lx_pos l) else None)"

definition peek2 :: "Lexer \<Rightarrow> byte option" where
  "peek2 l = (if lx_pos l + 1 < length (lx_input l) then Some (lx_input l ! (lx_pos l + 1)) else None)"

definition advance :: "Lexer \<Rightarrow> byte \<times> Lexer" where
  \<comment> \<open>every caller has tested that there is a byte\<close>
  "advance l =
     (let ch = lx_input l ! lx_pos l;
          l1 = l\<lparr>lx_pos := lx_pos l + 1\<rparr>
      in (ch, if ch = 10 then l1\<lparr>lx_line := (lx_line l + 1) mod 2 ^ 32, lx_col := 1\<rparr>
              else l1\<lparr>lx_col := (lx_col l + 1) mod 2 ^ 32\<rparr>))"

function skip_ws :: "Lexer \<Rightarrow> Lexer" where
  "skip_ws l =
     (if lx_pos l < length (lx_input l) \<and> is_ascii_whitespace (lx_input l ! lx_pos l)
      then skip_ws (snd (advance l)) else l)"
  by pat_completeness auto
termination
  by (relation "measure (\<lambda>l. length (lx_input l) - lx_pos l)") (auto simp: advance_def Let_def)

declare skip_ws.simps [simp del]

function block_end :: "byte list \<Rightarrow> nat \<Rightarrow> nat" where
  "block_end inp pos =
     (if pos + 1 < length inp \<and> \<not> (inp ! pos = chr CHR ''*'' \<and> inp ! (pos + 1) = chr CHR ''/'')
      then block_end inp (pos + 1) else pos)"
  by pat_completeness auto
termination
  by (relation "measure (\<lambda>(inp, pos). length inp - pos)") auto

declare block_end.simps [simp del]

lemma block_end_ge: "pos \<le> block_end inp pos"
  by (induction inp pos rule: block_end.induct) (subst block_end.simps, auto)

lemma skip_ws_keeps: "lx_input (skip_ws l) = lx_input l \<and> lx_pos l \<le> lx_pos (skip_ws l)"
proof (induction l rule: skip_ws.induct)
  case (1 l)
  then show ?case by (subst (1 2) skip_ws.simps) (auto simp: advance_def Let_def split: if_splits)
qed

function skip_whitespace_and_comments :: "Lexer \<Rightarrow> Lexer" where
  "skip_whitespace_and_comments l =
     (let l1 = skip_ws l; inp = lx_input l1; pos = lx_pos l1
      in if pos + 1 < length inp \<and> inp ! pos = chr CHR ''-'' \<and> inp ! (pos + 1) = chr CHR ''-''
         then skip_whitespace_and_comments (l1\<lparr>lx_pos := pos_while (\<lambda>b. b \<noteq> 10) inp pos\<rparr>)
         else if pos + 1 < length inp \<and> inp ! pos = chr CHR ''/'' \<and> inp ! (pos + 1) = chr CHR ''*''
         then skip_whitespace_and_comments (l1\<lparr>lx_pos := block_end inp (pos + 2) + 2\<rparr>)
         else l1)"
  by pat_completeness auto
termination
proof (relation "measure (\<lambda>l. length (lx_input l) - lx_pos l)", goal_cases)
  case (2 l l1 inp pos)
  have "pos_while (\<lambda>b. b \<noteq> 10) inp pos = pos_while (\<lambda>b. b \<noteq> 10) inp (pos + 1)"
    using 2 by (subst pos_while.simps) simp
  then have "pos < pos_while (\<lambda>b. b \<noteq> 10) inp pos" using pos_while_ge [of "pos + 1" "\<lambda>b. b \<noteq> 10" inp] by simp
  then show ?case using 2 skip_ws_keeps [of l] by auto
next
  case (3 l l1 inp pos)
  then show ?case using block_end_ge [of "pos + 2" inp] skip_ws_keeps [of l] by auto
qed simp

declare skip_whitespace_and_comments.simps [simp del]

section \<open>Tokens\<close>

definition parse_error :: "Lexer \<Rightarrow> SqlError" where
  "parse_error l = Parse (lx_line l) (lx_col l)"

definition scan_ident :: "Lexer \<Rightarrow> (SqlError + Token) \<times> Lexer" where
  "scan_ident l =
     (let start = lx_pos l;
          pos = pos_while (\<lambda>c. is_alphanumeric c \<or> c = chr CHR ''_'') (lx_input l) start;
          word = slice (lx_input l) start (pos - start)
      in (if utf8_valid word then Inr (keyword_or_ident word) else Inl SqlPanic, l\<lparr>lx_pos := pos\<rparr>))"

definition scan_number :: "Lexer \<Rightarrow> (SqlError + Token) \<times> Lexer" where
  "scan_number l =
     (case number_end (lx_input l) (lx_pos l) of (pos, is_float) \<Rightarrow>
        let s = slice (lx_input l) (lx_pos l) (pos - lx_pos l);
            l1 = l\<lparr>lx_pos := pos\<rparr>
        in (if is_float
            then (case parse_f64 s of Some f \<Rightarrow> Inr (FloatLiteral f) | None \<Rightarrow> Inl (parse_error l1))
            else (case parse_i64 s of Some n \<Rightarrow> Inr (IntLiteral n) | None \<Rightarrow> Inl (parse_error l1)), l1))"

lemma advance_keeps [simp]: "lx_input (snd (advance l)) = lx_input l" "lx_pos (snd (advance l)) = lx_pos l + 1"
  by (simp_all add: advance_def Let_def)

function string_loop :: "Lexer \<Rightarrow> str \<Rightarrow> (SqlError + Token) \<times> Lexer" where
  "string_loop l s =
     (if lx_pos l \<ge> length (lx_input l) then (Inl (parse_error l), l)
      else let ch = fst (advance l); l1 = snd (advance l)
           in if ch = chr CHR 0x27
              then if peek l1 = Some (chr CHR 0x27)
                   then string_loop (snd (advance l1)) (s @ [chr CHR 0x27])
                   else (Inr (StringLiteral s), l1)
              else string_loop l1 (s @ latin1_utf8 ch))"
  by pat_completeness auto
termination
  by (relation "measure (\<lambda>(l, s). length (lx_input l) - lx_pos l)") auto

declare string_loop.simps [simp del]

definition scan_string :: "Lexer \<Rightarrow> (SqlError + Token) \<times> Lexer" where
  "scan_string l = string_loop (l\<lparr>lx_pos := lx_pos l + 1\<rparr>) []"

function quoted_loop :: "Lexer \<Rightarrow> str \<Rightarrow> (SqlError + Token) \<times> Lexer" where
  "quoted_loop l s =
     (if lx_pos l \<ge> length (lx_input l) then (Inl (parse_error l), l)
      else let ch = fst (advance l); l1 = snd (advance l)
           in if ch = chr CHR 0x22 then (Inr (QuotedIdent s), l1)
              else quoted_loop l1 (s @ latin1_utf8 ch))"
  by pat_completeness auto
termination
  by (relation "measure (\<lambda>(l, s). length (lx_input l) - lx_pos l)") auto

declare quoted_loop.simps [simp del]

definition scan_quoted_ident :: "Lexer \<Rightarrow> (SqlError + Token) \<times> Lexer" where
  "scan_quoted_ident l = quoted_loop (l\<lparr>lx_pos := lx_pos l + 1\<rparr>) []"

definition single_ops :: "(char \<times> Token) list" where
  "single_ops = [
     (CHR ''+'', Plus), (CHR ''*'', Star), (CHR ''%'', Percent), (CHR ''^'', Caret), (CHR '','', Comma),
     (CHR '';'', Semicolon), (CHR ''('', LeftParen), (CHR '')'', RightParen), (CHR ''['', LeftBracket),
     (CHR '']'', RightBracket), (CHR ''.'', Dot), (CHR ''='', Eq), (CHR ''/'', Slash), (CHR ''?'', QuestionMark)]"

definition scan_operator :: "Lexer \<Rightarrow> (SqlError + Token) \<times> Lexer" where
  "scan_operator l0 =
     (let ch = fst (advance l0); l = snd (advance l0);
          next = (\<lambda>c. peek l = Some (chr c));
          next2 = (\<lambda>c. peek2 l = Some (chr c));
          one = (\<lambda>tok. (Inr tok, snd (advance l)));
          two = (\<lambda>tok. (Inr tok, snd (advance (snd (advance l)))));
          err = (Inl (parse_error l), l)
      in case map_of (map (\<lambda>(c, tok). (chr c, tok)) single_ops) ch of
           Some tok \<Rightarrow> (Inr tok, l)
         | None \<Rightarrow>
             if ch = chr CHR ''!'' then (if next CHR ''='' then one NotEq else err)
             else if ch = chr CHR ''<'' then
               (if next CHR ''='' then one LtEq
                else if next CHR ''>'' then one NotEq
                else if next CHR ''-'' \<and> next2 CHR ''>'' then two VectorDist
                else if next CHR ''@'' then one ContainedBy
                else (Inr Lt, l))
             else if ch = chr CHR ''>'' then (if next CHR ''='' then one GtEq else (Inr Gt, l))
             else if ch = chr CHR ''-'' then
               (if next CHR ''>'' \<and> next2 CHR ''>'' then two DoubleArrow
                else if next CHR ''>'' then one Arrow
                else (Inr Minus, l))
             else if ch = chr CHR '':'' then (if next CHR '':'' then one DoubleColon else (Inr Colon, l))
             else if ch = chr CHR ''|'' then (if next CHR ''|'' then one Concat else err)
             else if ch = chr CHR ''@'' then (if next CHR ''>'' then one Contains else err)
             else if ch = chr CHR ''#'' then (if next CHR ''>'' then one HashArrow else err)
             else err)"

definition next_token :: "Lexer \<Rightarrow> (SqlError + Token) \<times> Lexer" where
  "next_token l0 =
     (let l = skip_whitespace_and_comments l0
      in if lx_pos l \<ge> length (lx_input l) then (Inr EOF, l)
         else let ch = lx_input l ! lx_pos l
              in if is_letter ch \<or> ch = chr CHR ''_'' then scan_ident l
                 else if is_digit ch then scan_number l
                 else if ch = chr CHR 0x27 then scan_string l
                 else if ch = chr CHR 0x22 then scan_quoted_ident l
                 else scan_operator l)"

partial_function (option) tokenize_loop :: "Lexer \<Rightarrow> (SqlError + Token list) option" where
  "tokenize_loop l =
     (case next_token l of (r, l1) \<Rightarrow>
        (case r of
           Inl e \<Rightarrow> Some (Inl e)
         | Inr tok \<Rightarrow>
             if tok = EOF then Some (Inr [tok])
             else Option.bind (tokenize_loop l1) (\<lambda>r. Some (rbind r (\<lambda>toks. Inr (tok # toks))))))"

declare tokenize_loop.simps [code]

definition tokenize :: "str \<Rightarrow> (SqlError + Token list) option" where
  "tokenize input = tokenize_loop (lexer_new input)"

section \<open>Every token consumes input\<close>

lemma skip_keeps: "lx_input (skip_whitespace_and_comments l) = lx_input l"
    "lx_pos l \<le> lx_pos (skip_whitespace_and_comments l)"
proof -
  have "lx_input (skip_whitespace_and_comments l) = lx_input l \<and> lx_pos l \<le> lx_pos (skip_whitespace_and_comments l)"
  proof (induction l rule: skip_whitespace_and_comments.induct)
    case (1 l)
    define l1 where "l1 = skip_ws l"
    let ?line = "l1\<lparr>lx_pos := pos_while (\<lambda>b. b \<noteq> 10) (lx_input l1) (lx_pos l1)\<rparr>"
    let ?block = "l1\<lparr>lx_pos := block_end (lx_input l1) (lx_pos l1 + 2) + 2\<rparr>"
    have K: "lx_input l1 = lx_input l" "lx_pos l \<le> lx_pos l1" using skip_ws_keeps [of l] by (simp_all add: l1_def)
    have ge: "lx_pos l1 \<le> lx_pos ?line" "lx_pos l1 \<le> lx_pos ?block"
      using pos_while_ge [of "lx_pos l1"] block_end_ge [of "lx_pos l1 + 2" "lx_input l1"] by simp_all
    consider "skip_whitespace_and_comments l = l1"
      | "skip_whitespace_and_comments l = skip_whitespace_and_comments ?line"
        "lx_input (skip_whitespace_and_comments ?line) = lx_input ?line \<and>
          lx_pos ?line \<le> lx_pos (skip_whitespace_and_comments ?line)"
      | "skip_whitespace_and_comments l = skip_whitespace_and_comments ?block"
        "lx_input (skip_whitespace_and_comments ?block) = lx_input ?block \<and>
          lx_pos ?block \<le> lx_pos (skip_whitespace_and_comments ?block)"
      using 1 [OF l1_def refl refl] skip_whitespace_and_comments.simps [of l, folded l1_def, unfolded Let_def]
      by (metis (no_types, lifting))
    then show ?case
    proof cases
      case 1
      then show ?thesis using K by simp
    next
      case 2
      then show ?thesis using K ge(1) by simp
    next
      case 3
      then show ?thesis using K ge(2) by simp
    qed
  qed
  then show "lx_input (skip_whitespace_and_comments l) = lx_input l"
    "lx_pos l \<le> lx_pos (skip_whitespace_and_comments l)" by simp_all
qed

lemma string_loop_keeps: "lx_input (snd (string_loop l s)) = lx_input l \<and> lx_pos l \<le> lx_pos (snd (string_loop l s))"
proof (induction l s rule: string_loop.induct)
  case (1 l s)
  then show ?case by (subst (1 2) string_loop.simps) (auto simp: Let_def Suc_le_eq intro: less_imp_le)
qed

lemma quoted_loop_keeps: "lx_input (snd (quoted_loop l s)) = lx_input l \<and> lx_pos l \<le> lx_pos (snd (quoted_loop l s))"
proof (induction l s rule: quoted_loop.induct)
  case (1 l s)
  then show ?case by (subst (1 2) quoted_loop.simps) (auto simp: Let_def Suc_le_eq intro: less_imp_le)
qed

lemma scan_ident_moves:
  assumes "lx_pos l < length (lx_input l)" "is_letter (lx_input l ! lx_pos l) \<or> lx_input l ! lx_pos l = chr CHR ''_''"
  shows "lx_input (snd (scan_ident l)) = lx_input l \<and> lx_pos l < lx_pos (snd (scan_ident l))"
  using pos_while_step [OF assms(1), of "\<lambda>c. is_alphanumeric c \<or> c = chr CHR ''_''"] assms(2)
  by (auto simp: scan_ident_def Let_def is_alphanumeric_def)

lemma scan_number_moves:
  assumes "lx_pos l < length (lx_input l)" "is_digit (lx_input l ! lx_pos l)"
  shows "lx_input (snd (scan_number l)) = lx_input l \<and> lx_pos l < lx_pos (snd (scan_number l))"
  using pos_while_step [OF assms(1), of is_digit] assms(2) number_end_ge [of "lx_input l" "lx_pos l"]
  by (simp add: scan_number_def Let_def case_prod_unfold)

lemma scan_operator_moves: "lx_input (snd (scan_operator l)) = lx_input l \<and> lx_pos l < lx_pos (snd (scan_operator l))"
  unfolding scan_operator_def Let_def
  by (cases "map_of (map (\<lambda>(c, tok). (chr c, tok)) single_ops) (fst (advance l))")
    (simp_all only: option.case if_distrib [of snd] if_distrib [of lx_input] if_distrib [of lx_pos] snd_conv advance_keeps if_cancel,
      simp_all)

lemma next_token_moves:
  assumes "next_token l = (r, l1)"
  shows "lx_input l1 = lx_input l" "r \<noteq> Inr EOF \<Longrightarrow> lx_pos l < lx_pos l1 \<and> lx_pos l < length (lx_input l)"
proof -
  let ?l = "skip_whitespace_and_comments l"
  note K = skip_keeps [of l]
  have "lx_input (snd (scan_string ?l)) = lx_input ?l \<and> lx_pos ?l < lx_pos (snd (scan_string ?l))"
    using string_loop_keeps [of "?l\<lparr>lx_pos := lx_pos ?l + 1\<rparr>" "[]"] by (simp add: scan_string_def)
  moreover have "lx_input (snd (scan_quoted_ident ?l)) = lx_input ?l \<and> lx_pos ?l < lx_pos (snd (scan_quoted_ident ?l))"
    using quoted_loop_keeps [of "?l\<lparr>lx_pos := lx_pos ?l + 1\<rparr>" "[]"] by (simp add: scan_quoted_ident_def)
  ultimately have "lx_input l1 = lx_input ?l \<and> (lx_pos ?l < length (lx_input ?l) \<longrightarrow> lx_pos ?l < lx_pos l1) \<and>
      (lx_pos ?l \<ge> length (lx_input ?l) \<longrightarrow> r = Inr EOF)"
    using assms scan_ident_moves [of ?l] scan_number_moves [of ?l] scan_operator_moves [of ?l]
    by (simp add: next_token_def Let_def split: if_splits)
  then show "lx_input l1 = lx_input l" "r \<noteq> Inr EOF \<Longrightarrow> lx_pos l < lx_pos l1 \<and> lx_pos l < length (lx_input l)"
    using K by auto
qed

lemma tokenize_loop_ends:
  "\<exists>r. tokenize_loop l = Some r \<and> (case r of
      Inr ts \<Rightarrow> ts \<noteq> [] \<and> last ts = EOF \<and> EOF \<notin> set (butlast ts) \<and> length ts \<le> Suc (length (lx_input l) - lx_pos l)
    | Inl _ \<Rightarrow> True)"
proof (induction l rule: measure_induct_rule [where f = "\<lambda>l. length (lx_input l) - lx_pos l"])
  case (less l)
  obtain r l1 where n: "next_token l = (r, l1)" by (cases "next_token l")
  note M = next_token_moves [OF n]
  show ?case
  proof (cases r)
    case (Inl e)
    then show ?thesis using n by (simp add: tokenize_loop.simps [of l])
  next
    case (Inr tok)
    show ?thesis
    proof (cases "tok = EOF")
      case True
      then show ?thesis using n Inr by (simp add: tokenize_loop.simps [of l])
    next
      case False
      then have m: "length (lx_input l1) - lx_pos l1 < length (lx_input l) - lx_pos l" using M Inr by auto
      obtain r' where r': "tokenize_loop l1 = Some r'" "case r' of
          Inr ts \<Rightarrow> ts \<noteq> [] \<and> last ts = EOF \<and> EOF \<notin> set (butlast ts) \<and> length ts \<le> Suc (length (lx_input l1) - lx_pos l1)
        | Inl _ \<Rightarrow> True" using less.IH [OF m] by blast
      have "tokenize_loop l = Some (rbind r' (\<lambda>toks. Inr (tok # toks)))"
        using n Inr False r'(1) by (simp add: tokenize_loop.simps [of l])
      then show ?thesis using r'(2) m False by (cases r') auto
    qed
  qed
qed

section \<open>String literals\<close>

definition escape :: "str \<Rightarrow> str" where
  "escape s = concat (map (\<lambda>b. if b = chr CHR 0x27 then [chr CHR 0x27, chr CHR 0x27] else [b]) s)"

lemma string_loop_escape:
  assumes "lx_input l = pre @ escape s @ [chr CHR 0x27]" "lx_pos l = length pre"
  shows "\<exists>l1. string_loop l acc = (Inr (StringLiteral (acc @ concat (map latin1_utf8 s))), l1) \<and>
    lx_input l1 = lx_input l \<and> lx_pos l1 = length (lx_input l)"
  using assms
proof (induction s arbitrary: l pre acc)
  case Nil
  then have "fst (advance l) = chr CHR 0x27" "peek (snd (advance l)) = None"
    by (simp_all add: advance_def Let_def escape_def peek_def)
  then show ?case using Nil by (subst string_loop.simps) (simp add: Let_def escape_def)
next
  case (Cons b s)
  show ?case
  proof (cases "b = chr CHR 0x27")
    case True
    let ?l = "snd (advance (snd (advance l)))" and ?pre = "pre @ [chr CHR 0x27, chr CHR 0x27]"
    have "lx_input ?l = ?pre @ escape s @ [chr CHR 0x27]" "lx_pos ?l = length ?pre"
      using Cons.prems True by (simp_all add: escape_def)
    then obtain l1 where "string_loop ?l (acc @ [chr CHR 0x27]) =
        (Inr (StringLiteral ((acc @ [chr CHR 0x27]) @ concat (map latin1_utf8 s))), l1)"
      "lx_input l1 = lx_input ?l" "lx_pos l1 = length (lx_input ?l)"
      using Cons.IH [of ?l ?pre "acc @ [chr CHR 0x27]"] by blast
    moreover have "fst (advance l) = chr CHR 0x27" "peek (snd (advance l)) = Some (chr CHR 0x27)"
      "lx_pos l < length (lx_input l)"
      using Cons.prems True by (simp_all add: advance_def Let_def escape_def peek_def nth_append)
    moreover have "latin1_utf8 b = [chr CHR 0x27]" using True by (simp add: latin1_utf8_def)
    ultimately show ?thesis by (subst string_loop.simps) (simp add: Let_def)
  next
    case False
    let ?l = "snd (advance l)"
    have "lx_input ?l = (pre @ [b]) @ escape s @ [chr CHR 0x27]" "lx_pos ?l = length (pre @ [b])"
      using Cons.prems False by (simp_all add: escape_def)
    then obtain l1 where "string_loop ?l (acc @ latin1_utf8 b) =
        (Inr (StringLiteral ((acc @ latin1_utf8 b) @ concat (map latin1_utf8 s))), l1)"
      "lx_input l1 = lx_input ?l" "lx_pos l1 = length (lx_input ?l)"
      using Cons.IH [of ?l "pre @ [b]" "acc @ latin1_utf8 b"] by blast
    moreover have "fst (advance l) = b" "lx_pos l < length (lx_input l)"
      using Cons.prems False by (simp_all add: advance_def Let_def escape_def)
    ultimately show ?thesis using False by (subst string_loop.simps) (simp add: Let_def)
  qed
qed

lemma skip_at_end: "lx_pos l \<ge> length (lx_input l) \<Longrightarrow> skip_whitespace_and_comments l = l"
  by (simp add: skip_whitespace_and_comments.simps [of l] skip_ws.simps [of l] Let_def)

lemma skip_at_token:
  assumes "lx_pos l < length (lx_input l)" "\<not> is_ascii_whitespace (lx_input l ! lx_pos l)"
    "lx_input l ! lx_pos l \<notin> {chr CHR ''-'', chr CHR ''/''}"
  shows "skip_whitespace_and_comments l = l"
  using assms by (simp add: skip_whitespace_and_comments.simps [of l] skip_ws.simps [of l] Let_def)

lemma lexer_new_sel: "lx_input (lexer_new s) = s" "lx_pos (lexer_new s) = 0"
  by (simp_all add: lexer_new_def)

lemma tokenize_at_end: "lx_pos l \<ge> length (lx_input l) \<Longrightarrow> tokenize_loop l = Some (Inr [EOF])"
  by (simp add: tokenize_loop.simps [of l] next_token_def skip_at_end)

section \<open>Errors of the lexer\<close>

text \<open>The lexer reports a position in the input; it panics only on an identifier that is not ASCII.\<close>

definition lex_error :: "byte list \<Rightarrow> SqlError \<Rightarrow> bool" where
  "lex_error s e \<longleftrightarrow> (case e of Parse line col \<Rightarrow> True | SqlPanic \<Rightarrow> \<not> list_all (\<lambda>b. b < 128) s | _ \<Rightarrow> False)"

lemma lex_error_parse [simp]: "lex_error s (parse_error l)"
  by (simp add: lex_error_def parse_error_def)

lemma string_loop_error: "fst (string_loop l s) = Inl e \<Longrightarrow> lex_error t e"
proof (induction l s rule: string_loop.induct)
  case (1 l s)
  from 1(3) show ?case
    by (subst (asm) string_loop.simps) (auto simp: Let_def split: if_splits intro: 1(1,2) [OF _ refl refl])
qed

lemma quoted_loop_error: "fst (quoted_loop l s) = Inl e \<Longrightarrow> lex_error t e"
proof (induction l s rule: quoted_loop.induct)
  case (1 l s)
  from 1(2) show ?case
    by (subst (asm) quoted_loop.simps) (auto simp: Let_def split: if_splits intro: 1(1) [OF _ refl refl])
qed

lemma scan_operator_error: "fst (scan_operator l) = Inl e \<Longrightarrow> lex_error t e"
  unfolding scan_operator_def Let_def by (auto split: option.splits if_splits)

lemma ascii_valid: "list_all (\<lambda>b. b < 128) s \<Longrightarrow> utf8_valid s"
  by (induction s) (simp_all add: utf8_valid_ascii)

lemma ascii_slice: "list_all (\<lambda>b. b < (128 :: byte)) s \<Longrightarrow> list_all (\<lambda>b. b < 128) (slice s i n)"
  by (auto simp: list_all_iff slice_def dest: in_set_takeD in_set_dropD)

lemma scan_ident_error: "fst (scan_ident l) = Inl e \<Longrightarrow> lex_error (lx_input l) e"
  using ascii_valid ascii_slice by (auto simp: scan_ident_def Let_def lex_error_def split: if_splits)

lemma scan_number_error: "fst (scan_number l) = Inl e \<Longrightarrow> lex_error t e"
  by (auto simp: scan_number_def Let_def split: prod.splits if_splits option.splits)

lemma next_token_error: "next_token l = (Inl e, l1) \<Longrightarrow> lex_error (lx_input l) e"
proof -
  let ?l = "skip_whitespace_and_comments l"
  assume n: "next_token l = (Inl e, l1)"
  consider "scan_ident ?l = (Inl e, l1)" | "scan_number ?l = (Inl e, l1)" | "scan_string ?l = (Inl e, l1)"
    | "scan_quoted_ident ?l = (Inl e, l1)" | "scan_operator ?l = (Inl e, l1)"
    using n by (auto simp: next_token_def Let_def split: if_splits)
  then show ?thesis
  proof cases
    case 1
    then show ?thesis using scan_ident_error [of ?l e] skip_keeps(1) [of l] by simp
  next
    case 2
    then show ?thesis using scan_number_error [of ?l e] by simp
  next
    case 3
    then show ?thesis using string_loop_error [of "?l\<lparr>lx_pos := lx_pos ?l + 1\<rparr>" "[]" e] by (simp add: scan_string_def)
  next
    case 4
    then show ?thesis using quoted_loop_error [of "?l\<lparr>lx_pos := lx_pos ?l + 1\<rparr>" "[]" e] by (simp add: scan_quoted_ident_def)
  next
    case 5
    then show ?thesis using scan_operator_error [of ?l e] by simp
  qed
qed

lemma tokenize_loop_error: "tokenize_loop l = Some (Inl e) \<Longrightarrow> lex_error (lx_input l) e"
proof (induction "length (lx_input l) - lx_pos l" arbitrary: l rule: less_induct)
  case less
  obtain r l1 where n: "next_token l = (r, l1)" by force
  show ?case
  proof (cases r)
    case (Inl e')
    then show ?thesis using less.prems n next_token_error [of l e'] by (simp add: tokenize_loop.simps [of l])
  next
    case (Inr tok)
    note M = next_token_moves [OF n]
    have tok: "tok \<noteq> EOF" "tokenize_loop l1 = Some (Inl e)"
      using less.prems n Inr
      by (auto simp: tokenize_loop.simps [of l] bind_eq_Some_conv elim: rbind.elims split: if_splits)
    then show ?thesis using less.hyps [of l1] M Inr by auto
  qed
qed

section \<open>Properties\<close>

text \<open>C29. The lexer ends on every input, whatever its bytes. It returns at most one token per byte and then the end of
  input, which it returns once, or it stops with an error. On input in ASCII the error is a syntax error with its
  position; a panic is possible only when the input has a byte outside ASCII.\<close>

theorem tokenize_terminates:
  "\<exists>r. tokenize s = Some r \<and> (case r of
      Inr ts \<Rightarrow> ts \<noteq> [] \<and> last ts = EOF \<and> EOF \<notin> set (butlast ts) \<and> length ts \<le> length s + 1
    | Inl (Parse line col) \<Rightarrow> True
    | Inl SqlPanic \<Rightarrow> \<not> list_all (\<lambda>b. b < 128) s
    | Inl _ \<Rightarrow> False)"
proof -
  obtain r where r: "tokenize s = Some r" "case r of
      Inr ts \<Rightarrow> ts \<noteq> [] \<and> last ts = EOF \<and> EOF \<notin> set (butlast ts) \<and> length ts \<le> length s + 1
    | Inl _ \<Rightarrow> True"
    using tokenize_loop_ends [of "lexer_new s"] unfolding tokenize_def lexer_new_sel diff_zero Suc_eq_plus1 by blast
  have "lex_error s e" if "r = Inl e" for e
    using tokenize_loop_error [of "lexer_new s" e] r(1) that by (simp add: tokenize_def lexer_new_sel)
  then show ?thesis using r by (cases r) (auto simp: lex_error_def)
qed

text \<open>A string literal with doubled quotes is read as one token. Its text is that of the source when the
  source is ASCII; any other byte is taken for a Latin-1 character and encoded again.\<close>

lemma string_literal_reads:
  "tokenize (chr CHR 0x27 # escape s @ [chr CHR 0x27]) = Some (Inr [StringLiteral (concat (map latin1_utf8 s)), EOF])"
proof -
  let ?l = "lexer_new (chr CHR 0x27 # escape s @ [chr CHR 0x27])"
  have "skip_whitespace_and_comments ?l = ?l"
    by (rule skip_at_token) (simp_all add: lexer_new_sel is_ascii_whitespace_def)
  then have "next_token ?l = scan_string ?l"
    by (simp add: next_token_def Let_def lexer_new_sel is_letter_def is_digit_def)
  moreover obtain l1 where "scan_string ?l = (Inr (StringLiteral (concat (map latin1_utf8 s))), l1)"
    "lx_input l1 = lx_input ?l" "lx_pos l1 = length (lx_input ?l)"
    using string_loop_escape [of "?l\<lparr>lx_pos := lx_pos ?l + 1\<rparr>" "[chr CHR 0x27]" s "[]"]
    by (auto simp: scan_string_def lexer_new_sel)
  ultimately show ?thesis
    unfolding tokenize_def by (subst tokenize_loop.simps) (simp add: tokenize_at_end)
qed

text \<open>An accented letter in a literal becomes two characters, and in an identifier stops the program.\<close>

lemma accent_encoded_twice:
  "tokenize [chr CHR 0x27, 0xC3, 0xA9, chr CHR 0x27] = Some (Inr [StringLiteral [0xC3, 0x83, 0xC2, 0xA9], EOF])"
  by code_simp

lemma accent_panics: "utf8_valid (bytes_of ''caf'' @ [0xC3, 0xA9]) \<and> tokenize (bytes_of ''caf'' @ [0xC3, 0xA9]) = Some (Inl SqlPanic)"
  by code_simp

end
