(* ===== verification/Jsonb.thy ===== *)
theory Jsonb
  imports Rust_Num
begin

text \<open>
  The JSONB format of \<^verbatim>\<open>crates/storage/src/jsonb.rs\<close>: its values, the binary encoder and decoder, access by key
  and index, and containment. The decoder recurses as deep as its input nests, so it takes fuel; \<open>NoFuel\<close> is
  shown never to be the result for the fuel it is given. Error messages are dropped.
\<close>

datatype JsonVal =
    JNull | JBool bool | JInt i64 | JFloat f64 | JStr str
  | JArray "JsonVal list" | JObject "(str \<times> JsonVal) list"

datatype json_error = Malformed | NoFuel

section \<open>Encoding\<close>

abbreviation (input) TAG_NULL :: byte where "TAG_NULL \<equiv> 0x01"
abbreviation (input) TAG_BOOL_FALSE :: byte where "TAG_BOOL_FALSE \<equiv> 0x02"
abbreviation (input) TAG_BOOL_TRUE :: byte where "TAG_BOOL_TRUE \<equiv> 0x03"
abbreviation (input) TAG_INT64 :: byte where "TAG_INT64 \<equiv> 0x04"
abbreviation (input) TAG_FLOAT64 :: byte where "TAG_FLOAT64 \<equiv> 0x05"
abbreviation (input) TAG_STRING :: byte where "TAG_STRING \<equiv> 0x06"
abbreviation (input) TAG_ARRAY :: byte where "TAG_ARRAY \<equiv> 0x07"
abbreviation (input) TAG_OBJECT :: byte where "TAG_OBJECT \<equiv> 0x08"

definition len32 :: "nat \<Rightarrow> byte list" where
  "len32 n = to_le 4 (n mod 2 ^ 32)"

definition encode_str :: "str \<Rightarrow> byte list" where
  "encode_str s = TAG_STRING # len32 (length s) @ s"

fun encode_val :: "JsonVal \<Rightarrow> byte list"
  and encode_vals :: "JsonVal list \<Rightarrow> byte list"
  and encode_pairs :: "(str \<times> JsonVal) list \<Rightarrow> byte list" where
  "encode_val JNull = [TAG_NULL]"
| "encode_val (JBool b) = [if b then TAG_BOOL_TRUE else TAG_BOOL_FALSE]"
| "encode_val (JInt n) = TAG_INT64 # to_le 8 (unat n)"
| "encode_val (JFloat f) = TAG_FLOAT64 # to_le 8 (unat f)"
| "encode_val (JStr s) = encode_str s"
| "encode_val (JArray items) = TAG_ARRAY # len32 (length items) @ encode_vals items"
| "encode_val (JObject pairs) = TAG_OBJECT # len32 (length pairs) @ encode_pairs pairs"
| "encode_vals [] = []"
| "encode_vals (v # vs) = encode_val v @ encode_vals vs"
| "encode_pairs [] = []"
| "encode_pairs ((k, v) # ps) = encode_str k @ encode_val v @ encode_pairs ps"

section \<open>Decoding\<close>

fun decode_n :: "nat \<Rightarrow> (nat \<Rightarrow> json_error + 'a \<times> nat) \<Rightarrow> nat \<Rightarrow> json_error + 'a list \<times> nat" where
  \<comment> \<open>\<^verbatim>\<open>for _ in 0..count\<close>\<close>
  "decode_n 0 f pos = Inr ([], pos)"
| "decode_n (Suc c) f pos =
     rbind (f pos) (\<lambda>(x, pos1). rbind (decode_n c f pos1) (\<lambda>(xs, pos2). Inr (x # xs, pos2)))"

definition decode_pair :: "(nat \<Rightarrow> json_error + JsonVal \<times> nat) \<Rightarrow> nat \<Rightarrow> json_error + (str \<times> JsonVal) \<times> nat" where
  "decode_pair f pos =
     rbind (f pos) (\<lambda>(key, pos1). case key of
         JStr s \<Rightarrow> rbind (f pos1) (\<lambda>(v, pos2). Inr ((s, v), pos2))
       | _ \<Rightarrow> Inl Malformed)"

fun decode_val :: "nat \<Rightarrow> byte list \<Rightarrow> nat \<Rightarrow> json_error + JsonVal \<times> nat" where
  "decode_val 0 bytes pos = Inl NoFuel"
| "decode_val (Suc n) bytes pos0 =
     (if length bytes \<le> pos0 then Inl Malformed
      else let tag = bytes ! pos0; pos = pos0 + 1
      in if tag = TAG_NULL then Inr (JNull, pos)
         else if tag = TAG_BOOL_FALSE then Inr (JBool False, pos)
         else if tag = TAG_BOOL_TRUE then Inr (JBool True, pos)
         else if tag = TAG_INT64 then
           if length bytes < pos + 8 then Inl Malformed
           else Inr (JInt (of_nat (from_le (slice bytes pos 8))), pos + 8)
         else if tag = TAG_FLOAT64 then
           if length bytes < pos + 8 then Inl Malformed
           else Inr (JFloat (of_nat (from_le (slice bytes pos 8))), pos + 8)
         else if tag = TAG_STRING then
           if length bytes < pos + 4 then Inl Malformed
           else let len = from_le (slice bytes pos 4); pos1 = pos + 4
                in if length bytes < pos1 + len then Inl Malformed
                   else if utf8_valid (slice bytes pos1 len) then Inr (JStr (slice bytes pos1 len), pos1 + len)
                   else Inl Malformed
         else if tag = TAG_ARRAY then
           if length bytes < pos + 4 then Inl Malformed
           else rbind (decode_n (from_le (slice bytes pos 4)) (decode_val n bytes) (pos + 4))
                  (\<lambda>(items, pos1). Inr (JArray items, pos1))
         else if tag = TAG_OBJECT then
           if length bytes < pos + 4 then Inl Malformed
           else rbind (decode_n (from_le (slice bytes pos 4)) (decode_pair (decode_val n bytes)) (pos + 4))
                  (\<lambda>(pairs, pos1). Inr (JObject pairs, pos1))
         else Inl Malformed)"

definition decode_at_start :: "byte list \<Rightarrow> json_error + JsonVal \<times> nat" where
  "decode_at_start bytes = decode_val (length bytes + 1) bytes 0"

section \<open>Access and containment\<close>

definition jsonb_get_key :: "byte list \<Rightarrow> str \<Rightarrow> byte list option" where
  "jsonb_get_key bytes key =
     (case decode_at_start bytes of
        Inr (JObject pairs, _) \<Rightarrow> map_option (\<lambda>(_, v). encode_val v) (find (\<lambda>(k, _). k = key) pairs)
      | _ \<Rightarrow> None)"

definition jsonb_get_idx :: "byte list \<Rightarrow> nat \<Rightarrow> byte list option" where
  "jsonb_get_idx bytes idx =
     (case decode_at_start bytes of
        Inr (JArray items, _) \<Rightarrow> if idx < length items then Some (encode_val (items ! idx)) else None
      | _ \<Rightarrow> None)"

definition scalar_eq :: "JsonVal \<Rightarrow> JsonVal \<Rightarrow> bool" where
  \<comment> \<open>the derived equality, where the arms before it leave no two arrays and no two objects\<close>
  "scalar_eq a b = (case (a, b) of (JFloat x, JFloat y) \<Rightarrow> f64_eq x y | _ \<Rightarrow> a = b)"

lemma array_size: "ov \<in> set items \<Longrightarrow> size ov < size (JArray items)"
  by (induction items) auto

lemma object_size: "(k, ov) \<in> set pairs \<Longrightarrow> size ov < size (JObject pairs)"
  by (induction pairs) auto

function json_contains_val :: "JsonVal \<Rightarrow> JsonVal \<Rightarrow> bool" where
  "json_contains_val outer inner =
     (case outer of
        JObject o_pairs \<Rightarrow> (case inner of
            JObject i_pairs \<Rightarrow>
              list_all (\<lambda>(ik, iv). list_ex (\<lambda>(ok, ov). ok = ik \<and> json_contains_val ov iv) o_pairs) i_pairs
          | _ \<Rightarrow> scalar_eq outer inner)
      | JArray o_items \<Rightarrow> (case inner of
            JArray i_items \<Rightarrow> list_all (\<lambda>iv. list_ex (\<lambda>ov. json_contains_val ov iv) o_items) i_items
          | _ \<Rightarrow> list_ex (\<lambda>ov. json_contains_val ov inner) o_items)
      | _ \<Rightarrow> scalar_eq outer inner)"
  by pat_completeness auto
termination
  by (relation "measure (\<lambda>(o1, _). size o1)") (auto simp: array_size object_size simp del: JsonVal.size)

declare json_contains_val.simps [simp del]

definition jsonb_contains :: "byte list \<Rightarrow> byte list \<Rightarrow> bool" where
  "jsonb_contains outer inner =
     (case (decode_at_start outer, decode_at_start inner) of
        (Inr (o1, _), Inr (i1, _)) \<Rightarrow> json_contains_val o1 i1
      | _ \<Rightarrow> False)"

section \<open>The decoder moves on and has fuel enough\<close>

definition moves :: "nat \<Rightarrow> (nat \<Rightarrow> json_error + 'a \<times> nat) \<Rightarrow> bool" where
  "moves len f \<longleftrightarrow> (\<forall>pos x pos'. f pos = Inr (x, pos') \<longrightarrow> pos < pos' \<and> pos' \<le> len)"

definition fuelled :: "nat \<Rightarrow> nat \<Rightarrow> (nat \<Rightarrow> json_error + 'a \<times> nat) \<Rightarrow> bool" where
  "fuelled len n f \<longleftrightarrow> (\<forall>pos. len - pos < n \<longrightarrow> f pos \<noteq> Inl NoFuel)"

lemma movesD: "moves len f \<Longrightarrow> f pos = Inr (x, pos') \<Longrightarrow> pos < pos' \<and> pos' \<le> len"
  by (simp add: moves_def)

lemma fuelledD: "fuelled len n f \<Longrightarrow> len - pos < n \<Longrightarrow> f pos \<noteq> Inl NoFuel"
  by (simp add: fuelled_def)

lemma decode_n_moves:
  assumes "moves len f" "decode_n c f pos = Inr (xs, pos')" "pos \<le> len"
  shows "pos \<le> pos' \<and> pos' \<le> len"
  using assms(2,3)
proof (induction c arbitrary: pos xs)
  case (Suc c)
  then obtain x pos1 ys where f: "f pos = Inr (x, pos1)" "decode_n c f pos1 = Inr (ys, pos')"
    by (auto simp: rbind_Inr_iff)
  then have "pos < pos1 \<and> pos1 \<le> len" using movesD [OF assms(1)] by blast
  with Suc.IH [OF f(2)] show ?case by simp
qed simp

lemma decode_n_fuelled:
  assumes "moves len f" "fuelled len n f" "len - pos < n"
  shows "decode_n c f pos \<noteq> Inl NoFuel"
  using assms(3)
proof (induction c arbitrary: pos)
  case (Suc c)
  have f: "f pos \<noteq> Inl NoFuel" using fuelledD [OF assms(2) Suc.prems] .
  show ?case
  proof (cases "f pos")
    case (Inr y)
    then obtain x pos1 where y: "f pos = Inr (x, pos1)" by (cases y) auto
    then have "len - pos1 < n" using movesD [OF assms(1) y] Suc.prems by linarith
    from Suc.IH [OF this] show ?thesis using y by (cases "decode_n c f pos1") auto
  qed (use f in auto)
qed simp

lemma decode_pair_moves: "moves len f \<Longrightarrow> moves len (decode_pair f)"
proof -
  assume f: "moves len f"
  show ?thesis unfolding moves_def
  proof (intro allI impI)
    fix pos x pos' assume "decode_pair f pos = Inr (x, pos')"
    then obtain key pos1 where k: "f pos = Inr (key, pos1)"
      "(case key of JStr s \<Rightarrow> rbind (f pos1) (\<lambda>(v, pos2). Inr ((s, v), pos2)) | _ \<Rightarrow> Inl Malformed) = Inr (x, pos')"
      by (auto simp: decode_pair_def rbind_Inr_iff)
    then obtain v where "f pos1 = Inr (v, pos')" by (cases key) (auto simp: rbind_Inr_iff)
    then show "pos < pos' \<and> pos' \<le> len" using movesD [OF f k(1)] movesD [OF f, of pos1 v pos'] by simp
  qed
qed

lemma decode_pair_fuelled:
  assumes "moves len f" "fuelled len n f"
  shows "fuelled len n (decode_pair f)"
  unfolding fuelled_def
proof (intro allI impI)
  fix pos assume pos: "len - pos < n"
  have f: "f pos \<noteq> Inl NoFuel" using fuelledD [OF assms(2) pos] .
  show "decode_pair f pos \<noteq> Inl NoFuel"
  proof (cases "f pos")
    case (Inr y)
    then obtain x pos1 where y: "f pos = Inr (x, pos1)" by (cases y) auto
    then have "len - pos1 < n" using movesD [OF assms(1) y] pos by linarith
    then have "f pos1 \<noteq> Inl NoFuel" by (rule fuelledD [OF assms(2)])
    then show ?thesis using y by (cases "f pos1") (auto simp: decode_pair_def split: JsonVal.split)
  qed (use f in \<open>auto simp: decode_pair_def\<close>)
qed

lemma decode_val_moves: "moves (length bytes) (decode_val n bytes)"
proof (induction n)
  case 0
  then show ?case by (simp add: moves_def)
next
  case (Suc n)
  note I = decode_n_moves [OF Suc] decode_n_moves [OF decode_pair_moves [OF Suc]]
  show ?case unfolding moves_def
  proof (intro allI impI)
    fix pos x pos' assume "decode_val (Suc n) bytes pos = Inr (x, pos')"
    then show "pos < pos' \<and> pos' \<le> length bytes"
      by (auto simp: Let_def rbind_Inr_iff split: if_splits dest!: I)
  qed
qed

lemma decode_val_fuelled: "fuelled (length bytes) n (decode_val n bytes)"
proof (induction n)
  case 0
  then show ?case by (simp add: fuelled_def)
next
  case (Suc n)
  show ?case unfolding fuelled_def
  proof (intro allI impI)
    fix pos assume n: "length bytes - pos < Suc n"
    show "decode_val (Suc n) bytes pos \<noteq> Inl NoFuel"
    proof (cases "length bytes \<le> pos")
      case False
      then have pos: "length bytes - (pos + 1 + 4) < n" using n by linarith
      let ?c = "from_le (slice bytes (pos + 1) 4)"
      define a where "a = decode_n ?c (decode_val n bytes) (pos + 1 + 4)"
      define b where "b = decode_n ?c (decode_pair (decode_val n bytes)) (pos + 1 + 4)"
      have "a \<noteq> Inl NoFuel" unfolding a_def by (rule decode_n_fuelled [OF decode_val_moves Suc pos])
      moreover have "b \<noteq> Inl NoFuel" unfolding b_def
        by (rule decode_n_fuelled [OF decode_pair_moves [OF decode_val_moves] decode_pair_fuelled [OF decode_val_moves Suc] pos])
      ultimately have "rbind a (\<lambda>(items, pos1). Inr (JArray items, pos1)) \<noteq> Inl NoFuel"
        "rbind b (\<lambda>(pairs, pos1). Inr (JObject pairs, pos1)) \<noteq> Inl NoFuel"
        by (cases a; cases b; simp add: case_prod_unfold)+
      then show ?thesis unfolding decode_val.simps Let_def a_def [symmetric] b_def [symmetric] by simp
    qed simp
  qed
qed

section \<open>Decoding what was encoded\<close>

definition str_ok :: "str \<Rightarrow> bool" where
  "str_ok s \<longleftrightarrow> utf8_valid s \<and> length s < 2 ^ 32"

fun json_ok :: "JsonVal \<Rightarrow> bool"
  and json_oks :: "JsonVal list \<Rightarrow> bool"
  and pairs_ok :: "(str \<times> JsonVal) list \<Rightarrow> bool" where
  "json_ok (JStr s) = str_ok s"
| "json_ok (JArray items) = (length items < 2 ^ 32 \<and> json_oks items)"
| "json_ok (JObject pairs) = (length pairs < 2 ^ 32 \<and> pairs_ok pairs)"
| "json_ok _ = True"
| "json_oks [] = True"
| "json_oks (v # vs) = (json_ok v \<and> json_oks vs)"
| "pairs_ok [] = True"
| "pairs_ok ((k, v) # ps) = (str_ok k \<and> json_ok v \<and> pairs_ok ps)"

lemma slice_at: "inp = pre @ x @ rest \<Longrightarrow> i = length pre \<Longrightarrow> n = length x \<Longrightarrow> slice inp i n = x"
  by (simp add: slice_append_right)

lemma length_len32 [simp]: "length (len32 n) = 4"
  by (simp add: len32_def)

lemma from_len32: "n < 2 ^ 32 \<Longrightarrow> from_le (len32 n) = n"
  unfolding len32_def by (subst mod_less) (simp_all only: from_le_to_le_4)

lemma word64_le: "of_nat (from_le (to_le 8 (unat n))) = n" for n :: "64 word"
proof -
  have "unat n < 2 ^ 64" using unsigned_less [of n] by simp
  then show ?thesis by (simp only: from_le_to_le_8) simp
qed

lemma count_at:
  assumes "bytes = pre @ (tag # len32 c @ body) @ rest" "c < 2 ^ 32"
  shows "length pre < length bytes" "bytes ! length pre = tag" "\<not> length bytes < length pre + 1 + 4"
    "from_le (slice bytes (length pre + 1) 4) = c"
proof -
  have "slice bytes (length pre + 1) 4 = len32 c"
    by (rule slice_at [where pre = "pre @ [tag]" and rest = "body @ rest"]) (simp_all add: assms(1))
  then show "from_le (slice bytes (length pre + 1) 4) = c" using from_len32 [OF assms(2)] by simp
qed (simp_all add: assms(1) nth_append)

lemma decode_str:
  assumes "str_ok s" "bytes = pre @ encode_str s @ rest"
  shows "decode_val (Suc n) bytes (length pre) = Inr (JStr s, length pre + length (encode_str s))"
proof -
  have b: "bytes = pre @ (TAG_STRING # len32 (length s) @ s) @ rest" using assms(2) by (simp add: encode_str_def)
  note C = count_at [OF b] 
  have s: "slice bytes (length pre + 1 + 4) (length s) = s"
    by (rule slice_at [where pre = "pre @ [TAG_STRING] @ len32 (length s)" and rest = rest]) (simp_all add: b)
  have l: "\<not> length bytes < length pre + 1 + 4 + length s" by (simp add: b)
  show ?thesis
    using C s l assms(1) by (simp add: Let_def str_ok_def encode_str_def)
qed

lemma decode_encode:
  shows "json_ok v \<Longrightarrow> length (encode_val v) \<le> n \<Longrightarrow> bytes = pre @ encode_val v @ rest \<Longrightarrow>
      decode_val n bytes (length pre) = Inr (v, length pre + length (encode_val v))"
    and "json_oks vs \<Longrightarrow> length (encode_vals vs) \<le> n \<Longrightarrow> bytes = pre @ encode_vals vs @ rest \<Longrightarrow>
      decode_n (length vs) (decode_val n bytes) (length pre) = Inr (vs, length pre + length (encode_vals vs))"
    and "pairs_ok ps \<Longrightarrow> length (encode_pairs ps) \<le> n \<Longrightarrow> bytes = pre @ encode_pairs ps @ rest \<Longrightarrow>
      decode_n (length ps) (decode_pair (decode_val n bytes)) (length pre) = Inr (ps, length pre + length (encode_pairs ps))"
proof (induction v and vs and ps arbitrary: n pre rest and n pre rest and n pre rest
    rule: encode_val_encode_vals_encode_pairs.induct)
  case (3 k)
  then obtain m where n: "n = Suc m" by (cases n) auto
  have "slice bytes (length pre + 1) 8 = to_le 8 (unat k)"
    by (rule slice_at [where pre = "pre @ [TAG_INT64]" and rest = rest]) (simp_all add: 3)
  then show ?case using 3 by (simp add: n Let_def nth_append word64_le)
next
  case (4 f)
  then obtain m where n: "n = Suc m" by (cases n) auto
  have "slice bytes (length pre + 1) 8 = to_le 8 (unat f)"
    by (rule slice_at [where pre = "pre @ [TAG_FLOAT64]" and rest = rest]) (simp_all add: 4)
  then show ?case using 4 by (simp add: n Let_def nth_append word64_le)
next
  case (5 s)
  then obtain m where n: "n = Suc m" by (cases n) (auto simp: encode_str_def)
  show ?case unfolding n using decode_str [of s bytes pre rest m] 5 by simp
next
  case (6 items)
  then obtain m where n: "n = Suc m" by (cases n) auto
  note C = count_at [of bytes pre TAG_ARRAY "length items" "encode_vals items" rest]
  have "decode_n (length items) (decode_val m bytes) (length (pre @ [TAG_ARRAY] @ len32 (length items))) =
      Inr (items, length (pre @ [TAG_ARRAY] @ len32 (length items)) + length (encode_vals items))"
    by (rule "6.IH" [where rest = rest]) (use "6.prems" n in simp_all)
  then show ?case using "6.prems" C by (simp add: n Let_def add.commute [of 5 "length pre"])
next
  case (7 pairs)
  then obtain m where n: "n = Suc m" by (cases n) auto
  note C = count_at [of bytes pre TAG_OBJECT "length pairs" "encode_pairs pairs" rest]
  have "decode_n (length pairs) (decode_pair (decode_val m bytes)) (length (pre @ [TAG_OBJECT] @ len32 (length pairs))) =
      Inr (pairs, length (pre @ [TAG_OBJECT] @ len32 (length pairs)) + length (encode_pairs pairs))"
    by (rule "7.IH" [where rest = rest]) (use "7.prems" n in simp_all)
  then show ?case using "7.prems" C by (simp add: n Let_def add.commute [of 5 "length pre"])
next
  case (9 v vs)
  have "decode_val n bytes (length pre) = Inr (v, length pre + length (encode_val v))"
    by (rule "9.IH"(1) [where rest = "encode_vals vs @ rest"]) (use "9.prems" in simp_all)
  moreover have "decode_n (length vs) (decode_val n bytes) (length (pre @ encode_val v)) =
      Inr (vs, length (pre @ encode_val v) + length (encode_vals vs))"
    by (rule "9.IH"(2) [where rest = rest]) (use "9.prems" in simp_all)
  ultimately show ?case by simp
next
  case (11 k v ps)
  then obtain m where n: "n = Suc m" by (cases n) (auto simp: encode_str_def)
  have "decode_val n bytes (length pre) = Inr (JStr k, length pre + length (encode_str k))"
    unfolding n by (rule decode_str) (use "11.prems" in simp_all)
  moreover have "decode_val n bytes (length (pre @ encode_str k)) = Inr (v, length (pre @ encode_str k) + length (encode_val v))"
    by (rule "11.IH"(1) [where rest = "encode_pairs ps @ rest"]) (use "11.prems" in simp_all)
  ultimately have "decode_pair (decode_val n bytes) (length pre) =
      Inr ((k, v), length (pre @ encode_str k @ encode_val v))" by (simp add: decode_pair_def)
  moreover have "decode_n (length ps) (decode_pair (decode_val n bytes)) (length (pre @ encode_str k @ encode_val v)) =
      Inr (ps, length (pre @ encode_str k @ encode_val v) + length (encode_pairs ps))"
    by (rule "11.IH"(2) [where rest = rest]) (use "11.prems" in simp_all)
  ultimately show ?case by simp
qed (auto simp: nth_append Let_def gr0_conv_Suc Suc_le_eq)

section \<open>Containment\<close>

fun nan_free :: "JsonVal \<Rightarrow> bool" where
  "nan_free (JFloat f) = (\<not> f64_nan f)"
| "nan_free (JArray items) = list_all nan_free items"
| "nan_free (JObject pairs) = list_all (\<lambda>v. nan_free v) (map snd pairs)"
| "nan_free _ = True"

definition is_array :: "JsonVal \<Rightarrow> bool" where
  "is_array v = (case v of JArray _ \<Rightarrow> True | _ \<Rightarrow> False)"

lemma contains_arrays: "json_contains_val (JArray os) (JArray is) \<longleftrightarrow> (\<forall>iv \<in> set is. \<exists>ov \<in> set os. json_contains_val ov iv)"
  by (subst json_contains_val.simps) (simp add: list_all_iff list_ex_iff)

lemma contains_member: "\<not> is_array i \<Longrightarrow> json_contains_val (JArray os) i \<longleftrightarrow> (\<exists>ov \<in> set os. json_contains_val ov i)"
  by (subst json_contains_val.simps) (cases i; simp add: is_array_def list_ex_iff)

lemma contains_objects: "json_contains_val (JObject os) (JObject is) \<longleftrightarrow>
    (\<forall>(k, iv) \<in> set is. \<exists>ov. (k, ov) \<in> set os \<and> json_contains_val ov iv)"
  by (subst json_contains_val.simps) (fastforce simp: list_all_iff list_ex_iff)

lemma contains_object_other: "json_contains_val (JObject os) i \<Longrightarrow> \<exists>is. i = JObject is"
  by (cases i) (simp_all add: json_contains_val.simps [of "JObject os"] scalar_eq_def)

lemma contains_scalar:
  assumes "\<not> is_array a" "\<forall>ps. a \<noteq> JObject ps"
  shows "json_contains_val a b \<longleftrightarrow> scalar_eq a b"
  using assms by (subst json_contains_val.simps) (cases a; simp add: is_array_def)

lemma scalar_eq_trans: "scalar_eq a b \<Longrightarrow> scalar_eq b c \<Longrightarrow> scalar_eq a c"
  by (auto simp: scalar_eq_def f64_eq_def split: JsonVal.splits)

lemma scalar_eq_kind: "scalar_eq a b \<Longrightarrow> \<not> is_array a \<Longrightarrow> \<forall>ps. a \<noteq> JObject ps \<Longrightarrow> \<not> is_array b \<and> (\<forall>ps. b \<noteq> JObject ps)"
  by (auto simp: scalar_eq_def is_array_def split: JsonVal.splits)

lemma contains_array_only: "json_contains_val a c \<Longrightarrow> is_array c \<Longrightarrow> is_array a"
proof (rule ccontr)
  assume ac: "json_contains_val a c" "is_array c" and a: "\<not> is_array a"
  show False
  proof (cases "\<exists>ps. a = JObject ps")
    case True
    then obtain "is" where "c = JObject is" using ac(1) contains_object_other by blast
    then show False using ac(2) by (simp add: is_array_def)
  next
    case False
    then show False using ac contains_scalar [OF a, of c] scalar_eq_kind [of a c] a by blast
  qed
qed

lemma contains_refl: "nan_free v \<Longrightarrow> json_contains_val v v"
proof (induction v rule: measure_induct_rule [where f = size])
  case (less v)
  show ?case
  proof (cases "is_array v \<or> (\<exists>ps. v = JObject ps)")
    case True
    then show ?thesis
    proof
      assume "is_array v"
      then obtain items where v: "v = JArray items" by (auto simp: is_array_def split: JsonVal.splits)
      have "json_contains_val i i" if "i \<in> set items" for i
        using less.IH [of i] less.prems array_size [OF that] that by (auto simp: v list_all_iff)
      then show ?thesis unfolding v contains_arrays by blast
    next
      assume "\<exists>ps. v = JObject ps"
      then obtain ps where v: "v = JObject ps" by blast
      have "json_contains_val i i" if "(k, i) \<in> set ps" for k i
        using less.IH [of i] less.prems object_size [OF that] that by (force simp: v list_all_iff)
      then show ?thesis unfolding v contains_objects by blast
    qed
  next
    case False
    then have "json_contains_val v v \<longleftrightarrow> scalar_eq v v" using contains_scalar [of v v] by blast
    then show ?thesis using less.prems by (cases v) (simp_all add: scalar_eq_def f64_eq_def)
  qed
qed

lemma contains_trans: "json_contains_val a b \<Longrightarrow> json_contains_val b c \<Longrightarrow> json_contains_val a c"
proof (induction a arbitrary: b c rule: measure_induct_rule [where f = size])
  case (less a)
  consider (arr) os where "a = JArray os" | (obj) ps where "a = JObject ps"
    | (sc) "\<not> is_array a" "\<forall>ps. a \<noteq> JObject ps" by (cases a) (auto simp: is_array_def)
  then show ?case
  proof cases
    case arr
    have IH: "json_contains_val ov c'" if "ov \<in> set os" "json_contains_val ov b'" "json_contains_val b' c'" for ov b' c'
      using less.IH [of ov b' c'] array_size [OF that(1)] that arr by simp
    show ?thesis
    proof (cases "is_array b")
      case True
      then obtain bs where b: "b = JArray bs" by (auto simp: is_array_def split: JsonVal.splits)
      have ab: "\<exists>ov \<in> set os. json_contains_val ov bv" if "bv \<in> set bs" for bv
        using less.prems(1) that by (simp add: arr b contains_arrays)
      show ?thesis
      proof (cases "is_array c")
        case True
        then obtain cs where "c = JArray cs" by (auto simp: is_array_def split: JsonVal.splits)
        then show ?thesis using less.prems(2) ab IH by (simp add: arr b contains_arrays) meson
      next
        case False
        then show ?thesis using less.prems(2) ab IH by (simp add: arr b contains_member [OF False]) meson
      qed
    next
      case False
      then have "\<not> is_array c" using contains_array_only [OF less.prems(2)] by blast
      then show ?thesis using less.prems IH unfolding arr contains_member [OF False] by (metis contains_member)
    qed
  next
    case obj
    obtain bs where b: "b = JObject bs" using less.prems(1) contains_object_other unfolding obj by blast
    obtain cs where c: "c = JObject cs" using less.prems(2) contains_object_other unfolding b by blast
    have IH: "json_contains_val ov c'" if "(k, ov) \<in> set ps" "json_contains_val ov b'" "json_contains_val b' c'" for k ov b' c'
      using less.IH [of ov b' c'] object_size [OF that(1)] that obj by simp
    show ?thesis unfolding obj c contains_objects
    proof (clarify)
      fix k cv assume "(k, cv) \<in> set cs"
      then obtain bv where bv: "(k, bv) \<in> set bs" "json_contains_val bv cv"
        using less.prems(2) unfolding b c contains_objects by blast
      then obtain ov where "(k, ov) \<in> set ps" "json_contains_val ov bv"
        using less.prems(1) unfolding obj b contains_objects by blast
      with IH bv(2) show "\<exists>ov. (k, ov) \<in> set ps \<and> json_contains_val ov cv" by blast
    qed
  next
    case sc
    have ab: "scalar_eq a b" using less.prems(1) contains_scalar [OF sc] by blast
    then have "scalar_eq b c" using less.prems(2) contains_scalar [of b c] scalar_eq_kind [OF ab sc] by blast
    with ab show ?thesis using contains_scalar [OF sc] scalar_eq_trans by blast
  qed
qed

section \<open>Properties\<close>

text \<open>C28. The binary format is self-delimiting: whatever follows it, an encoded value is decoded to the value
  and the decoder stops at its end; reading a member by key and an element by index gives its encoding.\<close>

theorem jsonb_roundtrip:
  assumes "json_ok v"
  shows "decode_at_start (encode_val v @ rest) = Inr (v, length (encode_val v)) \<and>
    jsonb_get_key (encode_val v) k =
      (case v of JObject ps \<Rightarrow> map_option encode_val (map_of ps k) | _ \<Rightarrow> None) \<and>
    jsonb_get_idx (encode_val v) i =
      (case v of JArray vs \<Rightarrow> if i < length vs then Some (encode_val (vs ! i)) else None | _ \<Rightarrow> None)"
proof -
  have d: "decode_at_start (encode_val v @ r) = Inr (v, length (encode_val v))" for r
    using decode_encode(1) [OF assms, of "length (encode_val v @ r) + 1" "encode_val v @ r" "[]" r]
    by (simp add: decode_at_start_def)
  have "map_option (\<lambda>(_, v). encode_val v) (find (\<lambda>(l, _). l = k) ps) = map_option encode_val (map_of ps k)" for ps
    by (induction ps) auto
  then show ?thesis using d [of rest] d [of "[]"]
    by (cases v) (simp_all add: jsonb_get_key_def jsonb_get_idx_def)
qed

text \<open>Decoding ends on every sequence of bytes, however the counts in it nest, and never reads past it.\<close>

lemma jsonb_decode_total:
  "case decode_at_start bytes of Inr (v, pos) \<Rightarrow> 0 < pos \<and> pos \<le> length bytes | Inl e \<Rightarrow> e = Malformed"
proof (cases "decode_at_start bytes")
  case (Inl e)
  have "decode_at_start bytes \<noteq> Inl NoFuel"
    unfolding decode_at_start_def by (rule fuelledD [OF decode_val_fuelled]) simp
  then show ?thesis using Inl by (cases e) simp_all
next
  case (Inr x)
  then obtain v pos where x: "decode_at_start bytes = Inr (v, pos)" by (cases x) auto
  then show ?thesis using movesD [OF decode_val_moves, of "length bytes + 1" bytes 0 v pos]
    by (simp add: decode_at_start_def)
qed

text \<open>Containment is a preorder: a value without NaN contains itself, and what a contained value contains is
  contained.\<close>

lemma contains_preorder:
  "(nan_free a \<longrightarrow> json_contains_val a a) \<and>
   (json_contains_val a b \<longrightarrow> json_contains_val b c \<longrightarrow> json_contains_val a c)"
  using contains_refl contains_trans by blast

section \<open>Witnesses\<close>

theorem jsonb_roundtrip_witness:
  "decode_at_start (encode_val (JObject [([97], JInt 5)]) @ [7]) = Inr (JObject [([97], JInt 5)], 20) \<and>
   jsonb_get_key (encode_val (JObject [([97], JInt 5)])) [97] = Some (encode_val (JInt 5))"
  using jsonb_roundtrip [of "JObject [([97], JInt 5)]" "[7]" "[97]" 0]
  by (simp add: str_ok_def utf8_valid_ascii encode_str_def)

end
