(* ===== verification/Json_Text.thy ===== *)
theory Json_Text
  imports Jsonb
begin

text \<open>
  The parser and the printer of JSON text of \<^verbatim>\<open>crates/storage/src/jsonb.rs\<close>. The parser recurses as deep as its
  input nests and loops over members and elements, so it takes fuel; \<open>NoFuel\<close> is shown never to be the
  result for the fuel \<open>parse_json\<close> gives it. The printing of a double that is not a small integer,
  \<^verbatim>\<open>f64::to_string\<close>, is a parameter.
\<close>

section \<open>The parser of JSON text\<close>

definition peek_at :: "byte list \<Rightarrow> nat \<Rightarrow> byte option" where
  "peek_at inp pos = (if pos < length inp then Some (inp ! pos) else None)"

definition skip_ws_at :: "byte list \<Rightarrow> nat \<Rightarrow> nat" where
  "skip_ws_at inp pos = pos_while is_ascii_whitespace inp pos"

fun expect_literal :: "str \<Rightarrow> byte list \<Rightarrow> nat \<Rightarrow> json_error + nat" where
  "expect_literal [] inp pos = Inr pos"
| "expect_literal (b # lit) inp pos =
     (if peek_at inp pos = Some b then expect_literal lit inp (pos + 1) else Inl Malformed)"

definition hex_digit :: "byte \<Rightarrow> nat option" where
  "hex_digit b =
     (if is_digit b then Some (unat b - 48)
      else if chr CHR ''a'' \<le> b \<and> b \<le> chr CHR ''f'' then Some (unat b - 87)
      else if chr CHR ''A'' \<le> b \<and> b \<le> chr CHR ''F'' then Some (unat b - 55)
      else None)"

definition from_str_radix16 :: "str \<Rightarrow> nat option" where
  \<comment> \<open>a plus sign may come first\<close>
  "from_str_radix16 s =
     (let ds = (if s \<noteq> [] \<and> hd s = chr CHR ''+'' then tl s else s)
      in if ds \<noteq> [] \<and> list_all (\<lambda>b. hex_digit b \<noteq> None) ds
         then Some (foldl (\<lambda>n b. 16 * n + the (hex_digit b)) 0 ds) else None)"

definition push_code :: "nat \<Rightarrow> str option" where
  \<comment> \<open>\<^verbatim>\<open>char::from_u32\<close> of at most four hexadecimal digits, encoded\<close>
  "push_code c =
     (if 0xD800 \<le> c \<and> c < 0xE000 then None
      else if c < 0x80 then Some [of_nat c]
      else if c < 0x800 then Some [of_nat (0xC0 + c div 64), of_nat (0x80 + c mod 64)]
      else Some [of_nat (0xE0 + c div 4096), of_nat (0x80 + c div 64 mod 64), of_nat (0x80 + c mod 64)])"

definition escape_char :: "byte \<Rightarrow> byte option" where
  "escape_char c =
     (if c = chr CHR 0x22 \<or> c = chr CHR 0x5C \<or> c = chr CHR ''/'' then Some c
      else if c = chr CHR ''n'' then Some 10
      else if c = chr CHR ''r'' then Some 13
      else if c = chr CHR ''t'' then Some 9
      else if c = chr CHR ''b'' then Some 8
      else if c = chr CHR ''f'' then Some 12
      else None)"

function string_body :: "byte list \<Rightarrow> nat \<Rightarrow> str \<Rightarrow> json_error + str \<times> nat" where
  "string_body inp pos s =
     (if length inp \<le> pos then Inl Malformed
      else if inp ! pos = chr CHR 0x22 then Inr (s, pos + 1)
      else if inp ! pos = chr CHR 0x5C then
        (case peek_at inp (pos + 1) of
           None \<Rightarrow> Inl Malformed
         | Some c \<Rightarrow>
             if c = chr CHR ''u'' then
               if length inp < pos + 6 then Inl Malformed
               else (case Option.bind (from_str_radix16 (slice inp (pos + 2) 4)) push_code of
                       None \<Rightarrow> Inl Malformed
                     | Some bs \<Rightarrow> string_body inp (pos + 6) (s @ bs))
             else (case escape_char c of
                     None \<Rightarrow> Inl Malformed
                   | Some b \<Rightarrow> string_body inp (pos + 2) (s @ [b])))
      else string_body inp (pos + 1) (s @ latin1_utf8 (inp ! pos)))"
  by pat_completeness auto
termination
  by (relation "measure (\<lambda>(inp, pos, s). length inp - pos)") auto

declare string_body.simps [simp del]

definition parse_string :: "byte list \<Rightarrow> nat \<Rightarrow> json_error + str \<times> nat" where
  "parse_string inp pos = string_body inp (pos + 1) []"

definition parse_number :: "byte list \<Rightarrow> nat \<Rightarrow> json_error + JsonVal \<times> nat" where
  "parse_number inp start =
     (let digits = (if peek_at inp start = Some (chr CHR ''-'') then start + 1 else start)
      in case number_end inp digits of (pos, is_float) \<Rightarrow>
           let s = slice inp start (pos - start)
           in if is_float
              then (case parse_f64 s of Some f \<Rightarrow> Inr (JFloat f, pos) | None \<Rightarrow> Inl Malformed)
              else (case parse_i64 s of Some n \<Rightarrow> Inr (JInt n, pos) | None \<Rightarrow> Inl Malformed))"

fun parse_value :: "nat \<Rightarrow> byte list \<Rightarrow> nat \<Rightarrow> json_error + JsonVal \<times> nat"
  and parse_pairs :: "nat \<Rightarrow> byte list \<Rightarrow> nat \<Rightarrow> json_error + (str \<times> JsonVal) list \<times> nat"
  and parse_items :: "nat \<Rightarrow> byte list \<Rightarrow> nat \<Rightarrow> json_error + JsonVal list \<times> nat" where
  "parse_value 0 inp pos0 = Inl NoFuel"
| "parse_value (Suc n) inp pos0 =
     (let pos = skip_ws_at inp pos0; pos1 = skip_ws_at inp (pos + 1)
      in case peek_at inp pos of
           None \<Rightarrow> Inl Malformed
         | Some c \<Rightarrow>
             if c = chr CHR 0x22 then rbind (parse_string inp pos) (\<lambda>(s, p). Inr (JStr s, p))
             else if c = chr CHR ''{'' then
               if peek_at inp pos1 = Some (chr CHR ''}'') then Inr (JObject [], pos1 + 1)
               else rbind (parse_pairs n inp pos1) (\<lambda>(ps, p). Inr (JObject ps, p))
             else if c = chr CHR ''['' then
               if peek_at inp pos1 = Some (chr CHR '']'') then Inr (JArray [], pos1 + 1)
               else rbind (parse_items n inp pos1) (\<lambda>(vs, p). Inr (JArray vs, p))
             else if c = chr CHR ''t'' then rbind (expect_literal (bytes_of ''true'') inp pos) (\<lambda>p. Inr (JBool True, p))
             else if c = chr CHR ''f'' then rbind (expect_literal (bytes_of ''false'') inp pos) (\<lambda>p. Inr (JBool False, p))
             else if c = chr CHR ''n'' then rbind (expect_literal (bytes_of ''null'') inp pos) (\<lambda>p. Inr (JNull, p))
             else if c = chr CHR ''-'' \<or> is_digit c then parse_number inp pos
             else Inl Malformed)"
| "parse_pairs 0 inp pos0 = Inl NoFuel"
| "parse_pairs (Suc n) inp pos0 =
     rbind (parse_string inp (skip_ws_at inp pos0)) (\<lambda>(key, p1).
       let p2 = skip_ws_at inp p1
       in if peek_at inp p2 \<noteq> Some (chr CHR '':'') then Inl Malformed
          else rbind (parse_value n inp (skip_ws_at inp (p2 + 1))) (\<lambda>(v, p3).
            let p4 = skip_ws_at inp p3
            in if peek_at inp p4 = Some (chr CHR '','')
               then rbind (parse_pairs n inp (p4 + 1)) (\<lambda>(ps, p). Inr ((key, v) # ps, p))
               else if peek_at inp p4 = Some (chr CHR ''}'') then Inr ([(key, v)], p4 + 1)
               else Inl Malformed))"
| "parse_items 0 inp pos0 = Inl NoFuel"
| "parse_items (Suc n) inp pos0 =
     rbind (parse_value n inp (skip_ws_at inp pos0)) (\<lambda>(v, p1).
       let p2 = skip_ws_at inp p1
       in if peek_at inp p2 = Some (chr CHR '','')
          then rbind (parse_items n inp (p2 + 1)) (\<lambda>(vs, p). Inr (v # vs, p))
          else if peek_at inp p2 = Some (chr CHR '']'') then Inr ([v], p2 + 1)
          else Inl Malformed)"

definition parse_json :: "str \<Rightarrow> json_error + JsonVal" where
  "parse_json s =
     rbind (parse_value (2 * length s + 3) s 0) (\<lambda>(v, pos).
       if skip_ws_at s pos \<noteq> length s then Inl Malformed else Inr v)"

section \<open>Text\<close>

definition WHITE_SPACE :: "str list" where
  \<comment> \<open>the characters \<^verbatim>\<open>str::trim\<close> removes\<close>
  "WHITE_SPACE = map (\<lambda>b. [b]) [9, 10, 11, 12, 13, 32] @ [[0xC2, 0x85], [0xC2, 0xA0], [0xE1, 0x9A, 0x80]] @
     map (\<lambda>b. [0xE2, 0x80, b]) [0x80, 0x81, 0x82, 0x83, 0x84, 0x85, 0x86, 0x87, 0x88, 0x89, 0x8A, 0xA8, 0xA9, 0xAF] @
     [[0xE2, 0x81, 0x9F], [0xE3, 0x80, 0x80]]"

function trim_by :: "str list \<Rightarrow> str \<Rightarrow> str" where
  "trim_by ws s =
     (case find (\<lambda>w. w \<noteq> [] \<and> take (length w) s = w) ws of
        Some w \<Rightarrow> if s = [] then s else trim_by ws (drop (length w) s)
      | None \<Rightarrow> s)"
  by pat_completeness auto
termination
  by (relation "measure (\<lambda>(ws, s). length s)") (auto simp: find_Some_iff)

declare trim_by.simps [simp del]

definition str_trim :: "str \<Rightarrow> str" where
  "str_trim s = rev (trim_by (map rev WHITE_SPACE) (rev (trim_by WHITE_SPACE s)))"

definition encode_jsonb :: "str \<Rightarrow> json_error + byte list" where
  "encode_jsonb json_str = rbind (parse_json (str_trim json_str)) (\<lambda>v. Inr (encode_val v))"

definition escape_json_byte :: "byte \<Rightarrow> str" where
  "escape_json_byte c =
     (if c = chr CHR 0x22 then [chr CHR 0x5C, chr CHR 0x22]
      else if c = chr CHR 0x5C then [chr CHR 0x5C, chr CHR 0x5C]
      else if c = 10 then [chr CHR 0x5C, chr CHR ''n'']
      else if c = 13 then [chr CHR 0x5C, chr CHR ''r'']
      else if c = 9 then [chr CHR 0x5C, chr CHR ''t'']
      else [c])"

definition escape_json_str :: "str \<Rightarrow> str" where
  \<comment> \<open>byte by byte: the bytes of other characters are above 127\<close>
  "escape_json_str s = concat (map escape_json_byte s)"

definition quoted :: "str \<Rightarrow> str" where
  "quoted s = chr CHR 0x22 # escape_json_str s @ [chr CHR 0x22]"

definition f64_small_int :: "f64 \<Rightarrow> nat option" where
  \<comment> \<open>the magnitude of an integer below \<open>1e15\<close>\<close>
  "f64_small_int f =
     (let a = unat f mod 2 ^ 63; e = a div 2 ^ 52;
          m = (if e = 0 then a mod 2 ^ 52 else 2 ^ 52 + a mod 2 ^ 52);
          s = max e 1;
          n = (if 1075 \<le> s then m * 2 ^ (s - 1075) else m div 2 ^ (1075 - s))
      in if e = 2047 \<or> s < 1075 \<and> m mod 2 ^ (1075 - s) \<noteq> 0 \<or> 10 ^ 15 \<le> n then None else Some n)"

definition format_f64 :: "(f64 \<Rightarrow> str) \<Rightarrow> f64 \<Rightarrow> str" where
  "format_f64 to_string f =
     (case f64_small_int f of
        Some n \<Rightarrow> (if 2 ^ 63 \<le> unat f then [chr CHR ''-''] else []) @ show_nat n @ bytes_of ''.0''
      | None \<Rightarrow> to_string f)"

fun join_comma :: "str list \<Rightarrow> str" where
  "join_comma [] = []"
| "join_comma [x] = x"
| "join_comma (x # y # ys) = x @ chr CHR '','' # join_comma (y # ys)"

fun format_json :: "(f64 \<Rightarrow> str) \<Rightarrow> JsonVal \<Rightarrow> str"
  and format_vals :: "(f64 \<Rightarrow> str) \<Rightarrow> JsonVal list \<Rightarrow> str list"
  and format_pairs :: "(f64 \<Rightarrow> str) \<Rightarrow> (str \<times> JsonVal) list \<Rightarrow> str list" where
  "format_json ts JNull = bytes_of ''null''"
| "format_json ts (JBool b) = (if b then bytes_of ''true'' else bytes_of ''false'')"
| "format_json ts (JInt n) = show_i64 n"
| "format_json ts (JFloat f) = format_f64 ts f"
| "format_json ts (JStr s) = quoted s"
| "format_json ts (JArray items) = chr CHR ''['' # join_comma (format_vals ts items) @ [chr CHR '']'']"
| "format_json ts (JObject pairs) = chr CHR ''{'' # join_comma (format_pairs ts pairs) @ [chr CHR ''}'']"
| "format_vals ts [] = []"
| "format_vals ts (v # vs) = format_json ts v # format_vals ts vs"
| "format_pairs ts [] = []"
| "format_pairs ts ((k, v) # ps) = (quoted k @ chr CHR '':'' # format_json ts v) # format_pairs ts ps"

definition decode_jsonb :: "(f64 \<Rightarrow> str) \<Rightarrow> byte list \<Rightarrow> json_error + str" where
  "decode_jsonb ts bytes = rbind (decode_at_start bytes) (\<lambda>(v, _). Inr (format_json ts v))"

definition jsonb_to_text :: "(f64 \<Rightarrow> str) \<Rightarrow> byte list \<Rightarrow> str" where
  "jsonb_to_text ts bytes =
     (case decode_at_start bytes of
        Inr (JStr s, _) \<Rightarrow> s
      | Inr (v, _) \<Rightarrow> format_json ts v
      | Inl _ \<Rightarrow> [])"

section \<open>Parsing what was printed\<close>

fun text_ok :: "JsonVal \<Rightarrow> bool"
  and texts_ok :: "JsonVal list \<Rightarrow> bool"
  and text_pairs_ok :: "(str \<times> JsonVal) list \<Rightarrow> bool" where
  "text_ok (JFloat f) = False"
| "text_ok (JStr s) = list_all (\<lambda>b. b < 0x80) s"
| "text_ok (JArray items) = texts_ok items"
| "text_ok (JObject pairs) = text_pairs_ok pairs"
| "text_ok _ = True"
| "texts_ok [] = True"
| "texts_ok (v # vs) = (text_ok v \<and> texts_ok vs)"
| "text_pairs_ok [] = True"
| "text_pairs_ok ((k, v) # ps) = (list_all (\<lambda>b. b < 0x80) k \<and> text_ok v \<and> text_pairs_ok ps)"

lemma string_body_escape:
  assumes "list_all (\<lambda>b. b < 0x80) s" "inp = pre @ escape_json_str s @ chr CHR 0x22 # rest"
  shows "string_body inp (length pre) acc = Inr (acc @ s, length pre + length (escape_json_str s) + 1)"
  using assms
proof (induction s arbitrary: pre acc)
  case Nil
  then show ?case by (subst string_body.simps) (simp add: escape_json_str_def)
next
  case (Cons b s)
  let ?e = "escape_json_byte b"
  have IH: "string_body inp (length (pre @ ?e)) (acc @ [b]) =
      Inr ((acc @ [b]) @ s, length (pre @ ?e) + length (escape_json_str s) + 1)"
    by (rule Cons.IH) (use Cons.prems in \<open>simp_all add: escape_json_str_def\<close>)
  have inp: "inp = pre @ ?e @ escape_json_str s @ chr CHR 0x22 # rest"
    using Cons.prems(2) by (simp add: escape_json_str_def)
  have "string_body inp (length pre) acc = string_body inp (length (pre @ ?e)) (acc @ [b])"
  proof (cases "b \<in> {chr CHR 0x22, chr CHR 0x5C, 10, 13, 9}")
    case True
    then show ?thesis
      by (subst string_body.simps)
        (auto simp: inp escape_json_byte_def peek_at_def nth_append escape_char_def)
  next
    case False
    then have "?e = [b]" "latin1_utf8 b = [b]" using Cons.prems(1) by (auto simp: escape_json_byte_def latin1_utf8_def)
    then show ?thesis using False by (subst string_body.simps) (simp add: inp)
  qed
  then show ?case using IH by (simp add: escape_json_str_def)
qed

lemma parse_quoted:
  assumes "list_all (\<lambda>b. b < 0x80) s" "inp = pre @ quoted s @ rest"
  shows "parse_string inp (length pre) = Inr (s, length pre + length (quoted s))"
  using string_body_escape [OF assms(1), of inp "pre @ [chr CHR 0x22]" rest "[]"] assms(2)
  by (simp add: parse_string_def quoted_def)

lemma skip_none:
  assumes "inp = pre @ xs @ rest" "pos = length pre" "xs \<noteq> []" "\<not> is_ascii_whitespace (hd xs)"
  shows "skip_ws_at inp pos = pos" "peek_at inp pos = Some (hd xs)"
  using assms by (cases xs; simp add: skip_ws_at_def pos_while.simps peek_at_def)+

lemma expect_literal_ok: "inp = pre @ lit @ rest \<Longrightarrow> expect_literal lit inp (length pre) = Inr (length pre + length lit)"
proof (induction lit arbitrary: pre)
  case (Cons b lit)
  have "expect_literal lit inp (length (pre @ [b])) = Inr (length (pre @ [b]) + length lit)"
    by (rule Cons.IH) (use Cons.prems in simp)
  then show ?case using Cons.prems by (simp add: peek_at_def)
qed simp

definition stops :: "byte list \<Rightarrow> bool" where
  "stops rest \<longleftrightarrow> rest = [] \<or> hd rest \<in> {chr CHR '','', chr CHR '']'', chr CHR ''}''}"

lemma parse_number_int:
  assumes "inp = pre @ show_i64 k @ rest" "stops rest"
  shows "parse_number inp (length pre) = Inr (JInt k, length pre + length (show_i64 k))"
proof -
  have rest: "rest = [] \<or> \<not> is_digit (hd rest) \<and> hd rest \<notin> {chr CHR ''.'', chr CHR ''e'', chr CHR ''E''}"
    using assms(2) by (auto simp: stops_def is_digit_def)
  have s: "slice inp (length pre) (length pre + length (show_i64 k) - length pre) = show_i64 k"
    by (rule slice_at [OF assms(1)]) simp_all
  define sign where "sign = (if sint k < 0 then [chr CHR ''-''] else [])"
  define ds where "ds = show_nat (nat \<bar>sint k\<bar>)"
  have d: "show_i64 k = sign @ ds" "list_all is_digit ds" "ds \<noteq> []" "sign = [] \<or> sign = [chr CHR ''-'']"
    using show_nat_ok [of "nat \<bar>sint k\<bar>"] by (simp_all add: show_i64_def sign_def ds_def)
  have h: "hd ds \<noteq> chr CHR ''-''" using d(2,3) by (cases ds) (auto simp: is_digit_def)
  have "(if peek_at inp (length pre) = Some (chr CHR ''-'') then length pre + 1 else length pre) = length (pre @ sign)"
    using d(3,4) h assms(1) by (cases ds) (auto simp: peek_at_def d(1))
  moreover have "number_end inp (length (pre @ sign)) = (length (pre @ sign) + length ds, False)"
    by (rule number_end_digits [OF _ d(2) rest]) (simp add: assms(1) d(1))
  moreover have "length (pre @ sign) + length ds = length pre + length (show_i64 k)" by (simp add: d(1))
  ultimately show ?thesis
    unfolding parse_number_def Let_def using s parse_show_i64 [of k] by simp
qed

lemma show_i64_head: "show_i64 n \<noteq> []" "hd (show_i64 n) = chr CHR ''-'' \<or> is_digit (hd (show_i64 n))"
proof -
  have d: "show_nat m \<noteq> [] \<and> is_digit (hd (show_nat m))" for m
    using show_nat_ok [of m] by (cases "show_nat m") simp_all
  show "show_i64 n \<noteq> []" "hd (show_i64 n) = chr CHR ''-'' \<or> is_digit (hd (show_i64 n))"
    unfolding show_i64_def using d by (simp_all split: if_split)
qed

definition value_start :: "byte \<Rightarrow> bool" where
  "value_start c \<longleftrightarrow> \<not> is_ascii_whitespace c \<and> c \<noteq> chr CHR '']'' \<and> c \<noteq> chr CHR ''}''"

lemma digit_start: "c = chr CHR ''-'' \<or> is_digit c \<Longrightarrow> value_start c"
  by (auto simp: value_start_def is_digit_def is_ascii_whitespace_def)

lemma format_head:
  assumes "text_ok v"
  shows "format_json ts v \<noteq> [] \<and> value_start (hd (format_json ts v))"
proof (cases v)
  case (JInt n)
  then show ?thesis using show_i64_head [of n] digit_start by simp
qed (use assms in \<open>simp_all add: bytes_of_def quoted_def value_start_def is_ascii_whitespace_def\<close>)

lemma join_head: "x \<noteq> [] \<Longrightarrow> join_comma (x # xs) \<noteq> [] \<and> hd (join_comma (x # xs)) = hd x"
  by (cases xs) auto

lemma parse_format:
  shows "text_ok v \<Longrightarrow> 2 * length (format_json ts v) + 1 \<le> n \<Longrightarrow> inp = pre @ format_json ts v @ rest \<Longrightarrow> stops rest \<Longrightarrow>
      parse_value n inp (length pre) = Inr (v, length pre + length (format_json ts v))"
    and "texts_ok vs \<Longrightarrow> vs \<noteq> [] \<Longrightarrow> 2 * length (join_comma (format_vals ts vs)) + 2 \<le> n \<Longrightarrow>
      inp = pre @ join_comma (format_vals ts vs) @ chr CHR '']'' # rest \<Longrightarrow>
      parse_items n inp (length pre) = Inr (vs, length pre + length (join_comma (format_vals ts vs)) + 1)"
    and "text_pairs_ok ps \<Longrightarrow> ps \<noteq> [] \<Longrightarrow> 2 * length (join_comma (format_pairs ts ps)) + 2 \<le> n \<Longrightarrow>
      inp = pre @ join_comma (format_pairs ts ps) @ chr CHR ''}'' # rest \<Longrightarrow>
      parse_pairs n inp (length pre) = Inr (ps, length pre + length (join_comma (format_pairs ts ps)) + 1)"
proof (induction ts v and ts vs and ts ps arbitrary: n pre rest and n pre rest and n pre rest
    rule: format_json_format_vals_format_pairs.induct)
  case (1 ts)
  then obtain m where n: "n = Suc m" by (cases n) auto
  note K = skip_none [OF "1.prems"(3) refl]
  show ?case using K expect_literal_ok [OF "1.prems"(3)]
    by (simp add: n Let_def bytes_of_def is_ascii_whitespace_def)
next
  case (2 ts b)
  then obtain m where n: "n = Suc m" by (cases n) auto
  note K = skip_none [OF "2.prems"(3) refl]
  show ?case using K expect_literal_ok [OF "2.prems"(3)]
    by (cases b) (simp_all add: n Let_def bytes_of_def is_ascii_whitespace_def)
next
  case (3 ts k)
  then obtain m where n: "n = Suc m" by (cases n) auto
  have h: "hd (show_i64 k) = chr CHR ''-'' \<or> is_digit (hd (show_i64 k))" by (rule show_i64_head)
  have K: "skip_ws_at inp (length pre) = length pre" "peek_at inp (length pre) = Some (hd (show_i64 k))"
    using skip_none [OF "3.prems"(3) refl] show_i64_head(1) digit_start [OF h] by (simp_all add: value_start_def)
  have "hd (show_i64 k) \<notin> {chr CHR 0x22, chr CHR ''{'', chr CHR ''['', chr CHR ''t'', chr CHR ''f'', chr CHR ''n''}"
    using h by (auto simp: is_digit_def)
  then show ?case using K h parse_number_int [of inp pre k rest] "3.prems" by (simp add: n Let_def)
next
  case (5 ts s)
  then obtain m where n: "n = Suc m" by (cases n) auto
  note K = skip_none [OF "5.prems"(3) refl]
  show ?case using K parse_quoted [of s inp pre rest] "5.prems"
    by (simp add: n Let_def is_ascii_whitespace_def quoted_def)
next
  case (6 ts items)
  then obtain m where n: "n = Suc m" by (cases n) auto
  let ?j = "join_comma (format_vals ts items)" and ?pre = "pre @ [chr CHR ''['']"
  have K: "skip_ws_at inp (length pre) = length pre" "peek_at inp (length pre) = Some (chr CHR ''['')"
    using skip_none [OF "6.prems"(3) refl] by (simp_all add: is_ascii_whitespace_def)
  have inp: "inp = ?pre @ (?j @ [chr CHR '']'']) @ rest" using "6.prems"(3) by simp
  note S = skip_none [OF inp refl]
  show ?case
  proof (cases items)
    case Nil
    then show ?thesis using K S by (simp add: n Let_def is_ascii_whitespace_def)
  next
    case (Cons w ws)
    have "?j \<noteq> [] \<and> value_start (hd ?j)"
      using Cons "6.prems"(1) format_head [of w ts] join_head [of "format_json ts w" "format_vals ts ws"] by simp
    then have S: "skip_ws_at inp (length pre + 1) = length pre + 1" "peek_at inp (length pre + 1) \<noteq> Some (chr CHR '']'')"
      using S by (simp_all add: value_start_def)
    have "parse_items m inp (length ?pre) = Inr (items, length ?pre + length ?j + 1)"
      by (rule "6.IH" [where rest = rest]) (use "6.prems" Cons n in simp_all)
    then show ?thesis using K S by (simp add: n Let_def)
  qed
next
  case (7 ts pairs)
  then obtain m where n: "n = Suc m" by (cases n) auto
  let ?j = "join_comma (format_pairs ts pairs)" and ?pre = "pre @ [chr CHR ''{'']"
  have K: "skip_ws_at inp (length pre) = length pre" "peek_at inp (length pre) = Some (chr CHR ''{'')"
    using skip_none [OF "7.prems"(3) refl] by (simp_all add: is_ascii_whitespace_def)
  have inp: "inp = ?pre @ (?j @ [chr CHR ''}'']) @ rest" using "7.prems"(3) by simp
  note S = skip_none [OF inp refl]
  show ?case
  proof (cases pairs)
    case Nil
    then show ?thesis using K S by (simp add: n Let_def is_ascii_whitespace_def)
  next
    case (Cons q qs)
    have "?j \<noteq> [] \<and> hd ?j = chr CHR 0x22"
      using Cons join_head [of "quoted (fst q) @ chr CHR '':'' # format_json ts (snd q)" "format_pairs ts qs"]
      by (cases q) (simp add: quoted_def)
    then have S: "skip_ws_at inp (length pre + 1) = length pre + 1" "peek_at inp (length pre + 1) \<noteq> Some (chr CHR ''}'')"
      using S by (simp_all add: is_ascii_whitespace_def)
    have "parse_pairs m inp (length ?pre) = Inr (pairs, length ?pre + length ?j + 1)"
      by (rule "7.IH" [where rest = rest]) (use "7.prems" Cons n in simp_all)
    then show ?thesis using K S by (simp add: n Let_def)
  qed
next
  case (9 ts v vs)
  then obtain m where n: "n = Suc m" by (cases n) auto
  let ?f = "format_json ts v" and ?j = "join_comma (format_vals ts vs)"
  define tail where "tail = (if vs = [] then [] else chr CHR '','' # ?j) @ chr CHR '']'' # rest"
  have j: "join_comma (?f # format_vals ts vs) = ?f @ (if vs = [] then [] else chr CHR '','' # ?j)"
    by (cases vs) simp_all
  have inp: "inp = pre @ ?f @ tail" using "9.prems"(4) by (simp add: j tail_def)
  have h: "?f \<noteq> [] \<and> value_start (hd ?f)" using format_head "9.prems"(1) by simp
  have S: "skip_ws_at inp (length pre) = length pre" using skip_none(1) [OF inp refl] h by (simp add: value_start_def)
  have st: "stops tail" by (simp add: tail_def stops_def)
  have fuel: "2 * length ?f + 1 \<le> m" using "9.prems"(3) by (simp add: j n)
  have v: "parse_value m inp (length pre) = Inr (v, length pre + length ?f)"
    by (rule "9.IH"(1) [OF _ fuel inp st]) (use "9.prems"(1) in simp)
  have T: "skip_ws_at inp (length pre + length ?f) = length pre + length ?f"
    "peek_at inp (length pre + length ?f) = Some (hd tail)"
    using skip_none [where pre = "pre @ ?f" and xs = tail and rest = "[]" and inp = inp] inp
    by (simp_all add: tail_def is_ascii_whitespace_def)
  show ?case
  proof (cases "vs = []")
    case True
    then show ?thesis using v S T by (simp add: n tail_def Let_def)
  next
    case False
    let ?pre = "pre @ ?f @ [chr CHR '','']"
    have "parse_items m inp (length ?pre) = Inr (vs, length ?pre + length ?j + 1)"
      by (rule "9.IH"(2) [where rest = rest]) (use "9.prems" False n inp in \<open>simp_all add: j tail_def\<close>)
    then show ?thesis using v S T False by (simp add: n tail_def j Let_def)
  qed
next
  case (11 ts k v ps)
  then obtain m where n: "n = Suc m" by (cases n) auto
  let ?q = "quoted k" and ?f = "format_json ts v" and ?j = "join_comma (format_pairs ts ps)"
  define tail where "tail = (if ps = [] then [] else chr CHR '','' # ?j) @ chr CHR ''}'' # rest"
  have j: "join_comma ((?q @ 58 # ?f) # format_pairs ts ps) = ?q @ 58 # ?f @ (if ps = [] then [] else chr CHR '','' # ?j)"
    by (cases ps rule: list.exhaust [case_names Nil Cons]) auto
  have inp: "inp = (pre @ ?q @ [chr CHR '':'']) @ ?f @ tail" using "11.prems"(4) by (simp add: j tail_def)
  have inp2: "inp = pre @ ?q @ (chr CHR '':'' # ?f @ tail)" using inp by simp
  have h: "?f \<noteq> [] \<and> value_start (hd ?f)" using format_head "11.prems"(1) by simp
  have S: "skip_ws_at inp (length pre) = length pre"
    using skip_none(1) [OF inp2 refl] by (simp add: quoted_def is_ascii_whitespace_def)
  have k: "parse_string inp (length pre) = Inr (k, length pre + length ?q)"
    by (rule parse_quoted [OF _ inp2]) (use "11.prems"(1) in simp)
  have C: "skip_ws_at inp (length pre + length ?q) = length pre + length ?q"
    "peek_at inp (length pre + length ?q) = Some (chr CHR '':'')"
    using skip_none [where pre = "pre @ ?q" and xs = "chr CHR '':'' # ?f @ tail" and rest = "[]" and inp = inp] inp
    by (simp_all add: is_ascii_whitespace_def)
  define p where "p = length (pre @ ?q @ [chr CHR '':''])"
  have W: "skip_ws_at inp p = p"
    unfolding p_def using skip_none(1) [OF inp refl] h by (simp add: value_start_def)
  have st: "stops tail" by (simp add: tail_def stops_def)
  have fuel: "2 * length ?f + 1 \<le> m" using "11.prems"(3) by (simp add: j n)
  have v: "parse_value m inp p = Inr (v, p + length ?f)"
    unfolding p_def by (rule "11.IH"(1) [OF _ fuel inp st]) (use "11.prems"(1) in simp)
  have tl: "tail \<noteq> []" "\<not> is_ascii_whitespace (hd tail)"
    by (cases "ps = []"; simp add: tail_def is_ascii_whitespace_def)+
  have T: "skip_ws_at inp (p + length ?f) = p + length ?f" "peek_at inp (p + length ?f) = Some (hd tail)"
    using skip_none [where pre = "pre @ ?q @ [chr CHR '':''] @ ?f" and xs = tail and rest = "[]" and inp = inp] inp tl
    by (simp_all add: p_def add.assoc)
  have p: "p = length pre + length ?q + 1" by (simp add: p_def)
  show ?case
  proof (cases "ps = []")
    case True
    then show ?thesis using k v S C W T p by (simp add: n tail_def Let_def)
  next
    case False
    let ?pre = "pre @ ?q @ [chr CHR '':''] @ ?f @ [chr CHR '','']"
    have a: "parse_pairs m inp (length ?pre) = Inr (ps, length ?pre + length ?j + 1)"
      by (rule "11.IH"(2) [where rest = rest]) (use "11.prems" False n inp in \<open>simp_all add: j tail_def\<close>)
    have b: "length ?pre = p + length ?f + 1" by (simp add: p_def)
    show ?thesis using a [unfolded b] k v S C W T p False by (simp add: n tail_def j Let_def)
  qed
qed simp_all

section \<open>The parser has fuel enough\<close>

lemma string_body_moves: "string_body inp pos s = Inr (r, p) \<Longrightarrow> pos < p"
proof (induction inp pos s rule: string_body.induct)
  case (1 inp pos s)
  note eq = "1.prems" [unfolded string_body.simps [of inp pos s]]
  consider (stop) "inp ! pos = chr CHR 0x22" | (esc) "inp ! pos \<noteq> chr CHR 0x22" "inp ! pos = chr CHR 0x5C"
    | (plain) "inp ! pos \<noteq> chr CHR 0x22" "inp ! pos \<noteq> chr CHR 0x5C" by blast
  then show ?case
  proof cases
    case stop
    then show ?thesis using eq by (simp split: if_splits)
  next
    case esc
    then obtain c where c: "\<not> length inp \<le> pos" "peek_at inp (pos + 1) = Some c"
      using eq by (auto split: if_splits option.splits)
    show ?thesis
    proof (cases "c = chr CHR ''u''")
      case True
      then obtain bs where "Option.bind (from_str_radix16 (slice inp (pos + 2) 4)) push_code = Some bs"
        "string_body inp (pos + 6) (s @ bs) = Inr (r, p)" "\<not> length inp < pos + 6"
        using eq esc c by (simp split: if_splits option.splits)
      then show ?thesis using "1.IH"(1) [OF c(1) esc c(2) True] by fastforce
    next
      case False
      then obtain b where "escape_char c = Some b" "string_body inp (pos + 2) (s @ [b]) = Inr (r, p)"
        using eq esc c by (simp split: if_splits option.splits)
      then show ?thesis using "1.IH"(2) [OF c(1) esc c(2) False] by fastforce
    qed
  next
    case plain
    then have "\<not> length inp \<le> pos" "string_body inp (pos + 1) (s @ latin1_utf8 (inp ! pos)) = Inr (r, p)"
      using eq by (simp_all split: if_splits)
    then show ?thesis using "1.IH"(3) [OF _ plain] by fastforce
  qed
qed

lemma expect_literal_moves: "expect_literal lit inp pos = Inr p \<Longrightarrow> p = pos + length lit"
  by (induction lit inp pos rule: expect_literal.induct) (auto split: if_splits)

lemma parse_number_moves:
  assumes "parse_number inp pos = Inr (v, p)" "pos < length inp" "inp ! pos = chr CHR ''-'' \<or> is_digit (inp ! pos)"
  shows "pos < p"
proof -
  let ?d = "if peek_at inp pos = Some (chr CHR ''-'') then pos + 1 else pos"
  have "pos < pos_while is_digit inp ?d"
    using assms(2,3) pos_while_ge [of "pos + 1" is_digit inp] pos_while_step [of pos inp is_digit]
    by (auto simp: peek_at_def)
  then have "pos < fst (number_end inp ?d)" using number_end_ge [of inp ?d] by linarith
  then show ?thesis using assms(1) unfolding parse_number_def Let_def
    by (simp add: case_prod_unfold split: if_splits option.splits)
qed

lemma skip_ws_ge: "pos \<le> skip_ws_at inp pos"
  unfolding skip_ws_at_def by (rule pos_while_ge)

lemma parse_string_moves: "parse_string inp pos = Inr (s, p) \<Longrightarrow> pos < p"
  unfolding parse_string_def using string_body_moves [of inp "pos + 1" "[]" s p] by simp

definition all_move :: "nat \<Rightarrow> byte list \<Rightarrow> bool" where
  "all_move n inp \<longleftrightarrow> (\<forall>pos v p. parse_value n inp pos = Inr (v, p) \<longrightarrow> pos < p) \<and>
     (\<forall>pos ps p. parse_pairs n inp pos = Inr (ps, p) \<longrightarrow> pos < p) \<and>
     (\<forall>pos vs p. parse_items n inp pos = Inr (vs, p) \<longrightarrow> pos < p)"

lemma all_moveD:
  assumes "all_move n inp"
  shows "parse_value n inp pos = Inr (v, p) \<Longrightarrow> pos < p" "parse_pairs n inp pos = Inr (ps, p) \<Longrightarrow> pos < p"
    "parse_items n inp pos = Inr (vs, p) \<Longrightarrow> pos < p"
  using assms by (simp_all add: all_move_def)

lemma value_moves:
  assumes IH: "all_move n inp" and eq: "parse_value (Suc n) inp pos0 = Inr (v, p)"
  shows "pos0 < p"
proof -
  define pos where "pos = skip_ws_at inp pos0"
  define pos1 where "pos1 = skip_ws_at inp (pos + 1)"
  have ge: "pos0 \<le> pos" "pos < pos1" using skip_ws_ge [of pos0 inp] skip_ws_ge [of "pos + 1" inp]
    by (simp_all add: pos_def pos1_def)
  note eq = eq [unfolded parse_value.simps Let_def, folded pos_def, folded pos1_def]
  obtain c where c: "peek_at inp pos = Some c" using eq by (auto split: option.splits)
  then have lt: "pos < length inp" "inp ! pos = c" by (simp_all add: peek_at_def split: if_splits)
  note eq = eq [unfolded c option.case]
  have num: "pos < p" if "parse_number inp pos = Inr (v, p)" "c = chr CHR ''-'' \<or> is_digit c"
    using parse_number_moves [OF that(1) lt(1)] that(2) lt(2) by blast
  have lit: "pos < p" if "rbind (expect_literal (b # bs) inp pos) (\<lambda>p. Inr (w, p)) = Inr (v, p)" for b bs and w :: JsonVal
    using that expect_literal_moves [of "b # bs" inp pos] by (auto simp: rbind_Inr_iff)
  have str: "pos < p" if "rbind (parse_string inp pos) (\<lambda>(s, p). Inr (JStr s, p)) = Inr (v, p)"
    using that parse_string_moves [of inp pos] by (auto simp: rbind_Inr_iff)
  have obj: "pos1 < p" if "rbind (parse_pairs n inp pos1) (\<lambda>(ps, p). Inr (JObject ps, p)) = Inr (v, p)"
    using that all_moveD(2) [OF IH] by (auto simp: rbind_Inr_iff)
  have arr: "pos1 < p" if "rbind (parse_items n inp pos1) (\<lambda>(vs, p). Inr (JArray vs, p)) = Inr (v, p)"
    using that all_moveD(3) [OF IH] by (auto simp: rbind_Inr_iff)
  have "pos < p" using eq ge(2) num str obj arr lit unfolding bytes_of_def list.map
    by (simp only: split: if_splits) fastforce+
  with ge(1) show ?thesis by simp
qed

lemma pairs_moves:
  assumes IH: "all_move n inp" and eq: "parse_pairs (Suc n) inp pos0 = Inr (ps, p)"
  shows "pos0 < p"
proof -
  obtain key p1 v p3 where k: "parse_string inp (skip_ws_at inp pos0) = Inr (key, p1)"
    "parse_value n inp (skip_ws_at inp (skip_ws_at inp p1 + 1)) = Inr (v, p3)"
    and e: "(\<exists>qs. parse_pairs n inp (skip_ws_at inp p3 + 1) = Inr (qs, p)) \<or> p = skip_ws_at inp p3 + 1"
    using eq by (auto simp: rbind_Inr_iff Let_def split: if_splits)
  have "pos0 < p3"
    using parse_string_moves [OF k(1)] all_moveD(1) [OF IH k(2)] skip_ws_ge [of pos0 inp] skip_ws_ge [of p1 inp]
      skip_ws_ge [of "skip_ws_at inp p1 + 1" inp] by linarith
  moreover have "skip_ws_at inp p3 < p" using e all_moveD(2) [OF IH] by fastforce
  ultimately show ?thesis using skip_ws_ge [of p3 inp] by linarith
qed

lemma items_moves:
  assumes IH: "all_move n inp" and eq: "parse_items (Suc n) inp pos0 = Inr (vs, p)"
  shows "pos0 < p"
proof -
  obtain v p1 where k: "parse_value n inp (skip_ws_at inp pos0) = Inr (v, p1)"
    and e: "(\<exists>ws. parse_items n inp (skip_ws_at inp p1 + 1) = Inr (ws, p)) \<or> p = skip_ws_at inp p1 + 1"
    using eq by (auto simp: rbind_Inr_iff Let_def split: if_splits)
  have "pos0 < p1" using all_moveD(1) [OF IH k] skip_ws_ge [of pos0 inp] by linarith
  moreover have "skip_ws_at inp p1 < p" using e all_moveD(3) [OF IH] by fastforce
  ultimately show ?thesis using skip_ws_ge [of p1 inp] by linarith
qed

lemma parser_moves: "all_move n inp"
proof (induction n)
  case (Suc n)
  show ?case unfolding all_move_def using value_moves [OF Suc] pairs_moves [OF Suc] items_moves [OF Suc] by blast
qed (simp add: all_move_def)

definition all_fuelled :: "nat \<Rightarrow> byte list \<Rightarrow> bool" where
  "all_fuelled n inp \<longleftrightarrow> (\<forall>pos. 2 * (length inp - pos) + 1 \<le> n \<longrightarrow> parse_value n inp pos \<noteq> Inl NoFuel) \<and>
     (\<forall>pos. 2 * (length inp - pos) + 2 \<le> n \<longrightarrow> parse_pairs n inp pos \<noteq> Inl NoFuel) \<and>
     (\<forall>pos. 2 * (length inp - pos) + 2 \<le> n \<longrightarrow> parse_items n inp pos \<noteq> Inl NoFuel)"

lemma all_fuelledD:
  assumes "all_fuelled n inp"
  shows "2 * (length inp - pos) + 1 \<le> n \<Longrightarrow> parse_value n inp pos \<noteq> Inl NoFuel"
    "2 * (length inp - pos) + 2 \<le> n \<Longrightarrow> parse_pairs n inp pos \<noteq> Inl NoFuel"
    "2 * (length inp - pos) + 2 \<le> n \<Longrightarrow> parse_items n inp pos \<noteq> Inl NoFuel"
  using assms by (simp_all add: all_fuelled_def)

lemma rbind_NoFuel: "rbind r f \<noteq> Inl NoFuel" if "r \<noteq> Inl NoFuel" "\<And>x. r = Inr x \<Longrightarrow> f x \<noteq> Inl NoFuel"
  using that by (cases r) simp_all

lemma rbind_total: "rbind r (\<lambda>x. Inr (g x)) = Inl e \<longleftrightarrow> r = Inl e"
  by (cases r) simp_all

lemma string_fuel: "string_body inp pos s \<noteq> Inl NoFuel"
proof (induction "length inp - pos" arbitrary: pos s rule: less_induct)
  case less
  show ?case
  proof (cases "length inp \<le> pos")
    case False
    then have IH: "string_body inp q t \<noteq> Inl NoFuel" if "pos < q" for q t using less [of q t] that by simp
    show ?thesis using False by (subst string_body.simps) (simp add: IH split: option.split)
  qed (simp add: string_body.simps)
qed

lemma literal_fuel: "expect_literal lit inp pos \<noteq> Inl NoFuel"
  by (induction lit inp pos rule: expect_literal.induct) auto

lemma number_fuel: "parse_number inp pos \<noteq> Inl NoFuel"
  by (simp add: parse_number_def Let_def case_prod_unfold split: option.split)

lemma value_fuel:
  assumes IH: "all_fuelled n inp" and n: "2 * (length inp - pos0) + 1 \<le> Suc n"
  shows "parse_value (Suc n) inp pos0 \<noteq> Inl NoFuel"
proof -
  define pos where "pos = skip_ws_at inp pos0"
  define pos1 where "pos1 = skip_ws_at inp (pos + 1)"
  have ge: "pos0 \<le> pos" "pos < pos1" using skip_ws_ge [of pos0 inp] skip_ws_ge [of "pos + 1" inp]
    by (simp_all add: pos_def pos1_def)
  show ?thesis
  proof (cases "peek_at inp pos")
    case None
    then show ?thesis by (simp add: pos_def)
  next
    case (Some c)
    then have "pos < length inp" by (simp add: peek_at_def split: if_splits)
    then have "2 * (length inp - pos1) + 2 \<le> n" using n ge by linarith
    then have "parse_pairs n inp pos1 \<noteq> Inl NoFuel" "parse_items n inp pos1 \<noteq> Inl NoFuel"
      using all_fuelledD(2,3) [OF IH] by blast+
    then show ?thesis
      unfolding parse_value.simps Let_def pos_def [symmetric] pos1_def [symmetric] Some option.case parse_string_def
      using number_fuel
      by (simp add: rbind_total string_fuel literal_fuel case_prod_unfold)
  qed
qed

lemma pairs_fuel:
  assumes IH: "all_fuelled n inp" and n: "2 * (length inp - pos0) + 2 \<le> Suc n"
  shows "parse_pairs (Suc n) inp pos0 \<noteq> Inl NoFuel"
proof -
  have v: "parse_value n inp pos \<noteq> Inl NoFuel" if "pos0 \<le> pos" for pos
    by (rule all_fuelledD(1) [OF IH]) (use n that in linarith)
  have r: "parse_pairs n inp (pos + 1) \<noteq> Inl NoFuel" if "pos0 < pos" "peek_at inp pos = Some c" for pos c
    by (rule all_fuelledD(2) [OF IH]) (use n that in \<open>simp add: peek_at_def split: if_splits\<close>)
  show ?thesis unfolding parse_pairs.simps
  proof (intro rbind_NoFuel, goal_cases)
    case 1
    then show ?case unfolding parse_string_def by (rule string_fuel)
  next
    case (2 x)
    obtain key p1 where x: "x = (key, p1)" by (cases x)
    have p1: "pos0 < p1" using parse_string_moves [OF 2 [unfolded x]] skip_ws_ge [of pos0 inp] by simp
    define p2 where "p2 = skip_ws_at inp p1"
    define q where "q = skip_ws_at inp (p2 + 1)"
    have q: "pos0 < q" using p1 skip_ws_ge [of p1 inp] skip_ws_ge [of "p2 + 1" inp] by (simp add: p2_def q_def)
    have "rbind (parse_value n inp q) (\<lambda>(v, p3). let p4 = skip_ws_at inp p3
        in if peek_at inp p4 = Some (chr CHR '','')
           then rbind (parse_pairs n inp (p4 + 1)) (\<lambda>(ps, p). Inr ((key, v) # ps, p))
           else if peek_at inp p4 = Some (chr CHR ''}'') then Inr ([(key, v)], p4 + 1)
           else Inl Malformed) \<noteq> Inl NoFuel"
    proof (intro rbind_NoFuel, goal_cases)
      case 1
      then show ?case using v q by simp
    next
      case (2 y)
      obtain w p3 where y: "y = (w, p3)" by (cases y)
      have "pos0 < skip_ws_at inp p3"
        using all_moveD(1) [OF parser_moves 2 [unfolded y]] q skip_ws_ge [of p3 inp] by linarith
      then show ?case using r by (simp add: y Let_def case_prod_unfold rbind_total)
    qed
    then show ?case by (simp add: x Let_def p2_def q_def)
  qed
qed

lemma items_fuel:
  assumes IH: "all_fuelled n inp" and n: "2 * (length inp - pos0) + 2 \<le> Suc n"
  shows "parse_items (Suc n) inp pos0 \<noteq> Inl NoFuel"
proof -
  have v: "parse_value n inp pos \<noteq> Inl NoFuel" if "pos0 \<le> pos" for pos
    by (rule all_fuelledD(1) [OF IH]) (use n that in linarith)
  have r: "parse_items n inp (pos + 1) \<noteq> Inl NoFuel" if "pos0 < pos" "peek_at inp pos = Some c" for pos c
    by (rule all_fuelledD(3) [OF IH]) (use n that in \<open>simp add: peek_at_def split: if_splits\<close>)
  show ?thesis unfolding parse_items.simps
  proof (intro rbind_NoFuel, goal_cases)
    case 1
    then show ?case using v skip_ws_ge by blast
  next
    case (2 y)
    obtain w p1 where y: "y = (w, p1)" by (cases y)
    have "pos0 < skip_ws_at inp p1"
      using all_moveD(1) [OF parser_moves 2 [unfolded y]] skip_ws_ge [of pos0 inp] skip_ws_ge [of p1 inp] by linarith
    then show ?case using r by (simp add: y Let_def case_prod_unfold rbind_total)
  qed
qed

lemma parser_fuelled: "all_fuelled n inp"
proof (induction n)
  case (Suc n)
  show ?case unfolding all_fuelled_def using value_fuel [OF Suc] pairs_fuel [OF Suc] items_fuel [OF Suc] by blast
qed (simp add: all_fuelled_def)

section \<open>Properties\<close>

text \<open>C27. JSON text and binary agree: the text of an encoded value is parsed to the value, for values without
  doubles whose strings are ASCII.\<close>

theorem json_text_roundtrip:
  assumes "json_ok v" "text_ok v"
  shows "\<exists>s. decode_jsonb ts (encode_val v) = Inr s \<and> parse_json s = Inr v"
proof -
  have "decode_at_start (encode_val v) = Inr (v, length (encode_val v))"
    using decode_encode(1) [OF assms(1), of "length (encode_val v) + 1" "encode_val v" "[]" "[]"]
    by (simp add: decode_at_start_def)
  moreover have "parse_value (2 * length (format_json ts v) + 3) (format_json ts v) 0 = Inr (v, length (format_json ts v))"
    using parse_format(1) [OF assms(2), of ts "2 * length (format_json ts v) + 3" "format_json ts v" "[]" "[]"]
    by (simp add: stops_def)
  moreover have "skip_ws_at s (length s) = length s" for s by (simp add: skip_ws_at_def pos_while.simps)
  ultimately show ?thesis by (simp add: decode_jsonb_def parse_json_def)
qed

text \<open>Parsing ends on every text, however it nests: the fuel that \<open>parse_json\<close> starts with is enough.\<close>

lemma parse_json_total: "parse_json s \<noteq> Inl NoFuel"
proof -
  have "parse_value (2 * length s + 3) s 0 \<noteq> Inl NoFuel" by (rule all_fuelledD(1) [OF parser_fuelled]) simp
  then show ?thesis by (cases "parse_value (2 * length s + 3) s 0") (auto simp: parse_json_def case_prod_unfold)
qed

text \<open>The opening quote of a key is not checked, and a letter that is not ASCII is encoded twice.\<close>

lemma unquoted_key_accepted: "parse_json (bytes_of ''{?a'' @ [chr CHR 0x22] @ bytes_of '':1}'') = Inr (JObject [(bytes_of ''a'', JInt 1)])"
  by code_simp

lemma accent_in_json: "parse_json [chr CHR 0x22, 0xC3, 0xA9, chr CHR 0x22] = Inr (JStr [0xC3, 0x83, 0xC2, 0xA9])"
  by code_simp

section \<open>Witness\<close>

theorem json_text_roundtrip_witness:
  "\<exists>s. decode_jsonb (\<lambda>_. []) (encode_val (JObject [(bytes_of ''a'', JArray [JInt (- 3), JStr (bytes_of ''x'')])])) = Inr s \<and>
     parse_json s = Inr (JObject [(bytes_of ''a'', JArray [JInt (- 3), JStr (bytes_of ''x'')])])"
  by (rule json_text_roundtrip) (simp_all add: bytes_of_def str_ok_def utf8_valid_ascii)

end
