(* ===== verification/Pinned_Pool.thy ===== *)
theory Pinned_Pool
  imports Heap_File
begin

text \<open>
  Working on several pages of the buffer pool at a time, as the indexes do: operations on the pool in
  sequence (\<open>pbind\<close>), which stop at the first error like the operator \<^verbatim>\<open>?\<close>, and rules for the calls of
  \<^verbatim>\<open>crates/storage/src/buffer_pool.rs\<close> that keep account of the pinned pages. \<open>pool_at\<close> says which pages the
  pool holds, which of them are pinned in which frame and how often, and which have been changed without
  being marked dirty yet. \<open>succeeds\<close> is total correctness: the operation returns without an error and its
  result and the pool satisfy the postcondition.
\<close>

section \<open>Operations in sequence\<close>

type_synonym 'a pool_io = "BufferPool \<Rightarrow> (StorageError + 'a) \<times> BufferPool"

definition preturn :: "'a \<Rightarrow> 'a pool_io" where
  "preturn x p = (Inr x, p)"

definition pbind :: "'a pool_io \<Rightarrow> ('a \<Rightarrow> 'b pool_io) \<Rightarrow> 'b pool_io" where
  "pbind a g p = (case a p of (Inl e, q) \<Rightarrow> (Inl e, q) | (Inr x, q) \<Rightarrow> g x q)"

definition fetch :: "nat \<Rightarrow> nat pool_io" where
  "fetch pid p = fetch_page p pid"

definition unpin :: "nat \<Rightarrow> bool \<Rightarrow> unit pool_io" where
  "unpin pid dirty p = unpin_page p pid dirty"

text \<open>A use of \<^verbatim>\<open>pool.page(fid)\<close> and of \<^verbatim>\<open>pool.page_mut(fid)\<close>; either may fail.\<close>

definition reading :: "nat \<Rightarrow> (page \<Rightarrow> StorageError + 'a) \<Rightarrow> 'a pool_io" where
  "reading fid g p = (g (pool_page p fid), p)"

definition changing :: "nat \<Rightarrow> (page \<Rightarrow> page) \<Rightarrow> unit pool_io" where
  "changing fid g p = (Inr (), page_mut fid g p)"

definition trying :: "nat \<Rightarrow> (page \<Rightarrow> StorageError + page \<times> 'a) \<Rightarrow> 'a pool_io" where
  "trying fid g p =
     (case g (pool_page p fid) of Inl e \<Rightarrow> (Inl e, p) | Inr (pg, x) \<Rightarrow> (Inr x, page_mut fid (\<lambda>_. pg) p))"

definition succeeds :: "'a pool_io \<Rightarrow> BufferPool \<Rightarrow> ('a \<Rightarrow> BufferPool \<Rightarrow> bool) \<Rightarrow> bool" where
  "succeeds a p Q \<longleftrightarrow> (\<exists>x q. a p = (Inr x, q) \<and> Q x q)"

lemma succeeds_bind: "succeeds a p (\<lambda>x q. succeeds (g x) q Q) \<Longrightarrow> succeeds (pbind a g) p Q"
  by (auto simp: succeeds_def pbind_def)

lemma succeeds_return: "Q x p \<Longrightarrow> succeeds (preturn x) p Q"
  by (simp add: succeeds_def preturn_def)

lemma succeeds_reading: "g (pool_page p fid) = Inr x \<Longrightarrow> Q x p \<Longrightarrow> succeeds (reading fid g) p Q"
  by (simp add: succeeds_def reading_def)

lemma succeeds_mono: "succeeds a p Q \<Longrightarrow> (\<And>x q. Q x q \<Longrightarrow> R x q) \<Longrightarrow> succeeds a p R"
  by (auto simp: succeeds_def)

section \<open>The pinned pages\<close>

type_synonym pins = "nat \<Rightarrow> (nat \<times> nat) option"

definition pool_at :: "nat \<Rightarrow> nat \<Rightarrow> (nat \<Rightarrow> page option) \<Rightarrow> nat \<Rightarrow> pins \<Rightarrow> nat set \<Rightarrow> BufferPool \<Rightarrow> bool" where
  \<comment> \<open>\<open>N\<close> frames, \<open>k\<close> more ticks of the access clock, pages \<open>m\<close>, next page id \<open>n\<close>, pinned pages with frame
      and pin count \<open>F\<close>, changed pages \<open>D\<close>\<close>
  "pool_at N k m n F D p \<longleftrightarrow>
     pool_inv p \<and> pool_content p = m \<and> dm_next_page_id (bp_disk p) = n \<and> length (bp_frames p) = N \<and>
     lr_clock (bp_replacer p) + k < 2 ^ 64 \<and>
     (\<forall>pid f c. F pid = Some (f, c) \<longleftrightarrow> holds_page p f pid \<and> fr_pin_count (bp_frames p ! f) = c \<and> 0 < c) \<and>
     (\<forall>f \<in> busy p. \<exists>pid. holds_page p f pid) \<and>
     (\<forall>pid f c. F pid = Some (f, c) \<longrightarrow> pid \<in> D \<or> fr_is_dirty (bp_frames p ! f) \<or>
        disk_page (bp_disk p) pid = Some (fr_page (bp_frames p ! f)))"

lemma pool_atD:
  assumes "pool_at N k m n F D p"
  shows at_inv: "pool_inv p" and at_content: "pool_content p = m" and at_next: "dm_next_page_id (bp_disk p) = n"
    and at_frames: "length (bp_frames p) = N" and at_clock: "lr_clock (bp_replacer p) + k < 2 ^ 64"
    and at_pins: "F pid = Some (f, c) \<longleftrightarrow> holds_page p f pid \<and> fr_pin_count (bp_frames p ! f) = c \<and> 0 < c"
    and at_busy: "f \<in> busy p \<Longrightarrow> \<exists>pid. holds_page p f pid"
    and at_saved: "F pid = Some (f, c) \<Longrightarrow> pid \<notin> D \<Longrightarrow> fr_is_dirty (bp_frames p ! f) \<or>
        disk_page (bp_disk p) pid = Some (fr_page (bp_frames p ! f))"
  using assms unfolding pool_at_def by blast+

lemma at_page: "pool_at N k m n F D p \<Longrightarrow> F pid = Some (f, c) \<Longrightarrow> m pid = Some (pool_page p f)"
  using content_held [of p f pid] at_pins [of N k m n F D p pid f c] at_inv [of N k m n F D p] at_content [of N k m n F D p]
  by (auto simp: pool_page_def)

lemma at_length: "pool_at N k m n F D p \<Longrightarrow> F pid = Some (f, c) \<Longrightarrow> length (pool_page p f) = PAGE_SIZE"
  using inv_pid [of p f pid] at_pins [of N k m n F D p pid f c] at_inv [of N k m n F D p]
  by (auto simp: pool_page_def)

lemma pool_at_weaken: "pool_at N k m n F D p \<Longrightarrow> k' \<le> k \<Longrightarrow> pool_at N k' m n F D p"
  unfolding pool_at_def by auto

lemma at_finite:
  assumes at: "pool_at N k m n F D p"
  shows "finite (dom F)"
proof -
  have "dom F \<subseteq> (\<lambda>f. the (fr_page_id (bp_frames p ! f))) ` {..<N}"
    using at_pins [OF at] at_frames [OF at] by (force simp: holds_page_def image_iff)
  then show ?thesis using finite_surj by blast
qed

lemma at_less: "pool_at N k m n F D p \<Longrightarrow> F pid = Some x \<Longrightarrow> 0 < pid \<and> pid < n"
  using at_pins [of N k m n F D p pid "fst x" "snd x"] at_next [of N k m n F D p]
    inv_pid [OF at_inv [of N k m n F D p], of "fst x" pid] by auto

text \<open>A frame is to spare while fewer pages are pinned than there are frames.\<close>

lemma at_spare:
  assumes at: "pool_at N k m n F D p" and spare: "card (dom F) < N"
  obtains f q where "find_free_frame p = (Inr f, q)"
proof -
  note inv = at_inv [OF at]
  have held: "\<exists>pid c. F pid = Some (f, c)" if "f \<in> busy p" for f
  proof -
    obtain pid where h: "holds_page p f pid" using at_busy [OF at \<open>f \<in> busy p\<close>] by blast
    then have "fr_pin_count (bp_frames p ! f) \<noteq> 0" using pin_not_busy [OF inv h] that by simp
    then show ?thesis using at_pins [OF at, of pid f] h by auto
  qed
  have "busy p \<subseteq> (\<lambda>pid. fst (the (F pid))) ` dom F" using held by (force simp: image_iff dom_def)
  then have "card (busy p) \<le> card (dom F)" using at_finite [OF at] by (meson card_image_le card_mono finite_imageI le_trans)
  then have "\<not> {..<N} \<subseteq> busy p"
    using spare card_mono [of "busy p" "{..<N}"] by (auto simp: busy_def)
  then obtain g where "g < length (bp_frames p)" "g \<notin> busy p" using at_frames [OF at] by auto
  then show ?thesis using find_free_frame_total [OF inv] that by blast
qed

lemma find_free_frame_disk:
  assumes inv: "pool_inv p" and ff: "find_free_frame p = (Inr f, q)" and h: "holds_page p g pid" "g \<noteq> f"
  shows "disk_page (bp_disk q) pid = disk_page (bp_disk p) pid"
proof (rule find_free_frame_cases [OF inv], goal_cases)
  case (1 f' fs)
  then show ?case using ff by auto
next
  case 2
  then show ?case using ff by simp
next
  case (3 f' pid')
  then have q: "q = evicted p f pid'" "f' = f" using ff by auto
  with 3 h have "pid' \<noteq> pid" using holds_page_unique [OF inv, of f pid g] by auto
  then show ?case
    using disk_write_page_ok [OF inv_disk [OF inv], of pid'] inv_pid [OF inv, of f pid'] 3 q
    by (simp add: evicted_def)
qed

text \<open>A page loaded into a frame that was to spare is pinned once; the other pinned pages stay.\<close>

lemma at_loaded:
  assumes at: "pool_at N (Suc k) m n F D p" and f: "f \<notin> busy p"
    and q: "pinned_in p f pid pg q" "\<not> contains_page p pid" "pool_content q = m'" "dm_next_page_id (bp_disk q) = n'"
    and others: "\<And>g i. g \<noteq> f \<Longrightarrow> holds_page q g i = holds_page p g i" "\<And>g. g \<noteq> f \<Longrightarrow> bp_frames q ! g = bp_frames p ! g"
      "\<And>g i. g \<noteq> f \<Longrightarrow> holds_page p g i \<Longrightarrow> disk_page (bp_disk q) i = disk_page (bp_disk p) i"
    and saved: "fr_is_dirty (bp_frames q ! f) \<or> disk_page (bp_disk q) pid = Some pg"
  shows "pool_at N k m' n' (F(pid \<mapsto> (f, 1))) D q"
proof -
  have P: "pool_inv q" "holds_page q f pid" "fr_page (bp_frames q ! f) = pg" "fr_pin_count (bp_frames q ! f) = 1"
    "busy q = insert f (busy p)" "lr_clock (bp_replacer q) = lr_clock (bp_replacer p) + 1"
    "length (bp_frames q) = length (bp_frames p)"
    using q by (simp_all add: pinned_in_def)
  have nf: "\<not> holds_page p f i \<or> fr_pin_count (bp_frames p ! f) = 0" for i
    using f pin_not_busy [OF at_inv [OF at], of f i] by auto
  have fi: "holds_page q f i \<longleftrightarrow> i = pid" for i using P(2) by (auto simp: holds_page_def)
  have npid: "\<not> holds_page p g pid" for g
    using q(2) inv_table [OF at_inv [OF at], of pid g] by (auto simp: contains_page_def)
  have pins: "(F(pid \<mapsto> (f, 1))) i = Some (g, c) \<longleftrightarrow>
      holds_page q g i \<and> fr_pin_count (bp_frames q ! g) = c \<and> 0 < c" for i g c
  proof (cases "g = f")
    case True
    then show ?thesis using fi [of i] P(4) nf [of i] at_pins [OF at, of i f c] by auto
  next
    case False
    then show ?thesis using others(1) [of g] others(2) [of g] npid [of g] at_pins [OF at, of i g c] fi by auto
  qed
  have "\<exists>i. holds_page q g i" if "g \<in> busy q" for g
    using that at_busy [OF at, of g] P(2,5) others(1) [of g] by (cases "g = f") auto
  moreover have "i \<in> D \<or> fr_is_dirty (bp_frames q ! g) \<or> disk_page (bp_disk q) i = Some (fr_page (bp_frames q ! g))"
    if "(F(pid \<mapsto> (f, 1))) i = Some (g, c)" for i g c
  proof (cases "g = f")
    case True
    then show ?thesis using saved P(3) that pins [of i g c] fi by auto
  next
    case False
    then have "F i = Some (g, c)" "holds_page p g i"
      using that pins [of i g c] others(1) [of g] others(2) [of g] at_pins [OF at, of i g c] by auto
    then show ?thesis using at_saved [OF at, of i g c] others(2) [of g] others(3) [of g] False by auto
  qed
  ultimately show ?thesis
    using P q(3,4) at_frames [OF at] at_clock [OF at] pins unfolding pool_at_def by simp
qed

lemma succeeds_new_page:
  assumes at: "pool_at N (Suc k) m n F D p" and spare: "card (dom F) < N" and room: "n + 1 < 2 ^ 51"
    and Q: "\<And>f q. pool_at N k (m(n \<mapsto> page_new n)) (n + 1) (F(n \<mapsto> (f, 1))) D q \<Longrightarrow> Q (n, f) q"
  shows "succeeds new_page p Q"
proof -
  note inv = at_inv [OF at]
  obtain f q where ff: "find_free_frame p = (Inr f, q)" using at_spare [OF at spare] .
  note B = find_free_frame_busy [OF inv ff]
  note R = find_free_frame_ok [OF inv ff, unfolded frame_ready_def]
  obtain q' where q': "new_page p = (Inr (n, f), q')" "pinned_in p f n (page_new n) q'"
    "pool_content q' = m(n \<mapsto> page_new n)" "dm_next_page_id (bp_disk q') = n + 1" "fr_is_dirty (bp_frames q' ! f)"
    using new_page_ok [OF inv ff] at_clock [OF at] room at_next [OF at] at_content [OF at] by auto
  have nc: "\<not> contains_page p n"
    using inv_table [OF inv, of n] inv_pid [OF inv, of _ n] at_next [OF at]
    by (cases "hm_get (bp_page_table p) n") (auto simp: contains_page_def)
  obtain disk where al: "allocate_page (bp_disk q) = (n, disk)"
    "disk_page disk = (disk_page (bp_disk q))(n \<mapsto> replicate PAGE_SIZE 0)"
    using allocate_page_ok [OF inv_disk [of q]] room R at_next [OF at]
    by (cases "allocate_page (bp_disk q)") auto
  have eq: "q' = installed q disk f n (page_new n) True"
    using q'(1) ff al(1) by (simp add: new_page_def installed_def set_frame_def Let_def frame_eq)
  have fr: "bp_frames q' ! g = bp_frames p ! g" "holds_page q' g i = holds_page p g i" if "g \<noteq> f" for g i
    using that B(2) B(3) [of g i] B(4) [of g] by (simp_all add: eq installed_def holds_page_def)
  have dk: "disk_page (bp_disk q') i = disk_page (bp_disk p) i" if "g \<noteq> f" "holds_page p g i" for g i
    using find_free_frame_disk [OF inv ff, of g i] that al(2) inv_pid [OF inv, of g i] at_next [OF at]
    by (auto simp: eq installed_def)
  have "pool_at N k (m(n \<mapsto> page_new n)) (n + 1) (F(n \<mapsto> (f, 1))) D q'"
    by (rule at_loaded [OF at B(5) q'(2) nc q'(3,4)]) (use fr dk q'(5) in auto)
  then show ?thesis using Q q'(1) by (auto simp: succeeds_def)
qed

text \<open>Fetching pins a page once more. The calls below come in pairs of a fetch and an unpin, so the rule
  leaves the old pins of the page as they were, for the matching unpin to restore.\<close>

definition pin_of :: "pins \<Rightarrow> nat \<Rightarrow> nat" where
  "pin_of F pid = (case F pid of None \<Rightarrow> 0 | Some (f, c) \<Rightarrow> c)"

definition available :: "nat \<Rightarrow> pins \<Rightarrow> nat \<Rightarrow> bool" where
  "available N F pid \<longleftrightarrow> (F pid = None \<longrightarrow> card (dom F) < N) \<and> pin_of F pid + 1 < 2 ^ 32"

lemma at_hit_frame:
  assumes at: "pool_at N k m n F D p" and h: "holds_page p f pid"
  shows "F pid = (if fr_pin_count (bp_frames p ! f) = 0 then None else Some (f, fr_pin_count (bp_frames p ! f)))"
proof (cases "F pid")
  case None
  then show ?thesis using at_pins [OF at, of pid f "fr_pin_count (bp_frames p ! f)"] h by auto
next
  case (Some x)
  then show ?thesis
    using at_pins [OF at, of pid "fst x" "snd x"] h holds_page_unique [OF at_inv [OF at], of "fst x" pid f] by auto
qed

lemma succeeds_fetch:
  assumes at: "pool_at N (Suc k) m n F D p" and pg: "m pid = Some pg" and av: "available N F pid"
    and D: "F pid = None \<Longrightarrow> pid \<notin> D"
    and Q: "\<And>f q. pool_at N k m n (F(pid \<mapsto> (f, pin_of F pid + 1))) D q \<Longrightarrow>
      F(pid := (if pin_of F pid = 0 then None else Some (f, pin_of F pid))) = F \<Longrightarrow> Q f q"
  shows "succeeds (fetch pid) p Q"
proof (cases "hm_get (bp_page_table p) pid")
  case None
  note inv = at_inv [OF at]
  have Fn: "F pid = None" using at_pins [OF at, of pid] inv_table [OF inv, of pid] None by (cases "F pid") auto
  have d: "disk_page (bp_disk p) pid = Some pg" using pg at_content [OF at] None by (auto simp: pool_content_def)
  obtain f q where ff: "find_free_frame p = (Inr f, q)" using at_spare [OF at] av Fn by (auto simp: available_def)
  note B = find_free_frame_busy [OF inv ff]
  have clock: "lr_clock (bp_replacer p) + 1 < 2 ^ 64" using at_clock [OF at] by simp
  obtain q' where q': "fetch_page p pid = (Inr f, q')" "q' = installed q (bp_disk q) f pid pg False"
    "pinned_in p f pid pg q'" "pool_content q' = pool_content p"
    "dm_next_page_id (bp_disk q') = dm_next_page_id (bp_disk p)" "disk_page (bp_disk q') pid = Some pg"
    by (rule fetch_miss [OF inv None d clock ff])
  have fr: "bp_frames q' ! g = bp_frames p ! g" "holds_page q' g i = holds_page p g i" if "g \<noteq> f" for g i
    using that B(2) B(3) [of g i] B(4) [of g] by (simp_all add: q'(2) installed_def holds_page_def)
  have dk: "disk_page (bp_disk q') i = disk_page (bp_disk p) i" if "g \<noteq> f" "holds_page p g i" for g i
    using find_free_frame_disk [OF inv ff, of g i] that by (simp add: q'(2) installed_def)
  have nc: "\<not> contains_page p pid" using None by (simp add: contains_page_def)
  have "pool_at N k m n (F(pid \<mapsto> (f, 1))) D q'"
    by (rule at_loaded [OF at B(5) q'(3) nc])
      (use fr dk q'(4-6) at_content [OF at] at_next [OF at] in auto)
  then show ?thesis using Q [of f q'] Fn q'(1) by (auto simp: succeeds_def fetch_def pin_of_def fun_eq_iff)
next
  case (Some f)
  note inv = at_inv [OF at]
  let ?c = "fr_pin_count (bp_frames p ! f)"
  have h: "holds_page p f pid" using Some inv_table [OF inv] by simp
  note F = at_hit_frame [OF at h]
  have clock: "lr_clock (bp_replacer p) + 1 < 2 ^ 64" using at_clock [OF at] by simp
  have c2: "pin_of F pid = ?c" using F by (simp add: pin_of_def)
  then have c: "?c + 1 < 2 ^ 32" "pin_of F pid = ?c" using av by (simp_all add: available_def)
  have pg': "fr_page (bp_frames p ! f) = pg" using content_held [OF inv h] at_content [OF at] pg by simp
  obtain q where q: "fetch_page p pid = (Inr f, q)" "pinned_in p f pid (fr_page (bp_frames p ! f)) q"
    "pool_content q = pool_content p" "bp_disk q = bp_disk p"
    "\<And>g pid'. holds_page q g pid' = holds_page p g pid'" "\<And>g. g \<noteq> f \<Longrightarrow> bp_frames q ! g = bp_frames p ! g"
    "fr_is_dirty (bp_frames q ! f) = fr_is_dirty (bp_frames p ! f)"
    by (rule fetch_hit [OF inv h clock c(1)], rule that)
  have P: "pool_inv q" "fr_page (bp_frames q ! f) = pg" "fr_pin_count (bp_frames q ! f) = ?c + 1"
    "busy q = insert f (busy p)" "lr_clock (bp_replacer q) = lr_clock (bp_replacer p) + 1"
    "length (bp_frames q) = length (bp_frames p)"
    using q(2) pg' Some by (simp_all add: pinned_in_def contains_page_def)
  have uniq: "holds_page p f i \<longleftrightarrow> i = pid" for i using h by (auto simp: holds_page_def)
  have gf: "holds_page p g pid \<longleftrightarrow> g = f" for g using h holds_page_unique [OF inv] by blast
  have pins: "(F(pid \<mapsto> (f, pin_of F pid + 1))) i = Some (g, d) \<longleftrightarrow>
      holds_page q g i \<and> fr_pin_count (bp_frames q ! g) = d \<and> 0 < d" for i g d
    using q(5,6) P(3) c(2) at_pins [OF at, of i g d] uniq [of i] gf [of g] by (cases "g = f") auto
  have s: "i \<in> D \<or> fr_is_dirty (bp_frames q ! g) \<or> disk_page (bp_disk q) i = Some (fr_page (bp_frames q ! g))"
    if "(F(pid \<mapsto> (f, pin_of F pid + 1))) i = Some (g, d)" for i g d
  proof (cases "g = f")
    case True
    then have i: "i = pid" using that pins [of i g d] q(5) uniq by auto
    show ?thesis
    proof (cases "?c = 0")
      case True
      then show ?thesis using inv_clean [OF inv h] q(4,7) P(2) pg' i \<open>g = f\<close> by auto
    next
      case False
      then show ?thesis using at_saved [OF at, of pid f ?c] F q(4,7) P(2) pg' i \<open>g = f\<close> by auto
    qed
  next
    case False
    then show ?thesis using that at_saved [OF at, of i g d] q(4,6) by (auto split: if_splits)
  qed
  have "\<exists>i. holds_page q g i" if "g \<in> busy q" for g
    using that P(4) at_busy [OF at, of g] h q(5) by auto
  then have "pool_at N k m n (F(pid \<mapsto> (f, pin_of F pid + 1))) D q"
    using P q(3,4) at_frames [OF at] at_clock [OF at] at_content [OF at] at_next [OF at] pins s
    unfolding pool_at_def by simp
  moreover have "F(pid := (if pin_of F pid = 0 then None else Some (f, pin_of F pid))) = F" using F c2 by auto
  ultimately show ?thesis using Q q(1) by (auto simp: succeeds_def fetch_def)
qed

lemma succeeds_changing:
  assumes at: "pool_at N k m n F D p" and F: "F pid = Some (f, c)" and len: "length (g (the (m pid))) = PAGE_SIZE"
    and Q: "\<And>q. pool_at N k (m(pid \<mapsto> g (the (m pid)))) n F (insert pid D) q \<Longrightarrow> Q () q"
  shows "succeeds (changing f g) p Q"
proof -
  have h: "holds_page p f pid" "fr_pin_count (bp_frames p ! f) = c" "0 < c" using at_pins [OF at] F by auto
  have pg: "the (m pid) = fr_page (bp_frames p ! f)" using at_page [OF at F] by (simp add: pool_page_def)
  note M = page_mut_ok [OF at_inv [OF at] h(1), of g]
  let ?q = "page_mut f g p"
  have M': "pool_inv ?q" "holds_page ?q = holds_page p" "pool_content ?q = m(pid \<mapsto> g (the (m pid)))"
    "busy ?q = insert f (busy p)" "bp_frames ?q ! f = (bp_frames p ! f)\<lparr>fr_page := g (fr_page (bp_frames p ! f))\<rparr>"
    using M h len at_content [OF at] by (simp_all add: pg)
  have sel: "bp_disk ?q = bp_disk p" "bp_replacer ?q = bp_replacer p" "length (bp_frames ?q) = length (bp_frames p)"
    "i \<noteq> f \<Longrightarrow> bp_frames ?q ! i = bp_frames p ! i" for i by (simp_all add: page_mut_def set_frame_def)
  have pins: "F i = Some (j, d) \<longleftrightarrow> holds_page ?q j i \<and> fr_pin_count (bp_frames ?q ! j) = d \<and> 0 < d" for i j d
    using at_pins [OF at, of i j d] M'(2,5) sel(4) [of j] by (cases "j = f") simp_all
  have "i \<in> insert pid D \<or> fr_is_dirty (bp_frames ?q ! j) \<or> disk_page (bp_disk ?q) i = Some (fr_page (bp_frames ?q ! j))"
    if "F i = Some (j, d)" for i j d
  proof (cases "j = f")
    case True
    then show ?thesis using that at_pins [OF at, of i j d] h(1) by (auto simp: holds_page_def)
  next
    case False
    then show ?thesis using at_saved [OF at that] sel by auto
  qed
  then have "pool_at N k (m(pid \<mapsto> g (the (m pid)))) n F (insert pid D) ?q"
    using M' sel at_frames [OF at] at_clock [OF at] at_next [OF at] pins at_busy [OF at] h(1)
    unfolding pool_at_def by auto
  then show ?thesis using Q by (auto simp: succeeds_def changing_def)
qed

lemma succeeds_trying:
  assumes at: "pool_at N k m n F D p" and F: "F pid = Some (f, c)" and g: "g (the (m pid)) = Inr (pg, x)"
    and len: "length pg = PAGE_SIZE" and Q: "\<And>q. pool_at N k (m(pid \<mapsto> pg)) n F (insert pid D) q \<Longrightarrow> Q x q"
  shows "succeeds (trying f g) p Q"
proof -
  have "g (pool_page p f) = Inr (pg, x)" using at_page [OF at F] g by simp
  moreover have "succeeds (changing f (\<lambda>_. pg)) p (\<lambda>_ q. Q x q)"
    by (rule succeeds_changing [OF at F]) (use len Q in auto)
  ultimately show ?thesis by (simp add: succeeds_def trying_def changing_def)
qed

lemma succeeds_unpin:
  assumes at: "pool_at N k m n F D p" and F: "F pid = Some (f, c + 1)" and D: "c = 0 \<Longrightarrow> dirty \<or> pid \<notin> D"
    and Q: "\<And>q. pool_at N k m n (F(pid := (if c = 0 then None else Some (f, c)))) (if dirty then D - {pid} else D) q \<Longrightarrow> Q () q"
  shows "succeeds (unpin pid dirty) p Q"
proof -
  note inv = at_inv [OF at]
  let ?fr = "(bp_frames p ! f)\<lparr>fr_pin_count := c, fr_is_dirty := (dirty \<or> fr_is_dirty (bp_frames p ! f))\<rparr>"
  let ?r = "if c = 0 then set_evictable (bp_replacer p) f True else bp_replacer p"
  have h: "holds_page p f pid" "fr_pin_count (bp_frames p ! f) = c + 1" using at_pins [OF at] F by auto
  have f: "f < length (bp_frames p)" "fr_page_id (bp_frames p ! f) = Some pid" using h by (simp_all add: holds_page_def)
  have tab: "hm_get (bp_page_table p) pid = Some f" using h inv_table [OF inv] by simp
  have fr: "\<not> dirty \<Longrightarrow> ?fr = (bp_frames p ! f)\<lparr>fr_pin_count := c\<rparr>" by (cases "bp_frames p ! f") simp
  define q where "q = updated p f ?fr ?r (bp_disk p)"
  have eq: "unpin_page p pid dirty = (Inr (), q)"
    using tab h f fr by (cases dirty) (simp_all add: unpin_page_def set_frame_def q_def updated_def Let_def)
  note S = set_evictable_ok [OF inv_lru [OF inv], of f True]
  have nev: "f \<notin> lr_evictable (bp_replacer p)" using inv_evictable [OF inv] h(2) by auto
  have r: "lru_inv ?r" "set (lru_order ?r) = set (lru_order (bp_replacer p))"
    "lr_evictable ?r = (if fr_pin_count ?fr = 0 then insert f (lr_evictable (bp_replacer p)) else lr_evictable (bp_replacer p) - {f})"
    "lr_clock ?r = lr_clock (bp_replacer p)"
    using S inv_lru [OF inv] nev inv_tracked [OF inv] h(1) by (auto simp: used_frames_def)
  have clean: "disk_page (bp_disk p) pid = Some (fr_page ?fr)" if "fr_pin_count ?fr = 0" "\<not> fr_is_dirty ?fr"
    using at_saved [OF at F] D that by auto
  note U = updated_ok [OF inv h(1) _ _ r(1-3) inv_disk [OF inv] refl refl clean]
  have U': "pool_inv q" "pool_content q = (pool_content p)(pid \<mapsto> fr_page (bp_frames p ! f))" "holds_page q = holds_page p"
    "busy q = (if c = 0 then busy p - {f} else insert f (busy p))"
    using U f inv_pid [OF inv h(1)] by (simp_all add: q_def)
  have sel: "bp_disk q = bp_disk p" "lr_clock (bp_replacer q) = lr_clock (bp_replacer p)"
    "length (bp_frames q) = length (bp_frames p)" "bp_frames q ! j = (if j = f then ?fr else bp_frames p ! j)" for j
    using r(4) f by (simp_all add: q_def updated_def)
  have uniq: "holds_page p f i \<longleftrightarrow> i = pid" for i using h(1) by (auto simp: holds_page_def)
  have gf: "holds_page p g pid \<longleftrightarrow> g = f" for g using h(1) holds_page_unique [OF inv] by blast
  let ?F = "F(pid := (if c = 0 then None else Some (f, c)))"
  have pins: "?F i = Some (j, d) \<longleftrightarrow> holds_page q j i \<and> fr_pin_count (bp_frames q ! j) = d \<and> 0 < d" for i j d
    using at_pins [OF at, of i j d] U'(3) sel(4) [of j] uniq [of i] gf [of j] by (cases "j = f") auto
  have "i \<in> (if dirty then D - {pid} else D) \<or> fr_is_dirty (bp_frames q ! j) \<or>
      disk_page (bp_disk q) i = Some (fr_page (bp_frames q ! j))" if "?F i = Some (j, d)" for i j d
  proof (cases "j = f")
    case True
    then have "i = pid" using that pins [of i j d] U'(3) uniq by auto
    then show ?thesis using at_saved [OF at F] sel True by auto
  next
    case False
    then have "F i = Some (j, d)" "i \<noteq> pid" using that by (auto split: if_splits)
    then show ?thesis using at_saved [OF at, of i j d] sel False by auto
  qed
  moreover have "pool_content q = m"
    using U'(2) at_content [OF at] fun_upd_idem [of m pid] at_page [OF at F] by (simp add: pool_page_def)
  moreover have "\<exists>i. holds_page q j i" if "j \<in> busy q" for j
    using that U'(3,4) at_busy [OF at, of j] h(1) by (auto split: if_splits)
  ultimately have "pool_at N k m n ?F (if dirty then D - {pid} else D) q"
    using U'(1) sel at_frames [OF at] at_clock [OF at] at_next [OF at] pins unfolding pool_at_def by simp
  then show ?thesis using Q eq by (auto simp: succeeds_def unpin_def)
qed

text \<open>The two ways of using one page: to read it and to change it.\<close>

lemma succeeds_read_page:
  assumes at: "pool_at N (Suc k) m n F D p" and pg: "m pid = Some pg" and av: "available N F pid" and D: "pid \<notin> D"
    and g: "g pg = Inr x" and h: "\<And>q. pool_at N k m n F D q \<Longrightarrow> succeeds (h x) q Q"
  shows "succeeds (pbind (fetch pid) (\<lambda>fid. pbind (reading fid g) (\<lambda>x. pbind (unpin pid False) (\<lambda>_. h x)))) p Q"
proof (rule succeeds_bind, rule succeeds_fetch [OF at pg av])
  fix f q assume q: "pool_at N k m n (F(pid \<mapsto> (f, pin_of F pid + 1))) D q"
    and F: "F(pid := (if pin_of F pid = 0 then None else Some (f, pin_of F pid))) = F"
  have "g (pool_page q f) = Inr x" using at_page [OF q, of pid f] pg g by simp
  moreover have "succeeds (unpin pid False) q (\<lambda>_ r. succeeds (h x) r Q)"
    by (rule succeeds_unpin [OF q, of pid f "pin_of F pid"]) (use D F h in auto)
  ultimately show "succeeds (pbind (reading f g) (\<lambda>x. pbind (unpin pid False) (\<lambda>_. h x))) q Q"
    by (intro succeeds_bind succeeds_reading)
qed (use D in simp)

lemma succeeds_change_page:
  assumes at: "pool_at N (Suc k) m n F D p" and pg: "m pid = Some pg" and av: "available N F pid" and D: "pid \<notin> D"
    and a: "\<And>f c q. pool_at N k m n (F(pid \<mapsto> (f, c))) D q \<Longrightarrow>
      succeeds (a f) q (\<lambda>_. pool_at N k (m(pid \<mapsto> pg')) n (F(pid \<mapsto> (f, c))) (insert pid D))"
    and h: "\<And>q. pool_at N k (m(pid \<mapsto> pg')) n F D q \<Longrightarrow> succeeds h q Q"
  shows "succeeds (pbind (fetch pid) (\<lambda>fid. pbind (a fid) (\<lambda>_. pbind (unpin pid True) (\<lambda>_. h)))) p Q"
proof (rule succeeds_bind, rule succeeds_fetch [OF at pg av])
  fix f q assume q: "pool_at N k m n (F(pid \<mapsto> (f, pin_of F pid + 1))) D q"
    and F: "F(pid := (if pin_of F pid = 0 then None else Some (f, pin_of F pid))) = F"
  have "succeeds (pbind (unpin pid True) (\<lambda>_. h)) r Q"
    if r: "pool_at N k (m(pid \<mapsto> pg')) n (F(pid \<mapsto> (f, pin_of F pid + 1))) (insert pid D) r" for r
    by (rule succeeds_bind, rule succeeds_unpin [OF r, of pid f "pin_of F pid"]) (use D F h in auto)
  then show "succeeds (pbind (a f) (\<lambda>_. pbind (unpin pid True) (\<lambda>_. h))) q Q"
    by (rule succeeds_bind [OF succeeds_mono [OF a [OF q]]])
qed (use D in simp)

end
