(* ===== verification/Btree.thy ===== *)
theory Btree
  imports Pinned_Pool
begin

unbundle bit_operations_syntax

text \<open>
  The B+ tree index of \<^verbatim>\<open>crates/storage/src/btree.rs\<close>, on top of the buffer pool. A node is a page of the
  pool; a loop or a recursion from page to page is a partial function, because the pages could form a cycle.
  An index out of range and an \<open>unwrap\<close> of an error is the error \<open>Panic\<close>. The second part relates the bytes
  of a page to the node they stand for; the tree is in the theory \<open>Btree_Tree\<close>.
\<close>

section \<open>Entries\<close>

record BTree =
  bt_meta_page_id :: nat
  bt_root_page_id :: nat

abbreviation (input) META_MAGIC :: nat where "META_MAGIC \<equiv> 0x454D5442"
abbreviation (input) META_OFF_MAGIC :: nat where "META_OFF_MAGIC \<equiv> 0"
abbreviation (input) META_OFF_ROOT :: nat where "META_OFF_ROOT \<equiv> 4"
abbreviation (input) META_OFF_HEIGHT :: nat where "META_OFF_HEIGHT \<equiv> 12"
abbreviation (input) META_OFF_NENTRIES :: nat where "META_OFF_NENTRIES \<equiv> 16"

definition encode_leaf_entry :: "byte list \<Rightarrow> TupleId \<Rightarrow> byte list" where
  "encode_leaf_entry key tid = to_le 2 (length key) @ key @ to_le 8 (tid_page_id tid) @ to_le 2 (tid_slot_id tid)"

definition decode_leaf_entry :: "byte list \<Rightarrow> StorageError + byte list \<times> TupleId" where
  "decode_leaf_entry d =
     (if length d < 12 then Inl Corruption
      else let key_len = from_le (slice d 0 2)
           in if length d < 2 + key_len + 10 then Inl Corruption
              else Inr (slice d 2 key_len,
                        \<lparr>tid_page_id = from_le (slice d (2 + key_len) 8), tid_slot_id = from_le (slice d (2 + key_len + 8) 2)\<rparr>))"

definition encode_internal_entry :: "byte list \<Rightarrow> nat \<Rightarrow> byte list" where
  "encode_internal_entry key child = to_le 2 (length key) @ key @ to_le 8 child"

definition decode_internal_entry :: "byte list \<Rightarrow> StorageError + byte list \<times> nat" where
  "decode_internal_entry d =
     (if length d < 10 then Inl Corruption
      else let key_len = from_le (slice d 0 2)
           in if length d < 2 + key_len + 8 then Inl Corruption
              else Inr (slice d 2 key_len, from_le (slice d (2 + key_len) 8)))"

definition encode_u64_key :: "nat \<Rightarrow> byte list" where
  "encode_u64_key v = rev (to_le 8 v)"

definition decode_u64_key :: "byte list \<Rightarrow> StorageError + nat" where
  "decode_u64_key b = (if length b < 8 then Inl Panic else Inr (from_le (rev (take 8 b))))"

section \<open>Navigation in a node\<close>

text \<open>A slice of the bytes of a page or an entry, which panics out of range.\<close>

definition slice_at :: "byte list \<Rightarrow> nat \<Rightarrow> nat \<Rightarrow> StorageError + byte list" where
  "slice_at d i n = (if i + n \<le> length d then Inr (slice d i n) else Inl Panic)"

definition unwrap :: "StorageError + 'a \<Rightarrow> StorageError + 'a" where
  "unwrap r = (case r of Inl _ \<Rightarrow> Inl Panic | Inr x \<Rightarrow> Inr x)"

text \<open>\<^verbatim>\<open>page.get_tuple(i).unwrap()\<close> and the key of the entry, as all the loops below read them.\<close>

definition entry_at :: "page \<Rightarrow> nat \<Rightarrow> StorageError + byte list \<times> byte list" where
  "entry_at pg i =
     rbind (unwrap (get_tuple pg i)) (\<lambda>entry.
     rbind (slice_at entry 0 2) (\<lambda>l.
     rbind (slice_at entry 2 (from_le l)) (\<lambda>key. Inr (entry, key))))"

function descend_search :: "page \<Rightarrow> byte list \<Rightarrow> nat \<Rightarrow> nat \<Rightarrow> StorageError + nat" where
  "descend_search pg key lo hi =
     (if lo < hi
      then let mid = lo + (hi - lo) div 2
           in if \<not> is_slot_used pg mid then descend_search pg key lo mid
              else rbind (entry_at pg mid) (\<lambda>(entry, sep).
                     if sep \<le> key then descend_search pg key (mid + 1) hi else descend_search pg key lo mid)
      else Inr lo)"
  by pat_completeness auto
termination by (relation "measure (\<lambda>(_, _, lo, hi). hi - lo)") auto

declare descend_search.simps [simp del]

definition descend_node :: "page \<Rightarrow> byte list \<Rightarrow> StorageError + nat" where
  "descend_node pg key =
     (if slot_count pg = 0 then Inr (btree_leftmost_child pg)
      else rbind (descend_search pg key 0 (slot_count pg)) (\<lambda>lo.
             if lo = 0 then Inr (btree_leftmost_child pg)
             else rbind (entry_at pg (lo - 1)) (\<lambda>(entry, sep).
                    rbind (slice_at entry (2 + length sep) 8) (\<lambda>c. Inr (from_le c)))))"

fun find_in_slots :: "page \<Rightarrow> byte list \<Rightarrow> nat list \<Rightarrow> StorageError + TupleId option" where
  "find_in_slots pg key [] = Inr None"
| "find_in_slots pg key (i # is) =
     (if \<not> is_slot_used pg i then find_in_slots pg key is
      else rbind (entry_at pg i) (\<lambda>(entry, existing).
             if existing = key
             then rbind (slice_at entry (2 + length existing) 8) (\<lambda>pid.
                  rbind (slice_at entry (2 + length existing + 8) 2) (\<lambda>sid.
                    Inr (Some \<lparr>tid_page_id = from_le pid, tid_slot_id = from_le sid\<rparr>)))
             else if existing > key then Inr None
             else find_in_slots pg key is))"

definition find_in_leaf :: "page \<Rightarrow> byte list \<Rightarrow> StorageError + TupleId option" where
  "find_in_leaf pg key = find_in_slots pg key [0 ..< slot_count pg]"

fun insert_pos :: "page \<Rightarrow> byte list \<Rightarrow> nat list \<Rightarrow> StorageError + nat" where
  "insert_pos pg key [] = Inr (slot_count pg)"
| "insert_pos pg key (i # is) =
     (if \<not> is_slot_used pg i then insert_pos pg key is
      else rbind (entry_at pg i) (\<lambda>(entry, k). if k > key then Inr i else insert_pos pg key is))"

definition leaf_insert_pos :: "page \<Rightarrow> byte list \<Rightarrow> StorageError + nat" where
  "leaf_insert_pos pg key = insert_pos pg key [0 ..< slot_count pg]"

definition internal_insert_pos :: "page \<Rightarrow> byte list \<Rightarrow> StorageError + nat" where
  "internal_insert_pos pg key = insert_pos pg key [0 ..< slot_count pg]"

fun collect_entries :: "(byte list \<Rightarrow> StorageError + 'a) \<Rightarrow> page \<Rightarrow> nat list \<Rightarrow> StorageError + 'a list" where
  "collect_entries decode pg [] = Inr []"
| "collect_entries decode pg (i # is) =
     (if \<not> is_slot_used pg i then collect_entries decode pg is
      else rbind (unwrap (get_tuple pg i)) (\<lambda>entry.
           rbind (unwrap (decode entry)) (\<lambda>x.
           rbind (collect_entries decode pg is) (\<lambda>xs. Inr (x # xs)))))"

definition collect_leaf_entries :: "page \<Rightarrow> StorageError + (byte list \<times> TupleId) list" where
  "collect_leaf_entries pg = collect_entries decode_leaf_entry pg [0 ..< slot_count pg]"

definition collect_internal_entries :: "page \<Rightarrow> StorageError + (byte list \<times> nat) list" where
  "collect_internal_entries pg = collect_entries decode_internal_entry pg [0 ..< slot_count pg]"

section \<open>Insertion\<close>

definition is_leaf :: "page \<Rightarrow> bool" where
  "is_leaf pg \<longleftrightarrow> btree_flags pg AND BTREE_FLAG_IS_LEAF \<noteq> 0"

text \<open>\<^verbatim>\<open>flags & !mask\<close> on \<^verbatim>\<open>u16\<close>.\<close>

definition clear_flag :: "nat \<Rightarrow> nat \<Rightarrow> nat" where
  "clear_flag flags fl = flags AND (0xFFFF XOR fl)"

text \<open>\<^verbatim>\<open>all.partition_point(|(k, _)| k <= key)\<close>, whose argument has the entries up to the key in front.\<close>

definition key_point :: "byte list \<Rightarrow> (byte list \<times> 'a) list \<Rightarrow> nat" where
  "key_point key all = length (takeWhile (\<lambda>(k, _). k \<le> key) all)"

fun append_entries :: "nat \<Rightarrow> byte list list \<Rightarrow> unit pool_io" where
  "append_entries fid [] = preturn ()"
| "append_entries fid (e # es) =
     pbind (trying fid (\<lambda>pg. insert_tuple_at pg (slot_count pg) e)) (\<lambda>_. append_entries fid es)"

definition rewrite_leaf :: "nat \<Rightarrow> nat \<Rightarrow> (byte list \<times> TupleId) list \<Rightarrow> nat pool_io" where
  "rewrite_leaf pid new_page_id es =
     pbind (fetch pid) (\<lambda>fid.
     pbind (reading fid (\<lambda>pg. Inr (btree_next_page pg))) (\<lambda>old_next.
     pbind (reading fid (\<lambda>pg. Inr (btree_flags pg))) (\<lambda>old_flags.
     pbind (changing fid clear_tuples) (\<lambda>_.
     pbind (changing fid (\<lambda>pg. set_btree_flags pg (clear_flag old_flags BTREE_FLAG_IS_RIGHTMOST))) (\<lambda>_.
     pbind (changing fid (\<lambda>pg. set_btree_next_page pg new_page_id)) (\<lambda>_.
     pbind (append_entries fid (map (\<lambda>(k, t). encode_leaf_entry k t) es)) (\<lambda>_.
     pbind (unpin pid True) (\<lambda>_. preturn old_next))))))))"

definition fill_leaf :: "nat \<Rightarrow> nat \<Rightarrow> nat \<Rightarrow> nat \<Rightarrow> (byte list \<times> TupleId) list \<Rightarrow> unit pool_io" where
  "fill_leaf new_page_id new_fid pid old_next es =
     pbind (changing new_fid (\<lambda>pg. init_btree_page pg True False)) (\<lambda>_.
     pbind (changing new_fid (\<lambda>pg. set_btree_prev_page pg pid)) (\<lambda>_.
     pbind (changing new_fid (\<lambda>pg. set_btree_next_page pg old_next)) (\<lambda>_.
     pbind (append_entries new_fid (map (\<lambda>(k, t). encode_leaf_entry k t) es)) (\<lambda>_.
     unpin new_page_id True))))"

definition relink_next :: "nat \<Rightarrow> nat \<Rightarrow> unit pool_io" where
  "relink_next old_next new_page_id =
     (if old_next \<noteq> INVALID_PAGE_ID
      then pbind (fetch old_next) (\<lambda>on_fid.
           pbind (changing on_fid (\<lambda>pg. set_btree_prev_page pg new_page_id)) (\<lambda>_.
           unpin old_next True))
      else preturn ())"

definition leaf_insert :: "nat \<Rightarrow> byte list \<Rightarrow> TupleId \<Rightarrow> (byte list \<times> nat) option pool_io" where
  "leaf_insert pid key tid =
     (let entry = encode_leaf_entry key tid; needed = SLOT_SIZE + length entry in
      pbind (fetch pid) (\<lambda>fid.
      pbind (reading fid (\<lambda>pg. leaf_insert_pos pg key)) (\<lambda>pos.
      pbind (reading fid (\<lambda>pg. Inr (needed \<le> free_space pg))) (\<lambda>has_space.
      if has_space
      then pbind (trying fid (\<lambda>pg. insert_tuple_at pg pos entry)) (\<lambda>_.
           pbind (unpin pid True) (\<lambda>_. preturn None))
      else
        pbind (reading fid collect_leaf_entries) (\<lambda>existing.
        pbind (unpin pid False) (\<lambda>_.
        let all = insert_at (key_point key existing) (key, tid) existing;
            mid = length all div 2;
            separator_key = fst (all ! mid)
        in pbind new_page (\<lambda>(new_page_id, new_fid).
           pbind (rewrite_leaf pid new_page_id (take mid all)) (\<lambda>old_next.
           pbind (fill_leaf new_page_id new_fid pid old_next (drop mid all)) (\<lambda>_.
           pbind (relink_next old_next new_page_id) (\<lambda>_.
           preturn (Some (separator_key, new_page_id))))))))))))"

definition rewrite_internal :: "nat \<Rightarrow> nat \<Rightarrow> (byte list \<times> nat) list \<Rightarrow> unit pool_io" where
  "rewrite_internal pid leftmost es =
     pbind (fetch pid) (\<lambda>fid.
     pbind (changing fid clear_tuples) (\<lambda>_.
     pbind (changing fid (\<lambda>pg. set_btree_leftmost_child pg leftmost)) (\<lambda>_.
     pbind (append_entries fid (map (\<lambda>(k, c). encode_internal_entry k c) es)) (\<lambda>_.
     pbind (unpin pid True) (\<lambda>_. preturn ())))))"

definition fill_internal :: "nat \<Rightarrow> nat \<Rightarrow> (byte list \<times> nat) list \<Rightarrow> nat pool_io" where
  "fill_internal level leftmost es =
     pbind new_page (\<lambda>(new_page_id, new_fid).
     pbind (changing new_fid (\<lambda>pg. init_btree_page pg False False)) (\<lambda>_.
     pbind (changing new_fid (\<lambda>pg. set_btree_level pg level)) (\<lambda>_.
     pbind (changing new_fid (\<lambda>pg. set_btree_leftmost_child pg leftmost)) (\<lambda>_.
     pbind (append_entries new_fid (map (\<lambda>(k, c). encode_internal_entry k c) es)) (\<lambda>_.
     pbind (unpin new_page_id True) (\<lambda>_. preturn new_page_id))))))"

definition internal_insert :: "nat \<Rightarrow> byte list \<Rightarrow> nat \<Rightarrow> (byte list \<times> nat) option pool_io" where
  "internal_insert pid sep_key new_child =
     (let entry = encode_internal_entry sep_key new_child; needed = SLOT_SIZE + length entry in
      pbind (fetch pid) (\<lambda>fid.
      pbind (reading fid (\<lambda>pg. internal_insert_pos pg sep_key)) (\<lambda>pos.
      pbind (reading fid (\<lambda>pg. Inr (needed \<le> free_space pg))) (\<lambda>has_space.
      if has_space
      then pbind (trying fid (\<lambda>pg. insert_tuple_at pg pos entry)) (\<lambda>_.
           pbind (unpin pid True) (\<lambda>_. preturn None))
      else
        pbind (reading fid (\<lambda>pg. Inr (btree_leftmost_child pg))) (\<lambda>leftmost.
        pbind (reading fid (\<lambda>pg. Inr (btree_level pg))) (\<lambda>level.
        pbind (reading fid collect_internal_entries) (\<lambda>existing.
        pbind (unpin pid False) (\<lambda>_.
        let all = insert_at (key_point sep_key existing) (sep_key, new_child) existing;
            mid = length all div 2;
            push_up_key = fst (all ! mid);
            new_leftmost_right = snd (all ! mid)
        in pbind (rewrite_internal pid leftmost (take mid all)) (\<lambda>_.
           pbind (fill_internal level new_leftmost_right (drop (mid + 1) all)) (\<lambda>new_page_id.
           preturn (Some (push_up_key, new_page_id))))))))))))"

text \<open>The two short accesses of the recursion: the kind of the node, and the child to go on with.\<close>

definition node_is_leaf :: "nat \<Rightarrow> bool pool_io" where
  "node_is_leaf pid =
     pbind (fetch pid) (\<lambda>fid. pbind (reading fid (\<lambda>pg. Inr (is_leaf pg))) (\<lambda>b.
     pbind (unpin pid False) (\<lambda>_. preturn b)))"

definition child_of :: "nat \<Rightarrow> byte list \<Rightarrow> nat pool_io" where
  "child_of pid key =
     pbind (fetch pid) (\<lambda>fid. pbind (reading fid (\<lambda>pg. descend_node pg key)) (\<lambda>c.
     pbind (unpin pid False) (\<lambda>_. preturn c)))"

partial_function (option) insert_recursive ::
  "nat \<Rightarrow> byte list \<Rightarrow> TupleId \<Rightarrow> BufferPool \<Rightarrow> ((StorageError + (byte list \<times> nat) option) \<times> BufferPool) option" where
  "insert_recursive pid key tid p =
     (case node_is_leaf pid p of
        (Inl e, p1) \<Rightarrow> Some (Inl e, p1)
      | (Inr b, p1) \<Rightarrow>
          if b then Some (leaf_insert pid key tid p1)
          else (case child_of pid key p1 of
                  (Inl e, p2) \<Rightarrow> Some (Inl e, p2)
                | (Inr child, p2) \<Rightarrow>
                    Option.bind (insert_recursive child key tid p2) (\<lambda>(r, p3).
                      case r of
                        Inl e \<Rightarrow> Some (Inl e, p3)
                      | Inr None \<Rightarrow> Some (Inr None, p3)
                      | Inr (Some (sep_key, new_child)) \<Rightarrow> Some (internal_insert pid sep_key new_child p3))))"

declare insert_recursive.simps [code]

definition persist_root :: "BTree \<Rightarrow> unit pool_io" where
  "persist_root t =
     pbind (fetch (bt_meta_page_id t)) (\<lambda>fid.
     pbind (changing fid (\<lambda>pg. blit pg META_OFF_ROOT (to_le 8 (bt_root_page_id t)))) (\<lambda>_.
     pbind (unpin (bt_meta_page_id t) True) (\<lambda>_. preturn ())))"

text \<open>The part of \<^verbatim>\<open>insert\<close> after a split of the root, up to the change of \<^verbatim>\<open>self.root_page_id\<close>.\<close>

definition clear_root :: "nat \<Rightarrow> unit pool_io" where
  "clear_root root =
     pbind (fetch root) (\<lambda>fid.
     pbind (reading fid (\<lambda>pg. Inr (btree_flags pg))) (\<lambda>flags.
     pbind (changing fid (\<lambda>pg. set_btree_flags pg (clear_flag flags BTREE_FLAG_IS_ROOT))) (\<lambda>_.
     pbind (unpin root True) (\<lambda>_. preturn ()))))"

definition build_root :: "nat \<Rightarrow> nat \<Rightarrow> byte list \<Rightarrow> nat \<Rightarrow> nat pool_io" where
  "build_root old_root level sep_key new_page_id =
     pbind new_page (\<lambda>(new_root_id, new_root_fid).
     pbind (changing new_root_fid (\<lambda>pg. init_btree_page pg False True)) (\<lambda>_.
     pbind (changing new_root_fid (\<lambda>pg. set_btree_level pg ((level + 1) mod 2 ^ 16))) (\<lambda>_.
     pbind (changing new_root_fid (\<lambda>pg. set_btree_leftmost_child pg old_root)) (\<lambda>_.
     pbind (trying new_root_fid (\<lambda>pg. insert_tuple_at pg 0 (encode_internal_entry sep_key new_page_id))) (\<lambda>_.
     pbind (unpin new_root_id True) (\<lambda>_. preturn new_root_id))))))"

definition grow_root :: "nat \<Rightarrow> byte list \<Rightarrow> nat \<Rightarrow> nat pool_io" where
  "grow_root root sep_key new_page_id =
     pbind (fetch root) (\<lambda>fid. pbind (reading fid (\<lambda>pg. Inr (btree_level pg))) (\<lambda>level.
     pbind (unpin root False) (\<lambda>_.
     pbind (clear_root root) (\<lambda>_.
     build_root root level sep_key new_page_id))))"

definition btree_insert ::
  "BTree \<Rightarrow> byte list \<Rightarrow> TupleId \<Rightarrow> BufferPool \<Rightarrow> ((StorageError + unit) \<times> BTree \<times> BufferPool) option" where
  "btree_insert t key tid p =
     Option.bind (insert_recursive (bt_root_page_id t) key tid p) (\<lambda>(r, p1).
       case r of
         Inl e \<Rightarrow> Some (Inl e, t, p1)
       | Inr None \<Rightarrow> Some (Inr (), t, p1)
       | Inr (Some (sep_key, new_page_id)) \<Rightarrow>
           (case grow_root (bt_root_page_id t) sep_key new_page_id p1 of
              (Inl e, p2) \<Rightarrow> Some (Inl e, t, p2)
            | (Inr new_root_id, p2) \<Rightarrow>
                let t' = t\<lparr>bt_root_page_id := new_root_id\<rparr>; (r', p3) = persist_root t' p2
                in Some (r', t', p3)))"

section \<open>Creating, opening and reading\<close>

definition write_meta :: "nat \<Rightarrow> page \<Rightarrow> page" where
  "write_meta root d =
     (let d1 = blit d META_OFF_MAGIC (to_le 4 META_MAGIC);
          d2 = blit d1 META_OFF_ROOT (to_le 8 root);
          d3 = blit d2 META_OFF_HEIGHT (to_le 4 0)
      in blit d3 META_OFF_NENTRIES (to_le 8 0))"

definition btree_create :: "BTree pool_io" where
  "btree_create =
     pbind new_page (\<lambda>(meta_page_id, _).
     pbind new_page (\<lambda>(root_page_id, root_fid).
     pbind (changing root_fid (\<lambda>pg. init_btree_page pg True True)) (\<lambda>_.
     pbind (unpin root_page_id True) (\<lambda>_.
     pbind (fetch meta_page_id) (\<lambda>meta_fid.
     pbind (changing meta_fid (write_meta root_page_id)) (\<lambda>_.
     pbind (unpin meta_page_id True) (\<lambda>_.
     preturn \<lparr>bt_meta_page_id = meta_page_id, bt_root_page_id = root_page_id\<rparr>)))))))"

definition btree_open :: "nat \<Rightarrow> BTree pool_io" where
  "btree_open meta_page_id =
     pbind (fetch meta_page_id) (\<lambda>fid.
     pbind (reading fid (\<lambda>d. Inr (from_le (slice d META_OFF_MAGIC 4)))) (\<lambda>magic.
     if magic \<noteq> META_MAGIC
     then pbind (unpin meta_page_id False) (\<lambda>_. (\<lambda>p. (Inl Corruption, p)))
     else pbind (reading fid (\<lambda>d. Inr (from_le (slice d META_OFF_ROOT 8)))) (\<lambda>root_page_id.
          pbind (unpin meta_page_id False) (\<lambda>_.
          preturn \<lparr>bt_meta_page_id = meta_page_id, bt_root_page_id = root_page_id\<rparr>))))"

definition lookup_step :: "nat \<Rightarrow> byte list \<Rightarrow> (TupleId option + nat) pool_io" where
  \<comment> \<open>a turn of the loop of \<^verbatim>\<open>lookup\<close>: the answer, or the page to go on with\<close>
  "lookup_step pid key =
     pbind (fetch pid) (\<lambda>fid.
     pbind (reading fid (\<lambda>pg. if is_leaf pg then rbind (find_in_leaf pg key) (\<lambda>r. Inr (Inl r))
                              else rbind (descend_node pg key) (\<lambda>c. Inr (Inr c)))) (\<lambda>x.
     pbind (unpin pid False) (\<lambda>_. preturn x)))"

partial_function (option) lookup_loop ::
  "nat \<Rightarrow> byte list \<Rightarrow> BufferPool \<Rightarrow> ((StorageError + TupleId option) \<times> BufferPool) option" where
  "lookup_loop pid key p =
     (case lookup_step pid key p of
        (Inl e, q) \<Rightarrow> Some (Inl e, q)
      | (Inr x, q) \<Rightarrow> (case x of Inl r \<Rightarrow> Some (Inr r, q) | Inr child \<Rightarrow> lookup_loop child key q))"

declare lookup_loop.simps [code]

definition btree_lookup :: "BTree \<Rightarrow> byte list \<Rightarrow> BufferPool \<Rightarrow> ((StorageError + TupleId option) \<times> BufferPool) option" where
  "btree_lookup t key = lookup_loop (bt_root_page_id t) key"

definition leaf_step :: "nat \<Rightarrow> byte list \<Rightarrow> nat option pool_io" where
  \<comment> \<open>a turn of the first loop of \<^verbatim>\<open>range_scan\<close>: \<open>None\<close> at a leaf, or the page to go on with\<close>
  "leaf_step pid start =
     pbind (fetch pid) (\<lambda>fid.
     pbind (reading fid (\<lambda>pg. if is_leaf pg then Inr None else rbind (descend_node pg start) (\<lambda>c. Inr (Some c)))) (\<lambda>x.
     pbind (unpin pid False) (\<lambda>_. preturn x)))"

partial_function (option) leaf_loop :: "nat \<Rightarrow> byte list \<Rightarrow> BufferPool \<Rightarrow> ((StorageError + nat) \<times> BufferPool) option" where
  "leaf_loop pid start p =
     (case leaf_step pid start p of
        (Inl e, q) \<Rightarrow> Some (Inl e, q)
      | (Inr x, q) \<Rightarrow> (case x of None \<Rightarrow> Some (Inr pid, q) | Some child \<Rightarrow> leaf_loop child start q))"

declare leaf_loop.simps [code]

fun scan_leaf :: "page \<Rightarrow> byte list \<Rightarrow> byte list option \<Rightarrow> nat list \<Rightarrow> (byte list \<times> TupleId) list
    \<Rightarrow> StorageError + bool \<times> (byte list \<times> TupleId) list" where
  \<comment> \<open>the loop over the slots of a leaf: whether it left the outer loop, and the results\<close>
  "scan_leaf pg start fin [] results = Inr (False, results)"
| "scan_leaf pg start fin (i # is) results =
     (if \<not> is_slot_used pg i then scan_leaf pg start fin is results
      else rbind (get_tuple pg i) (\<lambda>d.
           rbind (decode_leaf_entry d) (\<lambda>(k, tid).
           if k < start then scan_leaf pg start fin is results
           else if (case fin of None \<Rightarrow> False | Some e \<Rightarrow> k \<ge> e) then Inr (True, results)
           else scan_leaf pg start fin is (results @ [(k, tid)]))))"

definition scan_step :: "nat \<Rightarrow> byte list \<Rightarrow> byte list option \<Rightarrow> (byte list \<times> TupleId) list
    \<Rightarrow> (nat option \<times> (byte list \<times> TupleId) list) pool_io" where
  \<comment> \<open>a turn of the second loop: the next leaf if the loop goes on, and the results\<close>
  "scan_step pid start fin results =
     pbind (fetch pid) (\<lambda>fid.
     pbind (reading fid (\<lambda>pg. rbind (scan_leaf pg start fin [0 ..< slot_count pg] results) (\<lambda>(stop, rs).
              Inr (if stop \<or> btree_next_page pg = INVALID_PAGE_ID then None else Some (btree_next_page pg), rs)))) (\<lambda>x.
     pbind (unpin pid False) (\<lambda>_. preturn x)))"

partial_function (option) scan_loop :: "nat \<Rightarrow> byte list \<Rightarrow> byte list option \<Rightarrow> (byte list \<times> TupleId) list
    \<Rightarrow> BufferPool \<Rightarrow> ((StorageError + (byte list \<times> TupleId) list) \<times> BufferPool) option" where
  "scan_loop pid start fin results p =
     (case scan_step pid start fin results p of
        (Inl e, q) \<Rightarrow> Some (Inl e, q)
      | (Inr x, q) \<Rightarrow> (case x of (nxt, rs) \<Rightarrow>
          (case nxt of None \<Rightarrow> Some (Inr rs, q) | Some pid' \<Rightarrow> scan_loop pid' start fin rs q)))"

declare scan_loop.simps [code]

definition range_scan :: "BTree \<Rightarrow> byte list \<Rightarrow> byte list option \<Rightarrow> BufferPool
    \<Rightarrow> ((StorageError + (byte list \<times> TupleId) list) \<times> BufferPool) option" where
  "range_scan t start fin p =
     Option.bind (leaf_loop (bt_root_page_id t) start p) (\<lambda>(r, p1).
       case r of Inl e \<Rightarrow> Some (Inl e, p1) | Inr pid \<Rightarrow> scan_loop pid start fin [] p1)"

end
