(* ===== verification/Btree_Page.thy ===== *)
theory Btree_Page
  imports Btree
begin

unbundle bit_operations_syntax

text \<open>
  The pages of a B+ tree as nodes: which entries a leaf or an inner page holds, what the navigation of
  \<^verbatim>\<open>crates/storage/src/btree.rs\<close> finds in them, and what its changes make of them.
\<close>

section \<open>Slots and trailer\<close>

definition tree_page :: "page \<Rightarrow> bool" where
  "tree_page pg \<longleftrightarrow> page_wf pg \<and> page_special pg = 8164"

lemma tree_pageD:
  assumes "tree_page p"
  shows tp_wf: "page_wf p" and tp_special: "page_special p = 8164" and tp_length: "length p = PAGE_SIZE"
    and tp_lower: "page_lower p = PAGE_HEADER_SIZE + SLOT_SIZE * slot_count p"
    and tp_bounds: "page_lower p \<le> page_upper p" "page_upper p \<le> 8164"
  using assms wf_length [of p] wf_lower [of p] wf_lower_upper [of p] wf_upper_special [of p] by (auto simp: tree_page_def)

lemma drop_blit: "i + length ys \<le> s \<Longrightarrow> i + length ys \<le> length xs \<Longrightarrow> drop s (blit xs i ys) = drop s xs"
  by (simp add: blit_def)

lemma drop_writes:
  "i + 2 \<le> s \<Longrightarrow> i + 2 \<le> length xs \<Longrightarrow> drop s (write_u16 xs i v) = drop s xs"
  by (simp add: write_u16_def drop_blit)

text \<open>A change of the trailer keeps the tuples, a change of the tuples keeps the trailer.\<close>

lemma trailer_write:
  assumes tp: "tree_page p" and o1: "8164 \<le> j" "j + length ys \<le> 8192"
  defines "q \<equiv> blit p j ys"
  shows "tree_page q" "tuples q = tuples p" "free_space q = free_space p" "slot_count q = slot_count p"
proof -
  note L = tp_length [OF tp]
  have reads: "read_u16 q i = read_u16 p i" if "i + 2 \<le> 8164" for i
    using that o1 L unfolding q_def by (intro read_blit) simp_all
  have len: "length q = PAGE_SIZE" using o1 L by (simp add: q_def)
  have sc: "slot_count q = slot_count p" by (simp add: slot_count_def page_lower_def reads)
  have hd: "page_lower q = page_lower p" "page_upper q = page_upper p" "page_special q = page_special p"
    by (simp_all add: page_lower_def page_upper_def page_special_def reads)
  have slot: "read_slot q i = read_slot p i" if "i < slot_count p" for i
    using that tp_lower [OF tp] tp_bounds [OF tp] by (simp add: read_slot_def reads)
  have sl: "slice q off n = slice p off n" if "off + n \<le> 8164" for off n
    using that o1 L unfolding q_def by (intro slice_blit_disjoint) simp_all
  have ok: "slot_ok q i" if "i < slot_count p" for i
    using wf_slot [OF tp_wf [OF tp] that] slot [OF that] hd by (simp add: slot_ok_def)
  have "tuple_at q i = tuple_at p i" if "i < slot_count p" for i
    using wf_slot [OF tp_wf [OF tp] that] slot [OF that] sl tp_special [OF tp]
    by (auto simp: tuple_at_def slot_ok_def split: prod.splits)
  then show "tuples q = tuples p" by (simp add: tuples_def sc)
  show "tree_page q"
    using len sc hd ok tp_lower [OF tp] tp_bounds [OF tp] tp_special [OF tp]
    by (simp add: tree_page_def page_wf_def)
  show "free_space q = free_space p" by (simp add: free_space_def hd)
  show "slot_count q = slot_count p" by (rule sc)
qed

lemma trailer_writes [simp]:
  assumes "tree_page p"
  shows "tree_page (set_btree_flags p v)" "tuples (set_btree_flags p v) = tuples p"
    "free_space (set_btree_flags p v) = free_space p"
    "tree_page (set_btree_level p v)" "tuples (set_btree_level p v) = tuples p"
    "free_space (set_btree_level p v) = free_space p"
    "tree_page (set_btree_prev_page p v)" "tuples (set_btree_prev_page p v) = tuples p"
    "free_space (set_btree_prev_page p v) = free_space p"
    "tree_page (set_btree_next_page p v)" "tuples (set_btree_next_page p v) = tuples p"
    "free_space (set_btree_next_page p v) = free_space p"
    "tree_page (set_btree_leftmost_child p v)" "tuples (set_btree_leftmost_child p v) = tuples p"
    "free_space (set_btree_leftmost_child p v) = free_space p"
  using trailer_write [OF assms]
  by (simp_all add: set_btree_flags_def set_btree_level_def set_btree_prev_page_def set_btree_next_page_def
      set_btree_leftmost_child_def tp_special [OF assms] write_u16_def write_u64_def)

lemmas trailer_defs = set_btree_flags_def set_btree_level_def set_btree_prev_page_def set_btree_next_page_def
  set_btree_leftmost_child_def btree_flags_def btree_level_def btree_next_page_def btree_leftmost_child_def

lemma trailer_sel:
  assumes "tree_page p"
  shows "btree_flags p = read_u16 p 8164" "btree_level p = read_u16 p 8166" "btree_next_page p = read_u64 p 8176"
    "btree_leftmost_child p = read_u64 p 8184"
  using tp_special [OF assms] by (simp_all add: trailer_defs)

lemma trailer_upd:
  assumes "tree_page p"
  shows "set_btree_flags p v = write_u16 p 8164 v" "set_btree_level p v = write_u16 p 8166 v"
    "set_btree_prev_page p v = write_u64 p 8168 v" "set_btree_next_page p v = write_u64 p 8176 v"
    "set_btree_leftmost_child p v = write_u64 p 8184 v"
  using tp_special [OF assms] by (simp_all add: trailer_defs)

lemma trailer_get_set [simp]:
  assumes "tree_page p"
  shows "v < 2 ^ 16 \<Longrightarrow> btree_flags (set_btree_flags p v) = v" "btree_next_page (set_btree_flags p v) = btree_next_page p"
    "btree_leftmost_child (set_btree_flags p v) = btree_leftmost_child p"
    "btree_flags (set_btree_level p v) = btree_flags p" "btree_next_page (set_btree_level p v) = btree_next_page p"
    "btree_leftmost_child (set_btree_level p v) = btree_leftmost_child p"
    "btree_flags (set_btree_prev_page p v) = btree_flags p" "btree_next_page (set_btree_prev_page p v) = btree_next_page p"
    "btree_leftmost_child (set_btree_prev_page p v) = btree_leftmost_child p"
    "btree_flags (set_btree_next_page p v) = btree_flags p" "v < 2 ^ 64 \<Longrightarrow> btree_next_page (set_btree_next_page p v) = v"
    "btree_leftmost_child (set_btree_next_page p v) = btree_leftmost_child p"
    "btree_flags (set_btree_leftmost_child p v) = btree_flags p"
    "btree_next_page (set_btree_leftmost_child p v) = btree_next_page p"
    "v < 2 ^ 64 \<Longrightarrow> btree_leftmost_child (set_btree_leftmost_child p v) = v"
  using assms
  by (simp_all add: trailer_sel trailer_upd [OF assms, symmetric])
    (simp_all add: trailer_upd [OF assms] tp_length buf_simps)

lemma trailer_cong:
  assumes "tree_page p" "tree_page q" "drop 8164 q = drop 8164 p"
  shows "btree_flags q = btree_flags p" "btree_level q = btree_level p" "btree_next_page q = btree_next_page p"
    "btree_leftmost_child q = btree_leftmost_child p"
proof -
  have "slice q (8164 + i) n = slice p (8164 + i) n" for i n
    using assms(3) unfolding slice_def by (metis add.commute drop_drop)
  from this [of 0] this [of 2] this [of 12] this [of 20]
  show "btree_flags q = btree_flags p" "btree_level q = btree_level p" "btree_next_page q = btree_next_page p"
    "btree_leftmost_child q = btree_leftmost_child p"
    using assms(1,2) by (simp_all add: trailer_sel read_u16_def read_u64_def)
qed

lemma insert_trailer:
  assumes tp: "tree_page p" and i: "insert_tuple_at p pos d = Inr (q, x)"
  shows "drop 8164 q = drop 8164 p"
proof -
  let ?u = "page_upper p - length d"
  note B = tp_bounds [OF tp] tp_lower [OF tp] tp_length [OF tp]
  have c: "SLOT_SIZE + length d \<le> free_space p" "pos \<le> slot_count p"
    using i by (auto simp: insert_tuple_at_def Let_def split: if_splits)
  then have c': "SLOT_SIZE + length d + page_lower p \<le> page_upper p" by (simp add: free_space_def)
  define q1 where "q1 = blit p ?u d"
  have q1: "length q1 = PAGE_SIZE" "drop 8164 q1 = drop 8164 p"
    using B c' by (simp_all add: q1_def drop_blit)
  define q2 where "q2 = (if pos < slot_count p then blit q1 (PAGE_HEADER_SIZE + pos * SLOT_SIZE + SLOT_SIZE)
      (slice q1 (PAGE_HEADER_SIZE + pos * SLOT_SIZE)
        (PAGE_HEADER_SIZE + slot_count p * SLOT_SIZE - (PAGE_HEADER_SIZE + pos * SLOT_SIZE))) else q1)"
  have q2: "length q2 = PAGE_SIZE" "drop 8164 q2 = drop 8164 p"
    using B c' q1 by (simp_all add: q2_def drop_blit)
  define q3 where "q3 = write_u16 (write_u16 q2 (PAGE_HEADER_SIZE + pos * SLOT_SIZE) ?u) (PAGE_HEADER_SIZE + pos * SLOT_SIZE + 2) (length d)"
  have q3: "length q3 = PAGE_SIZE" "drop 8164 q3 = drop 8164 p"
    using B c c' q2 by (simp_all add: q3_def drop_writes)
  have "insert_tuple_at p pos d = Inr (set_lower (set_upper q3 ?u) (page_lower (set_upper q3 ?u) + SLOT_SIZE), pos)"
    using c unfolding insert_tuple_at_def Let_def q3_def q2_def q1_def by simp
  then show ?thesis using i q3 by (simp add: set_lower_def set_upper_def drop_writes)
qed

lemma insert_tree_page:
  assumes tp: "tree_page p" and d: "SLOT_SIZE + length d \<le> free_space p" and pos: "pos \<le> slot_count p"
  obtains q where "insert_tuple_at p pos d = Inr (q, pos)" "tree_page q" "tuples q = insert_at pos (Some d) (tuples p)"
    "free_space q + (SLOT_SIZE + length d) = free_space p" "btree_flags q = btree_flags p"
    "btree_next_page q = btree_next_page p" "btree_leftmost_child q = btree_leftmost_child p"
proof -
  obtain q where q: "insert_tuple_at p pos d = Inr (q, pos)" "page_wf q" "tuples q = insert_at pos (Some d) (tuples p)"
    "free_space q = free_space p - (SLOT_SIZE + length d)" "page_special q = page_special p"
    using insert_tuple_at_ok [OF tp_wf [OF tp] d pos] by blast
  have tq: "tree_page q" using q tp by (simp add: tree_page_def)
  show ?thesis
    using that [OF q(1) tq q(3)] q(4) d trailer_cong [OF tp tq insert_trailer [OF tp q(1)]] by simp
qed

lemma clear_tree_page:
  assumes tp: "tree_page p"
  shows "tree_page (clear_tuples p)" "tuples (clear_tuples p) = []" "free_space (clear_tuples p) = 8116"
    "btree_flags (clear_tuples p) = btree_flags p" "btree_next_page (clear_tuples p) = btree_next_page p"
    "btree_leftmost_child (clear_tuples p) = btree_leftmost_child p"
proof -
  have c: "page_wf (clear_tuples p)" "tuples (clear_tuples p) = []"
    "free_space (clear_tuples p) = page_special p - PAGE_HEADER_SIZE" "page_special (clear_tuples p) = page_special p"
    using clear_tuples_ok [OF tp_wf [OF tp]] by auto
  then show tq: "tree_page (clear_tuples p)" "tuples (clear_tuples p) = []" "free_space (clear_tuples p) = 8116"
    using tp_special [OF tp] by (simp_all add: tree_page_def)
  define q where "q = blit p PAGE_HEADER_SIZE (replicate (page_special p - PAGE_HEADER_SIZE) 0)"
  have q: "length q = PAGE_SIZE" "drop 8164 q = drop 8164 p"
    using tp_special [OF tp] tp_length [OF tp] by (simp_all add: q_def drop_blit)
  have "drop 8164 (clear_tuples p) = drop 8164 p"
    using q by (simp add: clear_tuples_def Let_def q_def [symmetric] set_lower_def set_upper_def drop_writes)
  from trailer_cong [OF tp tq(1) this]
  show "btree_flags (clear_tuples p) = btree_flags p" "btree_next_page (clear_tuples p) = btree_next_page p"
    "btree_leftmost_child (clear_tuples p) = btree_leftmost_child p" by simp_all
qed

lemma init_tree_page:
  fixes leaf root :: bool and i :: nat
  defines "q \<equiv> init_btree_page (page_new i) leaf root"
  shows "tree_page q" "tuples q = []" "free_space q = 8116" "slot_count q = 0" "is_leaf q = leaf"
proof -
  let ?fl = "((if root then BTREE_FLAG_IS_ROOT else 0) OR (if leaf then BTREE_FLAG_IS_LEAF else 0)) OR BTREE_FLAG_IS_RIGHTMOST :: nat"
  have fl: "?fl < 2 ^ 16" "?fl AND BTREE_FLAG_IS_LEAF \<noteq> 0 \<longleftrightarrow> leaf" by (cases leaf; cases root; simp)+
  have sel: "length q = PAGE_SIZE" "page_lower q = 48" "page_upper q = 8164" "page_special q = 8164"
    "read_u16 q 8164 = ?fl"
    using fl(1) by (simp_all add: q_def init_btree_page_def Let_def header_defs buf_simps)
  then have wf: "page_wf q \<and> slot_count q = 0" by (intro page_wfI) simp_all
  then show tp: "tree_page q" "slot_count q = 0" using sel by (simp_all add: tree_page_def)
  then show "tuples q = []" by (simp add: tuples_def)
  show "free_space q = 8116" using sel by (simp add: free_space_def)
  show "is_leaf q = leaf" using fl(2) sel(5) tp(1) by (simp add: is_leaf_def trailer_sel)
qed

section \<open>Nodes\<close>

text \<open>Keys of up to 200 bytes: with them the two halves of a full page always fit into a page each.\<close>

definition key_ok :: "byte list \<Rightarrow> bool" where
  "key_ok k \<longleftrightarrow> length k \<le> 200"

definition tid_ok :: "TupleId \<Rightarrow> bool" where
  "tid_ok t \<longleftrightarrow> tid_page_id t < 2 ^ 64 \<and> tid_slot_id t < 2 ^ 16"

definition leaf_bytes :: "byte list \<times> TupleId \<Rightarrow> byte list" where
  "leaf_bytes = (\<lambda>(k, t). encode_leaf_entry k t)"

definition node_bytes :: "byte list \<times> nat \<Rightarrow> byte list" where
  "node_bytes = (\<lambda>(k, c). encode_internal_entry k c)"

definition used :: "('a \<Rightarrow> byte list) \<Rightarrow> 'a list \<Rightarrow> nat" where
  "used enc es = sum_list (map (\<lambda>e. SLOT_SIZE + length (enc e)) es)"

definition leaf_page :: "page \<Rightarrow> (byte list \<times> TupleId) list \<Rightarrow> nat \<Rightarrow> bool" where
  "leaf_page pg es nxt \<longleftrightarrow> tree_page pg \<and> is_leaf pg \<and> tuples pg = map (Some \<circ> leaf_bytes) es \<and>
     free_space pg + used leaf_bytes es = 8116 \<and> btree_next_page pg = nxt \<and>
     list_all (\<lambda>e. key_ok (fst e) \<and> tid_ok (snd e)) es"

definition node_page :: "page \<Rightarrow> nat \<Rightarrow> (byte list \<times> nat) list \<Rightarrow> bool" where
  "node_page pg c es \<longleftrightarrow> tree_page pg \<and> \<not> is_leaf pg \<and> tuples pg = map (Some \<circ> node_bytes) es \<and>
     free_space pg + used node_bytes es = 8116 \<and> btree_leftmost_child pg = c \<and>
     list_all (\<lambda>e. key_ok (fst e) \<and> snd e < 2 ^ 64) es"

lemma leaf_bytes_length [simp]: "length (leaf_bytes (k, t)) = 12 + length k"
  by (simp add: leaf_bytes_def encode_leaf_entry_def)

lemma node_bytes_length [simp]: "length (node_bytes (k, c)) = 10 + length k"
  by (simp add: node_bytes_def encode_internal_entry_def)

lemma used_simps [simp]: "used enc [] = 0" "used enc (e # es) = SLOT_SIZE + length (enc e) + used enc es"
  "used enc (es @ fs) = used enc es + used enc fs"
  by (simp_all add: used_def)

lemma used_insert_at: "i \<le> length es \<Longrightarrow> used enc (insert_at i e es) = SLOT_SIZE + length (enc e) + used enc es"
  using used_simps(3) [of enc "take i es" "drop i es"] by (simp add: insert_at_def)

text \<open>Reading the slots of a page whose entries are known by their keys.\<close>

definition keyed :: "page \<Rightarrow> byte list list \<Rightarrow> bool" where
  "keyed pg ks \<longleftrightarrow> slot_count pg = length ks \<and>
     (\<forall>i < length ks. is_slot_used pg i \<and> (\<exists>e. entry_at pg i = Inr (e, ks ! i)))"

lemma entry_at_tuple:
  assumes wf: "page_wf pg" and i: "i < slot_count pg" and t: "tuples pg ! i = Some (to_le 2 (length k) @ k @ rest)"
    and k: "length k < 2 ^ 16"
  shows "is_slot_used pg i" "entry_at pg i = Inr (to_le 2 (length k) @ k @ rest, k)"
    "get_tuple pg i = Inr (to_le 2 (length k) @ k @ rest)"
proof -
  show g: "get_tuple pg i = Inr (to_le 2 (length k) @ k @ rest)" using get_tuple_tuples [OF wf, of i] i t by simp
  show "is_slot_used pg i" using i t by (simp add: is_slot_used_tuples)
  show "entry_at pg i = Inr (to_le 2 (length k) @ k @ rest, k)"
    using k by (simp add: entry_at_def g unwrap_def slice_at_def slice_def)
qed

lemma leaf_entry:
  assumes "leaf_page pg es nxt" "i < length es"
  shows "is_slot_used pg i" "entry_at pg i = Inr (leaf_bytes (es ! i), fst (es ! i))"
    "get_tuple pg i = Inr (leaf_bytes (es ! i))"
proof -
  have L: "page_wf pg" "tuples pg = map (Some \<circ> leaf_bytes) es" "length (fst (es ! i)) < 2 ^ 16"
    using assms by (auto simp: leaf_page_def tree_page_def list_all_length key_ok_def)
  have sc: "slot_count pg = length es" using L(2) length_tuples [of pg] by simp
  have t: "tuples pg ! i = Some (to_le 2 (length (fst (es ! i))) @ fst (es ! i) @
      (to_le 8 (tid_page_id (snd (es ! i))) @ to_le 2 (tid_slot_id (snd (es ! i)))))"
    using L(2) assms(2) by (simp add: leaf_bytes_def encode_leaf_entry_def case_prod_unfold)
  have b: "leaf_bytes (es ! i) = to_le 2 (length (fst (es ! i))) @ fst (es ! i) @
      (to_le 8 (tid_page_id (snd (es ! i))) @ to_le 2 (tid_slot_id (snd (es ! i))))"
    by (simp add: leaf_bytes_def encode_leaf_entry_def case_prod_unfold)
  show "is_slot_used pg i" "entry_at pg i = Inr (leaf_bytes (es ! i), fst (es ! i))"
    "get_tuple pg i = Inr (leaf_bytes (es ! i))"
    using entry_at_tuple [OF L(1) _ t L(3)] assms(2) sc unfolding b by simp_all
qed

lemma node_entry:
  assumes "node_page pg c es" "i < length es"
  shows "is_slot_used pg i" "entry_at pg i = Inr (node_bytes (es ! i), fst (es ! i))"
    "get_tuple pg i = Inr (node_bytes (es ! i))"
proof -
  have L: "page_wf pg" "tuples pg = map (Some \<circ> node_bytes) es" "length (fst (es ! i)) < 2 ^ 16"
    using assms by (auto simp: node_page_def tree_page_def list_all_length key_ok_def)
  have sc: "slot_count pg = length es" using L(2) length_tuples [of pg] by simp
  have t: "tuples pg ! i = Some (to_le 2 (length (fst (es ! i))) @ fst (es ! i) @ to_le 8 (snd (es ! i)))"
    using L(2) assms(2) by (simp add: node_bytes_def encode_internal_entry_def case_prod_unfold)
  have b: "node_bytes (es ! i) = to_le 2 (length (fst (es ! i))) @ fst (es ! i) @ to_le 8 (snd (es ! i))"
    by (simp add: node_bytes_def encode_internal_entry_def case_prod_unfold)
  show "is_slot_used pg i" "entry_at pg i = Inr (node_bytes (es ! i), fst (es ! i))"
    "get_tuple pg i = Inr (node_bytes (es ! i))"
    using entry_at_tuple [OF L(1) _ t L(3)] assms(2) sc unfolding b by simp_all
qed

lemma leaf_slots: "leaf_page pg es nxt \<Longrightarrow> slot_count pg = length es"
  using length_tuples [of pg] by (simp add: leaf_page_def)

lemma node_slots: "node_page pg c es \<Longrightarrow> slot_count pg = length es"
  using length_tuples [of pg] by (simp add: node_page_def)

lemma leaf_keyed: "leaf_page pg es nxt \<Longrightarrow> keyed pg (map fst es)"
  using leaf_entry(1,2) leaf_slots by (auto simp: keyed_def)

lemma node_keyed: "node_page pg c es \<Longrightarrow> keyed pg (map fst es)"
  using node_entry(1,2) node_slots by (auto simp: keyed_def)

section \<open>Searching\<close>

lemma takeWhile_le_nth:
  fixes ks :: "'a::linorder list"
  assumes "sorted ks" "i < length ks"
  shows "ks ! i \<le> key \<longleftrightarrow> i < length (takeWhile (\<lambda>k. k \<le> key) ks)"
proof
  assume "ks ! i \<le> key"
  then have "\<forall>j \<le> i. ks ! j \<le> key" using assms by (meson order_trans sorted_nth_mono)
  then show "i < length (takeWhile (\<lambda>k. k \<le> key) ks)"
    using assms(2) length_takeWhile_less_P_nth [of "Suc i" "\<lambda>k. k \<le> key" ks] by (simp add: less_Suc_eq_le Suc_le_eq)
next
  assume "i < length (takeWhile (\<lambda>k. k \<le> key) ks)"
  then show "ks ! i \<le> key" using takeWhile_nth [of i "\<lambda>k. k \<le> key" ks] nth_mem [of i "takeWhile (\<lambda>k. k \<le> key) ks"]
      set_takeWhileD [of "ks ! i" "\<lambda>k. k \<le> key" ks] by simp
qed

lemma insert_pos_keyed:
  assumes K: "keyed pg ks" and j: "j \<le> length ks"
  shows "insert_pos pg key [j ..< length ks] = Inr (j + length (takeWhile (\<lambda>k. k \<le> key) (drop j ks)))"
  using j
proof (induction "length ks - j" arbitrary: j)
  case 0
  then show ?case using K by (simp add: keyed_def)
next
  case (Suc n)
  then have j: "j < length ks" by simp
  then obtain e where e: "is_slot_used pg j" "entry_at pg j = Inr (e, ks ! j)" using K by (auto simp: keyed_def)
  have "[j ..< length ks] = j # [Suc j ..< length ks]" "drop j ks = ks ! j # drop (Suc j) ks"
    using j by (simp_all add: upt_conv_Cons Cons_nth_drop_Suc)
  then show ?case using e Suc(1) [of "Suc j"] Suc(2) j by (simp add: not_less)
qed

lemma descend_search_keyed:
  assumes K: "keyed pg ks" and s: "sorted ks"
    and b: "lo \<le> length (takeWhile (\<lambda>k. k \<le> key) ks)" "length (takeWhile (\<lambda>k. k \<le> key) ks) \<le> hi" "hi \<le> length ks"
  shows "descend_search pg key lo hi = Inr (length (takeWhile (\<lambda>k. k \<le> key) ks))"
  using b
proof (induction "hi - lo" arbitrary: lo hi rule: less_induct)
  case less
  let ?t = "length (takeWhile (\<lambda>k. k \<le> key) ks)" and ?mid = "lo + (hi - lo) div 2"
  show ?case
  proof (cases "lo < hi")
    case True
    then have m: "?mid < length ks" "lo \<le> ?mid" "?mid < hi" using less.prems by auto
    obtain e where e: "is_slot_used pg ?mid" "entry_at pg ?mid = Inr (e, ks ! ?mid)" using K m(1) by (auto simp: keyed_def)
    note n = takeWhile_le_nth [OF s m(1), of key]
    have "descend_search pg key (?mid + 1) hi = Inr ?t" if "?mid < ?t"
      using that less.prems m by (intro less.hyps) simp_all
    moreover have "descend_search pg key lo ?mid = Inr ?t" if "\<not> ?mid < ?t"
      using that less.prems m by (intro less.hyps) simp_all
    ultimately show ?thesis using e n True by (subst descend_search.simps) (simp add: Let_def)
  next
    case False
    then show ?thesis using less.prems by (subst descend_search.simps) simp
  qed
qed

lemma descend_node_ok:
  assumes P: "node_page pg c es" and s: "sorted (map fst es)"
  shows "descend_node pg key = Inr ((c # map snd es) ! length (takeWhile (\<lambda>k. k \<le> key) (map fst es)))"
proof -
  let ?t = "length (takeWhile (\<lambda>k. k \<le> key) (map fst es))"
  note K = node_keyed [OF P]
  have c: "btree_leftmost_child pg = c" using P by (simp add: node_page_def)
  show ?thesis
  proof (cases "?t = 0")
    case True
    then show ?thesis
      using descend_search_keyed [OF K s, of 0 key "length es"] c node_slots [OF P]
      by (simp add: descend_node_def)
  next
    case False
    have le: "?t \<le> length es" using length_takeWhile_le [of "\<lambda>k. k \<le> key" "map fst es"] by simp
    with False have i: "?t - 1 < length es" by linarith
    obtain k d where kd: "es ! (?t - 1) = (k, d)" by (cases "es ! (?t - 1)")
    have ok: "length k < 2 ^ 16" "d < 2 ^ 64"
      using P i kd by (auto simp: node_page_def list_all_length key_ok_def)
    have "slice_at (node_bytes (k, d)) (2 + length k) 8 = Inr (to_le 8 d)"
      by (simp add: slice_at_def slice_def node_bytes_def encode_internal_entry_def)
    then have "descend_node pg key = Inr d"
      using descend_search_keyed [OF K s, of 0 key "length es"] node_slots [OF P] False i le kd ok(2)
        node_entry(2) [OF P i]
      by (auto simp: descend_node_def)
    moreover have "(c # map snd es) ! ?t = d" using False i kd by (cases ?t) simp_all
    ultimately show ?thesis by simp
  qed
qed

lemma find_in_leaf_ok:
  assumes P: "leaf_page pg es nxt" and s: "sorted_wrt (<) (map fst es)"
  shows "find_in_leaf pg key = Inr (map_of es key)"
proof -
  have "find_in_slots pg key [j ..< length es] = Inr (map_of (drop j es) key)" if "j \<le> length es" for j
    using that
  proof (induction "length es - j" arbitrary: j)
    case 0
    then show ?case by simp
  next
    case (Suc n)
    then have j: "j < length es" by simp
    obtain k t where kt: "es ! j = (k, t)" by (cases "es ! j")
    have ok: "tid_page_id t < 2 ^ 64" "tid_slot_id t < 2 ^ 16"
      using P j kt by (auto simp: leaf_page_def list_all_length tid_ok_def)
    have up: "[j ..< length es] = j # [Suc j ..< length es]" and dr: "drop j es = (k, t) # drop (Suc j) es"
      using j kt by (simp_all add: upt_conv_Cons Cons_nth_drop_Suc [symmetric])
    have sl: "slice_at (leaf_bytes (k, t)) (2 + length k) 8 = Inr (to_le 8 (tid_page_id t))"
      "slice_at (leaf_bytes (k, t)) (2 + length k + 8) 2 = Inr (to_le 2 (tid_slot_id t))"
      by (simp_all add: slice_at_def slice_def leaf_bytes_def encode_leaf_entry_def)
    have gt: "map_of (drop (Suc j) es) key = None" if "key < k"
    proof -
      have "key \<notin> fst ` set (drop (Suc j) es)"
        using sorted_wrt_drop [OF s, of j] that dr by (auto simp: drop_map)
      then show ?thesis by (simp add: map_of_eq_None_iff)
    qed
    show ?case
      using leaf_entry(1,2) [OF P j] kt sl gt Suc(1) [of "Suc j"] Suc(2) j ok
      unfolding up dr by auto
  qed
  from this [of 0] show ?thesis using leaf_slots [OF P] by (simp add: find_in_leaf_def)
qed

lemma leaf_insert_pos_ok: "leaf_page pg es nxt \<Longrightarrow> leaf_insert_pos pg key = Inr (length (takeWhile (\<lambda>k. k \<le> key) (map fst es)))"
  using insert_pos_keyed [OF leaf_keyed, of pg es nxt 0 key] leaf_slots [of pg es nxt] by (simp add: leaf_insert_pos_def)

lemma internal_insert_pos_ok: "node_page pg c es \<Longrightarrow> internal_insert_pos pg key = Inr (length (takeWhile (\<lambda>k. k \<le> key) (map fst es)))"
  using insert_pos_keyed [OF node_keyed, of pg c es 0 key] node_slots [of pg c es] by (simp add: internal_insert_pos_def)

lemma decode_leaf_bytes: "key_ok k \<Longrightarrow> tid_ok t \<Longrightarrow> decode_leaf_entry (leaf_bytes (k, t)) = Inr (k, t)"
  by (cases t) (simp add: decode_leaf_entry_def leaf_bytes_def encode_leaf_entry_def key_ok_def tid_ok_def slice_def)

lemma decode_node_bytes: "key_ok k \<Longrightarrow> c < 2 ^ 64 \<Longrightarrow> decode_internal_entry (node_bytes (k, c)) = Inr (k, c)"
  by (simp add: decode_internal_entry_def node_bytes_def encode_internal_entry_def key_ok_def slice_def)

lemma collect_entries_ok:
  assumes "\<And>i. i < length es \<Longrightarrow> is_slot_used pg i \<and> get_tuple pg i = Inr (enc (es ! i)) \<and> dec (enc (es ! i)) = Inr (es ! i)"
    "j \<le> length es"
  shows "collect_entries dec pg [j ..< length es] = Inr (drop j es)"
  using assms(2)
proof (induction "length es - j" arbitrary: j)
  case 0
  then show ?case by simp
next
  case (Suc n)
  then have j: "j < length es" by simp
  have "[j ..< length es] = j # [Suc j ..< length es]" "drop j es = es ! j # drop (Suc j) es"
    using j by (simp_all add: upt_conv_Cons Cons_nth_drop_Suc)
  then show ?case using assms(1) [OF j] Suc(1) [of "Suc j"] Suc(2) j by (simp add: unwrap_def)
qed

lemma collect_leaf_ok:
  assumes P: "leaf_page pg es nxt"
  shows "collect_leaf_entries pg = Inr es"
proof -
  have "decode_leaf_entry (leaf_bytes (es ! i)) = Inr (es ! i)" if "i < length es" for i
    using decode_leaf_bytes [of "fst (es ! i)" "snd (es ! i)"] P that by (simp add: leaf_page_def list_all_length)
  then have "collect_entries decode_leaf_entry pg [0 ..< length es] = Inr (drop 0 es)"
    by (intro collect_entries_ok [where enc = leaf_bytes]) (use leaf_entry [OF P] in auto)
  then show ?thesis using leaf_slots [OF P] by (simp add: collect_leaf_entries_def)
qed

lemma collect_internal_ok:
  assumes P: "node_page pg c es"
  shows "collect_internal_entries pg = Inr es"
proof -
  have "decode_internal_entry (node_bytes (es ! i)) = Inr (es ! i)" if "i < length es" for i
    using decode_node_bytes [of "fst (es ! i)" "snd (es ! i)"] P that by (simp add: node_page_def list_all_length)
  then have "collect_entries decode_internal_entry pg [0 ..< length es] = Inr (drop 0 es)"
    by (intro collect_entries_ok [where enc = node_bytes]) (use node_entry [OF P] in auto)
  then show ?thesis using node_slots [OF P] by (simp add: collect_internal_entries_def)
qed

text \<open>The scan of a leaf: the entries from \<open>start\<close> on, up to the first at or above the end.\<close>

definition below :: "byte list \<Rightarrow> byte list option \<Rightarrow> bool" where
  "below k hi \<longleftrightarrow> (case hi of None \<Rightarrow> True | Some h \<Rightarrow> k < h)"

lemma scan_leaf_ok:
  fixes start :: "byte list"
  assumes P: "leaf_page pg es nxt" and j: "j \<le> length es"
  defines "xs i \<equiv> filter (\<lambda>e. start \<le> fst e) (drop i es)"
  shows "scan_leaf pg start fin [j ..< length es] rs =
    Inr (\<not> list_all (\<lambda>e. below (fst e) fin) (xs j), rs @ takeWhile (\<lambda>e. below (fst e) fin) (xs j))"
  using j
proof (induction "length es - j" arbitrary: j rs)
  case 0
  then show ?case by (simp add: xs_def)
next
  case (Suc n)
  then have j: "j < length es" by simp
  obtain k t where kt: "es ! j = (k, t)" by (cases "es ! j")
  have up: "[j ..< length es] = j # [Suc j ..< length es]" and dr: "drop j es = (k, t) # drop (Suc j) es"
    using j kt by (simp_all add: upt_conv_Cons Cons_nth_drop_Suc [symmetric])
  have dec: "decode_leaf_entry (leaf_bytes (k, t)) = Inr (k, t)"
    using decode_leaf_bytes [of k t] P j kt by (auto simp: leaf_page_def list_all_length)
  have xs: "xs j = (if start \<le> k then (k, t) # xs (Suc j) else xs (Suc j))" by (simp add: xs_def dr)
  have b: "(case fin of None \<Rightarrow> False | Some e \<Rightarrow> k \<ge> e) \<longleftrightarrow> \<not> below k fin" by (auto simp: below_def split: option.split)
  have ih: "scan_leaf pg start fin [Suc j ..< length es] rs' =
      Inr (\<not> list_all (\<lambda>e. below (fst e) fin) (xs (Suc j)), rs' @ takeWhile (\<lambda>e. below (fst e) fin) (xs (Suc j)))" for rs'
    using Suc(1) [of "Suc j" rs'] Suc(2) j by simp
  have "scan_leaf pg start fin [j ..< length es] rs =
      (if k < start then scan_leaf pg start fin [Suc j ..< length es] rs
       else if \<not> below k fin then Inr (True, rs) else scan_leaf pg start fin [Suc j ..< length es] (rs @ [(k, t)]))"
    using leaf_entry(1,3) [OF P j] kt dec b unfolding up by simp
  then show ?case unfolding xs ih by (auto simp: not_less)
qed

end
