(* ===== verification/Btree_Pool.thy ===== *)
theory Btree_Pool
  imports Btree_Page
begin

unbundle bit_operations_syntax

text \<open>
  The steps of an insertion into a B+ tree on the pages of the buffer pool: what
  \<^verbatim>\<open>leaf_insert\<close> and \<^verbatim>\<open>internal_insert\<close> of \<^verbatim>\<open>crates/storage/src/btree.rs\<close> make of the nodes, with and without a
  split. No step fails while two frames of the pool are to spare.
\<close>

section \<open>Filling a page\<close>

definition filled :: "('a \<Rightarrow> byte list) \<Rightarrow> 'a list \<Rightarrow> page \<Rightarrow> bool" where
  "filled enc es pg \<longleftrightarrow> tree_page pg \<and> tuples pg = map (Some \<circ> enc) es \<and> free_space pg + used enc es = 8116"

definition same_trailer :: "page \<Rightarrow> page \<Rightarrow> bool" where
  "same_trailer p q \<longleftrightarrow> btree_flags q = btree_flags p \<and> btree_next_page q = btree_next_page p \<and>
     btree_leftmost_child q = btree_leftmost_child p"

lemma filled_insert:
  assumes f: "filled enc es pg" and i: "i \<le> length es" and u: "used enc es + SLOT_SIZE + length (enc e) \<le> 8116"
  obtains pg' where "insert_tuple_at pg i (enc e) = Inr (pg', i)" "filled enc (insert_at i e es) pg'" "same_trailer pg pg'"
proof -
  have P: "tree_page pg" "tuples pg = map (Some \<circ> enc) es" "free_space pg + used enc es = 8116"
    using f by (auto simp: filled_def)
  have sc: "slot_count pg = length es" using P(2) length_tuples [of pg] by simp
  have d: "SLOT_SIZE + length (enc e) \<le> free_space pg" using P(3) u by simp
  obtain q where q: "insert_tuple_at pg i (enc e) = Inr (q, i)" "tree_page q" "tuples q = insert_at i (Some (enc e)) (tuples pg)"
    "free_space q + (SLOT_SIZE + length (enc e)) = free_space pg" "btree_flags q = btree_flags pg"
    "btree_next_page q = btree_next_page pg" "btree_leftmost_child q = btree_leftmost_child pg"
    by (rule insert_tree_page [OF P(1) d]) (use i sc in auto)
  moreover have "tuples q = map (Some \<circ> enc) (insert_at i e es)"
    using q(3) P(2) by (simp add: insert_at_def take_map drop_map)
  moreover have "free_space q + used enc (insert_at i e es) = 8116"
    using q(4) P(3) used_insert_at [OF i, of enc e] by simp
  ultimately show ?thesis using that by (simp add: filled_def same_trailer_def)
qed

lemma insert_at_end: "insert_at (length xs) x xs = xs @ [x]"
  by (simp add: insert_at_def)

lemma succeeds_append:
  assumes "pool_at N k m n F D q" "F pid = Some (f, c)" "m pid = Some pg" "pid \<in> D" "filled enc es0 pg"
    "used enc es0 + used enc es \<le> 8116"
  shows "succeeds (append_entries f (map enc es)) q (\<lambda>_ r. \<exists>pg'. filled enc (es0 @ es) pg' \<and> same_trailer pg pg' \<and>
    pool_at N k (m(pid \<mapsto> pg')) n F D r)"
  using assms
proof (induction es arbitrary: es0 pg m q)
  case Nil
  have "m(pid \<mapsto> pg) = m" using Nil(3) by (rule fun_upd_idem)
  then have "\<exists>pg'. filled enc (es0 @ []) pg' \<and> same_trailer pg pg' \<and> pool_at N k (m(pid \<mapsto> pg')) n F D q"
    using Nil by (intro exI [of _ pg]) (simp add: same_trailer_def)
  then show ?case unfolding append_entries.simps list.map by (rule succeeds_return)
next
  case (Cons e es)
  have sc: "slot_count pg = length es0" using Cons.prems(5) length_tuples [of pg] by (simp add: filled_def)
  obtain pg1 where pg1: "insert_tuple_at pg (length es0) (enc e) = Inr (pg1, length es0)"
    "filled enc (insert_at (length es0) e es0) pg1" "same_trailer pg pg1"
    using filled_insert [OF Cons.prems(5), of "length es0" e] Cons.prems(6) by auto
  have len: "length pg1 = PAGE_SIZE" using pg1(2) by (simp add: filled_def tp_length)
  have ih: "succeeds (append_entries f (map enc es)) r (\<lambda>_ r. \<exists>pg'. filled enc (es0 @ e # es) pg' \<and> same_trailer pg pg' \<and>
      pool_at N k (m(pid \<mapsto> pg')) n F D r)" if r: "pool_at N k (m(pid \<mapsto> pg1)) n F D r" for r
    using succeeds_mono [OF Cons.IH [OF r Cons.prems(2) _ Cons.prems(4) pg1(2)]] pg1(3) Cons.prems(6)
    by (fastforce simp: insert_at_end same_trailer_def)
  have "succeeds (trying f (\<lambda>pg. insert_tuple_at pg (slot_count pg) (enc e))) q (\<lambda>_ r. succeeds (append_entries f (map enc es)) r
      (\<lambda>_ r. \<exists>pg'. filled enc (es0 @ e # es) pg' \<and> same_trailer pg pg' \<and> pool_at N k (m(pid \<mapsto> pg')) n F D r))"
    by (rule succeeds_trying [OF Cons.prems(1,2), of _ pg1 "length es0"])
      (use pg1(1) len ih Cons.prems(3,4) sc in \<open>simp_all add: insert_absorb\<close>)
  then show ?case unfolding append_entries.simps list.map by (rule succeeds_bind)
qed

section \<open>Changing one page\<close>

text \<open>A pinned page, of contents \<open>pg\<close>, on the way to its new contents.\<close>

definition editing :: "nat \<Rightarrow> nat \<Rightarrow> (nat \<Rightarrow> page option) \<Rightarrow> nat \<Rightarrow> pins \<Rightarrow> nat set \<Rightarrow> nat \<Rightarrow> nat \<Rightarrow> nat \<Rightarrow> page \<Rightarrow> BufferPool \<Rightarrow> bool" where
  "editing N k m n F D pid f c pg q \<longleftrightarrow> pool_at N k (m(pid \<mapsto> pg)) n F (insert pid D) q \<and> F pid = Some (f, c + 1)"

lemma pool_at_mono: "pool_at N k m n F D p \<Longrightarrow> D \<subseteq> D' \<Longrightarrow> pool_at N k m n F D' p"
  unfolding pool_at_def by blast

lemma edit_start:
  assumes "pool_at N k m n F D q" "F pid = Some (f, c + 1)" "m pid = Some pg"
  shows "editing N k m n F D pid f c pg q"
  using pool_at_mono [OF assms(1), of "insert pid D"] assms(2) fun_upd_idem [of m pid, OF assms(3)]
  by (auto simp: editing_def)

lemma edit_change:
  assumes e: "editing N k m n F D pid f c pg q" and g: "length (g pg) = PAGE_SIZE"
    and h: "\<And>r. editing N k m n F D pid f c (g pg) r \<Longrightarrow> succeeds h r Q"
  shows "succeeds (pbind (changing f g) (\<lambda>_. h)) q Q"
proof -
  have at: "pool_at N k (m(pid \<mapsto> pg)) n F (insert pid D) q" and F: "F pid = Some (f, c + 1)"
    using e by (auto simp: editing_def)
  have "succeeds (changing f g) q (\<lambda>_ r. succeeds h r Q)"
    by (rule succeeds_changing [OF at F]) (use g h F in \<open>simp_all add: editing_def\<close>)
  then show ?thesis by (rule succeeds_bind)
qed

lemma edit_read:
  assumes e: "editing N k m n F D pid f c pg q" and g: "g pg = Inr x" and h: "succeeds (h x) q Q"
  shows "succeeds (pbind (reading f g) h) q Q"
  using at_page [of N k "m(pid \<mapsto> pg)" n F "insert pid D" q pid f "c + 1"] e g h
  by (intro succeeds_bind succeeds_reading [where x = x]) (auto simp: editing_def)

lemma edit_try:
  assumes e: "editing N k m n F D pid f c pg q" and g: "g pg = Inr (pg', x)" "length pg' = PAGE_SIZE"
    and h: "\<And>r. editing N k m n F D pid f c pg' r \<Longrightarrow> succeeds (h x) r Q"
  shows "succeeds (pbind (trying f g) h) q Q"
proof -
  have at: "pool_at N k (m(pid \<mapsto> pg)) n F (insert pid D) q" and F: "F pid = Some (f, c + 1)"
    using e by (auto simp: editing_def)
  have "succeeds (trying f g) q (\<lambda>x r. succeeds (h x) r Q)"
    by (rule succeeds_trying [OF at F, of g pg' x]) (use g h F in \<open>simp_all add: editing_def\<close>)
  then show ?thesis by (rule succeeds_bind)
qed

lemma edit_append:
  assumes e: "editing N k m n F D pid f c pg q" and fl: "filled enc es0 pg" "used enc es0 + used enc es \<le> 8116"
    and h: "\<And>pg' r. filled enc (es0 @ es) pg' \<Longrightarrow> same_trailer pg pg' \<Longrightarrow> editing N k m n F D pid f c pg' r \<Longrightarrow> succeeds h r Q"
  shows "succeeds (pbind (append_entries f (map enc es)) (\<lambda>_. h)) q Q"
proof -
  have at: "pool_at N k (m(pid \<mapsto> pg)) n F (insert pid D) q" and F: "F pid = Some (f, c + 1)"
    using e by (auto simp: editing_def)
  have "succeeds (append_entries f (map enc es)) q (\<lambda>_ r. succeeds h r Q)"
    by (rule succeeds_mono [OF succeeds_append [OF at F _ _ fl]]) (use h F in \<open>auto simp: editing_def\<close>)
  then show ?thesis by (rule succeeds_bind)
qed

lemma edit_unpin:
  assumes e: "editing N k m n F D pid f c pg q"
    and h: "\<And>r. pool_at N k (m(pid \<mapsto> pg)) n (F(pid := (if c = 0 then None else Some (f, c)))) (D - {pid}) r \<Longrightarrow> succeeds h r Q"
  shows "succeeds (pbind (unpin pid True) (\<lambda>_. h)) q Q"
proof -
  have at: "pool_at N k (m(pid \<mapsto> pg)) n F (insert pid D) q" and F: "F pid = Some (f, c + 1)"
    using e by (auto simp: editing_def)
  have "succeeds (unpin pid True) q (\<lambda>_ r. succeeds h r Q)"
    by (rule succeeds_unpin [OF at F]) (use h in auto)
  then show ?thesis by (rule succeeds_bind)
qed

text \<open>Fetching a page that is not pinned, to change it.\<close>

lemma edit_fetch:
  assumes at: "pool_at N (Suc k) m n F D p" and pg: "m pid = Some pg" and F: "F pid = None" "card (dom F) < N" "pid \<notin> D"
    and h: "\<And>f r. editing N k m n (F(pid \<mapsto> (f, 1))) D pid f 0 pg r \<Longrightarrow>
      pool_at N k m n (F(pid \<mapsto> (f, 1))) D r \<Longrightarrow> succeeds (h f) r Q"
  shows "succeeds (pbind (fetch pid) h) p Q"
proof -
  have "succeeds (fetch pid) p (\<lambda>f r. succeeds (h f) r Q)"
    by (rule succeeds_fetch [OF at pg])
      (use F pg h edit_start [of N k m n "F(pid \<mapsto> (f, 1))" D _ pid f 0 pg for f] in \<open>auto simp: available_def pin_of_def\<close>)
  then show ?thesis by (rule succeeds_bind)
qed

lemma edit_new_page:
  assumes at: "pool_at N (Suc k) m n F D p" and F: "card (dom F) < N" "n \<notin> D" and n: "n + 1 < 2 ^ 51"
    and h: "\<And>f r. editing N k m (n + 1) (F(n \<mapsto> (f, 1))) D n f 0 (page_new n) r \<Longrightarrow> F n = None \<Longrightarrow> succeeds (h (n, f)) r Q"
  shows "succeeds (pbind new_page h) p Q"
proof -
  have Fn: "F n = None" using at_less [OF at, of n] by (cases "F n") auto
  have "succeeds new_page p (\<lambda>x r. succeeds (h x) r Q)"
  proof (rule succeeds_new_page [OF at F(1) n])
    fix f q assume q: "pool_at N k (m(n \<mapsto> page_new n)) (n + 1) (F(n \<mapsto> (f, 1))) D q"
    show "succeeds (h (n, f)) q Q"
      using h [of f q] edit_start [OF q, of n f 0] Fn by (simp add: editing_def)
  qed
  then show ?thesis by (rule succeeds_bind)
qed

section \<open>Inserting into a leaf\<close>

text \<open>The two halves of a page that is full, with entries of 14 to 216 bytes, fit into a page each.\<close>

lemma used_bounds:
  assumes "\<forall>e \<in> set es. a \<le> SLOT_SIZE + length (enc e) \<and> SLOT_SIZE + length (enc e) \<le> b"
  shows "a * length es \<le> used enc es" "used enc es \<le> b * length es"
  using assms by (induction es) auto

lemma halves_fit:
  assumes c: "\<forall>e \<in> set es. 14 \<le> SLOT_SIZE + length (enc e) \<and> SLOT_SIZE + length (enc e) \<le> 216"
    and u: "8116 < used enc es" "used enc es \<le> 8332" and mid: "mid = length es div 2"
  shows "used enc (take mid es) \<le> 8116" "used enc (drop mid es) \<le> 8116" "0 < mid" "mid < length es"
proof -
  have l: "38 \<le> length es" using used_bounds(2) [OF c] u by linarith
  have t: "14 * mid \<le> used enc (take mid es)"
  proof -
    have "length (take mid es) = mid" using mid by simp
    then show ?thesis using used_bounds(1) [of "take mid es" 14 enc 216] c in_set_takeD [of _ mid es] by metis
  qed
  have d: "14 * (length es - mid) \<le> used enc (drop mid es)"
    using used_bounds(1) [of "drop mid es" 14 enc 216] c in_set_dropD [of _ mid es] by (metis length_drop)
  have "used enc (take mid es) + used enc (drop mid es) = used enc es"
    using used_simps(3) [of enc "take mid es" "drop mid es"] by simp
  then show "used enc (take mid es) \<le> 8116" "used enc (drop mid es) \<le> 8116" "0 < mid" "mid < length es"
    using t d l u mid by linarith+
qed

lemma leaf_page_filled:
  "leaf_page pg es nxt \<longleftrightarrow> filled leaf_bytes es pg \<and> is_leaf pg \<and> btree_next_page pg = nxt \<and>
     list_all (\<lambda>e. key_ok (fst e) \<and> tid_ok (snd e)) es"
  by (auto simp: leaf_page_def filled_def)

lemma node_page_filled:
  "node_page pg c es \<longleftrightarrow> filled node_bytes es pg \<and> \<not> is_leaf pg \<and> btree_leftmost_child pg = c \<and>
     list_all (\<lambda>e. key_ok (fst e) \<and> snd e < 2 ^ 64) es"
  by (auto simp: node_page_def filled_def)

lemma clear_flag_less: "clear_flag fl x < 2 ^ 16" if "x < 2 ^ 16"
proof -
  have "(0xFFFF XOR x :: nat) < 2 ^ 16"
    using that xor_nat_def [of 65535 x] XOR_upper [of 65535 16 "int x"] by simp
  moreover have "fl AND y \<le> y" for y :: nat using nat_mono [OF AND_upper2 [of "int y" "int fl"]] by (simp add: and_nat_def)
  ultimately show ?thesis unfolding clear_flag_def by (meson le_less_trans)
qed

lemma clear_flag_leaf: "clear_flag fl BTREE_FLAG_IS_RIGHTMOST AND BTREE_FLAG_IS_LEAF = fl AND BTREE_FLAG_IS_LEAF"
  "clear_flag fl BTREE_FLAG_IS_ROOT AND BTREE_FLAG_IS_LEAF = fl AND BTREE_FLAG_IS_LEAF"
  by (simp_all add: clear_flag_def and.assoc)

lemma is_leaf_cong: "btree_flags q = btree_flags p \<Longrightarrow> is_leaf q = is_leaf p"
  by (simp add: is_leaf_def)

lemma filled_empty: "tree_page pg \<Longrightarrow> tuples pg = [] \<Longrightarrow> free_space pg = 8116 \<Longrightarrow> filled enc [] pg"
  by (simp add: filled_def)

lemma rewrite_leaf_ok:
  assumes at: "pool_at N (Suc k) m n F D p" and pg: "m pid = Some pg" "leaf_page pg es nxt"
    and F: "F pid = None" "card (dom F) < N" "pid \<notin> D"
    and es: "used leaf_bytes es1 \<le> 8116" "list_all (\<lambda>e. key_ok (fst e) \<and> tid_ok (snd e)) es1" and new: "new < 2 ^ 64"
    and Q: "\<And>pg' r. leaf_page pg' es1 new \<Longrightarrow> pool_at N k (m(pid \<mapsto> pg')) n F D r \<Longrightarrow> Q nxt r"
  shows "succeeds (rewrite_leaf pid new es1) p Q"
proof -
  let ?fl = "clear_flag (btree_flags pg) BTREE_FLAG_IS_RIGHTMOST"
  have tp: "tree_page pg" "is_leaf pg" "btree_next_page pg = nxt" using pg(2) by (simp_all add: leaf_page_def)
  define p1 where "p1 = clear_tuples pg"
  note P1 = clear_tree_page [OF tp(1), folded p1_def]
  define p2 where "p2 = set_btree_flags p1 ?fl"
  define p3 where "p3 = set_btree_next_page p2 new"
  have P2: "tree_page p2" "tuples p2 = []" "free_space p2 = 8116" "btree_flags p2 = ?fl"
    using P1 clear_flag_less by (simp_all add: p2_def)
  have P3: "tree_page p3" "filled leaf_bytes [] p3" "btree_flags p3 = ?fl" "btree_next_page p3 = new"
    using P2 new by (simp_all add: p3_def filled_empty)
  have eq: "map (\<lambda>(k, t). encode_leaf_entry k t) es1 = map leaf_bytes es1" by (simp add: leaf_bytes_def)
  show ?thesis
    unfolding rewrite_leaf_def eq
  proof (rule edit_fetch [OF at pg(1) F], goal_cases)
    case (1 f r)
    show ?case
    proof (rule edit_read [OF 1(1)], rule refl, rule edit_read [OF 1(1)], rule refl,
        rule edit_change [OF 1(1)], goal_cases)
      case (2 r1)
      have r1: "editing N k m n (F(pid \<mapsto> (f, 1))) D pid f 0 p1 r1" using 2 by (simp add: p1_def)
      show ?case
      proof (rule edit_change [OF r1], goal_cases)
        case (2 r2)
        have r2: "editing N k m n (F(pid \<mapsto> (f, 1))) D pid f 0 p2 r2" using 2 by (simp add: p2_def)
        show ?case
        proof (rule edit_change [OF r2], goal_cases)
          case (2 r3)
          have r3: "editing N k m n (F(pid \<mapsto> (f, 1))) D pid f 0 p3 r3" using 2 by (simp add: p3_def)
          show ?case
          proof (rule edit_append [OF r3 P3(2)], goal_cases)
            case (2 pg' r4)
            have L: "leaf_page pg' es1 new"
              using 2 P3 es(2) clear_flag_leaf(1) [of "btree_flags pg"] tp(2)
              by (simp add: leaf_page_filled same_trailer_def is_leaf_def)
            show ?case
              by (rule edit_unpin [OF 2(3)])
                (use Q [OF L] F tp(3) in \<open>simp add: succeeds_return fun_upd_idem del: fun_upd_apply\<close>)
          qed (use es(1) in simp)
        qed (use P3(1) in \<open>simp add: p3_def tp_length\<close>)
      qed (use P2(1) in \<open>simp add: p2_def tp_length\<close>)
    qed (use P1(1) in \<open>simp add: p1_def tp_length\<close>)
  qed
qed

lemma fill_leaf_ok:
  assumes e: "editing N k m n F D new f 0 (page_new i) q"
    and es: "used leaf_bytes es2 \<le> 8116" "list_all (\<lambda>e. key_ok (fst e) \<and> tid_ok (snd e)) es2" and nxt: "nxt < 2 ^ 64"
    and Q: "\<And>pg' r. leaf_page pg' es2 nxt \<Longrightarrow> pool_at N k (m(new \<mapsto> pg')) n (F(new := None)) (D - {new}) r \<Longrightarrow> Q () r"
  shows "succeeds (fill_leaf new f pid nxt es2) q Q"
proof -
  define p1 where "p1 = init_btree_page (page_new i) True False"
  define p2 where "p2 = set_btree_prev_page p1 pid"
  define p3 where "p3 = set_btree_next_page p2 nxt"
  have P1: "tree_page p1" "filled leaf_bytes [] p1" "is_leaf p1" "tuples p1 = []" "free_space p1 = 8116"
    using init_tree_page [of i True False] by (simp_all add: p1_def filled_empty)
  have P2: "tree_page p2" "tuples p2 = []" "free_space p2 = 8116" "is_leaf p2"
    using P1 by (simp_all add: p2_def is_leaf_def)
  have P3: "tree_page p3" "filled leaf_bytes [] p3" "is_leaf p3" "btree_next_page p3 = nxt"
    using P2 nxt by (simp_all add: p3_def filled_empty is_leaf_def)
  have eq: "map (\<lambda>(k, t). encode_leaf_entry k t) es2 = map leaf_bytes es2" by (simp add: leaf_bytes_def)
  show ?thesis
    unfolding fill_leaf_def eq
  proof (rule edit_change [OF e], goal_cases)
    case (2 r1)
    have r1: "editing N k m n F D new f 0 p1 r1" using 2 by (simp add: p1_def)
    show ?case
    proof (rule edit_change [OF r1], goal_cases)
      case (2 r2)
      have r2: "editing N k m n F D new f 0 p2 r2" using 2 by (simp add: p2_def)
      show ?case
      proof (rule edit_change [OF r2], goal_cases)
        case (2 r3)
        have r3: "editing N k m n F D new f 0 p3 r3" using 2 by (simp add: p3_def)
        show ?case
        proof (rule edit_append [OF r3 P3(2)], goal_cases)
          case (2 pg' r4)
          have L: "leaf_page pg' es2 nxt"
            using 2 P3 es(2) by (simp add: leaf_page_filled same_trailer_def is_leaf_def)
          have "succeeds (pbind (unpin new True) (\<lambda>_. preturn ())) r4 Q"
            by (rule edit_unpin [OF 2(3)]) (use Q [OF L] in \<open>simp add: succeeds_return\<close>)
          then show ?case by (auto simp: succeeds_def pbind_def preturn_def split: sum.splits prod.splits)
        qed (use es(1) in simp)
      qed (use P3(1) in \<open>simp add: p3_def tp_length\<close>)
    qed (use P2(1) in \<open>simp add: p2_def tp_length\<close>)
  qed (use P1(1) in \<open>simp add: p1_def tp_length\<close>)
qed

lemma relink_next_ok:
  assumes at: "pool_at N (Suc k) m n F D p" and F: "F nxt = None" "card (dom F) < N" "nxt \<notin> D"
    and nxt: "nxt \<noteq> INVALID_PAGE_ID \<Longrightarrow> m nxt = Some pg \<and> tree_page pg"
    and Q: "\<And>r. pool_at N k (if nxt = INVALID_PAGE_ID then m else m(nxt \<mapsto> set_btree_prev_page pg new)) n F D r \<Longrightarrow> Q () r"
  shows "succeeds (relink_next nxt new) p Q"
proof (cases "nxt = INVALID_PAGE_ID")
  case True
  then show ?thesis using Q [of p] pool_at_weaken [OF at, of k] unfolding relink_next_def by (simp add: succeeds_return)
next
  case False
  then have pg: "m nxt = Some pg" "tree_page pg" using nxt by auto
  have "succeeds (pbind (fetch nxt) (\<lambda>f. pbind (changing f (\<lambda>pg. set_btree_prev_page pg new)) (\<lambda>_.
      pbind (unpin nxt True) (\<lambda>_. preturn ())))) p Q"
  proof (rule edit_fetch [OF at pg(1) F], goal_cases)
    case (1 f r)
    show ?case
    proof (rule edit_change [OF 1(1)], goal_cases)
      case (2 r1)
      show ?case
        by (rule edit_unpin [OF 2]) (use Q F False in \<open>simp add: succeeds_return fun_upd_idem del: fun_upd_apply\<close>)
    qed (use trailer_writes(7) [OF pg(2)] in \<open>simp add: tp_length\<close>)
  qed
  then show ?thesis using False unfolding relink_next_def
    by (auto simp: succeeds_def pbind_def preturn_def split: sum.splits prod.splits)
qed

text \<open>An entry in its place among sorted entries.\<close>

definition ins :: "byte list \<Rightarrow> 'a \<Rightarrow> (byte list \<times> 'a) list \<Rightarrow> (byte list \<times> 'a) list" where
  "ins k x es = insert_at (length (takeWhile (\<lambda>e. fst e \<le> k) es)) (k, x) es"

lemma ins_pos: "length (takeWhile (\<lambda>k. k \<le> key) (map fst es)) = length (takeWhile (\<lambda>e. fst e \<le> key) es)"
  "key_point key es = length (takeWhile (\<lambda>e. fst e \<le> key) es)"
  by (simp_all add: takeWhile_map comp_def key_point_def case_prod_unfold)

lemma ins_used: "used enc (ins k x es) = SLOT_SIZE + length (enc (k, x)) + used enc es"
  unfolding ins_def by (rule used_insert_at) (rule length_takeWhile_le)

lemma ins_set [simp]: "set (ins k x es) = insert (k, x) (set es)"
  by (simp add: ins_def)

lemma ins_all: "list_all P (ins k x es) \<longleftrightarrow> P (k, x) \<and> list_all P es"
  by (simp add: list_all_iff)

definition relinked :: "(nat \<Rightarrow> page option) \<Rightarrow> nat \<Rightarrow> nat \<Rightarrow> nat \<Rightarrow> page option" where
  "relinked m nxt new = (if nxt = INVALID_PAGE_ID then m else m(nxt \<mapsto> set_btree_prev_page (the (m nxt)) new))"

lemma leaf_cost: "key_ok (fst e) \<Longrightarrow> 14 \<le> SLOT_SIZE + length (leaf_bytes e) \<and> SLOT_SIZE + length (leaf_bytes e) \<le> 216"
  by (cases e) (simp add: key_ok_def)

lemma node_cost: "key_ok (fst e) \<Longrightarrow> 14 \<le> SLOT_SIZE + length (node_bytes e) \<and> SLOT_SIZE + length (node_bytes e) \<le> 216"
  by (cases e) (simp add: key_ok_def)

lemma list_all_parts:
  assumes "list_all P xs"
  shows "list_all P (take i xs)" "list_all P (drop i xs)" "i < length xs \<Longrightarrow> P (xs ! i)"
  using assms by (auto simp: list_all_iff dest: in_set_takeD in_set_dropD)

definition split_leaf :: "nat \<Rightarrow> (byte list \<times> TupleId) list \<Rightarrow> (byte list \<times> nat) option pool_io" where
  "split_leaf pid all = pbind new_page (\<lambda>(new_page_id, new_fid).
     pbind (rewrite_leaf pid new_page_id (take (length all div 2) all)) (\<lambda>old_next.
     pbind (fill_leaf new_page_id new_fid pid old_next (drop (length all div 2) all)) (\<lambda>_.
     pbind (relink_next old_next new_page_id) (\<lambda>_.
     preturn (Some (fst (all ! (length all div 2)), new_page_id))))))"

lemma leaf_split_ok:
  assumes at: "pool_at N (k + 3) m n F {} p" and pg: "m pid = Some pg" "leaf_page pg es nxt"
    and F: "F pid = None" "F nxt = None" "card (dom F) + 1 < N"
    and n: "pid < n" "n + 1 < 2 ^ 51" "nxt < 2 ^ 64"
    and nxt: "nxt \<noteq> INVALID_PAGE_ID \<Longrightarrow> \<exists>pgn. m nxt = Some pgn \<and> tree_page pgn \<and> nxt < n \<and> nxt \<noteq> pid"
    and fit: "used leaf_bytes (take (length all div 2) all) \<le> 8116" "used leaf_bytes (drop (length all div 2) all) \<le> 8116"
      "0 < length all div 2" "length all div 2 < length all"
    and all: "list_all (\<lambda>e. key_ok (fst e) \<and> tid_ok (snd e)) all"
    and Q: "\<And>pg1 pg2 r. leaf_page pg1 (take (length all div 2) all) n \<Longrightarrow> leaf_page pg2 (drop (length all div 2) all) nxt \<Longrightarrow>
      pool_at N k (relinked (m(pid \<mapsto> pg1, n \<mapsto> pg2)) nxt n) (n + 1) F {} r \<Longrightarrow> Q (Some (fst (all ! (length all div 2)), n)) r"
  shows "succeeds (split_leaf pid all) p Q"
proof -
  let ?mid = "length all div 2"
  have ok: "list_all (\<lambda>e. key_ok (fst e) \<and> tid_ok (snd e)) (take ?mid all)"
    "list_all (\<lambda>e. key_ok (fst e) \<and> tid_ok (snd e)) (drop ?mid all)"
    using list_all_parts [OF all] by blast+
  have at3: "pool_at N (Suc (k + 2)) m n F {} p" using at by (simp add: numeral_eq_Suc)
  have card: "card (dom F) < N" using F(3) by simp
  show ?thesis
    unfolding split_leaf_def
  proof (rule edit_new_page [OF at3 card _ n(2)], goal_cases)
    case (2 g r)
    have Fn: "F n = None" by (rule 2(2))
    let ?F = "F(n \<mapsto> (g, 1))"
    have r: "pool_at N (Suc (k + 1)) (m(n \<mapsto> page_new n)) (n + 1) ?F {n} r" using 2(1) by (simp add: editing_def)
    have pid: "pid \<noteq> n" "(m(n \<mapsto> page_new n)) pid = Some pg" "?F pid = None" using n(1) pg(1) F(1) by auto
    have cd: "card (dom ?F) < N" using F(3) at_finite [OF at] Fn by (simp add: card_insert_if)
    have n64: "n < 2 ^ 64" using n(2) by simp
    have "succeeds (rewrite_leaf pid n (take ?mid all)) r (\<lambda>x r. succeeds (pbind (fill_leaf n g pid x (drop ?mid all)) (\<lambda>_.
        pbind (relink_next x n) (\<lambda>_. preturn (Some (fst (all ! ?mid), n))))) r Q)"
    proof (rule rewrite_leaf_ok [OF r pid(2) pg(2) pid(3) cd _ fit(1) ok(1) n64], goal_cases)
      case (2 pg1 r1)
      have e: "editing N (k + 1) (m(pid \<mapsto> pg1)) (n + 1) ?F {} n g 0 (page_new n) r1"
        using 2(2) unfolding editing_def fun_upd_twist [OF pid(1), of m "Some pg1" "Some (page_new n)"]
        by (simp add: fun_upd_same del: fun_upd_apply)
      show ?case
      proof (rule succeeds_bind, rule fill_leaf_ok [OF e fit(2) ok(2) n(3)], goal_cases)
        case (1 pg2 r2)
        then have at2: "pool_at N (Suc k) (m(pid \<mapsto> pg1, n \<mapsto> pg2)) (n + 1) F {} r2" using Fn by (simp add: fun_upd_idem)
        have rel: "nxt \<noteq> INVALID_PAGE_ID \<Longrightarrow> (m(pid \<mapsto> pg1, n \<mapsto> pg2)) nxt = Some (the (m nxt)) \<and> tree_page (the (m nxt))"
          using nxt by auto
        show ?case
        proof (rule succeeds_bind, rule relink_next_ok [OF at2 F(2) card _ rel], goal_cases)
          case (3 r3)
          have "relinked (m(pid \<mapsto> pg1, n \<mapsto> pg2)) nxt n =
              (if nxt = INVALID_PAGE_ID then m(pid \<mapsto> pg1, n \<mapsto> pg2)
               else m(pid \<mapsto> pg1, n \<mapsto> pg2, nxt \<mapsto> set_btree_prev_page (the (m nxt)) n))"
            using nxt by (auto simp: relinked_def)
          then have "pool_at N k (relinked (m(pid \<mapsto> pg1, n \<mapsto> pg2)) nxt n) (n + 1) F {} r3" using 3 by simp
          then show ?case by (intro succeeds_return Q [OF 2(1) 1(1)])
        qed simp_all
      qed
    qed (use pid(1) in simp)
    then show ?case by (simp add: succeeds_bind)
  qed simp
qed

lemma leaf_insert_ok:
  assumes at: "pool_at N (k + 4) m n F {} p" and pg: "m pid = Some pg" "leaf_page pg es nxt"
    and kt: "key_ok key" "tid_ok tid" and F: "F pid = None" "F nxt = None" "card (dom F) + 1 < N"
    and n: "pid < n" "n + 1 < 2 ^ 51" "nxt < 2 ^ 64"
    and nxt: "nxt \<noteq> INVALID_PAGE_ID \<Longrightarrow> \<exists>pgn. m nxt = Some pgn \<and> tree_page pgn \<and> nxt < n \<and> nxt \<noteq> pid"
    and Q1: "\<And>pg' r. leaf_page pg' (ins key tid es) nxt \<Longrightarrow> pool_at N k (m(pid \<mapsto> pg')) n F {} r \<Longrightarrow> Q None r"
    and Q2: "\<And>pg1 pg2 r mid. leaf_page pg1 (take mid (ins key tid es)) n \<Longrightarrow> leaf_page pg2 (drop mid (ins key tid es)) nxt \<Longrightarrow>
      0 < mid \<Longrightarrow> mid < length (ins key tid es) \<Longrightarrow>
      pool_at N k (relinked (m(pid \<mapsto> pg1, n \<mapsto> pg2)) nxt n) (n + 1) F {} r \<Longrightarrow> Q (Some (fst (ins key tid es ! mid), n)) r"
  shows "succeeds (leaf_insert pid key tid) p Q"
proof -
  let ?b = "leaf_bytes (key, tid)" and ?all = "ins key tid es" and ?mid = "length (ins key tid es) div 2"
  have at4: "pool_at N (Suc (k + 3)) m n F {} p" using at by (simp add: numeral_eq_Suc)
  have fl: "filled leaf_bytes es pg" "is_leaf pg" "btree_next_page pg = nxt"
    and ok: "list_all (\<lambda>e. key_ok (fst e) \<and> tid_ok (snd e)) es"
    using pg(2) by (auto simp: leaf_page_filled)
  have b: "encode_leaf_entry key tid = ?b" by (simp add: leaf_bytes_def)
  have free: "free_space pg + used leaf_bytes es = 8116" using fl(1) by (simp add: filled_def)
  have all: "list_all (\<lambda>e. key_ok (fst e) \<and> tid_ok (snd e)) ?all" using ok kt by (simp add: ins_all)
  have card: "card (dom F) < N" using F(3) by simp
  show ?thesis
    unfolding leaf_insert_def b Let_def
  proof (rule edit_fetch [OF at4 pg(1) F(1) card], goal_cases)
    case (2 f r)
    note E = 2(1) and A = 2(2)
    show ?case
    proof (rule edit_read [OF E], rule leaf_insert_pos_ok [OF pg(2)], rule edit_read [OF E], rule refl, unfold ins_pos(1), goal_cases)
      case 1
      show ?case
      proof (cases "SLOT_SIZE + length ?b \<le> free_space pg")
        case True
        then have u: "used leaf_bytes es + SLOT_SIZE + length ?b \<le> 8116" using free by simp
        obtain pg' where pg': "insert_tuple_at pg (length (takeWhile (\<lambda>e. fst e \<le> key) es)) ?b =
            Inr (pg', length (takeWhile (\<lambda>e. fst e \<le> key) es))" "filled leaf_bytes ?all pg'" "same_trailer pg pg'"
          using filled_insert [OF fl(1) length_takeWhile_le u] unfolding ins_def by blast
        have L: "leaf_page pg' ?all nxt"
          using pg' fl all by (simp add: leaf_page_filled same_trailer_def is_leaf_def)
        have len: "length pg' = PAGE_SIZE" using pg'(2) by (simp add: filled_def tp_length)
        have "succeeds (pbind (trying f (\<lambda>pg. insert_tuple_at pg (length (takeWhile (\<lambda>e. fst e \<le> key) es)) ?b))
            (\<lambda>_. pbind (unpin pid True) (\<lambda>_. preturn None))) r Q"
        proof (rule edit_try [OF E], rule pg'(1), rule len, goal_cases)
          case (1 r1)
          show ?case
          proof (rule edit_unpin [OF 1], goal_cases)
            case (1 r2)
            then have "pool_at N k (m(pid \<mapsto> pg')) n F {} r2"
              using F(1) pool_at_weaken [of N "k + 3" _ n F "{}" r2 k] by (simp add: fun_upd_idem)
            then show ?case by (intro succeeds_return Q1 [OF L])
          qed
        qed
        then show ?thesis using True by simp
      next
        case False
        then have u: "8116 < used leaf_bytes ?all" "used leaf_bytes ?all \<le> 8332"
          using free kt(1) by (simp_all add: ins_used key_ok_def)
        have "\<forall>e \<in> set ?all. 14 \<le> SLOT_SIZE + length (leaf_bytes e) \<and> SLOT_SIZE + length (leaf_bytes e) \<le> 216"
          using all leaf_cost unfolding list_all_iff by blast
        note H = halves_fit [OF this u refl]
        note split = leaf_split_ok [OF _ pg F n nxt H all]
        have "succeeds (pbind (reading f collect_leaf_entries) (\<lambda>existing. pbind (unpin pid False) (\<lambda>_.
            split_leaf pid (ins key tid existing)))) r Q"
        proof (rule edit_read [OF E], rule collect_leaf_ok [OF pg(2)], rule succeeds_bind,
            rule succeeds_unpin [OF A, of pid f 0], goal_cases)
          case (3 r1)
          then have "pool_at N (k + 3) m n F {} r1" using F(1) by (simp add: fun_upd_idem)
          from split [OF this] show ?case using Q2 [where mid = ?mid] H by blast
        qed simp_all
        then show ?thesis using False by (simp add: split_leaf_def ins_def ins_pos Let_def)
      qed
    qed
  qed simp
qed

section \<open>Inserting into an inner node\<close>

lemma rewrite_internal_ok:
  assumes at: "pool_at N (Suc k) m n F {} p" and pg: "m pid = Some pg" "node_page pg c0 es"
    and F: "F pid = None" "card (dom F) < N" and c: "c < 2 ^ 64"
    and es: "used node_bytes es1 \<le> 8116" "list_all (\<lambda>e. key_ok (fst e) \<and> snd e < 2 ^ 64) es1"
    and Q: "\<And>pg' r. node_page pg' c es1 \<Longrightarrow> pool_at N k (m(pid \<mapsto> pg')) n F {} r \<Longrightarrow> Q () r"
  shows "succeeds (rewrite_internal pid c es1) p Q"
proof -
  have tp: "tree_page pg" "\<not> is_leaf pg" using pg(2) by (simp_all add: node_page_def)
  define p1 where "p1 = clear_tuples pg"
  define p2 where "p2 = set_btree_leftmost_child p1 c"
  note P1 = clear_tree_page [OF tp(1), folded p1_def]
  have P2: "tree_page p2" "filled node_bytes [] p2" "\<not> is_leaf p2" "btree_leftmost_child p2 = c"
    using P1 c tp(2) by (simp_all add: p2_def filled_empty is_leaf_def)
  have eq: "map (\<lambda>(k, c). encode_internal_entry k c) es1 = map node_bytes es1" by (simp add: node_bytes_def)
  show ?thesis
    unfolding rewrite_internal_def eq
  proof (rule edit_fetch [OF at pg(1) F], goal_cases)
    case (2 f r)
    show ?case
    proof (rule edit_change [OF 2(1)], goal_cases)
      case (2 r1)
      have r1: "editing N k m n (F(pid \<mapsto> (f, 1))) {} pid f 0 p1 r1" using 2 by (simp add: p1_def)
      show ?case
      proof (rule edit_change [OF r1], goal_cases)
        case (2 r2)
        have r2: "editing N k m n (F(pid \<mapsto> (f, 1))) {} pid f 0 p2 r2" using 2 by (simp add: p2_def)
        show ?case
        proof (rule edit_append [OF r2 P2(2)], goal_cases)
          case (2 pg' r3)
          have L: "node_page pg' c es1"
            using 2 P2 es(2) by (simp add: node_page_filled same_trailer_def is_leaf_def)
          show ?case
            by (rule edit_unpin [OF 2(3)])
              (use Q [OF L] F in \<open>simp add: succeeds_return fun_upd_idem del: fun_upd_apply\<close>)
        qed (use es(1) in simp)
      qed (use P2(1) in \<open>simp add: p2_def tp_length\<close>)
    qed (use P1(1) in \<open>simp add: p1_def tp_length\<close>)
  qed simp
qed

lemma fill_internal_ok:
  assumes at: "pool_at N (Suc k) m n F {} p" and F: "card (dom F) < N" and n: "n + 1 < 2 ^ 51" and c: "c < 2 ^ 64"
    and es: "used node_bytes es2 \<le> 8116" "list_all (\<lambda>e. key_ok (fst e) \<and> snd e < 2 ^ 64) es2"
    and Q: "\<And>pg' r. node_page pg' c es2 \<Longrightarrow> pool_at N k (m(n \<mapsto> pg')) (n + 1) F {} r \<Longrightarrow> Q n r"
  shows "succeeds (fill_internal level c es2) p Q"
proof -
  define p1 where "p1 = init_btree_page (page_new n) False False"
  define p2 where "p2 = set_btree_level p1 level"
  define p3 where "p3 = set_btree_leftmost_child p2 c"
  have P1: "tree_page p1" "\<not> is_leaf p1" "tuples p1 = []" "free_space p1 = 8116"
    using init_tree_page [of n False False] by (simp_all add: p1_def)
  have P2: "tree_page p2" "\<not> is_leaf p2" "tuples p2 = []" "free_space p2 = 8116"
    using P1 by (simp_all add: p2_def is_leaf_def)
  have P3: "tree_page p3" "filled node_bytes [] p3" "\<not> is_leaf p3" "btree_leftmost_child p3 = c"
    using P2 c by (simp_all add: p3_def filled_empty is_leaf_def)
  have eq: "map (\<lambda>(k, c). encode_internal_entry k c) es2 = map node_bytes es2" by (simp add: node_bytes_def)
  show ?thesis
    unfolding fill_internal_def eq
  proof (rule edit_new_page [OF at F _ n], simp, simp only: prod.case, goal_cases)
    case (1 f r)
    let ?F = "F(n \<mapsto> (f, 1))"
    show ?case
    proof (rule edit_change [OF 1(1)], goal_cases)
      case (2 r1)
      have r1: "editing N k m (n + 1) ?F {} n f 0 p1 r1" using 2 by (simp add: p1_def)
      show ?case
      proof (rule edit_change [OF r1], goal_cases)
        case (2 r2)
        have r2: "editing N k m (n + 1) ?F {} n f 0 p2 r2" using 2 by (simp add: p2_def)
        show ?case
        proof (rule edit_change [OF r2], goal_cases)
          case (2 r3)
          have r3: "editing N k m (n + 1) ?F {} n f 0 p3 r3" using 2 by (simp add: p3_def)
          show ?case
          proof (rule edit_append [OF r3 P3(2)], goal_cases)
            case (2 pg' r4)
            have L: "node_page pg' c es2"
              using 2 P3 es(2) by (simp add: node_page_filled same_trailer_def is_leaf_def)
            show ?case
              by (rule edit_unpin [OF 2(3)])
                (use Q [OF L] 1(2) in \<open>simp add: succeeds_return fun_upd_idem del: fun_upd_apply\<close>)
          qed (use es(1) in simp)
        qed (use P3(1) in \<open>simp add: p3_def tp_length\<close>)
      qed (use P2(1) in \<open>simp add: p2_def tp_length\<close>)
    qed (use P1(1) in \<open>simp add: p1_def tp_length\<close>)
  qed
qed

lemma internal_insert_ok:
  assumes at: "pool_at N (k + 3) m n F {} p" and pg: "m pid = Some pg" "node_page pg c es"
    and kt: "key_ok key" "new < 2 ^ 64" "c < 2 ^ 64" and F: "F pid = None" "card (dom F) < N"
    and n: "pid < n" "n + 1 < 2 ^ 51"
    and Q1: "\<And>pg' r. node_page pg' c (ins key new es) \<Longrightarrow> pool_at N k (m(pid \<mapsto> pg')) n F {} r \<Longrightarrow> Q None r"
    and Q2: "\<And>pg1 pg2 r mid. node_page pg1 c (take mid (ins key new es)) \<Longrightarrow>
      node_page pg2 (snd (ins key new es ! mid)) (drop (mid + 1) (ins key new es)) \<Longrightarrow>
      mid < length (ins key new es) \<Longrightarrow>
      pool_at N k (m(pid \<mapsto> pg1, n \<mapsto> pg2)) (n + 1) F {} r \<Longrightarrow> Q (Some (fst (ins key new es ! mid), n)) r"
  shows "succeeds (internal_insert pid key new) p Q"
proof -
  let ?b = "node_bytes (key, new)" and ?all = "ins key new es" and ?mid = "length (ins key new es) div 2"
  have at3: "pool_at N (Suc (k + 2)) m n F {} p" using at by (simp add: numeral_eq_Suc)
  have fl: "filled node_bytes es pg" "\<not> is_leaf pg" "btree_leftmost_child pg = c"
    and ok: "list_all (\<lambda>e. key_ok (fst e) \<and> snd e < 2 ^ 64) es"
    using pg(2) by (auto simp: node_page_filled)
  have b: "encode_internal_entry key new = ?b" by (simp add: node_bytes_def)
  have free: "free_space pg + used node_bytes es = 8116" using fl(1) by (simp add: filled_def)
  have all: "list_all (\<lambda>e. key_ok (fst e) \<and> snd e < 2 ^ 64) ?all" using ok kt by (simp add: ins_all)
  show ?thesis
    unfolding internal_insert_def b Let_def
  proof (rule edit_fetch [OF at3 pg(1) F], goal_cases)
    case (2 f r)
    note E = 2(1) and A = 2(2)
    show ?case
    proof (rule edit_read [OF E], rule internal_insert_pos_ok [OF pg(2)], rule edit_read [OF E], rule refl, unfold ins_pos(1), goal_cases)
      case 1
      show ?case
      proof (cases "SLOT_SIZE + length ?b \<le> free_space pg")
        case True
        then have u: "used node_bytes es + SLOT_SIZE + length ?b \<le> 8116" using free by simp
        obtain pg' where pg': "insert_tuple_at pg (length (takeWhile (\<lambda>e. fst e \<le> key) es)) ?b =
            Inr (pg', length (takeWhile (\<lambda>e. fst e \<le> key) es))" "filled node_bytes ?all pg'" "same_trailer pg pg'"
          using filled_insert [OF fl(1) length_takeWhile_le u] unfolding ins_def by blast
        have L: "node_page pg' c ?all"
          using pg' fl all by (simp add: node_page_filled same_trailer_def is_leaf_def)
        have len: "length pg' = PAGE_SIZE" using pg'(2) by (simp add: filled_def tp_length)
        have "succeeds (pbind (trying f (\<lambda>pg. insert_tuple_at pg (length (takeWhile (\<lambda>e. fst e \<le> key) es)) ?b))
            (\<lambda>_. pbind (unpin pid True) (\<lambda>_. preturn None))) r Q"
        proof (rule edit_try [OF E], rule pg'(1), rule len, goal_cases)
          case (1 r1)
          show ?case
          proof (rule edit_unpin [OF 1], goal_cases)
            case (1 r2)
            then have "pool_at N k (m(pid \<mapsto> pg')) n F {} r2"
              using F(1) pool_at_weaken [of N "k + 2" _ n F "{}" r2 k] by (simp add: fun_upd_idem)
            then show ?case by (intro succeeds_return Q1 [OF L])
          qed
        qed
        then show ?thesis using True by simp
      next
        case False
        then have u: "8116 < used node_bytes ?all" "used node_bytes ?all \<le> 8332"
          using free kt(1) by (simp_all add: ins_used key_ok_def)
        have "\<forall>e \<in> set ?all. 14 \<le> SLOT_SIZE + length (node_bytes e) \<and> SLOT_SIZE + length (node_bytes e) \<le> 216"
          using all node_cost unfolding list_all_iff by blast
        note H = halves_fit [OF this u refl]
        have dr: "drop ?mid ?all = ?all ! ?mid # drop (?mid + 1) ?all" using H(4) by (simp add: Cons_nth_drop_Suc)
        then have d: "used node_bytes (drop (?mid + 1) ?all) \<le> 8116" using H(2) by simp
        have ok2: "list_all (\<lambda>e. key_ok (fst e) \<and> snd e < 2 ^ 64) (take ?mid ?all)"
          "list_all (\<lambda>e. key_ok (fst e) \<and> snd e < 2 ^ 64) (drop (?mid + 1) ?all)" "snd (?all ! ?mid) < 2 ^ 64"
          using list_all_parts [OF all] H(4) by blast+
        have "succeeds (pbind (reading f (\<lambda>pg. Inr (btree_leftmost_child pg))) (\<lambda>leftmost.
            pbind (reading f (\<lambda>pg. Inr (btree_level pg))) (\<lambda>level.
            pbind (reading f collect_internal_entries) (\<lambda>existing. pbind (unpin pid False) (\<lambda>_.
            pbind (rewrite_internal pid leftmost (take (length (ins key new existing) div 2) (ins key new existing))) (\<lambda>_.
            pbind (fill_internal level (snd (ins key new existing ! (length (ins key new existing) div 2)))
              (drop (length (ins key new existing) div 2 + 1) (ins key new existing))) (\<lambda>i.
            preturn (Some (fst (ins key new existing ! (length (ins key new existing) div 2)), i)))))))) ) r Q"
        proof (rule edit_read [OF E], rule refl, rule edit_read [OF E], rule refl,
            rule edit_read [OF E], rule collect_internal_ok [OF pg(2)], rule succeeds_bind,
            rule succeeds_unpin [OF A, of pid f 0], goal_cases)
          case (3 r1)
          then have r1: "pool_at N (Suc (k + 1)) m n F {} r1" using F(1) by (simp add: fun_upd_idem)
          show ?case
            unfolding fl(3)
          proof (rule succeeds_bind, rule rewrite_internal_ok [OF r1 pg F kt(3) H(1) ok2(1)], goal_cases)
            case (1 pg1 r2)
            have r2: "pool_at N (Suc k) (m(pid \<mapsto> pg1)) n F {} r2" using 1(2) by (simp del: fun_upd_apply)
            show ?case
            proof (rule succeeds_bind, rule fill_internal_ok [OF r2 F(2) n(2) ok2(3) d ok2(2)], goal_cases)
              case (1 pg2 r3)
              then show ?case using Q2 [OF \<open>node_page pg1 c _\<close> 1(1) H(4)] by (simp add: succeeds_return del: fun_upd_apply)
            qed
          qed
        qed simp_all
        then show ?thesis using False by (simp add: ins_def ins_pos)
      qed
    qed
  qed simp
qed

lemma read_step_ok:
  assumes "pool_at N (Suc k) m n F {} p" "m pid = Some pg" "F pid = None" "card (dom F) < N" "g pg = Inr x"
  shows "succeeds (pbind (fetch pid) (\<lambda>fid. pbind (reading fid g) (\<lambda>x. pbind (unpin pid False) (\<lambda>_. preturn x)))) p
    (\<lambda>y q. y = x \<and> pool_at N k m n F {} q)"
  by (rule succeeds_read_page [OF assms(1,2)]) (use assms in \<open>auto simp: available_def pin_of_def intro: succeeds_return\<close>)

end
