(* ===== verification/Btree_Tree.thy ===== *)
theory Btree_Tree
  imports Btree_Pool
begin

text \<open>
  The B+ tree of \<^verbatim>\<open>crates/storage/src/btree.rs\<close> as a whole: the pages that represent a tree of sorted entries,
  and the operations on it. An insertion keeps the tree ordered and its leaves chained, whatever it splits on the
  way up; the lookups and scans then read the entries as a sorted list.
\<close>

section \<open>Trees\<close>

text \<open>A child comes with a lower bound of its keys; that of the first child is the bound of the node itself and
  is not stored.\<close>

datatype bt = Leaf nat "(byte list \<times> TupleId) list" | Node nat "(byte list \<times> bt) list"

fun root_id :: "bt \<Rightarrow> nat" where
  "root_id (Leaf i es) = i"
| "root_id (Node i cs) = i"

fun ids :: "bt \<Rightarrow> nat list" and ids_list :: "(byte list \<times> bt) list \<Rightarrow> nat list" where
  "ids (Leaf i es) = [i]"
| "ids (Node i cs) = i # ids_list cs"
| "ids_list [] = []"
| "ids_list ((k, t) # cs) = ids t @ ids_list cs"

fun entries :: "bt \<Rightarrow> (byte list \<times> TupleId) list" and entries_list :: "(byte list \<times> bt) list \<Rightarrow> (byte list \<times> TupleId) list" where
  "entries (Leaf i es) = es"
| "entries (Node i cs) = entries_list cs"
| "entries_list [] = []"
| "entries_list ((k, t) # cs) = entries t @ entries_list cs"

fun height :: "bt \<Rightarrow> nat" and height_list :: "(byte list \<times> bt) list \<Rightarrow> nat" where
  "height (Leaf i es) = 0"
| "height (Node i cs) = Suc (height_list cs)"
| "height_list [] = 0"
| "height_list ((k, t) # cs) = max (height t) (height_list cs)"

fun first_leaf :: "bt \<Rightarrow> nat" where
  "first_leaf (Leaf i es) = i"
| "first_leaf (Node i []) = i"
| "first_leaf (Node i ((k, t) # cs)) = first_leaf t"

definition nxt_leaf :: "(byte list \<times> bt) list \<Rightarrow> nat \<Rightarrow> nat" where
  "nxt_leaf cs nxt = (case cs of [] \<Rightarrow> nxt | c # _ \<Rightarrow> first_leaf (snd c))"

definition nxt_key :: "(byte list \<times> bt) list \<Rightarrow> byte list option \<Rightarrow> byte list option" where
  "nxt_key cs hi = (case cs of [] \<Rightarrow> hi | c # _ \<Rightarrow> Some (fst c))"

definition child_entry :: "byte list \<times> bt \<Rightarrow> byte list \<times> nat" where
  "child_entry c = (fst c, root_id (snd c))"

text \<open>The pages \<open>m\<close> hold the tree; \<open>nxt\<close> is the leaf to the right of it.\<close>

fun repr :: "(nat \<Rightarrow> page option) \<Rightarrow> nat \<Rightarrow> bt \<Rightarrow> bool"
  and repr_list :: "(nat \<Rightarrow> page option) \<Rightarrow> nat \<Rightarrow> (byte list \<times> bt) list \<Rightarrow> bool" where
  "repr m nxt (Leaf i es) \<longleftrightarrow> (\<exists>pg. m i = Some pg \<and> leaf_page pg es nxt)"
| "repr m nxt (Node i cs) \<longleftrightarrow> cs \<noteq> [] \<and>
     (\<exists>pg. m i = Some pg \<and> node_page pg (root_id (snd (hd cs))) (map child_entry (tl cs))) \<and> repr_list m nxt cs"
| "repr_list m nxt [] \<longleftrightarrow> True"
| "repr_list m nxt ((k, t) # cs) \<longleftrightarrow> repr m (nxt_leaf cs nxt) t \<and> repr_list m nxt cs"

text \<open>The keys of a subtree lie between the bounds of its parent.\<close>

fun ordered :: "byte list \<Rightarrow> byte list option \<Rightarrow> bt \<Rightarrow> bool"
  and ordered_list :: "byte list option \<Rightarrow> (byte list \<times> bt) list \<Rightarrow> bool" where
  "ordered lo hi (Leaf i es) \<longleftrightarrow> sorted_wrt (<) (map fst es) \<and> (\<forall>e \<in> set es. lo \<le> fst e \<and> below (fst e) hi)"
| "ordered lo hi (Node i cs) \<longleftrightarrow> cs \<noteq> [] \<and> fst (hd cs) = lo \<and> ordered_list hi cs"
| "ordered_list hi [] \<longleftrightarrow> True"
| "ordered_list hi ((k, t) # cs) \<longleftrightarrow> ordered k (nxt_key cs hi) t \<and> below k (nxt_key cs hi) \<and> ordered_list hi cs"

lemma nxt_simps [simp]: "nxt_leaf [] nxt = nxt" "nxt_leaf (c # cs) nxt = first_leaf (snd c)"
  "nxt_key [] hi = hi" "nxt_key (c # cs) hi = Some (fst c)"
  by (simp_all add: nxt_leaf_def nxt_key_def)

lemma nxt_append [simp]: "nxt_leaf (xs @ ys) nxt = nxt_leaf xs (nxt_leaf ys nxt)" "nxt_key (xs @ ys) hi = nxt_key xs (nxt_key ys hi)"
  by (cases xs; simp)+

lemma list_append [simp]:
  "ids_list (xs @ ys) = ids_list xs @ ids_list ys"
  "entries_list (xs @ ys) = entries_list xs @ entries_list ys"
  "height_list (xs @ ys) = max (height_list xs) (height_list ys)"
  "repr_list m nxt (xs @ ys) \<longleftrightarrow> repr_list m (nxt_leaf ys nxt) xs \<and> repr_list m nxt ys"
  "ordered_list hi (xs @ ys) \<longleftrightarrow> ordered_list (nxt_key ys hi) xs \<and> ordered_list hi ys"
  by (induction xs) auto

lemma below_simps [simp]: "below k None" "below k (Some h) \<longleftrightarrow> k < h"
  by (simp_all add: below_def)

lemma below_trans: "below a (Some b) \<Longrightarrow> below b hi \<Longrightarrow> below a hi"
  "a \<le> b \<Longrightarrow> below b hi \<Longrightarrow> below a hi"
  by (auto simp: below_def split: option.splits)

lemma ordered_list_below: "ordered_list hi cs \<Longrightarrow> c \<in> set cs \<Longrightarrow> below (fst c) hi"
proof (induction cs arbitrary: c)
  case (Cons c' cs)
  show ?case
  proof (cases cs)
    case Nil
    then show ?thesis using Cons.prems by (cases c') auto
  next
    case C: (Cons d ds)
    have ol: "ordered_list hi cs" using Cons.prems(1) by (cases c') simp
    have "below (fst c') hi"
      using Cons.IH [OF ol, of d] C Cons.prems(1) below_trans(1) [of "fst c'" "fst d" hi] by (cases c') auto
    then show ?thesis using Cons.IH [OF ol, of c] Cons.prems(2) by auto
  qed
qed simp

lemma ordered_list_sorted: "ordered_list hi cs \<Longrightarrow> sorted_wrt (<) (map fst cs)"
proof (induction cs)
  case (Cons c cs)
  then show ?case
  proof (cases cs)
    case (Cons d ds)
    have "fst c < fst e" if "e \<in> set cs" for e
      using Cons.prems Cons.IH that \<open>cs = d # ds\<close> by (cases c) auto
    then show ?thesis using Cons.prems Cons.IH by (cases c) auto
  qed simp
qed simp

lemma ordered_entries:
  "ordered lo hi t \<Longrightarrow> sorted_wrt (<) (map fst (entries t)) \<and> (\<forall>e \<in> set (entries t). lo \<le> fst e \<and> below (fst e) hi)"
  "ordered_list hi cs \<Longrightarrow> cs \<noteq> [] \<Longrightarrow> sorted_wrt (<) (map fst (entries_list cs)) \<and>
     (\<forall>e \<in> set (entries_list cs). fst (hd cs) \<le> fst e \<and> below (fst e) hi)"
proof (induction lo hi t and hi cs rule: ordered_ordered_list.induct)
  case (4 hi k t cs)
  have t: "sorted_wrt (<) (map fst (entries t))" "\<forall>e \<in> set (entries t). k \<le> fst e \<and> below (fst e) (nxt_key cs hi)"
    using 4 by auto
  show ?case
  proof (cases cs)
    case Nil
    then show ?thesis using t by simp
  next
    case (Cons d ds)
    have c: "sorted_wrt (<) (map fst (entries_list cs))" "\<forall>e \<in> set (entries_list cs). fst d \<le> fst e \<and> below (fst e) hi"
      using 4(2,3) Cons by auto
    have d: "k < fst d" "below (fst d) hi" using 4(3) Cons ordered_list_below [of hi cs d] by auto
    have "fst e < fst e'" if "e \<in> set (entries t)" "e' \<in> set (entries_list cs)" for e e'
      using t(2) c(2) that Cons by (auto intro: less_le_trans)
    moreover have "below (fst e) hi" if "e \<in> set (entries t)" for e
      using t(2) that Cons d(2) below_trans(1) [of "fst e" "fst d" hi] by auto
    ultimately show ?thesis using t c d by (auto simp: sorted_wrt_append intro: order_trans less_imp_le)
  qed
qed auto

section \<open>The pages of a tree\<close>

lemma first_leaf_in: "first_leaf t \<in> set (ids t)"
  by (induction t rule: first_leaf.induct) auto

lemma root_in: "root_id t \<in> set (ids t)"
  by (cases t) auto

lemma repr_pages:
  "repr m nxt t \<Longrightarrow> i \<in> set (ids t) \<Longrightarrow> \<exists>pg. m i = Some pg \<and> tree_page pg"
  "repr_list m nxt cs \<Longrightarrow> i \<in> set (ids_list cs) \<Longrightarrow> \<exists>pg. m i = Some pg \<and> tree_page pg"
  by (induction m nxt t and m nxt cs rule: repr_repr_list.induct) (auto simp: leaf_page_def node_page_def)

text \<open>A page may change its link to the left without changing the node.\<close>

definition same_node :: "(nat \<Rightarrow> page option) \<Rightarrow> (nat \<Rightarrow> page option) \<Rightarrow> nat \<Rightarrow> bool" where
  "same_node m m' j \<longleftrightarrow> m' j = m j \<or> (\<exists>pg x. m j = Some pg \<and> m' j = Some (set_btree_prev_page pg x))"

lemma leaf_page_prev: "leaf_page pg es nxt \<Longrightarrow> leaf_page (set_btree_prev_page pg x) es nxt"
  by (simp add: leaf_page_def is_leaf_def)

lemma node_page_prev: "node_page pg c es \<Longrightarrow> node_page (set_btree_prev_page pg x) c es"
  by (simp add: node_page_def is_leaf_def)

lemma repr_same:
  "repr m nxt t \<Longrightarrow> \<forall>j \<in> set (ids t). same_node m m' j \<Longrightarrow> repr m' nxt t"
  "repr_list m nxt cs \<Longrightarrow> \<forall>j \<in> set (ids_list cs). same_node m m' j \<Longrightarrow> repr_list m' nxt cs"
proof (induction m nxt t and m nxt cs rule: repr_repr_list.induct)
  case (1 m nxt i es)
  then show ?case using leaf_page_prev by (auto simp: same_node_def)
next
  case (2 m nxt i cs)
  then show ?case using node_page_prev by (fastforce simp: same_node_def)
qed auto

lemma height_list_less: "(k, t) \<in> set cs \<Longrightarrow> height t \<le> height_list cs"
  by (induction cs) (auto simp: less_imp_le intro: le_trans)

section \<open>Insertion\<close>

definition osucceeds :: "(BufferPool \<Rightarrow> ((StorageError + 'a) \<times> BufferPool) option) \<Rightarrow> BufferPool \<Rightarrow> ('a \<Rightarrow> BufferPool \<Rightarrow> bool) \<Rightarrow> bool" where
  "osucceeds a p Q \<longleftrightarrow> (\<exists>x q. a p = Some (Inr x, q) \<and> Q x q)"

text \<open>What an insertion makes of a subtree with bounds \<open>lo\<close> and \<open>hi\<close>: one subtree, or two if it was split.\<close>

definition grown :: "byte list \<Rightarrow> byte list option \<Rightarrow> nat \<Rightarrow> nat \<Rightarrow> (byte list \<times> TupleId) \<Rightarrow> bt \<Rightarrow> nat \<Rightarrow> (nat \<Rightarrow> page option) \<Rightarrow>
    (byte list \<times> bt) list \<Rightarrow> bool" where
  "grown lo hi nxt n e t n' m' cs \<longleftrightarrow> cs \<noteq> [] \<and> fst (hd cs) = lo \<and> root_id (snd (hd cs)) = root_id t \<and>
     first_leaf (snd (hd cs)) = first_leaf t \<and> repr_list m' nxt cs \<and> ordered_list hi cs \<and>
     set (entries_list cs) = insert e (set (entries t)) \<and> distinct (ids_list cs) \<and>
     set (ids_list cs) \<subseteq> set (ids t) \<union> {n..<n'} \<and> height_list cs \<le> height t"

definition split_of :: "(byte list \<times> nat) option \<Rightarrow> (byte list \<times> bt) list \<Rightarrow> bool" where
  "split_of r cs \<longleftrightarrow> (case r of None \<Rightarrow> length cs = 1 |
     Some (sep, new) \<Rightarrow> length cs = 2 \<and> key_ok sep \<and> child_entry (cs ! 1) = (sep, new))"

definition elsewhere :: "nat \<Rightarrow> nat \<Rightarrow> bt \<Rightarrow> (nat \<Rightarrow> page option) \<Rightarrow> (nat \<Rightarrow> page option) \<Rightarrow> bool" where
  "elsewhere nxt n t m m' \<longleftrightarrow> (\<forall>j < n. j \<notin> set (ids t) \<longrightarrow> same_node m m' j \<and> (j \<noteq> nxt \<longrightarrow> m' j = m j))"

text \<open>The conditions an insertion starts from.\<close>

definition insertable :: "nat \<Rightarrow> nat \<Rightarrow> pins \<Rightarrow> (nat \<Rightarrow> page option) \<Rightarrow> nat \<Rightarrow> bt \<Rightarrow> bool" where
  "insertable N n F m nxt t \<longleftrightarrow> repr m nxt t \<and> distinct (ids t) \<and> (\<forall>i \<in> set (ids t). i < n \<and> F i = None) \<and>
     n < 2 ^ 51 \<and> card (dom F) + 1 < N \<and> nxt < 2 ^ 64 \<and> F nxt = None \<and>
     (nxt \<noteq> INVALID_PAGE_ID \<longrightarrow> (\<exists>pg. m nxt = Some pg \<and> tree_page pg) \<and> nxt < n \<and> nxt \<notin> set (ids t))"

definition ins_post :: "nat \<Rightarrow> nat \<Rightarrow> (nat \<Rightarrow> page option) \<Rightarrow> nat \<Rightarrow> pins \<Rightarrow> byte list \<Rightarrow> byte list option \<Rightarrow> nat \<Rightarrow> byte list \<times> TupleId \<Rightarrow> bt \<Rightarrow>
    (byte list \<times> nat) option \<Rightarrow> BufferPool \<Rightarrow> bool" where
  "ins_post N k m n F lo hi nxt e t r q \<longleftrightarrow> (\<exists>m' n' cs. pool_at N k m' n' F {} q \<and> n \<le> n' \<and> n' \<le> n + height t + 1 \<and>
     elsewhere nxt n t m m' \<and> split_of r cs \<and> grown lo hi nxt n e t n' m' cs)"

lemma ins_split:
  assumes "\<forall>e \<in> set xs. fst e \<le> k" "\<forall>e \<in> set ys. k < fst e"
  shows "ins k x (xs @ ys) = xs @ (k, x) # ys"
proof -
  have "takeWhile (\<lambda>e. fst e \<le> k) (xs @ ys) = xs"
    using assms by (cases ys) (auto simp: takeWhile_append2 takeWhile_tail)
  then show ?thesis by (simp add: ins_def insert_at_def)
qed

lemma ins_sorted:
  fixes es :: "(byte list \<times> 'a) list"
  assumes s: "sorted_wrt (<) (map fst es)" and k: "k \<notin> fst ` set es"
  shows "sorted_wrt (<) (map fst (ins k x es))"
proof -
  let ?xs = "takeWhile (\<lambda>e. fst e < k) es" and ?ys = "dropWhile (\<lambda>e. fst e < k) es"
  have s2: "sorted_wrt (<) (map fst ?xs @ map fst ?ys)" using s by (simp flip: map_append)
  have x: "\<forall>e \<in> set ?xs. fst e < k" by (auto dest: set_takeWhileD)
  have y: "\<forall>e \<in> set ?ys. k < fst e"
  proof (cases ?ys)
    case Nil
    show ?thesis unfolding Nil by simp
  next
    case (Cons e ys)
    have "\<not> fst e < k" using hd_dropWhile [of "\<lambda>e. fst e < k" es] Cons by simp
    moreover have "e \<in> set es" using Cons set_dropWhileD [of e "\<lambda>e. fst e < k" es] by simp
    then have "fst e \<noteq> k" using k by blast
    ultimately have "k < fst e" by simp
    moreover have "sorted_wrt (<) (map fst ?ys)" using s2 by (simp add: sorted_wrt_append)
    ultimately show ?thesis unfolding Cons by auto
  qed
  have "ins k x es = ?xs @ (k, x) # ?ys"
    using ins_split [of ?xs k ?ys x] x y by (simp add: less_imp_le)
  then show ?thesis using x y s2 by (auto simp: sorted_wrt_append)
qed

lemma split_leaf_ordered:
  assumes o: "ordered lo hi (Leaf i es)" and mid: "0 < mid" "mid < length es"
  shows "ordered_list hi [(lo, Leaf i (take mid es)), (fst (es ! mid), Leaf j (drop mid es))]"
proof -
  have s: "sorted_wrt (<) (map fst (take mid es @ drop mid es))" using o by simp
  have b: "lo \<le> fst e \<and> below (fst e) hi" if "e \<in> set es" for e using o that by simp
  have dr: "drop mid es = es ! mid # drop (Suc mid) es" using mid(2) by (simp add: Cons_nth_drop_Suc)
  have lt: "fst e < fst (es ! mid)" if "e \<in> set (take mid es)" for e
    using s that dr unfolding map_append sorted_wrt_append by simp
  have le: "fst (es ! mid) \<le> fst e" if "e \<in> set (drop mid es)" for e
    using s that dr unfolding map_append sorted_wrt_append by auto
  have "hd es \<in> set (take mid es)" using mid by (cases es; cases mid) auto
  then have "lo < fst (es ! mid)" using b [of "hd es"] lt [of "hd es"] mid by (cases es) auto
  moreover have "below (fst (es ! mid)) hi" using b [of "es ! mid"] mid(2) by simp
  moreover have "sorted_wrt (<) (map fst (take mid es))" "sorted_wrt (<) (map fst (drop mid es))"
    using s unfolding map_append sorted_wrt_append by auto
  ultimately show ?thesis using b lt le by (auto dest: in_set_takeD in_set_dropD)
qed

lemma elsewhereI:
  assumes "same_node m m' nxt" "\<And>j. j < n \<Longrightarrow> j \<noteq> nxt \<Longrightarrow> j \<notin> set (ids t) \<Longrightarrow> m' j = m j"
  shows "elsewhere nxt n t m m'"
  unfolding elsewhere_def
proof (intro allI impI)
  fix j assume "j < n" "j \<notin> set (ids t)"
  then show "same_node m m' j \<and> (j \<noteq> nxt \<longrightarrow> m' j = m j)"
    using assms(1) assms(2) [of j] by (cases "j = nxt") (simp_all add: same_node_def)
qed

lemma elsewhere_relinked:
  assumes "nxt \<noteq> INVALID_PAGE_ID \<Longrightarrow> \<exists>pg. m nxt = Some pg \<and> tree_page pg \<and> nxt < n \<and> nxt \<noteq> i"
  shows "elsewhere nxt n (Leaf i es) m (relinked (m(i \<mapsto> pg1, n \<mapsto> pg2)) nxt n)"
proof (cases "nxt = INVALID_PAGE_ID")
  case True
  then show ?thesis by (simp add: elsewhere_def same_node_def relinked_def)
next
  case False
  then obtain pg where pg: "m nxt = Some pg" "nxt < n" "nxt \<noteq> i" using assms by blast
  then have "same_node m (relinked (m(i \<mapsto> pg1, n \<mapsto> pg2)) nxt n) nxt"
    using False unfolding same_node_def by (intro disjI2 exI [of _ pg] exI [of _ n]) (simp add: relinked_def)
  then show ?thesis by (rule elsewhereI) (simp add: relinked_def)
qed

lemma insert_leaf_case:
  assumes t: "insertable N n F m nxt (Leaf i es)" "ordered lo hi (Leaf i es)" and k: "lo \<le> key" "below key hi" "key \<notin> fst ` set es"
    and ok: "key_ok key" "tid_ok tid" and at: "pool_at N (k + 4) m n F {} p" and n: "n + 1 < 2 ^ 51"
  shows "succeeds (leaf_insert i key tid) p (ins_post N k m n F lo hi nxt (key, tid) (Leaf i es))"
proof -
  let ?t = "Leaf i es" and ?all = "ins key tid es"
  obtain pg where pg: "m i = Some pg" "leaf_page pg es nxt" using t(1) by (auto simp: insertable_def)
  have F: "F i = None" "F nxt = None" "card (dom F) + 1 < N" "i < n" "nxt < 2 ^ 64" using t(1) by (auto simp: insertable_def)
  have nx: "nxt \<noteq> INVALID_PAGE_ID \<Longrightarrow> \<exists>pg. m nxt = Some pg \<and> tree_page pg \<and> nxt < n \<and> nxt \<noteq> i"
    using t(1) by (auto simp: insertable_def)
  have all: "ordered lo hi (Leaf i ?all)" using t(2) k ins_sorted [of es key tid] by auto
  show ?thesis
  proof (rule leaf_insert_ok [OF at pg ok F(1-4) n F(5) nx], goal_cases)
    case (2 pg' r)
    let ?m = "m(i \<mapsto> pg')"
    have "elsewhere nxt n ?t m ?m" by (auto simp: elsewhere_def same_node_def)
    moreover have "grown lo hi nxt n (key, tid) ?t n ?m [(lo, Leaf i ?all)]"
      using 2(1) all by (auto simp: grown_def intro: below_trans(2) [OF k(1,2)])
    ultimately show ?case
      using 2(2) unfolding ins_post_def by (intro exI [of _ ?m] exI [of _ n] exI [of _ "[(lo, Leaf i ?all)]"]) (simp add: split_of_def)
  next
    case (3 pg1 pg2 r mid)
    let ?m = "relinked (m(i \<mapsto> pg1, n \<mapsto> pg2)) nxt n"
    let ?cs = "[(lo, Leaf i (take mid ?all)), (fst (?all ! mid), Leaf n (drop mid ?all))]"
    have mi: "?m i = Some pg1" "?m n = Some pg2" using F(4) nx by (auto simp: relinked_def)
    have "elsewhere nxt n ?t m ?m" by (rule elsewhere_relinked) (rule nx)
    moreover have "key_ok (fst (?all ! mid))"
      using 3(2,4) by (auto simp: leaf_page_def Cons_nth_drop_Suc [symmetric])
    moreover have "set (take mid ?all) \<union> set (drop mid ?all) = insert (key, tid) (set es)"
      by (metis append_take_drop_id ins_set set_append)
    then have "grown lo hi nxt n (key, tid) ?t (n + 1) ?m ?cs"
      using 3(1,2) mi split_leaf_ordered [OF all 3(3,4), of n] F(4) by (auto simp: grown_def)
    ultimately show ?case
      using 3(5) unfolding ins_post_def
      by (intro exI [of _ ?m] exI [of _ "n + 1"] exI [of _ ?cs]) (simp add: split_of_def child_entry_def)
  qed (use nx in blast)
qed

text \<open>The child an inner node passes a key to.\<close>

lemma child_for_key:
  assumes o: "ordered lo hi (Node i cs)" and k: "lo \<le> key"
  obtains A kc c B where "cs = A @ (kc, c) # B" "\<forall>d \<in> set A. fst d \<le> key" "kc \<le> key" "\<forall>d \<in> set B. key < fst d"
proof -
  let ?T = "takeWhile (\<lambda>d. fst d \<le> key) cs" and ?D = "dropWhile (\<lambda>d. fst d \<le> key) cs"
  have "?T \<noteq> []" using o k by (cases cs) auto
  then obtain A x where T: "?T = A @ [x]" by (metis rev_exhaust)
  have le: "\<forall>d \<in> set ?T. fst d \<le> key" by (auto dest: set_takeWhileD)
  have s: "sorted_wrt (<) (map fst (?T @ ?D))" using o ordered_list_sorted [of hi cs] by simp
  have gt: "\<forall>d \<in> set ?D. key < fst d"
  proof (cases ?D)
    case Nil
    show ?thesis unfolding Nil by simp
  next
    case (Cons e D)
    have "key < fst e" using hd_dropWhile [of "\<lambda>d. fst d \<le> key" cs] Cons by simp
    moreover have "sorted_wrt (<) (map fst ?D)" using s unfolding map_append sorted_wrt_append by simp
    ultimately show ?thesis unfolding Cons by auto
  qed
  have "cs = A @ (fst x, snd x) # ?D" using takeWhile_dropWhile_id [of "\<lambda>d. fst d \<le> key" cs] unfolding T by simp
  then show ?thesis using that [of A "fst x" "snd x" ?D] le gt unfolding T by simp
qed

lemma descend_child:
  assumes P: "node_page pg (root_id (snd (hd cs))) (map child_entry (tl cs))" and s: "sorted_wrt (<) (map fst cs)"
    and cs: "cs = A @ (kc, c) # B" "\<forall>d \<in> set A. fst d \<le> key" "kc \<le> key" "\<forall>d \<in> set B. key < fst d"
  shows "descend_node pg key = Inr (root_id c)"
proof -
  have ks: "map fst (map child_entry (tl cs)) = map fst (tl cs)" "map snd (map child_entry (tl cs)) = map (root_id \<circ> snd) (tl cs)"
    by (simp_all add: child_entry_def comp_def)
  have ne: "cs \<noteq> []" using cs(1) by simp
  have "sorted (map fst cs)" using s by (simp add: strict_sorted_iff)
  then have st: "sorted (map fst (tl cs))" using ne by (cases cs) auto
  have "tl cs = tl (A @ [(kc, c)]) @ B" using cs(1) by (cases A) auto
  moreover have "\<forall>k \<in> set (map fst (tl (A @ [(kc, c)]))). k \<le> key" using cs(2,3) by (cases A) auto
  then have "takeWhile (\<lambda>k. k \<le> key) (map fst (tl (A @ [(kc, c)])) @ map fst B) = map fst (tl (A @ [(kc, c)]))"
    using cs(4) by (cases B) (auto simp: takeWhile_append2 takeWhile_tail)
  ultimately have "length (takeWhile (\<lambda>k. k \<le> key) (map fst (tl cs))) = length A" by simp
  moreover have "root_id (snd (hd cs)) # map (root_id \<circ> snd) (tl cs) = map (root_id \<circ> snd) cs" using ne by (cases cs) auto
  ultimately have "(root_id (snd (hd cs)) # map snd (map child_entry (tl cs))) !
      length (takeWhile (\<lambda>k. k \<le> key) (map fst (map child_entry (tl cs)))) = root_id c"
    unfolding ks using cs(1) by (simp add: nth_append)
  then show ?thesis using descend_node_ok [OF P, of key] st unfolding ks by simp
qed

text \<open>Replacing a child by what it has grown to.\<close>

lemma children_grow:
  assumes cs: "cs = A @ (kc, c) # B"
    and t: "insertable N n F m nxt (Node i cs)" "ordered lo hi (Node i cs)"
    and g: "grown kc (nxt_key B hi) (nxt_leaf B nxt) n e c n' m' ds" and el: "elsewhere (nxt_leaf B nxt) n c m m'" and n: "n \<le> n'"
  defines "cs' \<equiv> A @ ds @ B"
  shows "fst (hd cs') = lo" "cs' \<noteq> []" "child_entry (hd cs') = child_entry (hd cs)" "first_leaf (snd (hd cs')) = first_leaf (snd (hd cs))"
    "repr_list m' nxt cs'" "ordered_list hi cs'" "set (entries_list cs') = insert e (set (entries_list cs))"
    "distinct (i # ids_list cs')" "set (ids_list cs') \<subseteq> set (ids_list cs) \<union> {n..<n'}" "height_list cs' \<le> height_list cs"
    "m' i = m i" "elsewhere nxt n (Node i cs) m m'"
proof -
  have G: "ds \<noteq> []" "fst (hd ds) = kc" "root_id (snd (hd ds)) = root_id c" "first_leaf (snd (hd ds)) = first_leaf c"
    "repr_list m' (nxt_leaf B nxt) ds" "ordered_list (nxt_key B hi) ds" "set (entries_list ds) = insert e (set (entries c))"
    "distinct (ids_list ds)" "set (ids_list ds) \<subseteq> set (ids c) \<union> {n..<n'}" "height_list ds \<le> height c"
    using g by (auto simp: grown_def)
  have I: "repr_list m nxt cs" "distinct (i # ids_list cs)" "\<forall>j \<in> set (ids_list cs). j < n" "i < n"
    and nx: "nxt \<noteq> INVALID_PAGE_ID \<Longrightarrow> nxt < n \<and> nxt \<notin> set (i # ids_list cs)"
    using t(1) by (auto simp: insertable_def)
  have O: "fst (hd cs) = lo" "ordered_list hi cs" using t(2) by auto
  have hd': "hd cs' = (if A = [] then hd ds else hd A)" "hd cs = (if A = [] then (kc, c) else hd A)"
    using G(1) by (simp_all add: cs'_def cs)
  show "fst (hd cs') = lo" "cs' \<noteq> []" "child_entry (hd cs') = child_entry (hd cs)" "first_leaf (snd (hd cs')) = first_leaf (snd (hd cs))"
    using hd' G(1-4) O(1) by (auto simp: child_entry_def cs'_def)
  have nl: "nxt_leaf ds x = first_leaf c" "nxt_key ds y = Some kc" for x y
    using G(1,2,4) by (cases ds; simp)+
  have same: "same_node m m' j" if "j \<in> set (ids_list A) \<union> set (ids_list B)" for j
    using that I(2,3) el by (auto simp: elsewhere_def cs)
  have rl: "repr_list m (first_leaf c) A" "repr_list m nxt B" using I(1) by (simp_all add: cs)
  have "repr_list m' (first_leaf c) A" using repr_same(2) [OF rl(1), of m'] same by blast
  moreover have "repr_list m' nxt B" using repr_same(2) [OF rl(2), of m'] same by blast
  ultimately show "repr_list m' nxt cs'" using G(5) nl by (simp add: cs'_def)
  show "ordered_list hi cs'" using O(2) G(6) nl by (simp add: cs'_def cs)
  show "set (entries_list cs') = insert e (set (entries_list cs))" using G(7) by (auto simp: cs'_def cs)
  have other: "j \<notin> set (ids_list ds)" if "j \<in> set (ids_list A) \<union> set (ids_list B) \<union> {i}" for j
  proof
    assume "j \<in> set (ids_list ds)"
    moreover have "j < n" "j \<notin> set (ids c)" using that I(2-4) by (auto simp: cs)
    ultimately show False using G(9) by auto
  qed
  have "set (ids_list ds) \<inter> set (ids_list A) = {}" "set (ids_list ds) \<inter> set (ids_list B) = {}" "i \<notin> set (ids_list ds)"
    using other by blast+
  then show "distinct (i # ids_list cs')" using G(8) I(2) by (simp add: cs'_def cs Int_commute Int_Un_distrib)
  show "set (ids_list cs') \<subseteq> set (ids_list cs) \<union> {n..<n'}" using G(9) by (auto simp: cs'_def cs)
  show "height_list cs' \<le> height_list cs" using G(10) by (auto simp: cs'_def cs)
  have nb: "nxt_leaf B nxt = nxt \<and> B = [] \<or> nxt_leaf B nxt \<in> set (ids_list B)"
    using first_leaf_in by (cases B) auto
  have "i \<noteq> nxt_leaf B nxt"
  proof
    assume i: "i = nxt_leaf B nxt"
    then have "i = nxt" using nb I(2) by (auto simp: cs)
    moreover have "n < 2 ^ 51" using t(1) by (simp add: insertable_def)
    ultimately show False using nx I(4) by (cases "nxt = INVALID_PAGE_ID") simp_all
  qed
  then show "m' i = m i" using el I(2,4) by (auto simp: elsewhere_def cs)
  show "elsewhere nxt n (Node i cs) m m'"
    unfolding elsewhere_def
  proof (intro allI impI)
    fix j assume j: "j < n" "j \<notin> set (ids (Node i cs))"
    then have "same_node m m' j" "j \<noteq> nxt_leaf B nxt \<longrightarrow> m' j = m j" using el by (auto simp: elsewhere_def cs)
    moreover have "j = nxt_leaf B nxt \<Longrightarrow> j = nxt" using nb j(2) by (auto simp: cs)
    ultimately show "same_node m m' j \<and> (j \<noteq> nxt \<longrightarrow> m' j = m j)" by auto
  qed
qed

lemma insertable_child:
  assumes t: "insertable N n F m nxt (Node i (A @ (kc, c) # B))"
  shows "insertable N n F m (nxt_leaf B nxt) c"
proof (cases B)
  case Nil
  then show ?thesis using t by (auto simp: insertable_def)
next
  case (Cons b bs)
  obtain kb d where b: "b = (kb, d)" by (cases b)
  have T: "repr m (first_leaf d) c" "repr m (nxt_leaf bs nxt) d" "distinct (ids c @ ids d)"
    "\<forall>j \<in> set (ids c) \<union> set (ids d). j < n \<and> F j = None" "n < 2 ^ 51" "card (dom F) + 1 < N"
    using t by (auto simp: insertable_def Cons b)
  have f: "first_leaf d \<in> set (ids d)" by (rule first_leaf_in)
  then have "first_leaf d < n" using T(4) by blast
  then have "first_leaf d < 2 ^ 64" using T(5) by simp
  then show ?thesis using T f repr_pages(1) [OF T(2) f] by (auto simp: insertable_def Cons b)
qed

lemma node_result:
  assumes cs': "cs' \<noteq> []" "fst (hd cs') = lo" "first_leaf (snd (hd cs')) = first_leaf (snd (hd cs))" "repr_list m' nxt cs'"
    "ordered_list hi cs'" "set (entries_list cs') = insert e (set (entries_list cs))" "distinct (i # ids_list cs')"
    "set (ids_list cs') \<subseteq> set (ids_list cs) \<union> {n..<n'}" "height_list cs' \<le> height_list cs"
    and pg: "m' i = Some pg" "node_page pg (root_id (snd (hd cs'))) (map child_entry (tl cs'))" and ne: "cs \<noteq> []"
  shows "grown lo hi nxt n e (Node i cs) n' m' [(lo, Node i cs')]"
proof -
  have "first_leaf (Node i cs') = first_leaf (Node i cs)"
    using cs'(1,3) ne by (cases cs'; cases cs) (auto simp: split_paired_all)
  moreover have "below lo hi" using ordered_list_below [OF cs'(5), of "hd cs'"] cs'(1,2) by simp
  ultimately show ?thesis using assms by (auto simp: grown_def)
qed

lemma node_split_result:
  assumes L: "L \<noteq> []" "fst (hd L) = lo" "first_leaf (snd (hd L)) = first_leaf (snd (hd cs))"
    "repr_list m1 nxt (L @ R)" "ordered_list hi (L @ R)" "set (entries_list (L @ R)) = insert e (set (entries_list cs))"
    "distinct (i # ids_list (L @ R))" "set (ids_list (L @ R)) \<subseteq> set (ids_list cs) \<union> {n..<n'}"
    "height_list (L @ R) \<le> height_list cs"
    and R: "R \<noteq> []" and ne: "cs \<noteq> []"
    and ids: "\<forall>j \<in> set (i # ids_list cs). j < n" "n \<le> n'"
    and pg1: "node_page pg1 (root_id (snd (hd L))) (map child_entry (tl L))"
    and pg2: "node_page pg2 (root_id (snd (hd R))) (map child_entry (tl R))"
  shows "grown lo hi nxt n e (Node i cs) (n' + 1) (m1(i \<mapsto> pg1, n' \<mapsto> pg2)) [(lo, Node i L), (fst (hd R), Node n' R)]"
proof -
  let ?m = "m1(i \<mapsto> pg1, n' \<mapsto> pg2)"
  have "n' \<notin> set (ids_list cs) \<union> {n..<n'}" using ids by fastforce
  then have nn: "n' \<notin> set (ids_list (L @ R))" "n' \<noteq> i" using L(8) ids by auto
  have "\<forall>j \<in> set (ids_list (L @ R)). same_node m1 ?m j" using nn L(7) by (auto simp: same_node_def)
  then have rl: "repr_list ?m nxt (L @ R)" using repr_same(2) [OF L(4)] by blast
  have fl: "first_leaf (Node i L) = first_leaf (Node i cs)" "first_leaf (Node n' R) = first_leaf (snd (hd R))"
    using L(1,3) ne R by (cases L; cases cs; cases R; auto simp: split_paired_all)+
  have nx: "nxt_leaf R nxt = first_leaf (snd (hd R))" "nxt_key R hi = Some (fst (hd R))" using R by (cases R; simp)+
  have rep: "repr ?m (first_leaf (Node n' R)) (Node i L)" "repr ?m nxt (Node n' R)"
    using rl nx fl(2) L(1) R pg1 pg2 nn(2) by auto
  have "hd L \<in> set L" using L(1) by simp
  then have b: "lo < fst (hd R)" using ordered_list_below [of "nxt_key R hi" L "hd L"] L(2,5) nx(2) by simp
  have "below (fst (hd R)) hi" using ordered_list_below [of hi R "hd R"] L(5) R by simp
  then have ord: "ordered_list hi [(lo, Node i L), (fst (hd R), Node n' R)]" using L(1,2,5) R nx(2) b by simp
  have "set (entries_list L) \<union> set (entries_list R) = insert e (set (entries_list cs))" using L(6) by simp
  moreover have "distinct (ids_list [(lo, Node i L), (fst (hd R), Node n' R)])" using L(7) nn by auto
  moreover have "set (ids_list [(lo, Node i L), (fst (hd R), Node n' R)]) \<subseteq> set (ids (Node i cs)) \<union> {n..<n' + 1}"
    using L(8) ids(2) by auto
  ultimately show ?thesis
    using rep ord fl L(9) unfolding grown_def by (auto simp del: repr.simps)
qed

lemma ins_child:
  assumes s: "sorted_wrt (<) (map fst (A @ x # (sep, t) # B))" and x: "child_entry x = child_entry c"
  shows "ins sep (root_id t) (map child_entry (tl (A @ c # B))) = map child_entry (tl (A @ x # (sep, t) # B))"
proof -
  have tl: "tl (A @ c # B) = tl (A @ [c]) @ B" "tl (A @ x # (sep, t) # B) = tl (A @ [x]) @ (sep, t) # B"
    by (cases A; simp)+
  have eq: "map child_entry (tl (A @ [c])) = map child_entry (tl (A @ [x]))" using x by (cases A) simp_all
  have B: "\<forall>d \<in> set B. sep < fst d" using s by (auto simp: sorted_wrt_append)
  have "\<forall>d \<in> set (A @ [x]). fst d < sep" using s by (auto simp: sorted_wrt_append)
  then have "\<forall>d \<in> set (tl (A @ [x])). fst d \<le> sep" by (cases A) (auto simp: less_imp_le)
  then show ?thesis using ins_split [of "map child_entry (tl (A @ [x]))" sep "map child_entry B" "root_id t"] B
    by (auto simp: tl eq child_entry_def)
qed

lemma around_middle:
  assumes "mid < length (tl xs)"
  shows "drop (mid + 1) xs \<noteq> []" "hd (drop (mid + 1) xs) = tl xs ! mid" "tl (drop (mid + 1) xs) = drop (mid + 1) (tl xs)"
    "take (mid + 1) xs \<noteq> []" "hd (take (mid + 1) xs) = hd xs" "tl (take (mid + 1) xs) = take mid (tl xs)"
  using assms by (cases xs; simp add: hd_drop_conv_nth tl_drop drop_Suc)+

lemma insert_node_none:
  assumes cs: "cs = A @ (kc, c) # B"
    and t: "insertable N n F m nxt (Node i cs)" "ordered lo hi (Node i cs)"
    and q: "ins_post N (k + 3) m n F kc (nxt_key B hi) (nxt_leaf B nxt) e c None q"
  shows "ins_post N k m n F lo hi nxt e (Node i cs) None q"
proof -
  obtain m' n' ds where P: "pool_at N (k + 3) m' n' F {} q" "n \<le> n'" "n' \<le> n + height c + 1"
    "elsewhere (nxt_leaf B nxt) n c m m'" "split_of None ds" "grown kc (nxt_key B hi) (nxt_leaf B nxt) n e c n' m' ds"
    using q by (auto simp: ins_post_def)
  note G = children_grow [OF cs t P(6,4,2)]
  let ?cs = "A @ ds @ B"
  obtain x where ds: "ds = [x]" using P(5) by (auto simp: split_of_def length_Suc_conv)
  have x: "child_entry x = child_entry (kc, c)" using P(6) ds by (simp add: grown_def child_entry_def)
  obtain pg where pg: "m i = Some pg" "node_page pg (root_id (snd (hd cs))) (map child_entry (tl cs))"
    using t(1) by (auto simp: insertable_def)
  have hds: "root_id (snd (hd ?cs)) = root_id (snd (hd cs))" using G(3) by (simp add: child_entry_def)
  have "map child_entry (tl ?cs) = map child_entry (tl cs)" using x by (cases A) (simp_all add: cs ds)
  then have "node_page pg (root_id (snd (hd ?cs))) (map child_entry (tl ?cs))" "m' i = Some pg" using pg hds G(11) by simp_all
  then have "grown lo hi nxt n e (Node i cs) n' m' [(lo, Node i ?cs)]"
    using node_result [OF G(2,1,4-10)] cs by simp
  moreover have "pool_at N k m' n' F {} q" using P(1) by (rule pool_at_weaken) simp
  moreover have "n' \<le> n + height (Node i cs) + 1" using P(3) by (simp add: cs)
  ultimately show ?thesis using P(2) G(12) unfolding ins_post_def
    by (intro exI [of _ m'] exI [of _ n'] exI [of _ "[(lo, Node i ?cs)]"]) (simp add: split_of_def)
qed

lemma insert_node_some:
  assumes cs: "cs = A @ (kc, c) # B"
    and t: "insertable N n F m nxt (Node i cs)" "ordered lo hi (Node i cs)"
    and q: "ins_post N (k + 3) m n F kc (nxt_key B hi) (nxt_leaf B nxt) e c (Some (sep, new)) q"
    and n: "n + height (Node i cs) + 1 < 2 ^ 51"
  shows "succeeds (internal_insert i sep new) q (ins_post N k m n F lo hi nxt e (Node i cs))"
proof -
  obtain m' n' ds where P: "pool_at N (k + 3) m' n' F {} q" "n \<le> n'" "n' \<le> n + height c + 1"
    "elsewhere (nxt_leaf B nxt) n c m m'" "split_of (Some (sep, new)) ds" "grown kc (nxt_key B hi) (nxt_leaf B nxt) n e c n' m' ds"
    using q by (auto simp: ins_post_def)
  note G = children_grow [OF cs t P(6,4,2)]
  let ?cs = "A @ ds @ B" and ?t = "Node i cs"
  let ?all = "map child_entry (tl ?cs)"
  obtain x t2 where ds: "ds = [x, (sep, t2)]" "key_ok sep" "new = root_id t2"
    using P(5) by (auto simp: split_of_def length_Suc_conv numeral_2_eq_2 child_entry_def)
  have x: "child_entry x = child_entry (kc, c)" using P(6) ds by (simp add: grown_def child_entry_def)
  obtain pg where pg: "m i = Some pg" "node_page pg (root_id (snd (hd cs))) (map child_entry (tl cs))"
    using t(1) by (auto simp: insertable_def)
  have pg': "m' i = Some pg" using pg(1) G(11) by simp
  have hds: "root_id (snd (hd ?cs)) = root_id (snd (hd cs))" using G(3) by (simp add: child_entry_def)
  have all: "ins sep new (map child_entry (tl cs)) = ?all"
    using ins_child [OF _ x, of A sep t2 B] ordered_list_sorted [OF G(6)] by (simp add: cs ds)
  have F: "F i = None" "card (dom F) < N" "i < n" using t(1) by (auto simp: insertable_def)
  have h: "n' \<le> n + height ?t" using P(3) by (simp add: cs)
  have idn: "\<forall>j \<in> set (ids ?t). j < n" using t(1) by (auto simp: insertable_def)
  have "new \<in> set (ids_list ds)" using ds root_in by (cases x) auto
  then have "new \<in> set (ids c) \<union> {n..<n'}" using P(6) unfolding grown_def by blast
  moreover have "\<forall>j \<in> set (ids c). j < n" using idn by (simp add: cs)
  ultimately have "new < n'" using P(2) by fastforce
  then have b: "new < 2 ^ 64" using h n by simp
  have "root_id (snd (hd cs)) \<in> set (ids_list cs)" using root_in cs by (cases A) (auto simp: split_paired_all)
  then have "root_id (snd (hd cs)) < n" using idn by simp
  then have b2: "root_id (snd (hd cs)) < 2 ^ 64" using h P(2) n by simp
  have ok: "list_all (\<lambda>e. key_ok (fst e)) ?all"
    using pg(2) ds(2) unfolding all [symmetric] by (auto simp: ins_all node_page_def list_all_iff)
  have cne: "cs \<noteq> []" "?cs \<noteq> []" using cs ds by simp_all
  have elw: "elsewhere nxt n ?t m (m'(i \<mapsto> p1, n' \<mapsto> p2))" "elsewhere nxt n ?t m (m'(i \<mapsto> p1))" for p1 p2
    using G(12) P(2) by (auto simp: elsewhere_def same_node_def)
  show ?thesis
  proof (rule internal_insert_ok [OF P(1) pg' pg(2) ds(2) b b2 F(1,2)], goal_cases)
    case (3 pg1 r)
    let ?m = "m'(i \<mapsto> pg1)"
    have "i \<notin> set (ids_list ?cs)" using G(8) by simp
    then have "\<forall>j \<in> set (ids_list ?cs). same_node m' ?m j" by (auto simp: same_node_def)
    then have rl: "repr_list ?m nxt ?cs" using repr_same(2) [OF G(5)] by blast
    have "node_page pg1 (root_id (snd (hd ?cs))) ?all" using 3(1) hds unfolding all by simp
    then have "grown lo hi nxt n e ?t n' ?m [(lo, Node i ?cs)]"
      using node_result [OF G(2,1,4) rl G(6-10) _ _ cne(1), of pg1] by simp
    then show ?case using 3(2) P(2) h elw unfolding ins_post_def
      by (intro exI [of _ ?m] exI [of _ n'] exI [of _ "[(lo, Node i ?cs)]"]) (simp add: split_of_def del: fun_upd_apply)
  next
    case (4 pg1 pg2 r mid)
    let ?m = "m'(i \<mapsto> pg1, n' \<mapsto> pg2)" and ?L = "take (mid + 1) ?cs" and ?R = "drop (mid + 1) ?cs"
    have mid: "mid < length (tl ?cs)" using 4(3) unfolding all by simp
    note R = around_middle(1-3) [OF mid] and L = around_middle(4-6) [OF mid]
    have am: "?all ! mid = child_entry (hd ?R)" unfolding R(2) by (rule nth_map [OF mid])
    have pgs: "node_page pg1 (root_id (snd (hd ?L))) (map child_entry (tl ?L))"
      "node_page pg2 (root_id (snd (hd ?R))) (map child_entry (tl ?R))"
      using 4(1,2) hds am unfolding all L(2,3) R(3) by (simp_all add: take_map drop_map child_entry_def)
    have "grown lo hi nxt n e ?t (n' + 1) ?m [(lo, Node i ?L), (fst (hd ?R), Node n' ?R)]"
      by (rule node_split_result [OF L(1)])
        (use G R(1) cne(1) idn P(2) pgs L(2) in \<open>simp_all only: append_take_drop_id ids.simps simp_thms\<close>)
    moreover have "key_ok (fst (?all ! mid))" using ok mid by (simp add: list_all_length)
    ultimately show ?case
      using 4(4) P(2) h elw am unfolding ins_post_def all
      by (intro exI [of _ ?m] exI [of _ "n' + 1"] exI [of _ "[(lo, Node i ?L), (fst (hd ?R), Node n' ?R)]"])
        (simp add: split_of_def child_entry_def del: fun_upd_apply)
  qed (use F P(2) h n in simp_all)
qed

lemma osucceeds_leaf:
  assumes "succeeds (node_is_leaf i) p (\<lambda>b q. b \<and> succeeds (leaf_insert i key tid) q Q)"
  shows "osucceeds (insert_recursive i key tid) p Q"
  using assms by (auto simp: succeeds_def osucceeds_def insert_recursive.simps [of i])

lemma osucceeds_node:
  assumes "succeeds (node_is_leaf i) p (\<lambda>b q. \<not> b \<and> succeeds (child_of i key) q (\<lambda>j r.
      osucceeds (insert_recursive j key tid) r (\<lambda>x s. case x of None \<Rightarrow> Q None s
        | Some (sep, new) \<Rightarrow> succeeds (internal_insert i sep new) s Q)))"
  shows "osucceeds (insert_recursive i key tid) p Q"
  using assms by (fastforce simp: succeeds_def osucceeds_def insert_recursive.simps [of i] split: option.splits prod.splits)

lemma osucceeds_mono: "osucceeds a p Q \<Longrightarrow> (\<And>x q. Q x q \<Longrightarrow> R x q) \<Longrightarrow> osucceeds a p R"
  by (auto simp: osucceeds_def)

lemma insert_recursive_leaf:
  assumes t: "insertable N n F m nxt (Leaf i es)" "ordered lo hi (Leaf i es)"
    and k: "lo \<le> key" "below key hi" "key \<notin> fst ` set es" "key_ok key" "tid_ok tid"
    and at: "pool_at N (k + 5) m n F {} p" and n: "n + 1 < 2 ^ 51"
  shows "osucceeds (insert_recursive i key tid) p (ins_post N k m n F lo hi nxt (key, tid) (Leaf i es))"
proof -
  obtain pg where pg: "m i = Some pg" "leaf_page pg es nxt" using t(1) by (auto simp: insertable_def)
  have F: "F i = None" "card (dom F) < N" using t(1) by (auto simp: insertable_def)
  have at5: "pool_at N (Suc (k + 4)) m n F {} p" using at by (simp add: numeral_eq_Suc)
  have "is_leaf pg" using pg(2) by (simp add: leaf_page_def)
  then have "succeeds (node_is_leaf i) p (\<lambda>b q. b = True \<and> pool_at N (k + 4) m n F {} q)"
    unfolding node_is_leaf_def by (intro read_step_ok [OF at5 pg(1) F]) simp
  then show ?thesis
    by (intro osucceeds_leaf, elim succeeds_mono) (use insert_leaf_case [OF t k(1-5) _ n, of k] in blast)
qed

lemma insert_recursive_node:
  assumes t: "insertable N n F m nxt (Node i cs)" "ordered lo hi (Node i cs)"
    and cs: "cs = A @ (kc, c) # B" "\<forall>d \<in> set A. fst d \<le> key" "kc \<le> key" "\<forall>d \<in> set B. key < fst d"
    and at: "pool_at N (j + 2) m n F {} p" and n: "n + height (Node i cs) + 1 < 2 ^ 51"
    and IH: "\<And>q. pool_at N j m n F {} q \<Longrightarrow> osucceeds (insert_recursive (root_id c) key tid) q
      (ins_post N (k + 3) m n F kc (nxt_key B hi) (nxt_leaf B nxt) (key, tid) c)"
  shows "osucceeds (insert_recursive i key tid) p (ins_post N k m n F lo hi nxt (key, tid) (Node i cs))"
proof -
  obtain pg where pg: "m i = Some pg" "node_page pg (root_id (snd (hd cs))) (map child_entry (tl cs))"
    using t(1) by (auto simp: insertable_def)
  have F: "F i = None" "card (dom F) < N" using t(1) by (auto simp: insertable_def)
  have at2: "pool_at N (Suc (Suc j)) m n F {} p" using at by (simp add: numeral_eq_Suc)
  have "\<not> is_leaf pg" using pg(2) by (simp add: node_page_def)
  then have 1: "succeeds (node_is_leaf i) p (\<lambda>b q. b = False \<and> pool_at N (Suc j) m n F {} q)"
    unfolding node_is_leaf_def by (intro read_step_ok [OF at2 pg(1) F]) simp
  have "sorted_wrt (<) (map fst cs)" using t(2) ordered_list_sorted [of hi cs] by simp
  then have d: "descend_node pg key = Inr (root_id c)" by (rule descend_child [OF pg(2) _ cs])
  have 2: "succeeds (child_of i key) q (\<lambda>x r. x = root_id c \<and> pool_at N j m n F {} r)"
    if "pool_at N (Suc j) m n F {} q" for q
    unfolding child_of_def by (rule read_step_ok [OF that pg(1) F]) (simp add: d)
  have 3: "osucceeds (insert_recursive (root_id c) key tid) r (\<lambda>x s. case x of
      None \<Rightarrow> ins_post N k m n F lo hi nxt (key, tid) (Node i cs) None s
    | Some (sep, new) \<Rightarrow> succeeds (internal_insert i sep new) s (ins_post N k m n F lo hi nxt (key, tid) (Node i cs)))"
    if "pool_at N j m n F {} r" for r
    using IH [OF that]
    by (rule osucceeds_mono)
      (auto split: option.split intro: insert_node_none [OF cs(1) t] insert_node_some [OF cs(1) t _ n])
  show ?thesis
    by (intro osucceeds_node succeeds_mono [OF 1] conjI) (auto intro!: succeeds_mono [OF 2] dest: 3)
qed

theorem insert_recursive_ok:
  assumes "height t \<le> h" "insertable N n F m nxt t" "ordered lo hi t" "lo \<le> key" "below key hi" "key \<notin> fst ` set (entries t)"
    and "key_ok key" "tid_ok tid" "pool_at N (k + 5 * (h + 1)) m n F {} p" "n + h + 1 < 2 ^ 51"
  shows "osucceeds (insert_recursive (root_id t) key tid) p (ins_post N k m n F lo hi nxt (key, tid) t)"
  using assms
proof (induction h arbitrary: t nxt lo hi k p)
  case 0
  then obtain i es where t: "t = Leaf i es" by (cases t) auto
  show ?case using 0 insert_recursive_leaf [of N n F m nxt i es lo hi key tid k p] unfolding t by simp
next
  case (Suc h)
  show ?case
  proof (cases t)
    case (Leaf i es)
    have "pool_at N (k + 5) m n F {} p" using Suc.prems(9) by (rule pool_at_weaken) simp
    then show ?thesis using Suc.prems insert_recursive_leaf [of N n F m nxt i es lo hi key tid k p] unfolding Leaf by simp
  next
    case (Node i cs)
    obtain A kc c B where cs: "cs = A @ (kc, c) # B" "\<forall>d \<in> set A. fst d \<le> key" "kc \<le> key" "\<forall>d \<in> set B. key < fst d"
      using child_for_key [OF Suc.prems(3) [unfolded Node] Suc.prems(4)] by blast
    have h: "height c \<le> h" using Suc.prems(1) Node cs(1) by simp
    have h2: "n + height (Node i cs) + 1 < 2 ^ 51" using Suc.prems(1,10) unfolding Node by linarith
    have c: "insertable N n F m (nxt_leaf B nxt) c" using Suc.prems(2) insertable_child unfolding Node cs(1) by blast
    have o: "ordered kc (nxt_key B hi) c" using Suc.prems(3) unfolding Node cs(1) by simp
    have b: "below key (nxt_key B hi)" using cs(4) Suc.prems(5) by (cases B) auto
    have k: "key \<notin> fst ` set (entries c)" using Suc.prems(6) unfolding Node cs(1) by auto
    have n: "n + h + 1 < 2 ^ 51" using Suc.prems(10) by simp
    have at: "pool_at N (k + 3 + 5 * (h + 1) + 2) m n F {} p" using Suc.prems(9) by (simp add: algebra_simps)
    have IH: "osucceeds (insert_recursive (root_id c) key tid) q
        (ins_post N (k + 3) m n F kc (nxt_key B hi) (nxt_leaf B nxt) (key, tid) c)"
      if "pool_at N (k + 3 + 5 * (h + 1)) m n F {} q" for q
      by (rule Suc.IH [OF h c o cs(3) b k Suc.prems(7,8) that n])
    show ?thesis
      using insert_recursive_node [OF Suc.prems(2,3) [unfolded Node] cs at h2 IH] by (simp add: Node)
  qed
qed

end
