(* ===== verification/Btree_Index.thy ===== *)
theory Btree_Index
  imports Btree_Tree
begin

text \<open>
  The operations of \<^verbatim>\<open>crates/storage/src/btree.rs\<close> on a whole index: \<^verbatim>\<open>create\<close>, \<^verbatim>\<open>open\<close>, \<^verbatim>\<open>insert\<close>,
  \<^verbatim>\<open>lookup\<close> and \<^verbatim>\<open>range_scan\<close>. Any sequence of them on an index that \<^verbatim>\<open>create\<close> has made answers as a
  sorted map does, whatever pages it splits and whatever frames the buffer pool evicts on the way.
\<close>

section \<open>A new root\<close>

lemma flags_node:
  assumes "tree_page pg"
  shows "leaf_page pg es nxt \<Longrightarrow> leaf_page (set_btree_flags pg (clear_flag (btree_flags pg) BTREE_FLAG_IS_ROOT)) es nxt"
    "node_page pg c xs \<Longrightarrow> node_page (set_btree_flags pg (clear_flag (btree_flags pg) BTREE_FLAG_IS_ROOT)) c xs"
  using assms clear_flag_less [of BTREE_FLAG_IS_ROOT] clear_flag_leaf(2)
  by (simp_all add: leaf_page_def node_page_def is_leaf_def)

lemma repr_root_flags:
  assumes t: "repr m nxt t" "distinct (ids t)" and pg: "m (root_id t) = Some pg"
  shows "repr (m(root_id t \<mapsto> set_btree_flags pg (clear_flag (btree_flags pg) BTREE_FLAG_IS_ROOT))) nxt t"
proof (cases t)
  case (Leaf i es)
  then show ?thesis using t pg flags_node(1) [of pg es nxt] by (auto simp: leaf_page_def)
next
  case (Node i cs)
  let ?m = "m(i \<mapsto> set_btree_flags pg (clear_flag (btree_flags pg) BTREE_FLAG_IS_ROOT))"
  have "\<forall>j \<in> set (ids_list cs). same_node m ?m j" using t(2) Node by (auto simp: same_node_def)
  then have "repr_list ?m nxt cs" using t(1) Node repr_same(2) [of m nxt cs ?m] by simp
  moreover have np: "node_page pg (root_id (snd (hd cs))) (map child_entry (tl cs))" "cs \<noteq> []" using t(1) pg Node by auto
  then have "tree_page pg" by (simp add: node_page_def)
  ultimately show ?thesis using flags_node(2) [OF _ np(1)] np(2) Node by simp
qed

lemma clear_root_ok:
  assumes at: "pool_at N (Suc k) m n F {} p" and pg: "m root = Some pg" "tree_page pg" and F: "F root = None" "card (dom F) < N"
    and Q: "\<And>r. pool_at N k (m(root \<mapsto> set_btree_flags pg (clear_flag (btree_flags pg) BTREE_FLAG_IS_ROOT))) n F {} r \<Longrightarrow> Q () r"
  shows "succeeds (clear_root root) p Q"
  unfolding clear_root_def
proof (rule edit_fetch [OF at pg(1) F], goal_cases)
  case (2 f r)
  show ?case
  proof (rule edit_read [OF 2(1)], rule refl, rule edit_change [OF 2(1)], goal_cases)
    case (2 r1)
    show ?case
      by (rule edit_unpin [OF 2]) (use Q F in \<open>simp add: succeeds_return fun_upd_idem del: fun_upd_apply\<close>)
  qed (use pg(2) in \<open>simp add: tp_length\<close>)
qed simp

lemma build_root_ok:
  assumes at: "pool_at N (Suc k) m n F {} p" and F: "card (dom F) < N" and n: "n + 1 < 2 ^ 51"
    and ok: "key_ok sep" "new < 2 ^ 64" "root < 2 ^ 64"
    and Q: "\<And>pg r. node_page pg root [(sep, new)] \<Longrightarrow> pool_at N k (m(n \<mapsto> pg)) (n + 1) F {} r \<Longrightarrow> Q n r"
  shows "succeeds (build_root root level sep new) p Q"
proof -
  define p1 where "p1 = init_btree_page (page_new n) False True"
  define p2 where "p2 = set_btree_level p1 ((level + 1) mod 2 ^ 16)"
  define p3 where "p3 = set_btree_leftmost_child p2 root"
  have P1: "tree_page p1" "tuples p1 = []" "free_space p1 = 8116" "\<not> is_leaf p1"
    using init_tree_page [of n False True] by (simp_all add: p1_def)
  have P2: "tree_page p2" "tuples p2 = []" "free_space p2 = 8116" "\<not> is_leaf p2" using P1 by (simp_all add: p2_def is_leaf_def)
  have P3: "tree_page p3" "filled node_bytes [] p3" "\<not> is_leaf p3" "btree_leftmost_child p3 = root"
    using P2 ok(3) by (simp_all add: p3_def filled_empty is_leaf_def)
  have "SLOT_SIZE + length (node_bytes (sep, new)) \<le> 8116" using ok(1) by (simp add: key_ok_def)
  then obtain p4 where p4: "insert_tuple_at p3 0 (encode_internal_entry sep new) = Inr (p4, 0)"
    "filled node_bytes [(sep, new)] p4" "same_trailer p3 p4"
    using filled_insert [OF P3(2), of 0 "(sep, new)"] by (auto simp: node_bytes_def insert_at_def)
  have P4: "node_page p4 root [(sep, new)]" "length p4 = PAGE_SIZE"
    using p4(2,3) P3 ok by (auto simp: node_page_filled same_trailer_def is_leaf_def filled_def tp_length)
  show ?thesis
    unfolding build_root_def
  proof (rule edit_new_page [OF at F _ n], goal_cases)
    case (2 f r)
    show ?case unfolding prod.case
    proof (rule edit_change [OF 2(1)], goal_cases)
      case (2 r1)
      have r1: "editing N k m (n + 1) (F(n \<mapsto> (f, 1))) {} n f 0 p1 r1" using 2 by (simp add: p1_def)
      show ?case
      proof (rule edit_change [OF r1], goal_cases)
        case (2 r2)
        have r2: "editing N k m (n + 1) (F(n \<mapsto> (f, 1))) {} n f 0 p2 r2" using 2 by (simp add: p2_def)
        show ?case
        proof (rule edit_change [OF r2], goal_cases)
          case (2 r3)
          have r3: "editing N k m (n + 1) (F(n \<mapsto> (f, 1))) {} n f 0 p3 r3" using 2 by (simp add: p3_def)
          show ?case
          proof (rule edit_try [OF r3], rule p4(1), rule P4(2), goal_cases)
            case (1 r4)
            show ?case
              by (rule edit_unpin [OF 1])
                (use Q [OF P4(1)] \<open>F n = None\<close> in \<open>simp add: succeeds_return fun_upd_idem del: fun_upd_apply\<close>)
          qed
        qed (use P3(1) in \<open>simp add: p3_def tp_length\<close>)
      qed (use P2(1) in \<open>simp add: p2_def tp_length\<close>)
    qed (use P1(1) in \<open>simp add: p1_def tp_length\<close>)
  qed simp
qed

lemma grow_root_ok:
  assumes at: "pool_at N (k + 3) m n F {} p" and pg: "m root = Some pg" "tree_page pg" and F: "F root = None" "card (dom F) < N"
    and n: "root < n" "n + 1 < 2 ^ 51" and ok: "key_ok sep" "new < 2 ^ 64"
    and Q: "\<And>pg' r. node_page pg' root [(sep, new)] \<Longrightarrow>
      pool_at N k (m(root \<mapsto> set_btree_flags pg (clear_flag (btree_flags pg) BTREE_FLAG_IS_ROOT), n \<mapsto> pg')) (n + 1) F {} r \<Longrightarrow> Q n r"
  shows "succeeds (grow_root root sep new) p Q"
proof -
  have at3: "pool_at N (Suc (Suc (Suc k))) m n F {} p" using at by (simp add: numeral_eq_Suc)
  show ?thesis
    unfolding grow_root_def
  proof (rule succeeds_read_page [OF at3 pg(1), where x = "btree_level pg"], goal_cases)
    case (4 q)
    show ?case
    proof (rule succeeds_bind, rule clear_root_ok [OF 4 pg F], goal_cases)
      case (1 r)
      show ?case by (rule build_root_ok [OF 1 F(2) n(2) ok]) (use n Q in auto)
    qed
  qed (use F in \<open>simp_all add: available_def pin_of_def\<close>)
qed

section \<open>An index in the pool\<close>

definition meta_page :: "page \<Rightarrow> nat \<Rightarrow> bool" where
  "meta_page pg root \<longleftrightarrow> length pg = PAGE_SIZE \<and> from_le (slice pg META_OFF_MAGIC 4) = META_MAGIC \<and>
     from_le (slice pg META_OFF_ROOT 8) = root"

definition index_at :: "nat \<Rightarrow> nat \<Rightarrow> pins \<Rightarrow> BTree \<Rightarrow> bt \<Rightarrow> nat \<Rightarrow> BufferPool \<Rightarrow> bool" where
  "index_at N k F b t n p \<longleftrightarrow> (\<exists>m. pool_at N k m n F {} p \<and> insertable N n F m INVALID_PAGE_ID t \<and> ordered [] None t \<and>
     root_id t = bt_root_page_id b \<and> bt_meta_page_id b \<notin> set (ids t) \<and> bt_meta_page_id b < n \<and> pin_of F (bt_meta_page_id b) + 1 < 2 ^ 32 \<and>
     (\<exists>pg. m (bt_meta_page_id b) = Some pg \<and> meta_page pg (bt_root_page_id b)))"

lemma index_at_weaken: "index_at N k F b t n p \<Longrightarrow> k' \<le> k \<Longrightarrow> index_at N k' F b t n p"
  unfolding index_at_def using pool_at_weaken by blast

lemma meta_new_root: "meta_page pg root \<Longrightarrow> new < 2 ^ 64 \<Longrightarrow> meta_page (blit pg META_OFF_ROOT (to_le 8 new)) new"
  by (simp add: meta_page_def slice_blit_same slice_blit_before)

lemma persist_root_ok:
  assumes at: "pool_at N (Suc k) m n F {} p" and pg: "m (bt_meta_page_id b) = Some pg" "length pg = PAGE_SIZE"
    and av: "available N F (bt_meta_page_id b)"
  shows "succeeds (persist_root b) p
    (\<lambda>_. pool_at N k (m(bt_meta_page_id b \<mapsto> blit pg META_OFF_ROOT (to_le 8 (bt_root_page_id b)))) n F {})"
  unfolding persist_root_def
proof (rule succeeds_change_page [OF at pg(1) av, where pg' = "blit pg META_OFF_ROOT (to_le 8 (bt_root_page_id b))"], goal_cases)
  case (2 f c q)
  show ?case by (rule succeeds_changing [OF 2, of "bt_meta_page_id b" f c]) (use pg in simp_all)
qed (auto intro: succeeds_return)

text \<open>A root that was split gets a parent, whose page id then stands in the meta page.\<close>

lemma insert_split_root:
  assumes at: "pool_at N (k + 4) m n F {} p" and cs: "repr_list m INVALID_PAGE_ID cs" "ordered_list None cs" "distinct (ids_list cs)"
      "cs = [([], t1), (sep, t2)]" "\<forall>i \<in> set (ids_list cs). i < n \<and> F i = None" "root_id t1 = bt_root_page_id b"
    and ok: "key_ok sep" and n: "n + 1 < 2 ^ 51" and N: "card (dom F) + 1 < N"
    and meta: "bt_meta_page_id b \<notin> set (ids_list cs)" "bt_meta_page_id b < n" "pin_of F (bt_meta_page_id b) + 1 < 2 ^ 32"
      "m (bt_meta_page_id b) = Some mp" "meta_page mp root"
  shows "\<exists>q r. grow_root (root_id t1) sep (root_id t2) p = (Inr n, q) \<and> persist_root (b\<lparr>bt_root_page_id := n\<rparr>) q = (Inr (), r) \<and>
    index_at N k F (b\<lparr>bt_root_page_id := n\<rparr>) (Node n cs) (n + 1) r"
proof -
  let ?r1 = "root_id t1" and ?b = "b\<lparr>bt_root_page_id := n\<rparr>" and ?meta = "bt_meta_page_id b"
  have at3: "pool_at N (Suc k + 3) m n F {} p" using at by (simp add: numeral_eq_Suc)
  have rin: "?r1 \<in> set (ids_list cs)" "root_id t2 \<in> set (ids_list cs)" using root_in cs(4) by auto
  obtain pg where pg: "m ?r1 = Some pg" "tree_page pg" using repr_pages(2) [OF cs(1) rin(1)] by blast
  let ?m1 = "m(?r1 \<mapsto> set_btree_flags pg (clear_flag (btree_flags pg) BTREE_FLAG_IS_ROOT))"
  have lt: "?r1 < n" "root_id t2 < n" "F ?r1 = None" using cs(5) rin by auto
  have b: "root_id t2 < 2 ^ 64" "card (dom F) < N" using lt n N by simp_all
  have "succeeds (grow_root ?r1 sep (root_id t2)) p
      (\<lambda>x q. x = n \<and> (\<exists>pg'. node_page pg' ?r1 [(sep, root_id t2)] \<and> pool_at N (Suc k) (?m1(n \<mapsto> pg')) (n + 1) F {} q))"
    by (rule grow_root_ok [OF at3 pg lt(3) b(2) lt(1) n ok b(1)]) blast
  then obtain q pg' where q: "grow_root ?r1 sep (root_id t2) p = (Inr n, q)" "node_page pg' ?r1 [(sep, root_id t2)]"
    "pool_at N (Suc k) (?m1(n \<mapsto> pg')) (n + 1) F {} q"
    by (auto simp: succeeds_def simp del: fun_upd_apply)
  let ?m2 = "?m1(n \<mapsto> pg')"
  have meta2: "?m2 ?meta = Some mp" using meta(1,2,4) rin(1) by auto
  have av: "available N F ?meta" using meta(3) b(2) by (simp add: available_def)
  have len: "length mp = PAGE_SIZE" using meta(5) by (simp add: meta_page_def)
  have "succeeds (persist_root ?b) q (\<lambda>_. pool_at N k (?m2(bt_meta_page_id ?b \<mapsto> blit mp META_OFF_ROOT (to_le 8 (bt_root_page_id ?b)))) (n + 1) F {})"
    by (rule persist_root_ok [OF q(3)]) (use meta2 len av in simp_all)
  then obtain r where r: "persist_root ?b q = (Inr (), r)"
    "pool_at N k (?m2(?meta \<mapsto> blit mp META_OFF_ROOT (to_le 8 n))) (n + 1) F {} r"
    by (auto simp: succeeds_def simp del: fun_upd_apply)
  let ?m3 = "?m2(?meta \<mapsto> blit mp META_OFF_ROOT (to_le 8 n))"
  have rl: "repr_list ?m1 INVALID_PAGE_ID cs"
  proof -
    have t: "repr m (first_leaf t2) t1" "repr m INVALID_PAGE_ID t2" "distinct (ids t1)" using cs(1,3,4) by auto
    have "repr ?m1 (first_leaf t2) t1" by (rule repr_root_flags [OF t(1,3) pg(1)])
    moreover have "\<forall>j \<in> set (ids t2). same_node m ?m1 j" using cs(3,4) root_in [of t1] by (auto simp: same_node_def)
    then have "repr ?m1 INVALID_PAGE_ID t2" using repr_same(1) [OF t(2)] by blast
    ultimately show ?thesis by (simp add: cs(4))
  qed
  have nn: "n \<notin> set (ids_list cs)" using cs(5) by auto
  then have "\<forall>j \<in> set (ids_list cs). same_node ?m1 ?m3 j" using meta(1) by (auto simp: same_node_def)
  then have "repr_list ?m3 INVALID_PAGE_ID cs" using repr_same(2) [OF rl] by blast
  then have rep: "repr ?m3 INVALID_PAGE_ID (Node n cs)" using q(2) meta(2) by (simp add: cs(4) child_entry_def)
  have Fn: "F n = None" "F INVALID_PAGE_ID = None"
    using at_less [OF at, of n] at_less [OF at, of INVALID_PAGE_ID] n by (cases "F n"; cases "F INVALID_PAGE_ID"; auto)+
  have "insertable N (n + 1) F ?m3 INVALID_PAGE_ID (Node n cs)"
    using rep cs(3,5) nn n N Fn by (auto simp: insertable_def simp del: repr.simps)
  moreover have "ordered [] None (Node n cs)" using cs(2,4) by simp
  moreover have "meta_page (blit mp META_OFF_ROOT (to_le 8 n)) n" using meta_new_root [OF meta(5)] n by simp
  ultimately have "index_at N k F ?b (Node n cs) (n + 1) r"
    using r(2) meta nn unfolding index_at_def by (intro exI [of _ ?m3]) simp
  then show ?thesis using q(1) r(1) by blast
qed

lemma grown_insertable:
  assumes t: "insertable N n F m nxt t" and g: "grown lo hi nxt n e t n' m' cs" and at: "pool_at N k m n F {} p" and n: "n \<le> n'"
    and i: "i \<in> set (ids_list cs)"
  shows "i < n'" "F i = None"
proof -
  have c: "i \<in> set (ids t) \<or> n \<le> i \<and> i < n'" using g i by (auto simp: grown_def)
  moreover have "\<forall>j \<in> set (ids t). j < n \<and> F j = None" using t by (simp add: insertable_def)
  moreover have "F i = None" if "n \<le> i" using at_less [OF at, of i] that by (cases "F i") auto
  ultimately show "i < n'" "F i = None" using n by fastforce+
qed

theorem index_insert_ok:
  assumes idx: "index_at N (k + 5 * (height t + 1) + 4) F b t n p" and ok: "key_ok key" "tid_ok tid"
    and new: "key \<notin> fst ` set (entries t)" and n: "n + height t + 2 < 2 ^ 51"
  shows "\<exists>b' t' n' q. btree_insert b key tid p = Some (Inr (), b', q) \<and> index_at N k F b' t' n' q \<and>
    set (entries t') = insert (key, tid) (set (entries t)) \<and> height t' \<le> height t + 1 \<and> n' \<le> n + height t + 2 \<and>
    bt_meta_page_id b' = bt_meta_page_id b"
proof -
  let ?meta = "bt_meta_page_id b"
  obtain m mp where m: "pool_at N (k + 5 * (height t + 1) + 4) m n F {} p" "insertable N n F m INVALID_PAGE_ID t" "ordered [] None t"
    "root_id t = bt_root_page_id b" "?meta \<notin> set (ids t)" "?meta < n" "pin_of F ?meta + 1 < 2 ^ 32" "m ?meta = Some mp"
    "meta_page mp (bt_root_page_id b)"
    using idx by (auto simp: index_at_def)
  have at: "pool_at N (k + 4 + 5 * (height t + 1)) m n F {} p" using m(1) by (simp add: algebra_simps)
  have "osucceeds (insert_recursive (root_id t) key tid) p (ins_post N (k + 4) m n F [] None INVALID_PAGE_ID (key, tid) t)"
    by (rule insert_recursive_ok [OF order_refl m(2,3) _ _ new ok at]) (use n in simp_all)
  then obtain x q m' n' cs where x: "insert_recursive (root_id t) key tid p = Some (Inr x, q)"
    and P: "pool_at N (k + 4) m' n' F {} q" "n \<le> n'" "n' \<le> n + height t + 1" "elsewhere INVALID_PAGE_ID n t m m'" "split_of x cs"
    and g: "grown [] None INVALID_PAGE_ID n (key, tid) t n' m' cs"
    by (auto simp: osucceeds_def ins_post_def)
  note I = grown_insertable [OF m(2) g m(1) P(2)]
  have G: "cs \<noteq> []" "fst (hd cs) = []" "root_id (snd (hd cs)) = root_id t" "repr_list m' INVALID_PAGE_ID cs" "ordered_list None cs"
    "set (entries_list cs) = insert (key, tid) (set (entries t))" "distinct (ids_list cs)"
    "set (ids_list cs) \<subseteq> set (ids t) \<union> {n..<n'}" "height_list cs \<le> height t"
    using g by (auto simp: grown_def)
  have INV: "?meta \<noteq> INVALID_PAGE_ID" using m(6) n by simp
  then have meta: "m' ?meta = Some mp" using P(4) m(5,6,8) by (auto simp: elsewhere_def)
  have mids: "?meta \<notin> set (ids_list cs)" using G(8) m(5,6) by auto
  have N: "card (dom F) + 1 < N" "F INVALID_PAGE_ID = None" using m(2) by (simp_all add: insertable_def)
  show ?thesis
  proof (cases x)
    case None
    then obtain t1 where cs: "cs = [([], t1)]" using P(5) G(2) by (auto simp: split_of_def length_Suc_conv)
    have "insertable N n' F m' INVALID_PAGE_ID t1"
      using G(4,7) N I n P(3) by (auto simp: insertable_def cs)
    then have "index_at N (k + 4) F b t1 n' q"
      using P(1,2) G(3,5) m(4,6,7,9) meta mids unfolding index_at_def by (intro exI [of _ m']) (auto simp: cs)
    moreover have "btree_insert b key tid p = Some (Inr (), b, q)" using x None m(4) by (simp add: btree_insert_def)
    ultimately show ?thesis
      using index_at_weaken [of N "k + 4" F b t1 n' q k] G(6,9) P(3) by (intro exI [of _ b] exI [of _ t1] exI [of _ n'] exI [of _ q]) (auto simp: cs)
  next
    case (Some y)
    then obtain sep t1 t2 where cs: "cs = [([], t1), (sep, t2)]" "key_ok sep" "y = (sep, root_id t2)"
      using P(5) G(2) by (auto simp: split_of_def length_Suc_conv numeral_2_eq_2 child_entry_def)
    have r1: "root_id t1 = bt_root_page_id b" using G(3) m(4) cs(1) by simp
    have nn: "n' + 1 < 2 ^ 51" "?meta < n'" using P(2,3) n m(6) by simp_all
    obtain q1 r where r: "grow_root (root_id t1) sep (root_id t2) q = (Inr n', q1)" "persist_root (b\<lparr>bt_root_page_id := n'\<rparr>) q1 = (Inr (), r)"
      "index_at N k F (b\<lparr>bt_root_page_id := n'\<rparr>) (Node n' cs) (n' + 1) r"
      using insert_split_root [OF P(1) G(4,5,7) cs(1) _ r1 cs(2) nn(1) N(1) mids nn(2) m(7) meta m(9)] I by blast
    then have "btree_insert b key tid p = Some (Inr (), b\<lparr>bt_root_page_id := n'\<rparr>, r)"
      using x Some cs(3) m(4) r1 by (simp add: btree_insert_def)
    then show ?thesis using r(3) G(6,9) P(3)
      by (intro exI [of _ "b\<lparr>bt_root_page_id := n'\<rparr>"] exI [of _ "Node n' cs"] exI [of _ "n' + 1"] exI [of _ r]) simp
  qed
qed

section \<open>Lookups\<close>

lemma node_descends:
  assumes r: "repr m nxt (Node i cs)" and o: "ordered lo hi (Node i cs)" and k: "lo \<le> key" "below key hi"
  obtains pg A kc c B where "m i = Some pg" "\<not> is_leaf pg" "descend_node pg key = Inr (root_id c)" "cs = A @ (kc, c) # B"
    "repr m (nxt_leaf B nxt) c" "ordered kc (nxt_key B hi) c" "kc \<le> key" "below key (nxt_key B hi)"
    "\<forall>e \<in> set (entries_list A). fst e < key" "\<forall>e \<in> set (entries_list B). key < fst e"
proof -
  obtain pg where pg: "m i = Some pg" "node_page pg (root_id (snd (hd cs))) (map child_entry (tl cs))" using r by auto
  obtain A kc c B where cs: "cs = A @ (kc, c) # B" "\<forall>d \<in> set A. fst d \<le> key" "kc \<le> key" "\<forall>d \<in> set B. key < fst d"
    using child_for_key [OF o k(1)] by blast
  have ol: "ordered_list hi cs" using o by simp
  have d: "descend_node pg key = Inr (root_id c)" by (rule descend_child [OF pg(2) ordered_list_sorted [OF ol] cs])
  have b: "below key (nxt_key B hi)" using cs(4) k(2) by (cases B) auto
  have A: "fst e < key" if "e \<in> set (entries_list A)" for e
  proof -
    have "A \<noteq> []" "ordered_list (Some kc) A" using that ol by (auto simp: cs(1))
    then have "fst e < kc" using ordered_entries(2) that by fastforce
    then show ?thesis using cs(3) by simp
  qed
  have B: "key < fst e" if "e \<in> set (entries_list B)" for e
  proof -
    have "B \<noteq> []" "ordered_list hi B" using that ol by (auto simp: cs(1))
    then have "fst (hd B) \<le> fst e" "key < fst (hd B)" using ordered_entries(2) that cs(4) by auto
    then show ?thesis by simp
  qed
  show ?thesis
    by (rule that [OF pg(1) _ d cs(1)]) (use pg(2) r ol cs(3) b A B in \<open>auto simp: node_page_def cs(1)\<close>)
qed

lemma map_of_child:
  assumes "\<forall>e \<in> set xs. fst e < key" "\<forall>e \<in> set ys. key < fst (e :: byte list \<times> TupleId)"
  shows "map_of (xs @ es @ ys) key = map_of es key"
proof -
  have "map_of xs key = None" "map_of ys key = None" using assms by (auto simp: map_of_eq_None_iff)
  then show ?thesis by (auto simp: map_add_def split: option.split)
qed

lemma lookup_leaf_ok:
  assumes at: "pool_at N (Suc k) m n F {} p" and t: "repr m nxt (Leaf i es)" "sorted_wrt (<) (map fst es)" and F: "F i = None" "card (dom F) < N"
  shows "osucceeds (lookup_loop i key) p (\<lambda>x q. x = map_of es key \<and> pool_at N k m n F {} q)"
proof -
  obtain pg where pg: "m i = Some pg" "leaf_page pg es nxt" using t(1) by auto
  have "succeeds (lookup_step i key) p (\<lambda>x q. x = Inl (map_of es key) \<and> pool_at N k m n F {} q)"
    unfolding lookup_step_def
    by (rule read_step_ok [OF at pg(1) F]) (use pg(2) find_in_leaf_ok [OF pg(2) t(2)] in \<open>simp add: leaf_page_def\<close>)
  then show ?thesis by (auto simp: succeeds_def osucceeds_def lookup_loop.simps [of i])
qed

lemma lookup_loop_ok:
  assumes "height t \<le> h" "repr m nxt t" "ordered lo hi t" "lo \<le> key" "below key hi" "\<forall>i \<in> set (ids t). F i = None" "card (dom F) < N"
    "pool_at N (Suc (k + h)) m n F {} p"
  shows "osucceeds (lookup_loop (root_id t) key) p (\<lambda>x q. x = map_of (entries t) key \<and> pool_at N k m n F {} q)"
  using assms
proof (induction h arbitrary: t nxt lo hi p)
  case 0
  then obtain i es where t: "t = Leaf i es" by (cases t) auto
  show ?case using 0 lookup_leaf_ok [of N k m n F p nxt i es key] unfolding t by auto
next
  case (Suc h)
  show ?case
  proof (cases t)
    case (Leaf i es)
    have "pool_at N (Suc k) m n F {} p" using Suc.prems(8) by (rule pool_at_weaken) simp
    then show ?thesis using Suc.prems lookup_leaf_ok [of N k m n F p nxt i es key] unfolding Leaf by auto
  next
    case (Node i cs)
    obtain pg A kc c B where D: "m i = Some pg" "\<not> is_leaf pg" "descend_node pg key = Inr (root_id c)" "cs = A @ (kc, c) # B"
      "repr m (nxt_leaf B nxt) c" "ordered kc (nxt_key B hi) c" "kc \<le> key" "below key (nxt_key B hi)"
      "\<forall>e \<in> set (entries_list A). fst e < key" "\<forall>e \<in> set (entries_list B). key < fst e"
      by (rule node_descends [OF Suc.prems(2,3) [unfolded Node] Suc.prems(4,5)])
    have c: "height c \<le> h" "\<forall>i \<in> set (ids c). F i = None" "F i = None" using Suc.prems(1,6) Node D(4) by auto
    have at: "pool_at N (Suc (Suc (k + h))) m n F {} p" using Suc.prems(8) by simp
    have "succeeds (lookup_step i key) p (\<lambda>x q. x = Inr (root_id c) \<and> pool_at N (Suc (k + h)) m n F {} q)"
      unfolding lookup_step_def by (rule read_step_ok [OF at D(1) c(3) Suc.prems(7)]) (simp add: D(2,3))
    then obtain q where q: "lookup_step i key p = (Inr (Inr (root_id c)), q)" "pool_at N (Suc (k + h)) m n F {} q"
      by (auto simp: succeeds_def)
    have "map_of (entries t) key = map_of (entries c) key" using map_of_child [OF D(9,10)] Node D(4) by simp
    then show ?thesis
      using Suc.IH [OF c(1) D(5-8) c(2) Suc.prems(7) q(2)] q(1) Node
      by (simp add: osucceeds_def lookup_loop.simps [of i])
  qed
qed

section \<open>Range scans\<close>

text \<open>The leaves of a tree, from left to right, and their chain in the pages.\<close>

fun leaves :: "bt \<Rightarrow> (nat \<times> (byte list \<times> TupleId) list) list"
  and leaves_list :: "(byte list \<times> bt) list \<Rightarrow> (nat \<times> (byte list \<times> TupleId) list) list" where
  "leaves (Leaf i es) = [(i, es)]"
| "leaves (Node i cs) = leaves_list cs"
| "leaves_list [] = []"
| "leaves_list ((k, t) # cs) = leaves t @ leaves_list cs"

definition leaf_head :: "(nat \<times> (byte list \<times> TupleId) list) list \<Rightarrow> nat \<Rightarrow> nat" where
  "leaf_head ls nxt = (case ls of [] \<Rightarrow> nxt | l # _ \<Rightarrow> fst l)"

fun linked :: "(nat \<Rightarrow> page option) \<Rightarrow> nat \<Rightarrow> (nat \<times> (byte list \<times> TupleId) list) list \<Rightarrow> bool" where
  "linked m nxt [] \<longleftrightarrow> True"
| "linked m nxt ((i, es) # ls) \<longleftrightarrow> (\<exists>pg. m i = Some pg \<and> leaf_page pg es (leaf_head ls nxt)) \<and> linked m nxt ls"

lemma leaf_head_simps [simp]: "leaf_head [] nxt = nxt" "leaf_head (l # ls) nxt = fst l"
  "leaf_head (xs @ ys) nxt = leaf_head xs (leaf_head ys nxt)"
  by (simp_all add: leaf_head_def split: list.split)

lemma leaf_head_hd: "ls \<noteq> [] \<Longrightarrow> leaf_head ls nxt = fst (hd ls)"
  by (cases ls) auto

lemma linked_append [simp]: "linked m nxt (xs @ ys) \<longleftrightarrow> linked m (leaf_head ys nxt) xs \<and> linked m nxt ys"
  by (induction xs) auto

lemma leaves_append [simp]: "leaves_list (xs @ ys) = leaves_list xs @ leaves_list ys"
  by (induction xs) auto

lemma leaves_entries: "concat (map snd (leaves t)) = entries t" "concat (map snd (leaves_list cs)) = entries_list cs"
  by (induction t and cs rule: leaves_leaves_list.induct) auto

lemma leaves_ids: "length (leaves t) \<le> length (ids t) \<and> fst ` set (leaves t) \<subseteq> set (ids t)"
  "length (leaves_list cs) \<le> length (ids_list cs) \<and> fst ` set (leaves_list cs) \<subseteq> set (ids_list cs)"
  by (induction t and cs rule: leaves_leaves_list.induct) auto

lemma repr_linked:
  "repr m nxt t \<Longrightarrow> linked m nxt (leaves t) \<and> leaves t \<noteq> [] \<and> fst (hd (leaves t)) = first_leaf t"
  "repr_list m nxt cs \<Longrightarrow> linked m nxt (leaves_list cs) \<and> leaf_head (leaves_list cs) nxt = nxt_leaf cs nxt \<and>
     (cs \<noteq> [] \<longrightarrow> leaves_list cs \<noteq> [])"
proof (induction m nxt t and m nxt cs rule: repr_repr_list.induct)
  case (2 m nxt i cs)
  then obtain k t ds where "cs = (k, t) # ds" by (cases cs) auto
  with 2 leaf_head_hd [of "leaves_list cs" nxt] show ?case by auto
next
  case (4 m nxt k t cs)
  then show ?case using leaf_head_hd [of "leaves t"] by simp
qed auto

lemma scan_step_ok:
  assumes at: "pool_at N (Suc k) m n F {} p" and l: "linked m INVALID_PAGE_ID ((i, es) # ls)" and F: "F i = None" "card (dom F) < N"
    and ids: "\<forall>l \<in> set ls. fst l < INVALID_PAGE_ID"
  shows "succeeds (scan_step i start fin rs) p (\<lambda>x q. pool_at N k m n F {} q \<and>
    x = (if list_all (\<lambda>e. below (fst e) fin) (filter (\<lambda>e. start \<le> fst e) es) then map_option fst (case ls of [] \<Rightarrow> None | l # _ \<Rightarrow> Some l) else None,
      rs @ takeWhile (\<lambda>e. below (fst e) fin) (filter (\<lambda>e. start \<le> fst e) es)))"
proof -
  obtain pg where pg: "m i = Some pg" "leaf_page pg es (leaf_head ls INVALID_PAGE_ID)" using l by auto
  have nx: "btree_next_page pg = leaf_head ls INVALID_PAGE_ID" using pg(2) by (simp add: leaf_page_def)
  show ?thesis
    unfolding scan_step_def
    by (rule succeeds_mono [OF read_step_ok [OF at pg(1) F]])
      (use scan_leaf_ok [OF pg(2), of 0 start fin rs] leaf_slots [OF pg(2)] nx ids in \<open>auto split: list.split\<close>)
qed

lemma takeWhile_filter_append:
  "takeWhile P (filter R (xs @ ys)) =
     (if list_all P (filter R xs) then filter R xs @ takeWhile P (filter R ys) else takeWhile P (filter R xs))"
  by (auto simp: list_all_iff takeWhile_append)

lemma scan_loop_ok:
  assumes "pool_at N (Suc (k + length ls)) m n F {} p" "linked m INVALID_PAGE_ID ((i, es) # ls)"
    "\<forall>l \<in> set ((i, es) # ls). F (fst l) = None \<and> fst l < INVALID_PAGE_ID" "card (dom F) < N"
  shows "osucceeds (scan_loop i start fin rs) p (\<lambda>x q. pool_at N k m n F {} q \<and>
    x = rs @ takeWhile (\<lambda>e. below (fst e) fin) (filter (\<lambda>e. start \<le> fst e) (es @ concat (map snd ls))))"
  using assms
proof (induction ls arbitrary: i es rs p)
  case Nil
  then obtain q where q: "scan_step i start fin rs p =
      (Inr (None, rs @ takeWhile (\<lambda>e. below (fst e) fin) (filter (\<lambda>e. start \<le> fst e) es)), q)" "pool_at N k m n F {} q"
    using scan_step_ok [of N k m n F p i es "[]" start fin rs] by (auto simp: succeeds_def)
  then show ?case by (simp add: osucceeds_def scan_loop.simps [of i])
next
  case (Cons l ls)
  obtain j ds where l: "l = (j, ds)" by (cases l)
  let ?all = "list_all (\<lambda>e. below (fst e) fin) (filter (\<lambda>e. start \<le> fst e) es)"
  let ?rs = "rs @ takeWhile (\<lambda>e. below (fst e) fin) (filter (\<lambda>e. start \<le> fst e) es)"
  obtain q where q: "scan_step i start fin rs p = (Inr (if ?all then Some j else None, ?rs), q)" "pool_at N (Suc (k + length ls)) m n F {} q"
    using scan_step_ok [of N "Suc (k + length ls)" m n F p i es "l # ls" start fin rs] Cons.prems l by (auto simp: succeeds_def)
  show ?case
  proof (cases ?all)
    case True
    have "?rs = rs @ filter (\<lambda>e. start \<le> fst e) es" using True by (simp add: list_all_iff)
    then have rs: "?rs @ takeWhile (\<lambda>e. below (fst e) fin) (filter (\<lambda>e. start \<le> fst e) ys) =
        rs @ takeWhile (\<lambda>e. below (fst e) fin) (filter (\<lambda>e. start \<le> fst e) (es @ ys))" for ys
      unfolding takeWhile_filter_append [of _ _ es] using True by simp
    have "scan_loop i start fin rs p = scan_loop j start fin ?rs q" using q(1) True by (simp add: scan_loop.simps [of i])
    then show ?thesis
      using Cons.IH [of q j ds "?rs"] q(2) Cons.prems(2-4) unfolding osucceeds_def l rs by simp
  next
    case False
    have "pool_at N k m n F {} q" using q(2) by (rule pool_at_weaken) simp
    then show ?thesis using q(1) False
      unfolding osucceeds_def scan_loop.simps [of i] by (simp add: takeWhile_filter_append del: filter_append)
  qed
qed

lemma leaf_loop_leaf:
  assumes at: "pool_at N (Suc k) m n F {} p" and t: "repr m nxt (Leaf i es)" and F: "F i = None" "card (dom F) < N"
  shows "osucceeds (leaf_loop i start) p (\<lambda>x q. pool_at N k m n F {} q \<and> x = i)"
proof -
  obtain pg where pg: "m i = Some pg" "leaf_page pg es nxt" using t by auto
  have "succeeds (leaf_step i start) p (\<lambda>x q. x = None \<and> pool_at N k m n F {} q)"
    unfolding leaf_step_def by (rule read_step_ok [OF at pg(1) F]) (use pg(2) in \<open>simp add: leaf_page_def\<close>)
  then show ?thesis by (auto simp: succeeds_def osucceeds_def leaf_loop.simps [of i])
qed

lemma leaf_loop_ok:
  assumes "height t \<le> h" "repr m nxt t" "ordered lo hi t" "lo \<le> start" "below start hi" "\<forall>i \<in> set (ids t). F i = None" "card (dom F) < N"
    "pool_at N (Suc (k + h)) m n F {} p"
  shows "osucceeds (leaf_loop (root_id t) start) p (\<lambda>x q. pool_at N k m n F {} q \<and>
    (\<exists>ls1 es ls2. leaves t = ls1 @ (x, es) # ls2 \<and> (\<forall>e \<in> set (concat (map snd ls1)). fst e < start)))"
  using assms
proof (induction h arbitrary: t nxt lo hi p)
  case (Suc h)
  show ?case
  proof (cases t)
    case (Leaf i es)
    have "pool_at N (Suc k) m n F {} p" using Suc.prems(8) by (rule pool_at_weaken) simp
    then show ?thesis using Suc.prems leaf_loop_leaf [of N k m n F p nxt i es start]
      unfolding Leaf osucceeds_def by fastforce
  next
    case (Node i cs)
    obtain pg A kc c B where D: "m i = Some pg" "\<not> is_leaf pg" "descend_node pg start = Inr (root_id c)" "cs = A @ (kc, c) # B"
      "repr m (nxt_leaf B nxt) c" "ordered kc (nxt_key B hi) c" "kc \<le> start" "below start (nxt_key B hi)"
      "\<forall>e \<in> set (entries_list A). fst e < start" "\<forall>e \<in> set (entries_list B). start < fst e"
      by (rule node_descends [OF Suc.prems(2,3) [unfolded Node] Suc.prems(4,5)])
    have c: "height c \<le> h" "\<forall>i \<in> set (ids c). F i = None" "F i = None" using Suc.prems(1,6) Node D(4) by auto
    have at: "pool_at N (Suc (Suc (k + h))) m n F {} p" using Suc.prems(8) by simp
    have "succeeds (leaf_step i start) p (\<lambda>x q. x = Some (root_id c) \<and> pool_at N (Suc (k + h)) m n F {} q)"
      unfolding leaf_step_def by (rule read_step_ok [OF at D(1) c(3) Suc.prems(7)]) (simp add: D(2,3))
    then obtain q where q: "leaf_step i start p = (Inr (Some (root_id c)), q)" "pool_at N (Suc (k + h)) m n F {} q"
      by (auto simp: succeeds_def)
    obtain x r ls1 es ls2 where r: "leaf_loop (root_id c) start q = Some (Inr x, r)" "pool_at N k m n F {} r"
      "leaves c = ls1 @ (x, es) # ls2" "\<forall>e \<in> set (concat (map snd ls1)). fst e < start"
      using Suc.IH [OF c(1) D(5-8) c(2) Suc.prems(7) q(2)] unfolding osucceeds_def by blast
    have "leaves t = (leaves_list A @ ls1) @ (x, es) # (ls2 @ leaves_list B)" using r(3) Node D(4) by simp
    moreover have "\<forall>e \<in> set (concat (map snd (leaves_list A @ ls1))). fst e < start"
      using r(4) D(9) by (auto simp: leaves_entries(2) [symmetric])
    moreover have "leaf_loop i start p = Some (Inr x, r)" using q(1) r(1) by (simp add: leaf_loop.simps [of i])
    ultimately show ?thesis using r(2) unfolding osucceeds_def Node root_id.simps by blast
  qed
next
  case 0
  then obtain i es where t: "t = Leaf i es" by (cases t) auto
  show ?case using 0 leaf_loop_leaf [of N k m n F p nxt i es start] unfolding t osucceeds_def by fastforce
qed

section \<open>The operations of an index\<close>

lemma index_lookup_ok:
  assumes "index_at N (Suc (k + height t)) F b t n p"
  shows "\<exists>q. btree_lookup b key p = Some (Inr (map_of (entries t) key), q) \<and> index_at N k F b t n q"
proof -
  obtain m where m: "pool_at N (Suc (k + height t)) m n F {} p" "insertable N n F m INVALID_PAGE_ID t" "ordered [] None t"
    "root_id t = bt_root_page_id b" and rest: "\<And>q. pool_at N k m n F {} q \<Longrightarrow> index_at N k F b t n q"
    using assms unfolding index_at_def by blast
  have I: "repr m INVALID_PAGE_ID t" "\<forall>i \<in> set (ids t). F i = None" "card (dom F) < N" using m(2) by (auto simp: insertable_def)
  show ?thesis
    using lookup_loop_ok [OF order_refl I(1) m(3) _ _ I(2,3) m(1), of key] rest m(4) by (auto simp: osucceeds_def btree_lookup_def)
qed

lemma takeWhile_filter_sorted:
  assumes "sorted_wrt (<) (map fst es)"
  shows "takeWhile (\<lambda>e. below (fst e) fin) (filter (\<lambda>e. start \<le> fst e) es) = filter (\<lambda>e. start \<le> fst e \<and> below (fst e) fin) es"
  using assms
proof (induction es)
  case (Cons e es)
  have "below (fst e) fin" if "x \<in> set es" "below (fst x) fin" for x
    using below_trans(2) [of "fst e" "fst x" fin] Cons.prems that by (simp add: less_imp_le)
  then have "\<not> below (fst e) fin \<Longrightarrow> filter (\<lambda>e. start \<le> fst e \<and> below (fst e) fin) es = []"
    by (auto simp: filter_empty_conv)
  then show ?case using Cons by simp
qed simp

lemma index_scan_ok:
  assumes "index_at N (Suc (k + n + height t)) F b t n p"
  shows "\<exists>q. range_scan b start fin p = Some (Inr (filter (\<lambda>e. start \<le> fst e \<and> below (fst e) fin) (entries t)), q) \<and> index_at N k F b t n q"
proof -
  obtain m where m: "pool_at N (Suc (k + n + height t)) m n F {} p" "insertable N n F m INVALID_PAGE_ID t" "ordered [] None t"
    "root_id t = bt_root_page_id b" and rest: "\<And>q. pool_at N k m n F {} q \<Longrightarrow> index_at N k F b t n q"
    using assms unfolding index_at_def by blast
  have I: "repr m INVALID_PAGE_ID t" "\<forall>i \<in> set (ids t). F i = None" "card (dom F) < N" "distinct (ids t)" "\<forall>i \<in> set (ids t). i < n" "n < 2 ^ 51"
    using m(2) by (auto simp: insertable_def)
  obtain x q ls1 es ls2 where q: "leaf_loop (root_id t) start p = Some (Inr x, q)" "pool_at N (k + n) m n F {} q"
    and ls: "leaves t = ls1 @ (x, es) # ls2" "\<forall>e \<in> set (concat (map snd ls1)). fst e < start"
  proof -
    have "osucceeds (leaf_loop (root_id t) start) p (\<lambda>x q. pool_at N (k + n) m n F {} q \<and>
        (\<exists>ls1 es ls2. leaves t = ls1 @ (x, es) # ls2 \<and> (\<forall>e \<in> set (concat (map snd ls1)). fst e < start)))"
      by (rule leaf_loop_ok [OF order_refl I(1) m(3) _ _ I(2,3) m(1)]) simp_all
    then show ?thesis using that unfolding osucceeds_def by blast
  qed
  have "length (ids t) \<le> n" using distinct_card [OF I(4)] card_mono [of "{..<n}" "set (ids t)"] I(5) by auto
  then have "Suc (k + length ls2) \<le> k + n" using leaves_ids(1) [of t] ls(1) by simp
  then have at: "pool_at N (Suc (k + length ls2)) m n F {} q" using pool_at_weaken [OF q(2)] by blast
  have lk: "linked m INVALID_PAGE_ID ((x, es) # ls2)" using repr_linked(1) [OF I(1)] unfolding ls(1) linked_append by blast
  have "fst l \<in> set (ids t)" if "l \<in> set ((x, es) # ls2)" for l using leaves_ids(1) [of t] ls(1) that by auto
  moreover have "n < INVALID_PAGE_ID" using I(6) by simp
  ultimately have "\<forall>l \<in> set ((x, es) # ls2). F (fst l) = None \<and> fst l < INVALID_PAGE_ID" using I(2,5) less_trans by blast
  then obtain r where r: "scan_loop x start fin [] q =
      Some (Inr (takeWhile (\<lambda>e. below (fst e) fin) (filter (\<lambda>e. start \<le> fst e) (es @ concat (map snd ls2)))), r)" "pool_at N k m n F {} r"
    using scan_loop_ok [OF at lk _ I(3), of start fin "[]"] by (auto simp: osucceeds_def)
  have "entries t = concat (map snd ls1) @ es @ concat (map snd ls2)" using leaves_entries(1) [of t] ls(1) by simp
  moreover have "filter (\<lambda>e. start \<le> fst e) (concat (map snd ls1)) = []"
    unfolding filter_empty_conv using ls(2) leD by blast
  ultimately have "filter (\<lambda>e. start \<le> fst e) (es @ concat (map snd ls2)) = filter (\<lambda>e. start \<le> fst e) (entries t)" by simp
  then show ?thesis
    using q(1) r rest m(4) takeWhile_filter_sorted [of "entries t" fin start] ordered_entries(1) [OF m(3)]
    by (simp add: range_scan_def)
qed

lemma index_open_ok:
  assumes "index_at N (Suc k) F b t n p"
  shows "\<exists>q. btree_open (bt_meta_page_id b) p = (Inr b, q) \<and> index_at N k F b t n q"
proof -
  let ?meta = "bt_meta_page_id b"
  obtain m pg where m: "pool_at N (Suc k) m n F {} p" "m ?meta = Some pg" "meta_page pg (bt_root_page_id b)" "available N F ?meta"
    and rest: "\<And>q. pool_at N k m n F {} q \<Longrightarrow> index_at N k F b t n q"
    using assms by (fastforce simp: index_at_def available_def insertable_def)
  have "succeeds (btree_open ?meta) p (\<lambda>x q. x = b \<and> pool_at N k m n F {} q)"
    unfolding btree_open_def
  proof (rule succeeds_bind, rule succeeds_fetch [OF m(1,2,4)], goal_cases)
    case (2 f q)
    have pg: "pool_page q f = pg" using at_page [OF 2(1), of ?meta f] m(2) by simp
    have "succeeds (unpin ?meta False) q (\<lambda>_. pool_at N k m n F {})"
      by (rule succeeds_unpin [OF 2(1), of ?meta f "pin_of F ?meta"]) (use 2(2) in auto)
    then show ?case using m(3) pg by (auto simp: succeeds_def pbind_def reading_def preturn_def meta_page_def)
  qed simp
  then show ?thesis using rest by (auto simp: succeeds_def)
qed

lemma init_next_page: "btree_next_page (init_btree_page (page_new i) leaf root) = INVALID_PAGE_ID"
  using init_tree_page(1) [of i leaf root] by (simp add: trailer_sel) (simp add: init_btree_page_def Let_def header_defs buf_simps)

lemma meta_page_written: "length pg = PAGE_SIZE \<Longrightarrow> root < 2 ^ 64 \<Longrightarrow> meta_page (write_meta root pg) root"
  by (simp add: meta_page_def write_meta_def Let_def slice_blit_same slice_blit_before slice_blit_after)

lemma create_ok:
  assumes at: "pool_at N (k + 3) m n Map.empty {} p" and N: "3 \<le> N" and n: "n + 2 < 2 ^ 51"
  shows "\<exists>b q f. btree_create p = (Inr b, q) \<and> index_at N k [n \<mapsto> (f, 1)] b (Leaf (n + 1) []) (n + 2) q"
proof -
  have at3: "pool_at N (Suc (Suc (Suc k))) m n Map.empty {} p" using at by (simp add: numeral_eq_Suc)
  define pr where "pr = init_btree_page (page_new (n + 1)) True True"
  let ?b = "\<lparr>bt_meta_page_id = n, bt_root_page_id = n + 1\<rparr>" and ?pm = "write_meta (n + 1) (page_new n)"
  let ?m = "m(n \<mapsto> page_new n, n + 1 \<mapsto> pr)"
  have pr: "leaf_page pr [] INVALID_PAGE_ID" "length pr = PAGE_SIZE"
    using init_tree_page [of "n + 1" True True] init_next_page [of "n + 1" True True] by (simp_all add: pr_def leaf_page_def tp_length)
  have len: "length (page_new n) = PAGE_SIZE" "length ?pm = PAGE_SIZE" using length_page_new by (simp_all add: write_meta_def Let_def)
  have "succeeds btree_create p (\<lambda>b q. b = ?b \<and> (\<exists>f. pool_at N k (?m(n \<mapsto> ?pm)) (n + 2) [n \<mapsto> (f, 1)] {} q))"
    unfolding btree_create_def
  proof (rule succeeds_bind, rule succeeds_new_page [OF at3], goal_cases)
    case (3 f q)
    have c: "card (dom [n \<mapsto> (f, 1 :: nat)]) < N" using N by simp
    show ?case unfolding prod.case
    proof (rule edit_new_page [OF 3 c], goal_cases)
      case (3 g r)
      show ?case unfolding prod.case
      proof (rule edit_change [OF 3(1)], goal_cases)
        case (2 r1)
        show ?case
        proof (rule edit_unpin [OF 2], goal_cases)
          case (1 r2)
          then have r2: "pool_at N (Suc k) ?m (n + 2) [n \<mapsto> (f, 1)] {} r2" by (simp add: pr_def fun_upd_idem del: fun_upd_apply)
          show ?case
          proof (rule succeeds_change_page [OF r2, where pg' = ?pm and pg = "page_new n"], goal_cases)
            case (4 h c s)
            show ?case by (rule succeeds_changing [OF 4, of n h c]) (use len in simp_all)
          next
            case (5 s)
            then show ?case by (intro succeeds_return) (auto simp del: fun_upd_apply)
          qed (use N in \<open>simp_all add: available_def pin_of_def\<close>)
        qed
      qed (use pr(2) in \<open>simp add: pr_def\<close>)
    qed (use n in simp_all)
  qed (use N n in simp_all)
  then obtain q f where q: "btree_create p = (Inr ?b, q)" "pool_at N k (?m(n \<mapsto> ?pm)) (n + 2) [n \<mapsto> (f, 1)] {} q"
    by (auto simp: succeeds_def simp del: fun_upd_apply)
  have "meta_page ?pm (n + 1)" using meta_page_written [OF len(1)] n by simp
  then have "index_at N k [n \<mapsto> (f, 1)] ?b (Leaf (n + 1) []) (n + 2) q"
    using q(2) pr(1) n N unfolding index_at_def by (intro exI [of _ "?m(n \<mapsto> ?pm)"]) (simp add: insertable_def pin_of_def)
  then show ?thesis using q(1) by blast
qed

section \<open>An index is a sorted map\<close>

datatype index_op = Insert "byte list" TupleId | Lookup "byte list" | Scan "byte list" "byte list option" | Open

datatype index_out = Done | Found "TupleId option" | Rows "(byte list \<times> TupleId) list"

fun index_step :: "index_op \<Rightarrow> BTree \<Rightarrow> BufferPool \<Rightarrow> ((StorageError + index_out) \<times> BTree \<times> BufferPool) option" where
  "index_step (Insert key tid) b p = map_option (\<lambda>(r, b', q). (map_sum id (\<lambda>_. Done) r, b', q)) (btree_insert b key tid p)"
| "index_step (Lookup key) b p = map_option (\<lambda>(r, q). (map_sum id Found r, b, q)) (btree_lookup b key p)"
| "index_step (Scan start fin) b p = map_option (\<lambda>(r, q). (map_sum id Rows r, b, q)) (range_scan b start fin p)"
| "index_step Open b p = (case btree_open (bt_meta_page_id b) p of (Inl e, q) \<Rightarrow> Some (Inl e, b, q) | (Inr b', q) \<Rightarrow> Some (Inr Done, b', q))"

fun index_run :: "index_op list \<Rightarrow> BTree \<Rightarrow> BufferPool \<Rightarrow> ((StorageError + index_out) list \<times> BTree \<times> BufferPool) option" where
  "index_run [] b p = Some ([], b, p)"
| "index_run (op # ops) b p = Option.bind (index_step op b p) (\<lambda>(r, b', q).
     map_option (\<lambda>(rs, x). (r # rs, x)) (index_run ops b' q))"

text \<open>The same operations on a sorted list of keys and tuple ids.\<close>

fun sorted_answer :: "index_op \<Rightarrow> (byte list \<times> TupleId) list \<Rightarrow> index_out" where
  "sorted_answer (Insert key tid) es = Done"
| "sorted_answer (Lookup key) es = Found (map_of es key)"
| "sorted_answer (Scan start fin) es = Rows (filter (\<lambda>e. start \<le> fst e \<and> below (fst e) fin) es)"
| "sorted_answer Open es = Done"

fun sorted_after :: "index_op \<Rightarrow> (byte list \<times> TupleId) list \<Rightarrow> (byte list \<times> TupleId) list" where
  "sorted_after (Insert key tid) es = bt_insert key tid es"
| "sorted_after op es = es"

fun sorted_run :: "index_op list \<Rightarrow> (byte list \<times> TupleId) list \<Rightarrow> index_out list" where
  "sorted_run [] es = []"
| "sorted_run (op # ops) es = sorted_answer op es # sorted_run ops (sorted_after op es)"

fun op_ok :: "(byte list \<times> TupleId) list \<Rightarrow> index_op \<Rightarrow> bool" where
  "op_ok es (Insert key tid) \<longleftrightarrow> key_ok key \<and> tid_ok tid \<and> key \<notin> fst ` set es"
| "op_ok es op \<longleftrightarrow> True"

fun ops_ok :: "(byte list \<times> TupleId) list \<Rightarrow> index_op list \<Rightarrow> bool" where
  "ops_ok es [] \<longleftrightarrow> True"
| "ops_ok es (op # ops) \<longleftrightarrow> op_ok es op \<and> ops_ok (sorted_after op es) ops"

lemma set_bt_insert_new: "k \<notin> fst ` set m \<Longrightarrow> set (bt_insert k v m) = insert (k, v) (set m)"
  by (induction k v m rule: bt_insert.induct) auto

lemma entries_insert:
  assumes "ordered lo hi t" "ordered lo' hi' t'" "set (entries t') = insert (key, tid) (set (entries t))" "key \<notin> fst ` set (entries t)"
  shows "entries t' = bt_insert key tid (entries t)"
proof (rule map_sorted_distinct_set_unique [where f = fst])
  have s: "bt_wf (entries t)" "bt_wf (entries t')" using assms(1,2) ordered_entries(1) by blast+
  then have i: "bt_wf (bt_insert key tid (entries t))" by simp
  show "sorted (map fst (entries t'))" "distinct (map fst (entries t'))" using s(2) by (simp_all add: strict_sorted_iff)
  show "sorted (map fst (bt_insert key tid (entries t)))" "distinct (map fst (bt_insert key tid (entries t)))"
    using i by (simp_all add: strict_sorted_iff)
  show "set (entries t') = set (bt_insert key tid (entries t))" using assms(3) set_bt_insert_new [OF assms(4)] by simp
  then show "inj_on fst (set (entries t') \<union> set (bt_insert key tid (entries t)))"
    using i by (simp add: strict_sorted_iff distinct_map)
qed

lemma index_ordered: "index_at N k F b t n p \<Longrightarrow> ordered [] None t"
  by (auto simp: index_at_def)

lemma index_step_ok:
  assumes idx: "index_at N (k + (5 * H + M + 10)) F b t n p" and ok: "op_ok (entries t) op" and H: "height t < H" "n + H + 2 \<le> M" "M < 2 ^ 51"
  shows "\<exists>b' t' n' q. index_step op b p = Some (Inr (sorted_answer op (entries t)), b', q) \<and> index_at N k F b' t' n' q \<and>
    entries t' = sorted_after op (entries t) \<and> height t' \<le> height t + 1 \<and> n' \<le> n + H + 2"
proof (cases op)
  case (Insert key tid)
  have "index_at N (k + 5 * (height t + 1) + 4) F b t n p" using idx by (rule index_at_weaken) (use H in simp)
  then obtain b' t' n' q where I: "btree_insert b key tid p = Some (Inr (), b', q)" "index_at N k F b' t' n' q"
    "set (entries t') = insert (key, tid) (set (entries t))" "height t' \<le> height t + 1" "n' \<le> n + height t + 2"
    using index_insert_ok [of N k t F b n p key tid] ok H Insert by auto
  have "entries t' = bt_insert key tid (entries t)"
    using entries_insert [OF index_ordered [OF idx] index_ordered [OF I(2)] I(3)] ok Insert by simp
  then show ?thesis using I H Insert by (intro exI [of _ b'] exI [of _ t'] exI [of _ n'] exI [of _ q]) simp
next
  case (Lookup key)
  have "index_at N (Suc (k + height t)) F b t n p" using idx by (rule index_at_weaken) (use H in simp)
  then show ?thesis using index_lookup_ok [of N k t F b n p key] Lookup by fastforce
next
  case (Scan start fin)
  have "index_at N (Suc (k + n + height t)) F b t n p" using idx by (rule index_at_weaken) (use H in simp)
  then show ?thesis using index_scan_ok [of N k n t F b p start fin] Scan by fastforce
next
  case Open
  have "index_at N (Suc k) F b t n p" using idx by (rule index_at_weaken) simp
  then show ?thesis using index_open_ok [of N k F b t n p] Open by fastforce
qed

lemma index_run_ok:
  assumes "index_at N (k + length ops * (5 * H + M + 10)) F b t n p" "ops_ok (entries t) ops"
    "height t + length ops \<le> H" "n + length ops * (H + 2) \<le> M" "M < 2 ^ 51"
  shows "\<exists>b' q. index_run ops b p = Some (map Inr (sorted_run ops (entries t)), b', q)"
  using assms
proof (induction ops arbitrary: b t n p)
  case (Cons op ops)
  have idx: "index_at N (k + length ops * (5 * H + M + 10) + (5 * H + M + 10)) F b t n p"
    using Cons.prems(1) by (simp add: algebra_simps)
  have H: "height t < H" "n + H + 2 \<le> M" using Cons.prems(3,4) by simp_all
  obtain b' t' n' q where S: "index_step op b p = Some (Inr (sorted_answer op (entries t)), b', q)"
    "index_at N (k + length ops * (5 * H + M + 10)) F b' t' n' q" "entries t' = sorted_after op (entries t)"
    "height t' \<le> height t + 1" "n' \<le> n + H + 2"
    using index_step_ok [OF idx _ H Cons.prems(5), of op] Cons.prems(2) by auto
  have "\<exists>b'' r. index_run ops b' q = Some (map Inr (sorted_run ops (entries t')), b'', r)"
    by (rule Cons.IH [OF S(2)]) (use Cons.prems(2-5) S(3-5) in simp_all)
  then show ?case using S(1,3) by auto
qed simp

lemma idle_at:
  assumes "idle p" "lr_clock (bp_replacer p) + k < 2 ^ 64"
  shows "pool_at (length (bp_frames p)) k (pool_content p) (dm_next_page_id (bp_disk p)) Map.empty {} p"
proof -
  have "fr_pin_count (bp_frames p ! f) = 0" if "holds_page p f pid" for f pid
    using pin_not_busy [of p f pid] that assms(1) by (auto simp: idle_def)
  then show ?thesis using assms by (auto simp: pool_at_def idle_def)
qed

text \<open>C3. The B+ tree is a sorted map: after \<^verbatim>\<open>BTree::create\<close> on a pool of three frames or more with nothing
  pinned, every sequence of insertions of new keys of up to 200 bytes, lookups, range scans and openings from the
  meta page succeeds and gives the answers of a sorted association list, however the pages are split and evicted.
  The two bounds keep the page ids and the clock of the replacer from running out.\<close>

theorem btree_is_sorted_map:
  assumes idle: "idle p" and frames: "3 \<le> length (bp_frames p)" and ok: "ops_ok [] ops"
    and pages: "dm_next_page_id (bp_disk p) + (length ops + 2) ^ 2 < 2 ^ 51"
    and ticks: "lr_clock (bp_replacer p) + (length ops + 1) * (dm_next_page_id (bp_disk p) + (length ops + 6) ^ 2) < 2 ^ 64"
  shows "\<exists>b q b' r. btree_create p = (Inr b, q) \<and> index_run ops b q = Some (map Inr (sorted_run ops []), b', r)"
proof -
  define L n where "L = length ops" and "n = dm_next_page_id (bp_disk p)"
  let ?M = "n + 2 + L * (L + 2)"
  have M: "?M < 2 ^ 51" "n + 2 < 2 ^ 51" using pages by (simp_all add: power2_eq_square algebra_simps L_def n_def)
  have "L * (5 * L + ?M + 10) + 3 \<le> (L + 1) * (n + (L + 6) ^ 2)" by (simp add: power2_eq_square algebra_simps)
  then have "lr_clock (bp_replacer p) + (L * (5 * L + ?M + 10) + 3) < 2 ^ 64" using ticks unfolding L_def n_def by linarith
  then have at: "pool_at (length (bp_frames p)) (L * (5 * L + ?M + 10) + 3) (pool_content p) n Map.empty {} p"
    unfolding n_def by (rule idle_at [OF idle])
  obtain b q f where b: "btree_create p = (Inr b, q)"
    "index_at (length (bp_frames p)) (L * (5 * L + ?M + 10)) [n \<mapsto> (f, 1)] b (Leaf (n + 1) []) (n + 2) q"
    using create_ok [OF at frames M(2)] by blast
  then have "\<exists>b' r. index_run ops b q = Some (map Inr (sorted_run ops (entries (Leaf (n + 1) []))), b', r)"
    using index_run_ok [of "length (bp_frames p)" 0 ops L ?M "[n \<mapsto> (f, 1)]" b "Leaf (n + 1) []" "n + 2" q] M(1) ok
    by (simp add: L_def)
  then show ?thesis using b(1) by simp
qed

definition ex_tid :: "nat \<Rightarrow> TupleId" where
  "ex_tid i = \<lparr>tid_page_id = 1, tid_slot_id = i\<rparr>"

definition ex_ops :: "index_op list" where
  "ex_ops = [Insert [5] (ex_tid 0), Insert [3] (ex_tid 1), Lookup [3], Insert [4, 1] (ex_tid 2), Open, Scan [3, 9] (Some [5]), Lookup [9]]"

theorem btree_is_sorted_map_witness:
  "\<exists>b q b' r. btree_create (pool_new 4 disk_create) = (Inr b, q) \<and>
     index_run ex_ops b q = Some (map Inr [Done, Done, Found (Some (ex_tid 1)), Done, Done, Rows [([4, 1], ex_tid 2)], Found None], b', r)"
proof -
  have d: "disk_inv disk_create" "dm_next_page_id disk_create = 1" using disk_create_ok by simp_all
  have i: "idle (pool_new 4 disk_create)" using idle_pool_new [OF d(1)] by simp
  have r: "sorted_run ex_ops [] = [Done, Done, Found (Some (ex_tid 1)), Done, Done, Rows [([4, 1], ex_tid 2)], Found None]"
    by (simp add: ex_ops_def below_def)
  have o: "ops_ok [] ex_ops" by (simp add: ex_ops_def ex_tid_def key_ok_def tid_ok_def)
  have l: "length ex_ops = 7" "length (bp_frames (pool_new 4 disk_create)) = 4" by (simp_all add: ex_ops_def pool_new_def)
  show ?thesis
    by (rule btree_is_sorted_map [OF i _ o, unfolded r]) (simp_all add: pool_new_sel d(2) l)
qed

end
