(* ===== verification/Byte_Reader.thy ===== *)
theory Byte_Reader
  imports Rust_Str
begin

text \<open>
  Reading fields one after the other from a byte string, as the functions \<^verbatim>\<open>from_bytes\<close> of
  \<^verbatim>\<open>crates/storage/src/columnar.rs\<close> and \<^verbatim>\<open>crates/storage/src/gin.rs\<close> do with their macros \<^verbatim>\<open>need!\<close> and
  \<^verbatim>\<open>read_u8!\<close> to \<^verbatim>\<open>read_f64!\<close>. A reader returns a value and the position behind it.
\<close>

datatype read_error = Truncated nat | BadMagic | BadVersion nat | BadUtf8 | BadTag nat

type_synonym 'a reader = "byte list \<Rightarrow> nat \<Rightarrow> read_error + 'a \<times> nat"

definition rd_return :: "'a \<Rightarrow> 'a reader" where
  "rd_return x data pos = Inr (x, pos)"

definition rd_bind :: "'a reader \<Rightarrow> ('a \<Rightarrow> 'b reader) \<Rightarrow> 'b reader" where
  "rd_bind r f data pos = rbind (r data pos) (\<lambda>(x, pos'). f x data pos')"

definition rd_fail :: "read_error \<Rightarrow> 'a reader" where
  "rd_fail e data pos = Inl e"

definition rd_bytes :: "nat \<Rightarrow> byte list reader" where
  "rd_bytes n data pos = (if length data < pos + n then Inl (Truncated pos) else Inr (slice data pos n, pos + n))"

definition rd_le :: "nat \<Rightarrow> nat reader" where
  "rd_le n = rd_bind (rd_bytes n) (\<lambda>b. rd_return (from_le b))"

definition rd_str :: "nat \<Rightarrow> str reader" where
  "rd_str n = rd_bind (rd_bytes n) (\<lambda>b. if utf8_valid b then rd_return b else rd_fail BadUtf8)"

fun rd_n :: "nat \<Rightarrow> 'a reader \<Rightarrow> 'a list reader" where
  "rd_n 0 r = rd_return []"
| "rd_n (Suc n) r = rd_bind r (\<lambda>x. rd_bind (rd_n n r) (\<lambda>xs. rd_return (x # xs)))"

definition rd_magic :: "byte list \<Rightarrow> unit reader" where
  \<comment> \<open>the four bytes of the format and its version, which is 1\<close>
  "rd_magic m = rd_bind (rd_bytes 4) (\<lambda>b. if b \<noteq> m then rd_fail BadMagic
     else rd_bind (rd_le 1) (\<lambda>v. if v \<noteq> 1 then rd_fail (BadVersion v) else rd_return ()))"

text \<open>A reader yields a value from its bytes wherever they stand.\<close>

definition yields :: "'a reader \<Rightarrow> byte list \<Rightarrow> 'a \<Rightarrow> bool" where
  "yields r bs v \<longleftrightarrow> (\<forall>pre post. r (pre @ bs @ post) (length pre) = Inr (v, length pre + length bs))"

lemma yields_return: "yields (rd_return x) [] x"
  by (simp add: yields_def rd_return_def)

lemma yields_bind:
  assumes r: "yields r bs x" and f: "yields (f x) cs y"
  shows "yields (rd_bind r f) (bs @ cs) y"
  unfolding yields_def rd_bind_def
proof (intro allI)
  fix pre post
  have "r (pre @ bs @ cs @ post) (length pre) = Inr (x, length pre + length bs)"
    using r unfolding yields_def by blast
  moreover have "f x ((pre @ bs) @ cs @ post) (length (pre @ bs)) = Inr (y, length (pre @ bs) + length cs)"
    using f unfolding yields_def by blast
  ultimately show "rbind (r (pre @ (bs @ cs) @ post) (length pre)) (\<lambda>(x, pos'). f x (pre @ (bs @ cs) @ post) pos') =
      Inr (y, length pre + length (bs @ cs))"
    by simp
qed

lemma yields_bytes: "length bs = n \<Longrightarrow> yields (rd_bytes n) bs bs"
  by (auto simp: yields_def rd_bytes_def slice_def)

lemma yields_last: "yields r bs x \<Longrightarrow> yields (rd_bind r (\<lambda>x. rd_return (g x))) bs (g x)"
  using yields_bind [of r bs x "\<lambda>x. rd_return (g x)" "[]"] yields_return by fastforce

lemma yields_le: "v < 256 ^ n \<Longrightarrow> yields (rd_le n) (to_le n v) v"
  using yields_last [OF yields_bytes [of "to_le n v" n], of from_le] by (simp add: rd_le_def)

lemma yields_str: "utf8_valid s \<Longrightarrow> n = length s \<Longrightarrow> yields (rd_str n) s s"
  using yields_bind [OF yields_bytes [of s n], of "\<lambda>b. if utf8_valid b then rd_return b else rd_fail BadUtf8" "[]" s]
  by (simp add: rd_str_def yields_return)

lemma yields_n: "(\<And>x. x \<in> set xs \<Longrightarrow> yields r (enc x) x) \<Longrightarrow> n = length xs \<Longrightarrow> yields (rd_n n r) (concat (map enc xs)) xs"
proof (induction xs arbitrary: n)
  case (Cons x xs)
  have "yields (rd_n (length xs) r) (concat (map enc xs)) xs" using Cons by simp
  then show ?case using Cons.prems by (auto intro!: yields_bind yields_last)
qed (simp add: yields_return)

lemma yields_magic: "length m = 4 \<Longrightarrow> yields (rd_magic m) (m @ [1]) ()"
  unfolding rd_magic_def
  by (rule yields_bind [OF yields_bytes], simp, simp)
    (use yields_bind [OF yields_le [of 1 1], of "\<lambda>v. if v \<noteq> 1 then rd_fail (BadVersion v) else rd_return ()" "[]"]
      in \<open>simp add: yields_return\<close>)

lemma yields_start: "yields r bs x \<Longrightarrow> r bs 0 = Inr (x, length bs)"
  unfolding yields_def by (drule spec [of _ "[]"], drule spec [of _ "[]"]) simp

end
