(* ===== verification/Columnar.thy ===== *)
theory Columnar
  imports Byte_Reader Rust_Num
begin

text \<open>
  The column store of \<^verbatim>\<open>crates/storage/src/columnar.rs\<close>: columns in run-length, dictionary and delta encoding,
  the zone maps with the least and the greatest value of every thousand rows, and the file format. Indexing out
  of range, a panic of the program, is \<open>None\<close>.
\<close>

section \<open>Values\<close>

datatype ColValue = CNull | CInt64 i64 | CFloat64 f64 | CText str | CBool bool

fun col_eq :: "ColValue \<Rightarrow> ColValue \<Rightarrow> bool" where
  "col_eq (CFloat64 a) (CFloat64 b) = f64_eq a b"
| "col_eq a b = (a = b)"

fun col_cmp :: "ColValue \<Rightarrow> ColValue \<Rightarrow> ordering option" where
  "col_cmp (CInt64 a) (CInt64 b) = Some (ord_of (sint a) (sint b))"
| "col_cmp (CFloat64 a) (CFloat64 b) = f64_cmp a b"
| "col_cmp (CText a) (CText b) = Some (ord_of a b)"
| "col_cmp (CBool a) (CBool b) = Some (ord_of a b)"
| "col_cmp CNull CNull = Some Equal"
| "col_cmp CNull _ = Some Less"
| "col_cmp _ CNull = Some Greater"
| "col_cmp _ _ = None"

section \<open>Run lengths\<close>

record RleColumn =
  rc_name :: str
  rc_runs :: "(ColValue \<times> nat) list"
  rc_row_count :: nat

definition rle_new :: "str \<Rightarrow> RleColumn" where
  "rle_new name = \<lparr>rc_name = name, rc_runs = [], rc_row_count = 0\<rparr>"

fun push_run :: "(ColValue \<times> nat) list \<Rightarrow> ColValue \<Rightarrow> (ColValue \<times> nat) list" where
  "push_run [] v = [(v, 1)]"
| "push_run [(w, n)] v = (if col_eq w v then [(w, (n + 1) mod 2 ^ 32)] else [(w, n), (v, 1)])"
| "push_run (r # runs) v = r # push_run runs v"

definition rle_push :: "RleColumn \<Rightarrow> ColValue \<Rightarrow> RleColumn" where
  "rle_push c v = c\<lparr>rc_runs := push_run (rc_runs c) v, rc_row_count := rc_row_count c + 1\<rparr>"

definition rle_values :: "RleColumn \<Rightarrow> ColValue list" where
  "rle_values c = concat (map (\<lambda>(v, n). replicate n v) (rc_runs c))"

fun run_at :: "(ColValue \<times> nat) list \<Rightarrow> nat \<Rightarrow> ColValue option" where
  "run_at [] i = None"
| "run_at ((v, n) # runs) i = (if i < n then Some v else run_at runs (i - n))"

definition rle_get :: "RleColumn \<Rightarrow> nat \<Rightarrow> ColValue option" where
  "rle_get c i = run_at (rc_runs c) i"

section \<open>Dictionaries\<close>

record DictColumn =
  dc_name :: str
  dc_dict :: "ColValue list"
  dc_codes :: "nat list"
  dc_row_count :: nat

definition dict_new :: "str \<Rightarrow> DictColumn" where
  "dict_new name = \<lparr>dc_name = name, dc_dict = [], dc_codes = [], dc_row_count = 0\<rparr>"

definition dict_append :: "DictColumn \<Rightarrow> ColValue \<Rightarrow> DictColumn" where
  "dict_append d v =
     (case position (\<lambda>w. col_eq w v) (dc_dict d) of
        Some pos \<Rightarrow> d\<lparr>dc_codes := dc_codes d @ [pos mod 2 ^ 32], dc_row_count := dc_row_count d + 1\<rparr>
      | None \<Rightarrow> d\<lparr>dc_dict := dc_dict d @ [v], dc_codes := dc_codes d @ [length (dc_dict d) mod 2 ^ 32],
                dc_row_count := dc_row_count d + 1\<rparr>)"

definition dict_get :: "DictColumn \<Rightarrow> nat \<Rightarrow> ColValue option" where
  "dict_get d i =
     (if i < length (dc_codes d) \<and> dc_codes d ! i < length (dc_dict d) then Some (dc_dict d ! (dc_codes d ! i)) else None)"

section \<open>Differences\<close>

record DeltaColumn =
  de_name :: str
  de_first_value :: i64
  de_deltas :: "32 word list"
  de_row_count :: nat
  de_last_value :: i64

definition delta_new :: "str \<Rightarrow> DeltaColumn" where
  "delta_new name = \<lparr>de_name = name, de_first_value = 0, de_deltas = [], de_row_count = 0, de_last_value = 0\<rparr>"

definition delta_append :: "DeltaColumn \<Rightarrow> i64 \<Rightarrow> DeltaColumn" where
  "delta_append d v =
     (if de_row_count d = 0
      then d\<lparr>de_first_value := v, de_last_value := v, de_row_count := de_row_count d + 1\<rparr>
      else d\<lparr>de_deltas := de_deltas d @ [ucast (v - de_last_value d)], de_last_value := v, de_row_count := de_row_count d + 1\<rparr>)"

definition delta_get :: "DeltaColumn \<Rightarrow> nat \<Rightarrow> i64" where
  "delta_get d row =
     (if row = 0 \<or> de_row_count d = 0 then de_first_value d
      else foldl (\<lambda>val x. val + scast x) (de_first_value d) (take (min row (length (de_deltas d))) (de_deltas d)))"

definition delta_to_rle :: "DeltaColumn \<Rightarrow> RleColumn" where
  "delta_to_rle d = foldl (\<lambda>c i. rle_push c (CInt64 (delta_get d i))) (rle_new (de_name d)) [0 ..< de_row_count d]"

fun append_ints :: "DeltaColumn \<Rightarrow> ColValue list \<Rightarrow> DeltaColumn option" where
  "append_ints d [] = Some d"
| "append_ints d (CInt64 n # vs) = append_ints (delta_append d n) vs"
| "append_ints d (_ # vs) = None"

definition from_rle_to_delta :: "RleColumn \<Rightarrow> DeltaColumn option" where
  "from_rle_to_delta c = append_ints (delta_new (rc_name c)) (rle_values c)"

definition to_dict_column :: "RleColumn \<Rightarrow> DictColumn" where
  "to_dict_column c = foldl dict_append (dict_new (rc_name c)) (rle_values c)"

fun push_codes :: "ColValue list \<Rightarrow> RleColumn \<Rightarrow> nat list \<Rightarrow> RleColumn option" where
  "push_codes dict c [] = Some c"
| "push_codes dict c (code # codes) = (if code < length dict then push_codes dict (rle_push c (dict ! code)) codes else None)"

definition from_dict_column :: "DictColumn \<Rightarrow> RleColumn option" where
  "from_dict_column d = push_codes (dc_dict d) (rle_new (dc_name d)) (dc_codes d)"

section \<open>Zone maps and the store\<close>

record ZoneMap =
  zm_row_offset :: nat
  zm_row_count :: nat
  zm_min :: ColValue
  zm_max :: ColValue

definition can_prune_gt :: "ZoneMap \<Rightarrow> ColValue \<Rightarrow> bool" where
  "can_prune_gt z bound = (case col_cmp (zm_max z) bound of Some o1 \<Rightarrow> o1 \<noteq> Greater | None \<Rightarrow> False)"

definition can_prune_lt :: "ZoneMap \<Rightarrow> ColValue \<Rightarrow> bool" where
  "can_prune_lt z bound = (case col_cmp (zm_min z) bound of Some o1 \<Rightarrow> o1 \<noteq> Less | None \<Rightarrow> False)"

abbreviation (input) ZONE_SIZE :: nat where "ZONE_SIZE \<equiv> 1000"

record ColumnarStore =
  cs_columns :: "RleColumn list"
  cs_zone_maps :: "ZoneMap list list"
  cs_row_count :: nat

definition columnar_new :: ColumnarStore where
  "columnar_new = \<lparr>cs_columns = [], cs_zone_maps = [], cs_row_count = 0\<rparr>"

definition better :: "ordering \<Rightarrow> ColValue option \<Rightarrow> ColValue \<Rightarrow> ColValue option" where
  \<comment> \<open>one turn of the loop for the least (\<open>Less\<close>) and for the greatest (\<open>Greater\<close>) value\<close>
  "better dir cur v =
     (if v = CNull then cur
      else case cur of None \<Rightarrow> Some v | Some c \<Rightarrow> if col_cmp v c = Some dir then Some v else Some c)"

definition extreme :: "ordering \<Rightarrow> ColValue list \<Rightarrow> ColValue" where
  "extreme dir vs = (case foldl (better dir) None vs of None \<Rightarrow> CNull | Some v \<Rightarrow> v)"

function zones_from :: "ColValue list \<Rightarrow> nat \<Rightarrow> nat \<Rightarrow> ZoneMap list option" where
  "zones_from values row_count offset =
     (if offset < row_count
      then let fin = min (offset + ZONE_SIZE) row_count
           in if length values < fin then None
              else let zone = slice values offset (fin - offset)
                   in map_option (\<lambda>zs. \<lparr>zm_row_offset = offset, zm_row_count = fin - offset,
                                        zm_min = extreme Less zone, zm_max = extreme Greater zone\<rparr> # zs)
                        (zones_from values row_count (offset + ZONE_SIZE))
      else Some [])"
  by pat_completeness auto
termination by (relation "measure (\<lambda>(_, n, i). n - i)") auto

declare zones_from.simps [simp del]

fun build_columns :: "nat \<Rightarrow> RleColumn list \<Rightarrow> ZoneMap list list \<Rightarrow> ZoneMap list list option" where
  "build_columns n [] zms = Some zms"
| "build_columns n (c # cs) (z # zms) =
     Option.bind (zones_from (rle_values c) n 0) (\<lambda>zs. map_option (Cons zs) (build_columns n cs zms))"
| "build_columns n (c # cs) [] = Option.bind (zones_from (rle_values c) n 0) (\<lambda>_. None)"

definition build_zone_maps :: "ColumnarStore \<Rightarrow> ColumnarStore option" where
  "build_zone_maps s = map_option (\<lambda>zms. s\<lparr>cs_zone_maps := zms\<rparr>) (build_columns (cs_row_count s) (cs_columns s) (cs_zone_maps s))"

fun push_row :: "RleColumn list \<Rightarrow> ColValue list \<Rightarrow> RleColumn list" where
  "push_row (c # cs) (v # vs) = rle_push c v # push_row cs vs"
| "push_row cs _ = cs"

definition insert_one :: "ColumnarStore \<Rightarrow> ColValue list \<Rightarrow> ColumnarStore option" where
  "insert_one s row =
     (let s1 = s\<lparr>cs_columns := push_row (cs_columns s) row, cs_row_count := cs_row_count s + 1\<rparr>
      in if cs_row_count s1 mod ZONE_SIZE = 0 then build_zone_maps s1 else Some s1)"

fun insert_all :: "ColumnarStore \<Rightarrow> ColValue list list \<Rightarrow> ColumnarStore option" where
  "insert_all s [] = Some s"
| "insert_all s (row # rows) = Option.bind (insert_one s row) (\<lambda>s1. insert_all s1 rows)"

definition insert_rows :: "ColumnarStore \<Rightarrow> str list \<Rightarrow> ColValue list list \<Rightarrow> ColumnarStore option" where
  "insert_rows s col_names rows =
     insert_all (if cs_columns s = []
       then s\<lparr>cs_columns := map rle_new col_names, cs_zone_maps := cs_zone_maps s @ map (\<lambda>_. []) col_names\<rparr> else s) rows"

definition columnar_scan :: "ColumnarStore \<Rightarrow> ColValue list list" where
  "columnar_scan s =
     (if cs_columns s = [] \<or> cs_row_count s = 0 then []
      else map (\<lambda>i. map (\<lambda>c. case rle_get c i of None \<Rightarrow> CNull | Some v \<Rightarrow> v) (cs_columns s)) [0 ..< cs_row_count s])"

definition scan_column :: "ColumnarStore \<Rightarrow> nat \<Rightarrow> ColValue list" where
  "scan_column s i = (if i < length (cs_columns s) then rle_values (cs_columns s ! i) else [])"

definition can_prune :: "ColumnarStore \<Rightarrow> nat \<Rightarrow> ColValue \<Rightarrow> bool \<Rightarrow> bool" where
  "can_prune s i bound is_gt =
     (if length (cs_zone_maps s) \<le> i \<or> cs_zone_maps s ! i = [] then False
      else list_all (\<lambda>z. if is_gt then can_prune_gt z bound else can_prune_lt z bound) (cs_zone_maps s ! i))"

definition column_index :: "ColumnarStore \<Rightarrow> str \<Rightarrow> nat option" where
  "column_index s name = position (\<lambda>c. eq_ignore_ascii_case (rc_name c) name) (cs_columns s)"

section \<open>The file format\<close>

abbreviation (input) COL_MAGIC :: "byte list" where "COL_MAGIC \<equiv> [67, 79, 76, 0]"

fun put_value :: "ColValue \<Rightarrow> byte list" where
  "put_value CNull = [0]"
| "put_value (CInt64 v) = 1 # to_le 8 (unat v)"
| "put_value (CFloat64 v) = 2 # to_le 8 (unat v)"
| "put_value (CText s) = 3 # to_le 4 (length s) @ s"
| "put_value (CBool b) = [4, if b then 1 else 0]"

definition put_run :: "ColValue \<times> nat \<Rightarrow> byte list" where
  "put_run r = put_value (fst r) @ to_le 4 (snd r)"

definition put_column :: "RleColumn \<Rightarrow> byte list" where
  "put_column c = to_le 4 (length (rc_name c)) @ rc_name c @ to_le 4 (length (rc_runs c)) @ concat (map put_run (rc_runs c))"

definition to_bytes :: "ColumnarStore \<Rightarrow> byte list" where
  "to_bytes s = COL_MAGIC @ [1] @ to_le 4 (length (cs_columns s)) @ to_le 8 (cs_row_count s) @ concat (map put_column (cs_columns s))"

definition rd_value :: "ColValue reader" where
  "rd_value = rd_bind (rd_le 1) (\<lambda>tag.
     if tag = 0 then rd_return CNull
     else if tag = 1 then rd_bind (rd_le 8) (\<lambda>n. rd_return (CInt64 (of_nat n)))
     else if tag = 2 then rd_bind (rd_le 8) (\<lambda>n. rd_return (CFloat64 (of_nat n)))
     else if tag = 3 then rd_bind (rd_le 4) (\<lambda>n. rd_bind (rd_str n) (\<lambda>s. rd_return (CText s)))
     else if tag = 4 then rd_bind (rd_le 1) (\<lambda>b. rd_return (CBool (b \<noteq> 0)))
     else rd_fail (BadTag tag))"

definition rd_run :: "(ColValue \<times> nat) reader" where
  "rd_run = rd_bind rd_value (\<lambda>v. rd_bind (rd_le 4) (\<lambda>n. rd_return (v, n)))"

definition rd_column :: "RleColumn reader" where
  "rd_column = rd_bind (rd_le 4) (\<lambda>n. rd_bind (rd_str n) (\<lambda>name. rd_bind (rd_le 4) (\<lambda>run_count.
     rd_bind (rd_n run_count rd_run) (\<lambda>runs.
     rd_return \<lparr>rc_name = name, rc_runs = runs, rc_row_count = sum_list (map snd runs)\<rparr>))))"

definition from_bytes :: "byte list \<Rightarrow> read_error + ColumnarStore" where
  "from_bytes data =
     map_sum id fst (rd_bind (rd_magic COL_MAGIC) (\<lambda>_. rd_bind (rd_le 4) (\<lambda>column_count. rd_bind (rd_le 8) (\<lambda>row_count.
       rd_bind (rd_n column_count rd_column) (\<lambda>columns.
       rd_return \<lparr>cs_columns = columns, cs_zone_maps = replicate column_count [], cs_row_count = row_count\<rparr>)))) data 0)"

section \<open>Columns hold what was appended\<close>

text \<open>A run keeps its first value, so a zero may come back with the other sign; every other value comes back as it was.\<close>

definition col_same :: "ColValue \<Rightarrow> ColValue \<Rightarrow> bool" where
  "col_same a b \<longleftrightarrow> a = b \<or> col_eq a b"

definition runs_values :: "(ColValue \<times> nat) list \<Rightarrow> ColValue list" where
  "runs_values runs = concat (map (\<lambda>(v, n). replicate n v) runs)"

lemma push_run_values:
  "length (runs_values runs) + 1 < 2 ^ 32 \<Longrightarrow> \<exists>w. col_same w v \<and> runs_values (push_run runs v) = runs_values runs @ [w]"
proof (induction runs v rule: push_run.induct)
  case (1 v)
  then show ?case by (auto simp: runs_values_def col_same_def)
next
  case (2 w n v)
  then have "(n + 1) mod 2 ^ 32 = n + 1" by (simp add: runs_values_def)
  then show ?case using replicate_append_same [of n w] by (auto simp: runs_values_def col_same_def)
next
  case (3 r r' runs v)
  then show ?case by (auto simp: runs_values_def)
qed

lemma rle_push_values:
  assumes "length (rle_values c) + 1 < 2 ^ 32"
  obtains w where "col_same w v" "rle_values (rle_push c v) = rle_values c @ [w]"
  using push_run_values [of "rc_runs c" v] assms by (auto simp: rle_values_def rle_push_def runs_values_def)

lemma run_at_values: "run_at runs i = (if i < length (runs_values runs) then Some (runs_values runs ! i) else None)"
  by (induction runs i rule: run_at.induct) (auto simp: runs_values_def nth_append)

lemma rle_get_values: "rle_get c i = (if i < length (rle_values c) then Some (rle_values c ! i) else None)"
  by (simp add: rle_get_def run_at_values rle_values_def runs_values_def)

lemma rle_push_all:
  assumes "length (rle_values c) + length vs < 2 ^ 32"
  shows "\<exists>ws. list_all2 col_same ws vs \<and> rle_values (foldl rle_push c vs) = rle_values c @ ws"
  using assms
proof (induction vs arbitrary: c)
  case (Cons v vs)
  obtain w where w: "col_same w v" "rle_values (rle_push c v) = rle_values c @ [w]"
    using rle_push_values [of c v] Cons.prems by auto
  obtain ws where "list_all2 col_same ws vs" "rle_values (foldl rle_push (rle_push c v) vs) = rle_values (rle_push c v) @ ws"
    using Cons.IH [of "rle_push c v"] w(2) Cons.prems by auto
  then show ?case using w by (intro exI [of _ "w # ws"]) simp
qed simp

section \<open>A store holds the rows inserted\<close>

definition holds_rows :: "ColumnarStore \<Rightarrow> nat \<Rightarrow> ColValue list list \<Rightarrow> bool" where
  "holds_rows s n rows \<longleftrightarrow> length (cs_columns s) = n \<and> length (cs_zone_maps s) = n \<and> cs_row_count s = length rows \<and>
     (\<forall>i < n. list_all2 col_same (rle_values (cs_columns s ! i)) (map (\<lambda>r. r ! i) rows))"

lemma push_row_nth: "length vs = length cs \<Longrightarrow> length (push_row cs vs) = length cs \<and> (\<forall>i < length cs. push_row cs vs ! i = rle_push (cs ! i) (vs ! i))"
  by (induction cs vs rule: push_row.induct) (auto simp: nth_Cons split: nat.split)

lemma zones_from_total: "row_count \<le> length vals \<Longrightarrow> \<exists>zs. zones_from vals row_count offset = Some zs"
proof (induction vals row_count offset rule: zones_from.induct)
  case (1 vals row_count offset)
  then show ?case by (subst zones_from.simps) (auto simp: Let_def)
qed

lemma build_columns_total:
  "\<forall>c \<in> set cs. n \<le> length (rle_values c) \<Longrightarrow> length zms = length cs \<Longrightarrow>
     \<exists>zs. build_columns n cs zms = Some zs \<and> length zs = length cs"
proof (induction n cs zms rule: build_columns.induct)
  case (2 n c cs z zms)
  then show ?case using zones_from_total [of n "rle_values c" 0] by auto
qed auto

lemma holds_build:
  assumes h: "holds_rows s n rows"
  shows "\<exists>s'. build_zone_maps s = Some s' \<and> holds_rows s' n rows"
proof -
  have "length rows \<le> length (rle_values c)" if "c \<in> set (cs_columns s)" for c
    using that h by (auto simp: holds_rows_def in_set_conv_nth dest!: list_all2_lengthD)
  then obtain zs where "build_columns (cs_row_count s) (cs_columns s) (cs_zone_maps s) = Some zs" "length zs = length (cs_columns s)"
    using build_columns_total [of "cs_columns s" "length rows" "cs_zone_maps s"] h by (auto simp: holds_rows_def)
  then show ?thesis using h by (auto simp: build_zone_maps_def holds_rows_def)
qed

lemma holds_insert:
  assumes h: "holds_rows s n rows" and r: "length row = n" "length rows + 1 < 2 ^ 32"
  shows "\<exists>s'. insert_one s row = Some s' \<and> holds_rows s' n (rows @ [row])"
proof -
  let ?s = "s\<lparr>cs_columns := push_row (cs_columns s) row, cs_row_count := cs_row_count s + 1\<rparr>"
  have n: "length (cs_columns s) = n" using h by (simp add: holds_rows_def)
  note P = push_row_nth [of row "cs_columns s"]
  have "list_all2 col_same (rle_values (push_row (cs_columns s) row ! i)) (map (\<lambda>r. r ! i) (rows @ [row]))" if i: "i < n" for i
  proof -
    let ?c = "cs_columns s ! i"
    have l: "list_all2 col_same (rle_values ?c) (map (\<lambda>r. r ! i) rows)" using h i by (simp add: holds_rows_def)
    then have "length (rle_values ?c) + 1 < 2 ^ 32" using r(2) by (auto dest!: list_all2_lengthD)
    then obtain w where "col_same w (row ! i)" "rle_values (rle_push ?c (row ! i)) = rle_values ?c @ [w]" by (rule rle_push_values)
    then show ?thesis using P n r(1) i l by (auto intro: list_all2_appendI)
  qed
  then have "holds_rows ?s n (rows @ [row])" using h P r(1) n by (simp add: holds_rows_def)
  then show ?thesis using holds_build [of ?s n "rows @ [row]"] unfolding insert_one_def Let_def by simp
qed

lemma holds_insert_all:
  assumes "holds_rows s n rows" "\<forall>r \<in> set rs. length r = n" "length rows + length rs < 2 ^ 32"
  shows "\<exists>s'. insert_all s rs = Some s' \<and> holds_rows s' n (rows @ rs)"
  using assms
proof (induction rs arbitrary: s rows)
  case (Cons r rs)
  obtain s1 where s1: "insert_one s r = Some s1" "holds_rows s1 n (rows @ [r])" using holds_insert [of s n rows r] Cons.prems by auto
  show ?case using Cons.IH [OF s1(2)] Cons.prems s1(1) by auto
qed simp

lemma same_rows:
  assumes len: "\<forall>r \<in> set rows. length r = n" and cs: "length cs = n"
    and v: "\<forall>i < n. list_all2 col_same (rle_values (cs ! i)) (map (\<lambda>r. r ! i) rows)"
  shows "list_all2 (list_all2 col_same) (map (\<lambda>j. map (\<lambda>c. case rle_get c j of None \<Rightarrow> CNull | Some v \<Rightarrow> v) cs) [0 ..< length rows]) rows"
proof (rule list_all2_all_nthI)
  fix j assume j: "j < length (map (\<lambda>j. map (\<lambda>c. case rle_get c j of None \<Rightarrow> CNull | Some v \<Rightarrow> v) cs) [0 ..< length rows])"
  then have j': "j < length rows" by simp
  have "list_all2 col_same (map (\<lambda>c. case rle_get c j of None \<Rightarrow> CNull | Some v \<Rightarrow> v) cs) (rows ! j)"
  proof (rule list_all2_all_nthI)
    show l: "length (map (\<lambda>c. case rle_get c j of None \<Rightarrow> CNull | Some v \<Rightarrow> v) cs) = length (rows ! j)" using len cs j' by simp
    fix i assume "i < length (map (\<lambda>c. case rle_get c j of None \<Rightarrow> CNull | Some v \<Rightarrow> v) cs)"
    then have i: "i < n" using cs by simp
    have a: "list_all2 col_same (rle_values (cs ! i)) (map (\<lambda>r. r ! i) rows)" using v i by simp
    then have "j < length (rle_values (cs ! i))" using j' by (auto dest!: list_all2_lengthD)
    then show "col_same (map (\<lambda>c. case rle_get c j of None \<Rightarrow> CNull | Some v \<Rightarrow> v) cs ! i) (rows ! j ! i)"
      using list_all2_nthD [OF a, of j] i j' cs by (simp add: rle_get_values)
  qed
  then show "list_all2 col_same (map (\<lambda>j. map (\<lambda>c. case rle_get c j of None \<Rightarrow> CNull | Some v \<Rightarrow> v) cs) [0 ..< length rows] ! j) (rows ! j)"
    using j' by simp
qed simp

lemma holds_scan:
  assumes h: "holds_rows s n rows" and len: "\<forall>r \<in> set rows. length r = n" and n: "0 < n"
  shows "list_all2 (list_all2 col_same) (columnar_scan s) rows"
proof (cases "rows = []")
  case False
  then show ?thesis using same_rows [OF len, of "cs_columns s"] h n by (auto simp: columnar_scan_def holds_rows_def)
qed (use h in \<open>auto simp: columnar_scan_def holds_rows_def\<close>)

section \<open>Zone maps\<close>

lemma col_cmp_trans: "d \<noteq> Equal \<Longrightarrow> col_cmp a b = Some d \<Longrightarrow> col_cmp b c = Some d \<Longrightarrow> col_cmp a c = Some d"
  by (cases a; cases b; cases c) (auto simp: f64_cmp_def ord_of_def split: if_splits)

lemma col_cmp_between:
  "col_cmp m b = Some x \<Longrightarrow> x \<noteq> Greater \<Longrightarrow> col_cmp v b = Some Greater \<Longrightarrow> col_cmp v m = Some Greater"
  "col_cmp m b = Some x \<Longrightarrow> x \<noteq> Less \<Longrightarrow> col_cmp v b = Some Less \<Longrightarrow> v \<noteq> CNull \<Longrightarrow> col_cmp v m = Some Less"
  by (cases v; cases m; cases b; force simp: f64_cmp_def ord_of_def split: if_splits)+

lemma foldl_better:
  assumes d: "d \<noteq> Equal" and cur: "case cur of None \<Rightarrow> \<forall>v \<in> set seen. v = CNull | Some c \<Rightarrow> c \<noteq> CNull \<and> (\<forall>v \<in> set seen. v \<noteq> CNull \<longrightarrow> col_cmp v c \<noteq> Some d)"
  shows "case foldl (better d) cur vs of None \<Rightarrow> \<forall>v \<in> set (seen @ vs). v = CNull
    | Some c \<Rightarrow> c \<noteq> CNull \<and> (\<forall>v \<in> set (seen @ vs). v \<noteq> CNull \<longrightarrow> col_cmp v c \<noteq> Some d)"
  using cur
proof (induction vs arbitrary: cur seen)
  case (Cons v vs)
  have self: "col_cmp v v \<noteq> Some d" using d by (cases v) (auto simp: ord_of_def f64_cmp_def)
  have "case better d cur v of None \<Rightarrow> \<forall>v \<in> set (seen @ [v]). v = CNull
    | Some c \<Rightarrow> c \<noteq> CNull \<and> (\<forall>v \<in> set (seen @ [v]). v \<noteq> CNull \<longrightarrow> col_cmp v c \<noteq> Some d)"
    using Cons.prems self col_cmp_trans [OF d] by (auto simp: better_def split: option.splits if_splits)
  from Cons.IH [OF this] show ?case by (simp only: foldl_Cons append_assoc append_Cons append_Nil)
qed (simp only: foldl_Nil append_Nil2)

lemma extreme_ok:
  assumes d: "d \<noteq> Equal" and v: "v \<in> set vs" "v \<noteq> CNull"
  shows "extreme d vs \<noteq> CNull" "col_cmp v (extreme d vs) \<noteq> Some d"
  using foldl_better [OF d, where cur = None and seen = "[]" and vs = vs] v by (auto simp: extreme_def split: option.splits)

lemma zones_cover:
  "zones_from vals n offset = Some zs \<Longrightarrow> offset \<le> j \<Longrightarrow> j < n \<Longrightarrow>
     \<exists>z \<in> set zs. \<exists>zone. vals ! j \<in> set zone \<and> zm_min z = extreme Less zone \<and> zm_max z = extreme Greater zone"
proof (induction vals n offset arbitrary: zs rule: zones_from.induct)
  case (1 vals n offset)
  let ?fin = "min (offset + ZONE_SIZE) n"
  let ?zone = "slice vals offset (?fin - offset)"
  have o: "offset < n" using 1(3,4) by simp
  have eq: "\<not> length vals < ?fin" "\<exists>zs'. zones_from vals n (offset + ZONE_SIZE) = Some zs' \<and>
      zs = \<lparr>zm_row_offset = offset, zm_row_count = ?fin - offset, zm_min = extreme Less ?zone, zm_max = extreme Greater ?zone\<rparr> # zs'"
    using 1(2) o by (auto simp: zones_from.simps [of vals n offset] Let_def split: if_splits)
  show ?case
  proof (cases "j < ?fin")
    case True
    have le: "offset + (?fin - offset) \<le> length vals" using o eq(1) by linarith
    then have "?zone ! (j - offset) = vals ! j" "j - offset < length ?zone" using 1(3) True nth_slice [of "j - offset" "?fin - offset" offset vals]
      diff_less_mono [OF True 1(3)] by simp_all
    then have "vals ! j \<in> set ?zone" by (metis nth_mem)
    then show ?thesis using eq(2) by auto
  next
    case False
    then show ?thesis using 1(1) [OF o refl eq(1) refl] 1(4) eq(2) by fastforce
  qed
qed

lemma build_columns_nth:
  "build_columns n cs zms = Some zs \<Longrightarrow> i < length cs \<Longrightarrow> i < length zs \<and> zones_from (rle_values (cs ! i)) n 0 = Some (zs ! i)"
proof (induction n cs zms arbitrary: zs i rule: build_columns.induct)
  case (2 n c cs z zms)
  then show ?case by (cases i) (auto simp: bind_eq_Some_conv)
qed (auto simp: bind_eq_Some_conv)

text \<open>C31. Pruning by zone maps is sound: once the zone maps of a store are built, a column that they rule out for
  \<^verbatim>\<open>col > bound\<close> or \<^verbatim>\<open>col < bound\<close> has no value above or below the bound in any of its rows.\<close>

theorem zone_prune_sound:
  assumes b: "build_zone_maps s = Some s'" and p: "can_prune s' i bound is_gt"
  shows "\<forall>v \<in> set (take (cs_row_count s') (scan_column s' i)). v \<noteq> CNull \<longrightarrow>
    col_cmp v bound \<noteq> Some (if is_gt then Greater else Less)"
proof (cases "i < length (cs_columns s)")
  case True
  let ?vals = "rle_values (cs_columns s ! i)"
  obtain zms where z: "build_columns (cs_row_count s) (cs_columns s) (cs_zone_maps s) = Some zms" "s' = s\<lparr>cs_zone_maps := zms\<rparr>"
    using b by (auto simp: build_zone_maps_def)
  have zi: "zones_from ?vals (cs_row_count s) 0 = Some (zms ! i)" using build_columns_nth [OF z(1) True] by simp
  have "col_cmp v bound \<noteq> Some (if is_gt then Greater else Less)" if v: "v \<in> set (take (cs_row_count s) ?vals)" "v \<noteq> CNull" for v
  proof -
    obtain j where j: "j < cs_row_count s" "?vals ! j = v" using v(1) by (auto simp: in_set_conv_nth)
    obtain zm zone where zm: "zm \<in> set (zms ! i)" "v \<in> set zone" "zm_min zm = extreme Less zone" "zm_max zm = extreme Greater zone"
      using zones_cover [OF zi _ j(1)] j(2) by auto
    have pr: "if is_gt then can_prune_gt zm bound else can_prune_lt zm bound"
      using p zm(1) z(2) by (auto simp: can_prune_def list_all_iff split: if_splits)
    show ?thesis
      using pr zm(3,4) extreme_ok(2) [OF _ zm(2) v(2), of Greater] extreme_ok(2) [OF _ zm(2) v(2), of Less]
        col_cmp_between(1) [of "extreme Greater zone" bound _ v] col_cmp_between(2) [of "extreme Less zone" bound _ v] v(2)
      by (auto simp: can_prune_gt_def can_prune_lt_def split: if_splits option.splits)
  qed
  then show ?thesis using True z(2) by (simp add: scan_column_def)
qed (use b in \<open>auto simp: scan_column_def build_zone_maps_def\<close>)

text \<open>The zone maps of a store are rebuilt only when the number of its rows is a multiple of a thousand, so the rows
  after the last such multiple are pruned by the values of the rows before.\<close>

definition one_column :: "(ColValue \<times> nat) list \<Rightarrow> ZoneMap list \<Rightarrow> nat \<Rightarrow> ColumnarStore" where
  "one_column runs zs n = \<lparr>cs_columns = [\<lparr>rc_name = [120], rc_runs = runs, rc_row_count = n\<rparr>], cs_zone_maps = [zs], cs_row_count = n\<rparr>"

lemma insert_one_more:
  "0 < n \<Longrightarrow> n < 999 \<Longrightarrow> insert_one (one_column [(CInt64 1, n)] [] n) [CInt64 1] = Some (one_column [(CInt64 1, n + 1)] [] (n + 1))"
  by (simp add: insert_one_def one_column_def rle_push_def)

lemma insert_ones:
  "0 < n \<Longrightarrow> n + k < 1000 \<Longrightarrow> insert_all (one_column [(CInt64 1, n)] [] n) (replicate k [CInt64 1] @ rows) =
     insert_all (one_column [(CInt64 1, n + k)] [] (n + k)) rows"
  by (induction k arbitrary: n) (simp_all add: insert_one_more)

lemma extreme_replicate: "v \<noteq> CNull \<Longrightarrow> extreme d (replicate (Suc n) v) = v"
proof -
  assume v: "v \<noteq> CNull"
  have "better d (Some v) v = Some v" by (simp add: better_def)
  then have "foldl (better d) (Some v) (replicate n v) = Some v" by (induction n) simp_all
  then show ?thesis using v by (simp add: extreme_def better_def)
qed

lemma ones_zone: "zones_from (replicate 1000 (CInt64 1)) 1000 0 =
    Some [\<lparr>zm_row_offset = 0, zm_row_count = 1000, zm_min = CInt64 1, zm_max = CInt64 1\<rparr>]"
  using extreme_replicate [of "CInt64 1" _ 999]
  by (simp add: zones_from.simps [of _ _ 0] zones_from.simps [of _ _ 1000] Let_def slice_full)

lemma stale_zone_map:
  "\<exists>s. insert_rows columnar_new [[120]] (replicate 1000 [CInt64 1] @ [[CInt64 9]]) = Some s \<and>
     can_prune s 0 (CInt64 5) True \<and> CInt64 9 \<in> set (scan_column s 0)"
proof -
  let ?z = "\<lparr>zm_row_offset = 0, zm_row_count = 1000, zm_min = CInt64 1, zm_max = CInt64 1\<rparr>"
  have r: "replicate 1000 [CInt64 1] @ rows = [CInt64 1] # replicate 998 [CInt64 1] @ [CInt64 1] # rows" for rows
    using replicate_add [of 1 "998 + 1" "[CInt64 1]"] replicate_add [of 998 1 "[CInt64 1]"] by simp
  have 1: "insert_one (one_column [] [] 0) [CInt64 1] = Some (one_column [(CInt64 1, 1)] [] 1)"
    by (simp add: insert_one_def one_column_def rle_push_def)
  have 2: "insert_one (one_column [(CInt64 1, 999)] [] 999) [CInt64 1] = Some (one_column [(CInt64 1, 1000)] [?z] 1000)"
    using ones_zone by (simp add: insert_one_def one_column_def rle_push_def build_zone_maps_def rle_values_def)
  have 3: "insert_one (one_column [(CInt64 1, 1000)] [?z] 1000) [CInt64 9] = Some (one_column [(CInt64 1, 1000), (CInt64 9, 1)] [?z] 1001)"
    by (simp add: insert_one_def one_column_def rle_push_def)
  have "insert_rows columnar_new [[120]] (replicate 1000 [CInt64 1] @ [[CInt64 9]]) = Some (one_column [(CInt64 1, 1000), (CInt64 9, 1)] [?z] 1001)"
    using 1 2 3 insert_ones [of 1 998] unfolding r by (simp add: insert_rows_def columnar_new_def one_column_def rle_new_def)
  then show ?thesis by (simp add: one_column_def can_prune_def can_prune_gt_def scan_column_def rle_values_def ord_of_def)
qed

section \<open>Files and other encodings\<close>

definition value_fits :: "ColValue \<Rightarrow> bool" where
  "value_fits v = (case v of CText s \<Rightarrow> utf8_valid s \<and> length s < 2 ^ 32 | _ \<Rightarrow> True)"

definition column_fits :: "RleColumn \<Rightarrow> bool" where
  "column_fits c \<longleftrightarrow> utf8_valid (rc_name c) \<and> length (rc_name c) < 2 ^ 32 \<and> length (rc_runs c) < 2 ^ 32 \<and>
     rc_row_count c = sum_list (map snd (rc_runs c)) \<and> (\<forall>r \<in> set (rc_runs c). value_fits (fst r) \<and> snd r < 2 ^ 32)"

definition store_fits :: "ColumnarStore \<Rightarrow> bool" where
  "store_fits s \<longleftrightarrow> length (cs_columns s) < 2 ^ 32 \<and> cs_row_count s < 2 ^ 64 \<and> (\<forall>c \<in> set (cs_columns s). column_fits c)"

lemma tag_byte: "yields (rd_le 1) [of_nat n] n" if "n < 256"
  using yields_le [of n 1] that by simp

lemma yields_tagged:
  assumes "n < 256" "b = of_nat n" "yields (f n) bs x"
  shows "yields (rd_bind (rd_le 1) f) (b # bs) x"
  using yields_bind [OF tag_byte [OF assms(1)], of f bs x] assms(2,3) by simp

lemma yields_word: "yields (rd_bind (rd_le 8) (\<lambda>n. rd_return (g (of_nat n :: i64)))) (to_le 8 (unat v)) (g v)"
  using yields_last [OF yields_le [of "unat v" 8], of "\<lambda>n. g (of_nat n)"] unsigned_less [of v] by simp

lemma yields_text:
  assumes "utf8_valid s" "length s < 2 ^ 32"
  shows "yields (rd_bind (rd_le 4) (\<lambda>n. rd_bind (rd_str n) (\<lambda>s. rd_return (g s)))) (to_le 4 (length s) @ s) (g s)"
  by (rule yields_bind [OF yields_le], use assms in simp, rule yields_last [OF yields_str]) (use assms in simp_all)

lemma yields_value:
  assumes "value_fits v"
  shows "yields rd_value (put_value v) v"
proof (cases v)
  case CNull
  show ?thesis unfolding rd_value_def CNull put_value.simps by (rule yields_tagged [of 0]) (simp_all add: yields_return)
next
  case (CInt64 n)
  show ?thesis unfolding rd_value_def CInt64 put_value.simps by (rule yields_tagged [of 1]) (simp_all add: yields_word)
next
  case (CFloat64 n)
  show ?thesis unfolding rd_value_def CFloat64 put_value.simps by (rule yields_tagged [of 2]) (simp_all add: yields_word)
next
  case (CText s)
  then show ?thesis using assms unfolding rd_value_def CText put_value.simps
    by (intro yields_tagged [of 3]) (simp_all add: yields_text value_fits_def)
next
  case (CBool b)
  have "yields (rd_bind (rd_le 1) (\<lambda>c. rd_return (CBool (c \<noteq> 0)))) [if b then 1 else 0] (CBool b)"
    by (rule yields_tagged [of "if b then 1 else 0"]) (simp_all add: yields_return)
  then show ?thesis unfolding rd_value_def CBool put_value.simps by (intro yields_tagged [of 4]) simp_all
qed

lemma yields_run: "value_fits (fst r) \<Longrightarrow> snd r < 2 ^ 32 \<Longrightarrow> yields rd_run (put_run r) r"
  using yields_bind [OF yields_value [of "fst r"], of "\<lambda>v. rd_bind (rd_le 4) (\<lambda>n. rd_return (v, n))" "to_le 4 (snd r)" r]
    yields_last [OF yields_le [of "snd r" 4], of "Pair (fst r)"]
  by (simp add: rd_run_def put_run_def)

lemma yields_column:
  assumes c: "column_fits c"
  shows "yields rd_column (put_column c) c"
  unfolding rd_column_def put_column_def
proof (rule yields_bind [OF yields_le], goal_cases)
  case 2
  show ?case
  proof (rule yields_bind [OF yields_str], goal_cases)
    case 3
    show ?case
    proof (rule yields_bind [OF yields_le], goal_cases)
      case 2
      have "yields (rd_n (length (rc_runs c)) rd_run) (concat (map put_run (rc_runs c))) (rc_runs c)"
        by (rule yields_n) (use c yields_run in \<open>auto simp: column_fits_def\<close>)
      from yields_last [OF this, of "\<lambda>runs. \<lparr>rc_name = rc_name c, rc_runs = runs, rc_row_count = sum_list (map snd runs)\<rparr>"]
      moreover have "\<lparr>rc_name = rc_name c, rc_runs = rc_runs c, rc_row_count = sum_list (map snd (rc_runs c))\<rparr> = c"
        using c by (cases c) (simp add: column_fits_def)
      ultimately show ?case by simp
    qed (use c in \<open>simp add: column_fits_def\<close>)
  qed (use c in \<open>simp_all add: column_fits_def\<close>)
qed (use c in \<open>simp add: column_fits_def\<close>)

text \<open>C33. A column store is read back from its file as it was written, except for the zone maps, which are empty
  until they are built again.\<close>

theorem columnar_file_roundtrip:
  assumes s: "store_fits s"
  shows "from_bytes (to_bytes s) = Inr (s\<lparr>cs_zone_maps := replicate (length (cs_columns s)) []\<rparr>)"
proof -
  let ?r = "\<lambda>n columns row_count. \<lparr>cs_columns = columns, cs_zone_maps = replicate n [], cs_row_count = row_count\<rparr>"
  let ?n = "length (cs_columns s)"
  have c: "yields (rd_n ?n rd_column) (concat (map put_column (cs_columns s))) (cs_columns s)"
    by (rule yields_n) (use s yields_column in \<open>auto simp: store_fits_def\<close>)
  have "yields (rd_bind (rd_magic COL_MAGIC) (\<lambda>_. rd_bind (rd_le 4) (\<lambda>n. rd_bind (rd_le 8) (\<lambda>row_count.
      rd_bind (rd_n n rd_column) (\<lambda>columns. rd_return (?r n columns row_count))))))
    ((COL_MAGIC @ [1]) @ to_le 4 ?n @ to_le 8 (cs_row_count s) @ concat (map put_column (cs_columns s))) (?r ?n (cs_columns s) (cs_row_count s))"
    by (rule yields_bind [OF yields_magic], simp, rule yields_bind [OF yields_le], use s in \<open>simp add: store_fits_def\<close>,
        rule yields_bind [OF yields_le], use s in \<open>simp add: store_fits_def\<close>, rule yields_last [OF c])
  from yields_start [OF this] show ?thesis by (simp add: from_bytes_def to_bytes_def)
qed

definition dict_ok :: "DictColumn \<Rightarrow> ColValue list \<Rightarrow> bool" where
  "dict_ok d vs \<longleftrightarrow> length (dc_dict d) \<le> length vs \<and> list_all2 (\<lambda>c v. c < length (dc_dict d) \<and> col_same (dc_dict d ! c) v) (dc_codes d) vs"

lemma dict_append_ok:
  assumes d: "dict_ok d vs" and n: "length vs + 1 < 2 ^ 32"
  shows "dict_ok (dict_append d v) (vs @ [v])"
proof (cases "position (\<lambda>w. col_eq w v) (dc_dict d)")
  case None
  have "list_all2 (\<lambda>c v. c < length (dc_dict d @ [v']) \<and> col_same ((dc_dict d @ [v']) ! c) v) (dc_codes d) vs" for v'
    using d unfolding dict_ok_def by (auto simp: nth_append elim!: list_all2_mono)
  then show ?thesis using d n None by (auto simp: dict_append_def dict_ok_def col_same_def intro!: list_all2_appendI)
next
  case (Some i)
  then have "i < length (dc_dict d)" "col_eq (dc_dict d ! i) v" using position_Some by force+
  then show ?thesis using d n Some by (auto simp: dict_append_def dict_ok_def col_same_def intro!: list_all2_appendI)
qed

lemma dict_append_all: "dict_ok d vs \<Longrightarrow> length vs + length ws < 2 ^ 32 \<Longrightarrow> dict_ok (foldl dict_append d ws) (vs @ ws)"
proof (induction ws arbitrary: d vs)
  case (Cons w ws)
  then show ?case using dict_append_ok [of d vs w] Cons.IH [of "dict_append d w" "vs @ [w]"] by simp
qed simp

lemma col_same_trans: "col_same a b \<Longrightarrow> col_same b c \<Longrightarrow> col_same a c"
  by (cases a; cases b; cases c) (auto simp: col_same_def f64_eq_def)

lemma push_codes_ok:
  assumes "list_all2 (\<lambda>c v. c < length dict \<and> col_same (dict ! c) v) codes vs" "length (rle_values c) + length vs < 2 ^ 32"
  shows "\<exists>c' ws. push_codes dict c codes = Some c' \<and> rle_values c' = rle_values c @ ws \<and> list_all2 col_same ws vs"
  using assms
proof (induction codes vs arbitrary: c rule: list_all2_induct)
  case (Cons code codes v vs)
  obtain w where w: "col_same w (dict ! code)" "rle_values (rle_push c (dict ! code)) = rle_values c @ [w]"
    using rle_push_values [of c "dict ! code"] Cons.prems by auto
  obtain c' ws where "push_codes dict (rle_push c (dict ! code)) codes = Some c'"
    "rle_values c' = rle_values (rle_push c (dict ! code)) @ ws" "list_all2 col_same ws vs"
    using Cons.IH [of "rle_push c (dict ! code)"] w(2) Cons.prems by auto
  then show ?case using w Cons.hyps col_same_trans [OF w(1)] by (intro exI [of _ c'] exI [of _ "w # ws"]) simp
qed simp

text \<open>Differences of consecutive values that fit 32 bits.\<close>

fun small_steps :: "i64 list \<Rightarrow> bool" where
  "small_steps (a # b # ns) \<longleftrightarrow> - (2 ^ 31) \<le> sint (b - a) \<and> sint (b - a) < 2 ^ 31 \<and> small_steps (b # ns)"
| "small_steps ns \<longleftrightarrow> True"

lemma narrow: 
  fixes d :: i64
  assumes "- (2 ^ 31) \<le> sint d" "sint d < 2 ^ 31"
  shows "scast (ucast d :: 32 word) = d"
proof -
  have "signed_take_bit 31 (sint d) = sint d" using assms by (simp add: signed_take_bit_int_eq_self_iff)
  moreover have "sint (ucast d :: 32 word) = signed_take_bit 31 (sint d)"
    by transfer (simp add: signed_take_bit_take_bit signed_take_bit_signed_take_bit min_def)
  ultimately have "sint (ucast d :: 32 word) = sint d" by simp
  then show ?thesis by (metis scast_id of_int_sint scast_eq)
qed

definition delta_ok :: "DeltaColumn \<Rightarrow> i64 list \<Rightarrow> bool" where
  "delta_ok d ns \<longleftrightarrow> de_row_count d = length ns \<and> (ns \<noteq> [] \<longrightarrow> de_first_value d = hd ns \<and> de_last_value d = last ns \<and>
     length (de_deltas d) + 1 = length ns \<and> (\<forall>i < length ns. foldl (\<lambda>val x. val + scast x) (hd ns) (take i (de_deltas d)) = ns ! i))"

lemma small_steps_snoc: "small_steps (ns @ [v]) \<longleftrightarrow> small_steps ns \<and> (ns = [] \<or> - (2 ^ 31) \<le> sint (v - last ns) \<and> sint (v - last ns) < 2 ^ 31)"
  by (induction ns rule: small_steps.induct) auto

lemma delta_append_ok:
  assumes d: "delta_ok d ns" and s: "small_steps (ns @ [v])" and ne: "de_row_count d = 0 \<Longrightarrow> de_deltas d = []"
  shows "delta_ok (delta_append d v) (ns @ [v])"
proof (cases "ns = []")
  case True
  then show ?thesis using d ne by (simp add: delta_ok_def delta_append_def)
next
  case False
  let ?x = "ucast (v - de_last_value d) :: 32 word"
  have D: "de_row_count d = length ns" "de_first_value d = hd ns" "de_last_value d = last ns" "length (de_deltas d) + 1 = length ns"
    "\<And>i. i < length ns \<Longrightarrow> foldl (\<lambda>val x. val + scast x) (hd ns) (take i (de_deltas d)) = ns ! i"
    using d False by (auto simp: delta_ok_def)
  have x: "scast ?x = v - last ns" using narrow [of "v - last ns"] s False D(3) by (simp add: small_steps_snoc)
  have "foldl (\<lambda>val x. val + scast x) (hd ns) (de_deltas d) = last ns"
    using D(4) D(5) [of "length ns - 1"] False by (simp add: last_conv_nth)
  then have "foldl (\<lambda>val x. val + scast x) (hd ns) (de_deltas d @ [?x]) = v" using x by simp
  moreover have "foldl (\<lambda>val x. val + scast x) (hd ns) (take i (de_deltas d @ [?x])) = ns ! i" if "i < length ns" for i
    using that D(4,5) by simp
  ultimately have "foldl (\<lambda>val x. val + scast x) (hd ns) (take i (de_deltas d @ [?x])) = (ns @ [v]) ! i" if "i < length (ns @ [v])" for i
    using that D(4) by (cases "i = length ns") (auto simp: nth_append)
  then show ?thesis using D False by (simp add: delta_ok_def delta_append_def hd_append)
qed

lemma append_ints_ok:
  assumes "delta_ok d ns" "small_steps (ns @ ms)" "de_row_count d = 0 \<Longrightarrow> de_deltas d = []"
  shows "\<exists>d'. append_ints d (map CInt64 ms) = Some d' \<and> delta_ok d' (ns @ ms) \<and> de_name d' = de_name d"
  using assms
proof (induction ms arbitrary: d ns)
  case (Cons m ms)
  have "small_steps (ns @ [m])" using Cons.prems(2) by (induction ns rule: small_steps.induct) (auto elim: small_steps.elims)
  then have a: "delta_ok (delta_append d m) (ns @ [m])" using delta_append_ok [OF Cons.prems(1) _ Cons.prems(3)] by simp
  have "de_row_count (delta_append d m) \<noteq> 0" "de_name (delta_append d m) = de_name d" by (simp_all add: delta_append_def)
  then show ?case using Cons.IH [OF a] Cons.prems(2) by auto
qed simp

lemma delta_get_ok: "delta_ok d ns \<Longrightarrow> i < length ns \<Longrightarrow> delta_get d i = ns ! i"
proof -
  assume d: "delta_ok d ns" "i < length ns"
  then have ne: "ns \<noteq> []" by auto
  have f: "de_first_value d = hd ns" "length (de_deltas d) + 1 = length ns" "de_row_count d = length ns"
    "foldl (\<lambda>val x. val + scast x) (hd ns) (take i (de_deltas d)) = ns ! i" using d ne by (auto simp: delta_ok_def)
  have "min i (length (de_deltas d)) = i" using f(2) d(2) by simp
  then show ?thesis using f ne by (auto simp: delta_get_def hd_conv_nth)
qed

text \<open>A difference that does not fit 32 bits is cut to its lower half, and the value read back is another one.\<close>

lemma wide_step_is_cut: "delta_get (delta_append (delta_append (delta_new name) 0) (2 ^ 32 + 5)) 1 = 5"
  by (simp add: delta_get_def delta_append_def delta_new_def)

lemma foldl_rle_ints:
  assumes "length (rle_values c) + length ns < 2 ^ 32"
  shows "rle_values (foldl (\<lambda>c n. rle_push c (CInt64 n)) c ns) = rle_values c @ map CInt64 ns"
proof -
  have "foldl (\<lambda>c n. rle_push c (CInt64 n)) c ns = foldl rle_push c (map CInt64 ns)" by (simp add: foldl_map)
  moreover have "list_all2 col_same ws (map CInt64 ns) \<Longrightarrow> ws = map CInt64 ns" for ws
  proof (induction ns arbitrary: ws)
    case (Cons n ns)
    then obtain w ws' where "ws = w # ws'" "col_same w (CInt64 n)" "list_all2 col_same ws' (map CInt64 ns)"
      by (auto simp: list_all2_Cons2)
    moreover have "col_same w (CInt64 n) \<Longrightarrow> w = CInt64 n" by (cases w) (auto simp: col_same_def)
    ultimately show ?case using Cons.IH by simp
  qed simp
  ultimately show ?thesis using rle_push_all [of c "map CInt64 ns"] assms by auto
qed

section \<open>Properties\<close>

text \<open>C32. A column store holds the rows inserted: after two batches of rows that fill its columns, also across the
  rebuilding of the zone maps, a scan gives the rows in the order they were inserted, value by value equal to
  them, and a scan of a column the values of that column.\<close>

theorem columnar_stores_rows:
  assumes n: "names \<noteq> []" "\<forall>r \<in> set (rows1 @ rows2). length r = length names" "length (rows1 @ rows2) < 2 ^ 32"
  shows "\<exists>s1 s2. insert_rows columnar_new names rows1 = Some s1 \<and> insert_rows s1 names rows2 = Some s2 \<and>
    list_all2 (list_all2 col_same) (columnar_scan s2) (rows1 @ rows2) \<and>
    (\<forall>i < length names. list_all2 col_same (scan_column s2 i) (map (\<lambda>r. r ! i) (rows1 @ rows2)))"
proof -
  let ?n = "length names"
  let ?s = "columnar_new\<lparr>cs_columns := map rle_new names, cs_zone_maps := map (\<lambda>_. []) names\<rparr>"
  have h: "holds_rows ?s ?n []" by (simp add: holds_rows_def columnar_new_def rle_new_def rle_values_def)
  obtain s1 where s1: "insert_all ?s rows1 = Some s1" "holds_rows s1 ?n rows1" using holds_insert_all [OF h, of rows1] n by auto
  obtain s2 where s2: "insert_all s1 rows2 = Some s2" "holds_rows s2 ?n (rows1 @ rows2)" using holds_insert_all [OF s1(2), of rows2] n by auto
  have "cs_columns s1 \<noteq> []" using s1(2) n(1) by (auto simp: holds_rows_def)
  then have "insert_rows columnar_new names rows1 = Some s1" "insert_rows s1 names rows2 = Some s2"
    using s1(1) s2(1) by (simp_all add: insert_rows_def columnar_new_def)
  moreover have "list_all2 (list_all2 col_same) (columnar_scan s2) (rows1 @ rows2)" using holds_scan [OF s2(2) n(2)] n(1) by simp
  moreover have "\<forall>i < ?n. list_all2 col_same (scan_column s2 i) (map (\<lambda>r. r ! i) (rows1 @ rows2))"
    using s2(2) by (simp add: holds_rows_def scan_column_def)
  ultimately show ?thesis by blast
qed

text \<open>C34. The encodings of a column lose nothing the code can tell apart: through the dictionary its values come
  back up to the sign of a zero, and the integers of a column come back through the differences if each difference
  of consecutive values fits 32 bits.\<close>

theorem column_encodings_lossless:
  assumes n: "length (rle_values c) < 2 ^ 32"
  shows "(\<exists>c'. from_dict_column (to_dict_column c) = Some c' \<and> list_all2 col_same (rle_values c') (rle_values c)) \<and>
    (\<forall>ns. rle_values c = map CInt64 ns \<and> small_steps ns \<longrightarrow>
       (\<exists>d. from_rle_to_delta c = Some d \<and> rle_values (delta_to_rle d) = rle_values c))"
proof (intro conjI allI impI)
  let ?d = "to_dict_column c"
  have "dict_ok ?d (rle_values c)"
    using dict_append_all [of "dict_new (rc_name c)" "[]" "rle_values c"] n by (simp add: to_dict_column_def dict_ok_def dict_new_def)
  then show "\<exists>c'. from_dict_column ?d = Some c' \<and> list_all2 col_same (rle_values c') (rle_values c)"
    using push_codes_ok [of "dc_dict ?d" "dc_codes ?d" "rle_values c" "rle_new (dc_name ?d)"] n
    by (auto simp: from_dict_column_def dict_ok_def rle_new_def rle_values_def)
next
  fix ns assume ns: "rle_values c = map CInt64 ns \<and> small_steps ns"
  have "delta_ok (delta_new (rc_name c)) []" by (simp add: delta_ok_def delta_new_def)
  then obtain d where d: "append_ints (delta_new (rc_name c)) (map CInt64 ns) = Some d" "delta_ok d ns"
    using append_ints_ok [of "delta_new (rc_name c)" "[]" ns] ns by (auto simp: delta_new_def)
  have len: "de_row_count d = length ns" using d(2) by (simp add: delta_ok_def)
  have "map (delta_get d) [0 ..< length ns] = ns" by (rule nth_equalityI) (simp_all add: delta_get_ok [OF d(2)])
  then have "delta_to_rle d = foldl (\<lambda>c n. rle_push c (CInt64 n)) (rle_new (de_name d)) ns"
    using foldl_map [of "\<lambda>c n. rle_push c (CInt64 n)" "rle_new (de_name d)" "delta_get d" "[0 ..< length ns]"]
    by (simp add: delta_to_rle_def len)
  moreover have "length ns < 2 ^ 32" using n ns by simp
  ultimately have "rle_values (delta_to_rle d) = rle_values c"
    using foldl_rle_ints [of "rle_new (de_name d)" ns] ns by (simp add: rle_new_def rle_values_def)
  then show "\<exists>d. from_rle_to_delta c = Some d \<and> rle_values (delta_to_rle d) = rle_values c"
    using d(1) ns by (auto simp: from_rle_to_delta_def)
qed

section \<open>Examples\<close>

definition ex_column :: RleColumn where
  "ex_column = \<lparr>rc_name = [97], rc_runs = [(CInt64 7, 2), (CInt64 9, 1)], rc_row_count = 3\<rparr>"

definition ex_store :: ColumnarStore where
  "ex_store = \<lparr>cs_columns = [ex_column], cs_zone_maps = [[]], cs_row_count = 3\<rparr>"

theorem columnar_file_roundtrip_witness: "from_bytes (to_bytes ex_store) = Inr ex_store"
proof -
  have "utf8_valid [97]" by (simp add: utf8_valid_ascii)
  then have "store_fits ex_store" by (simp add: store_fits_def column_fits_def value_fits_def ex_store_def ex_column_def)
  then show ?thesis using columnar_file_roundtrip [of ex_store] by (simp add: ex_store_def)
qed

theorem columnar_stores_rows_witness:
  "\<exists>s1 s2. insert_rows columnar_new [[97], [98]] [[CInt64 1, CNull], [CInt64 1, CBool True]] = Some s1 \<and>
     insert_rows s1 [[97], [98]] [[CInt64 2, CBool True]] = Some s2 \<and>
     list_all2 (list_all2 col_same) (columnar_scan s2) [[CInt64 1, CNull], [CInt64 1, CBool True], [CInt64 2, CBool True]]"
  using columnar_stores_rows [of "[[97], [98]]" "[[CInt64 1, CNull], [CInt64 1, CBool True]]" "[[CInt64 2, CBool True]]"] by auto

theorem column_encodings_lossless_witness:
  "\<exists>d. from_rle_to_delta ex_column = Some d \<and> rle_values (delta_to_rle d) = [CInt64 7, CInt64 7, CInt64 9]"
proof -
  have v: "rle_values ex_column = map CInt64 [7, 7, 9]" by (simp add: ex_column_def rle_values_def numeral_eq_Suc)
  have s: "small_steps [7, 7, 9]" by simp
  have l: "length (rle_values ex_column) < 2 ^ 32" using v by simp
  show ?thesis using column_encodings_lossless [OF l, THEN conjunct2, rule_format, OF conjI, OF v s] v by simp
qed

theorem zone_prune_sound_witness:
  "\<exists>s'. build_zone_maps ex_store = Some s' \<and> can_prune s' 0 (CInt64 9) True \<and>
     CInt64 7 \<in> set (take 3 (scan_column s' 0)) \<and> col_cmp (CInt64 7) (CInt64 9) \<noteq> Some Greater"
proof -
  let ?z = "\<lparr>zm_row_offset = 0, zm_row_count = 3, zm_min = CInt64 7, zm_max = CInt64 9\<rparr>"
  have v: "rle_values ex_column = [CInt64 7, CInt64 7, CInt64 9]" by (simp add: ex_column_def rle_values_def numeral_eq_Suc)
  have "zones_from [CInt64 7, CInt64 7, CInt64 9] 3 0 = Some [?z]"
    by (simp add: zones_from.simps [of _ _ 0] zones_from.simps [of _ _ 1000] extreme_def better_def ord_of_def)
  then have b: "build_zone_maps ex_store = Some (ex_store\<lparr>cs_zone_maps := [[?z]]\<rparr>)" using v by (simp add: build_zone_maps_def ex_store_def)
  have p: "can_prune (ex_store\<lparr>cs_zone_maps := [[?z]]\<rparr>) 0 (CInt64 9) True" by (simp add: can_prune_def can_prune_gt_def ord_of_def)
  have m: "CInt64 7 \<in> set (take (cs_row_count (ex_store\<lparr>cs_zone_maps := [[?z]]\<rparr>)) (scan_column (ex_store\<lparr>cs_zone_maps := [[?z]]\<rparr>) 0))"
    using v by (simp add: scan_column_def ex_store_def)
  show ?thesis using zone_prune_sound [OF b p, rule_format, OF m] b p m by (auto simp: ex_store_def)
qed

end
