(* ===== verification/Gin.thy ===== *)
theory Gin
  imports Byte_Reader Page Jsonb
begin

text \<open>
  The inverted index of \<^verbatim>\<open>crates/storage/src/gin.rs\<close>: posting lists of tuple ids under tokens, their file format,
  and the tokens of a JSONB value and of a text. The tokens of a document are visited in the order of a hash set;
  the model takes the order of their last occurrence, and \<open>gin_insert_lookup\<close> shows that it does not matter. Skipping a
  value recurses as deep as the value nests, so it takes fuel.
\<close>

section \<open>The index\<close>

record GinIndex =
  gin_entries :: "(str, TupleId list) btmap"

definition gin_new :: GinIndex where
  "gin_new = \<lparr>gin_entries = []\<rparr>"

definition tid_less :: "TupleId \<Rightarrow> TupleId \<Rightarrow> bool" where
  "tid_less a b \<longleftrightarrow> tid_page_id a < tid_page_id b \<or> tid_page_id a = tid_page_id b \<and> tid_slot_id a < tid_slot_id b"

definition same_tid :: "TupleId \<Rightarrow> TupleId \<Rightarrow> bool" where
  "same_tid a b \<longleftrightarrow> tid_page_id a = tid_page_id b \<and> tid_slot_id a = tid_slot_id b"

definition post :: "TupleId \<Rightarrow> TupleId list \<Rightarrow> TupleId list" where
  "post tid l =
     (let pos = partition_point (\<lambda>t. tid_less t tid) l
      in if pos = length l \<or> \<not> same_tid (l ! pos) tid then insert_at pos tid l else l)"

definition gin_lookup :: "GinIndex \<Rightarrow> str \<Rightarrow> TupleId list" where
  "gin_lookup g token = (case map_of (gin_entries g) token of None \<Rightarrow> [] | Some l \<Rightarrow> l)"

definition post_token :: "TupleId \<Rightarrow> GinIndex \<Rightarrow> str \<Rightarrow> GinIndex" where
  "post_token tid g token = g\<lparr>gin_entries := bt_insert token (post tid (gin_lookup g token)) (gin_entries g)\<rparr>"

definition gin_insert :: "GinIndex \<Rightarrow> TupleId \<Rightarrow> str list \<Rightarrow> GinIndex" where
  "gin_insert g tid tokens = foldl (post_token tid) g (remdups tokens)"

fun retain_common :: "TupleId list \<Rightarrow> TupleId list list \<Rightarrow> TupleId list" where
  "retain_common result [] = result"
| "retain_common result (l # ls) =
     (let r = filter (\<lambda>tid. list_ex (\<lambda>t. same_tid t tid) l) result in if r = [] then r else retain_common r ls)"

definition lookup_all :: "GinIndex \<Rightarrow> str list \<Rightarrow> TupleId list" where
  "lookup_all g tokens =
     (if tokens = [] then []
      else let lists = sort_key length (map (gin_lookup g) tokens)
           in if hd lists = [] then [] else retain_common (hd lists) (tl lists))"

definition gin_remove :: "GinIndex \<Rightarrow> TupleId \<Rightarrow> GinIndex" where
  "gin_remove g tid =
     g\<lparr>gin_entries := filter (\<lambda>(_, l). l \<noteq> []) (map (\<lambda>(k, l). (k, filter (\<lambda>t. \<not> same_tid t tid) l)) (gin_entries g))\<rparr>"

definition token_count :: "GinIndex \<Rightarrow> nat" where
  "token_count g = length (gin_entries g)"

definition document_count :: "GinIndex \<Rightarrow> nat" where
  "document_count g = length (remdups (concat (map (\<lambda>(_, l). map (\<lambda>t. (tid_page_id t, tid_slot_id t)) l) (gin_entries g))))"

section \<open>The file format\<close>

abbreviation (input) GIN_MAGIC :: "byte list" where "GIN_MAGIC \<equiv> [71, 73, 78, 0]"

definition put_tid :: "TupleId \<Rightarrow> byte list" where
  "put_tid t = to_le 8 (tid_page_id t) @ to_le 2 (tid_slot_id t)"

definition put_posting :: "str \<times> TupleId list \<Rightarrow> byte list" where
  "put_posting e = to_le 4 (length (fst e)) @ fst e @ to_le 4 (length (snd e)) @ concat (map put_tid (snd e))"

definition gin_to_bytes :: "GinIndex \<Rightarrow> byte list" where
  "gin_to_bytes g = GIN_MAGIC @ [1] @ to_le 4 (length (gin_entries g)) @ concat (map put_posting (gin_entries g))"

definition rd_tid :: "TupleId reader" where
  "rd_tid = rd_bind (rd_le 8) (\<lambda>p. rd_bind (rd_le 2) (\<lambda>s. rd_return \<lparr>tid_page_id = p, tid_slot_id = s\<rparr>))"

definition rd_posting :: "(str \<times> TupleId list) reader" where
  "rd_posting = rd_bind (rd_le 4) (\<lambda>n. rd_bind (rd_str n) (\<lambda>token. rd_bind (rd_le 4) (\<lambda>c. rd_bind (rd_n c rd_tid) (\<lambda>l.
     rd_return (token, l)))))"

definition gin_from_bytes :: "byte list \<Rightarrow> read_error + GinIndex" where
  "gin_from_bytes data =
     map_sum id fst (rd_bind (rd_magic GIN_MAGIC) (\<lambda>_. rd_bind (rd_le 4) (\<lambda>n. rd_bind (rd_n n rd_posting) (\<lambda>es.
       rd_return \<lparr>gin_entries = foldl (\<lambda>m (k, l). bt_insert k l m) [] es\<rparr>))) data 0)"

section \<open>Tokens\<close>

fun skip_n :: "nat \<Rightarrow> (nat \<Rightarrow> nat) \<Rightarrow> nat \<Rightarrow> nat" where
  "skip_n 0 f p = p"
| "skip_n (Suc c) f p = skip_n c f (f p)"

fun skip_jsonb_value :: "nat \<Rightarrow> byte list \<Rightarrow> nat \<Rightarrow> nat" where
  "skip_jsonb_value 0 bytes pos = pos"
| "skip_jsonb_value (Suc n) bytes pos =
     (if length bytes \<le> pos then pos
      else let tag = bytes ! pos; p = pos + 1
      in if 0x01 \<le> tag \<and> tag \<le> 0x03 then p
         else if tag = 0x04 \<or> tag = 0x05 then p + 8
         else if tag = 0x06 then if length bytes < p + 4 then p else p + 4 + from_le (slice bytes p 4)
         else if tag = 0x07 then if length bytes < p + 4 then p
           else skip_n (from_le (slice bytes p 4)) (skip_jsonb_value n bytes) (p + 4)
         else if tag = 0x08 then if length bytes < p + 4 then p
           else skip_n (from_le (slice bytes p 4)) (\<lambda>q. skip_jsonb_value n bytes (skip_jsonb_value n bytes q)) (p + 4)
         else p)"

fun keys_from :: "nat \<Rightarrow> byte list \<Rightarrow> nat \<Rightarrow> str list" where
  \<comment> \<open>the loop over the members of an object\<close>
  "keys_from 0 bytes pos = []"
| "keys_from (Suc c) bytes pos =
     (if length bytes \<le> pos \<or> bytes ! pos \<noteq> 0x06 \<or> length bytes < pos + 1 + 4 then []
      else let len = from_le (slice bytes (pos + 1) 4); p = pos + 1 + 4
           in if length bytes < p + len then []
              else let rest = keys_from c bytes (skip_jsonb_value (length bytes) bytes (p + len))
                   in if utf8_valid (slice bytes p len) then slice bytes p len # rest else rest)"

definition jsonb_tokens :: "byte list \<Rightarrow> str list" where
  "jsonb_tokens bytes =
     (if bytes = [] \<or> hd bytes \<noteq> 0x08 \<or> length bytes < 5 then []
      else keys_from (from_le (slice bytes 1 4)) bytes 5)"

text \<open>Characters are code points; which of them are alphanumeric, and their lower case, are tables of the standard library.\<close>

fun words_of :: "('c \<Rightarrow> bool) \<Rightarrow> ('c \<Rightarrow> 'c) \<Rightarrow> 'c list \<Rightarrow> 'c list \<Rightarrow> 'c list list" where
  "words_of alnum lower [] current = (if current = [] then [] else [current])"
| "words_of alnum lower (c # cs) current =
     (if alnum c then words_of alnum lower cs (current @ [lower c])
      else if current = [] then words_of alnum lower cs []
      else current # words_of alnum lower cs [])"

definition text_tokens :: "('c \<Rightarrow> bool) \<Rightarrow> ('c \<Rightarrow> 'c) \<Rightarrow> 'c list \<Rightarrow> 'c list list" where
  "text_tokens alnum lower s = words_of alnum lower s []"

section \<open>Posting lists\<close>

lemma tid_less_irrefl [simp]: "\<not> tid_less a a"
  by (simp add: tid_less_def)

lemma tid_less_trans: "tid_less a b \<Longrightarrow> tid_less b c \<Longrightarrow> tid_less a c"
  by (auto simp: tid_less_def)

lemma tid_less_linear: "tid_less a b \<or> a = b \<or> tid_less b a"
  by (cases a; cases b) (auto simp: tid_less_def)

lemma same_tid_eq: "same_tid a b \<longleftrightarrow> a = b"
  by (cases a; cases b) (auto simp: same_tid_def)

lemma post_ok:
  assumes s: "sorted_wrt tid_less l"
  shows "sorted_wrt tid_less (post tid l)" "set (post tid l) = insert tid (set l)"
proof -
  let ?p = "\<lambda>t. tid_less t tid"
  let ?k = "partition_point ?p l"
  have "partitioned ?p l"
    using s tid_less_trans unfolding partitioned_def sorted_wrt_iff_nth_less by blast
  note T = partition_point_takeWhile [OF this]
  have l: "l = takeWhile ?p l @ dropWhile ?p l" by simp
  have A: "\<forall>t \<in> set (takeWhile ?p l). tid_less t tid" by (auto dest: set_takeWhileD)
  have sD: "sorted_wrt tid_less (takeWhile ?p l @ dropWhile ?p l)" using s by simp
  have B: "\<forall>t \<in> set (dropWhile ?p l). t = tid \<or> tid_less tid t"
  proof (cases "dropWhile ?p l")
    case (Cons b bs)
    have "b = tid \<or> tid_less tid b" using hd_dropWhile [of ?p l] Cons tid_less_linear [of b tid] by auto
    moreover have "\<forall>t \<in> set bs. tid_less b t" using sD Cons by (simp add: sorted_wrt_append)
    ultimately show ?thesis unfolding Cons using tid_less_trans by auto
  next
    case Nil
    show ?thesis unfolding Nil by simp
  qed
  have hd: "?k < length l \<Longrightarrow> l ! ?k = hd (dropWhile ?p l) \<and> dropWhile ?p l \<noteq> []"
    using T(2) by (metis drop_eq_Nil hd_drop_conv_nth not_le)
  have nil: "?k = length l \<Longrightarrow> dropWhile ?p l = []" using T(2) by (metis drop_all order_refl)
  have le: "?k \<le> length l" by simp
  show "sorted_wrt tid_less (post tid l)"
  proof (cases "?k = length l \<or> \<not> same_tid (l ! ?k) tid")
    case True
    then have "tid \<notin> set (dropWhile ?p l)"
    proof (cases "dropWhile ?p l")
      case (Cons b bs)
      have "b \<noteq> tid" using True hd nil Cons le by (auto simp: same_tid_eq le_less)
      then have "tid_less tid b" using B Cons by simp
      moreover have "\<forall>t \<in> set bs. tid_less b t" using sD Cons by (simp add: sorted_wrt_append)
      ultimately have "\<not> tid_less b tid" "tid \<notin> set bs" using tid_less_trans [of tid b tid] by auto
      then show ?thesis unfolding Cons using \<open>b \<noteq> tid\<close> by simp
    next
      case Nil
      show ?thesis unfolding Nil by simp
    qed
    then have "tid_less tid t" if "t \<in> set (dropWhile ?p l)" for t using bspec [OF B that] that by (cases "t = tid") simp_all
    then show ?thesis using True A sD unfolding post_def Let_def insert_at_def T
      by (auto simp: sorted_wrt_append intro: tid_less_trans)
  next
    case False
    then show ?thesis using s by (simp add: post_def Let_def)
  qed
  show "set (post tid l) = insert tid (set l)"
  proof -
    have "?k \<noteq> length l \<Longrightarrow> l ! ?k \<in> set l" using le by (intro nth_mem) linarith
    then show ?thesis by (auto simp: post_def Let_def same_tid_eq)
  qed
qed

section \<open>The index as a relation\<close>

definition gin_wf :: "GinIndex \<Rightarrow> bool" where
  "gin_wf g \<longleftrightarrow> bt_wf (gin_entries g) \<and> (\<forall>(k, l) \<in> set (gin_entries g). l \<noteq> [] \<and> sorted_wrt tid_less l)"

lemma lookup_sorted: "gin_wf g \<Longrightarrow> sorted_wrt tid_less (gin_lookup g t)"
  by (auto simp: gin_wf_def gin_lookup_def split: option.split dest!: map_of_SomeD)

lemma post_token_ok:
  assumes "gin_wf g"
  shows "gin_wf (post_token tid g t)" "gin_lookup (post_token tid g t) u = (if u = t then post tid (gin_lookup g t) else gin_lookup g u)"
proof -
  have b: "bt_wf (gin_entries g)" using assms by (simp add: gin_wf_def)
  have p: "post tid (gin_lookup g t) \<noteq> []" "sorted_wrt tid_less (post tid (gin_lookup g t))"
    using post_ok [OF lookup_sorted [OF assms]] by (metis empty_iff insert_iff list.set(1), blast)
  show "gin_wf (post_token tid g t)"
    using assms b p set_bt_insert [of t "post tid (gin_lookup g t)" "gin_entries g"] by (auto simp: gin_wf_def post_token_def)
  show "gin_lookup (post_token tid g t) u = (if u = t then post tid (gin_lookup g t) else gin_lookup g u)"
    using bt_insert_get [OF b] by (simp add: gin_lookup_def post_token_def)
qed

lemma foldl_post:
  assumes "gin_wf g" "distinct ts"
  shows "gin_wf (foldl (post_token tid) g ts) \<and>
    gin_lookup (foldl (post_token tid) g ts) u = (if u \<in> set ts then post tid (gin_lookup g u) else gin_lookup g u)"
  using assms
proof (induction ts arbitrary: g)
  case (Cons t ts)
  then show ?case using post_token_ok [OF Cons.prems(1), of tid t] Cons.IH [of "post_token tid g t"] by auto
qed simp

lemma gin_insert_lookup:
  assumes "gin_wf g"
  shows "gin_wf (gin_insert g tid tokens)"
    "gin_lookup (gin_insert g tid tokens) u = (if u \<in> set tokens then post tid (gin_lookup g u) else gin_lookup g u)"
  using foldl_post [OF assms, of "remdups tokens" tid u] by (simp_all add: gin_insert_def)

lemma map_of_nonempty:
  "distinct (map fst m) \<Longrightarrow> (case map_of (filter (\<lambda>(_, l). l \<noteq> []) m) k of None \<Rightarrow> [] | Some l \<Rightarrow> l) = (case map_of m k of None \<Rightarrow> [] | Some l \<Rightarrow> l)"
proof (induction m)
  case (Cons e m)
  have "map_of (filter (\<lambda>(_, l). l \<noteq> []) m) (fst e) = None" using Cons.prems by (force simp: map_of_eq_None_iff)
  then show ?case using Cons by (cases e) (auto split: option.splits)
qed simp

lemma gin_remove_lookup:
  assumes "gin_wf g"
  shows "gin_wf (gin_remove g tid)" "gin_lookup (gin_remove g tid) u = filter (\<lambda>t. t \<noteq> tid) (gin_lookup g u)"
proof -
  let ?f = "\<lambda>(k, l). (k, filter (\<lambda>t. \<not> same_tid t tid) l)" and ?m = "gin_entries g"
  have b: "bt_wf ?m" "\<forall>(k, l) \<in> set ?m. l \<noteq> [] \<and> sorted_wrt tid_less l" using assms by (simp_all add: gin_wf_def)
  have f: "map fst (map ?f ?m) = map fst ?m" by auto
  have s: "bt_wf (filter (\<lambda>(_, l). l \<noteq> []) (map ?f ?m))"
  proof -
    have "sorted_wrt (\<lambda>a b. fst a < fst b) (map ?f ?m)" using b(1) by (simp add: sorted_wrt_map split_beta)
    from sorted_wrt_filter [OF this] show ?thesis by (simp only: sorted_wrt_map [of "(<)" fst])
  qed
  then show "gin_wf (gin_remove g tid)"
    using b(2) sorted_wrt_filter by (fastforce simp: gin_wf_def gin_remove_def)
  have "distinct (map fst (map ?f ?m))" unfolding f using b(1) by (rule bt_wf_distinct)
  from map_of_nonempty [OF this, of u]
  show "gin_lookup (gin_remove g tid) u = filter (\<lambda>t. t \<noteq> tid) (gin_lookup g u)"
    by (simp add: gin_lookup_def gin_remove_def map_of_map same_tid_eq split: option.split)
qed

lemma retain_common_eq: "retain_common r ls = filter (\<lambda>t. \<forall>l \<in> set ls. t \<in> set l) r"
proof (induction r ls rule: retain_common.induct)
  case (2 r l ls)
  have m: "list_ex (\<lambda>u. same_tid u t) l \<longleftrightarrow> t \<in> set l" for t by (auto simp: list_ex_iff same_tid_eq)
  show ?case
  proof (cases "filter (\<lambda>t. t \<in> set l) r = []")
    case True
    then have "filter (\<lambda>t. t \<in> set l \<and> (\<forall>l \<in> set ls. t \<in> set l)) r = []" by (auto simp: filter_empty_conv)
    then show ?thesis using True by (simp add: m Let_def)
  next
    case False
    then show ?thesis using 2 by (simp add: m Let_def)
  qed
qed simp

lemma lookup_all_ok:
  assumes g: "gin_wf g" and ts: "tokens \<noteq> []"
  shows "sorted_wrt tid_less (lookup_all g tokens)" "set (lookup_all g tokens) = {tid. \<forall>t \<in> set tokens. tid \<in> set (gin_lookup g t)}"
proof -
  let ?ls = "sort_key length (map (gin_lookup g) tokens)"
  have ne: "?ls \<noteq> []" using ts by (metis length_0_conv length_map length_sort)
  have s: "set ?ls = gin_lookup g ` set tokens" by simp
  have e: "lookup_all g tokens = filter (\<lambda>t. \<forall>l \<in> set (tl ?ls). t \<in> set l) (hd ?ls)"
    using ts by (auto simp: lookup_all_def Let_def retain_common_eq)
  have "hd ?ls \<in> gin_lookup g ` set tokens" using ne s by (metis list.set_sel(1))
  then have "sorted_wrt tid_less (hd ?ls)" using lookup_sorted [OF g] by auto
  then show "sorted_wrt tid_less (lookup_all g tokens)" unfolding e by (rule sorted_wrt_filter)
  have "set ?ls = insert (hd ?ls) (set (tl ?ls))" using ne by (metis list.collapse list.simps(15))
  then have "(\<forall>l \<in> set ?ls. x \<in> set l) \<longleftrightarrow> x \<in> set (hd ?ls) \<and> (\<forall>l \<in> set (tl ?ls). x \<in> set l)" for x by auto
  then show "set (lookup_all g tokens) = {tid. \<forall>t \<in> set tokens. tid \<in> set (gin_lookup g t)}" unfolding e s by auto
qed

section \<open>Files\<close>

definition gin_fits :: "GinIndex \<Rightarrow> bool" where
  "gin_fits g \<longleftrightarrow> bt_wf (gin_entries g) \<and> length (gin_entries g) < 2 ^ 32 \<and>
     (\<forall>(k, l) \<in> set (gin_entries g). utf8_valid k \<and> length k < 2 ^ 32 \<and> length l < 2 ^ 32 \<and>
        (\<forall>t \<in> set l. tid_page_id t < 2 ^ 64 \<and> tid_slot_id t < 2 ^ 16))"

lemma yields_tid:
  assumes "tid_page_id t < 2 ^ 64" "tid_slot_id t < 2 ^ 16"
  shows "yields rd_tid (put_tid t) t"
  unfolding rd_tid_def put_tid_def
proof (rule yields_bind [OF yields_le])
  have "yields (rd_le 2) (to_le 2 (tid_slot_id t)) (tid_slot_id t)" by (rule yields_le) (use assms in simp)
  from yields_last [OF this, of "\<lambda>s. \<lparr>tid_page_id = tid_page_id t, tid_slot_id = s\<rparr>"]
  show "yields (rd_bind (rd_le 2) (\<lambda>s. rd_return \<lparr>tid_page_id = tid_page_id t, tid_slot_id = s\<rparr>)) (to_le 2 (tid_slot_id t)) t"
    by (cases t) simp
qed (use assms in simp)

lemma yields_posting:
  assumes "utf8_valid k" "length k < 2 ^ 32" "length l < 2 ^ 32" "\<forall>t \<in> set l. tid_page_id t < 2 ^ 64 \<and> tid_slot_id t < 2 ^ 16"
  shows "yields rd_posting (put_posting (k, l)) (k, l)"
proof -
  have "yields (rd_n (length l) rd_tid) (concat (map put_tid l)) l" by (rule yields_n) (use assms yields_tid in auto)
  from yields_last [OF this, of "Pair k"] show ?thesis
    unfolding rd_posting_def put_posting_def fst_conv snd_conv
    by (intro yields_bind [OF yields_le] yields_bind [OF yields_str]) (use assms in simp_all)
qed

lemma foldl_bt_insert: "bt_wf (m @ es) \<Longrightarrow> foldl (\<lambda>m (k, l). bt_insert k l m) m es = m @ es"
proof (induction es arbitrary: m)
  case (Cons e es)
  have "bt_insert (fst e) (snd e) m = m @ [e]" using bt_insert_last [of m "fst e" "snd e"] Cons.prems by (auto simp: sorted_wrt_append)
  then show ?case using Cons.IH [of "m @ [e]"] Cons.prems by (cases e) simp
qed simp

lemma gin_file_roundtrip:
  assumes g: "gin_fits g"
  shows "gin_from_bytes (gin_to_bytes g) = Inr g"
proof -
  let ?es = "gin_entries g"
  have "yields (rd_n (length ?es) rd_posting) (concat (map put_posting ?es)) ?es"
    by (rule yields_n) (use g yields_posting in \<open>auto simp: gin_fits_def\<close>)
  from yields_last [OF this, of "\<lambda>es. \<lparr>gin_entries = foldl (\<lambda>m (k, l). bt_insert k l m) [] es\<rparr>"]
  have "yields (rd_bind (rd_magic GIN_MAGIC) (\<lambda>_. rd_bind (rd_le 4) (\<lambda>n. rd_bind (rd_n n rd_posting) (\<lambda>es.
      rd_return \<lparr>gin_entries = foldl (\<lambda>m (k, l). bt_insert k l m) [] es\<rparr>))))
    ((GIN_MAGIC @ [1]) @ to_le 4 (length ?es) @ concat (map put_posting ?es)) \<lparr>gin_entries = foldl (\<lambda>m (k, l). bt_insert k l m) [] ?es\<rparr>"
    by (intro yields_bind [OF yields_magic] yields_bind [OF yields_le]) (use g in \<open>simp_all add: gin_fits_def\<close>)
  from yields_start [OF this] show ?thesis
    using foldl_bt_insert [of "[]" ?es] g by (simp add: gin_from_bytes_def gin_to_bytes_def gin_fits_def)
qed

section \<open>Tokens\<close>

lemma skip_n_decode:
  assumes "\<And>p x q. f p = Inr (x, q) \<Longrightarrow> h p = q" "decode_n c f pos = Inr (xs, q)"
  shows "skip_n c h pos = q"
  using assms(2)
proof (induction c arbitrary: pos xs)
  case (Suc c)
  then show ?case using assms(1) by (auto simp: rbind_Inr_iff)
qed simp

lemma skip_decode: "decode_val n bytes pos = Inr (v, q) \<Longrightarrow> skip_jsonb_value n bytes pos = q"
proof (induction n arbitrary: pos v q)
  case (Suc n)
  have pair: "skip_jsonb_value n bytes (skip_jsonb_value n bytes p) = q" if d: "decode_pair (decode_val n bytes) p = Inr (x, q)" for p x q
  proof -
    obtain key p1 where k: "decode_val n bytes p = Inr (key, p1)"
      "(case key of JStr s \<Rightarrow> rbind (decode_val n bytes p1) (\<lambda>(v, p2). Inr ((s, v), p2)) | _ \<Rightarrow> Inl Malformed) = Inr (x, q)"
      using d by (auto simp: decode_pair_def rbind_Inr_iff)
    then obtain v where "decode_val n bytes p1 = Inr (v, q)" by (cases key) (auto simp: rbind_Inr_iff)
    then show ?thesis using Suc.IH k(1) by blast
  qed
  show ?case
    using Suc.prems skip_n_decode [OF Suc.IH] skip_n_decode [OF pair]
    by (auto simp: Let_def rbind_Inr_iff split: if_splits)
qed simp

lemma keys_from_pairs:
  "pairs_ok ps \<Longrightarrow> bytes = pre @ encode_pairs ps @ rest \<Longrightarrow> keys_from (length ps) bytes (length pre) = map fst ps"
proof (induction ps arbitrary: pre)
  case (Cons p ps)
  obtain k v where p: "p = (k, v)" by (cases p)
  have ok: "str_ok k" "json_ok v" "pairs_ok ps" using Cons.prems p by simp_all
  have b: "bytes = pre @ (TAG_STRING # len32 (length k) @ k) @ encode_val v @ encode_pairs ps @ rest"
    using Cons.prems(2) p by (simp add: encode_str_def)
  note C = count_at [OF b]
  have s: "slice bytes (length pre + 1 + 4) (length k) = k"
    by (rule slice_at [where pre = "pre @ [TAG_STRING] @ len32 (length k)" and rest = "encode_val v @ encode_pairs ps @ rest"]) (simp_all add: b)
  let ?pre = "pre @ encode_str k"
  have "decode_val (length bytes) bytes (length ?pre) = Inr (v, length ?pre + length (encode_val v))"
    by (rule decode_encode(1) [OF ok(2), where rest = "encode_pairs ps @ rest"]) (simp_all add: b encode_str_def)
  from skip_decode [OF this]
  have "skip_jsonb_value (length bytes) bytes (length pre + 1 + 4 + length k) = length (?pre @ encode_val v)"
    by (simp add: encode_str_def algebra_simps)
  moreover have "keys_from (length ps) bytes (length (?pre @ encode_val v)) = map fst ps"
    by (rule Cons.IH [OF ok(3)]) (simp add: b encode_str_def)
  moreover have "\<not> length bytes < length pre + 1 + 4 + length k" by (simp add: b)
  ultimately show ?case using C s ok(1) by (simp add: p Let_def str_ok_def)
qed simp

lemma words_of_ok: "concat (words_of alnum lower s cur) = cur @ map lower (filter alnum s) \<and> [] \<notin> set (words_of alnum lower s cur)"
  by (induction alnum lower s cur rule: words_of.induct) auto

section \<open>Properties\<close>

datatype gin_op = Index TupleId "str list" | Unindex TupleId

fun gin_step :: "GinIndex \<Rightarrow> gin_op \<Rightarrow> GinIndex" where
  "gin_step g (Index tid tokens) = gin_insert g tid tokens"
| "gin_step g (Unindex tid) = gin_remove g tid"

fun rel_step :: "(TupleId \<times> str) set \<Rightarrow> gin_op \<Rightarrow> (TupleId \<times> str) set" where
  "rel_step R (Index tid tokens) = R \<union> {tid} \<times> set tokens"
| "rel_step R (Unindex tid) = {(t, s) \<in> R. t \<noteq> tid}"

definition gin_holds :: "GinIndex \<Rightarrow> (TupleId \<times> str) set \<Rightarrow> bool" where
  "gin_holds g R \<longleftrightarrow> gin_wf g \<and> (\<forall>t. set (gin_lookup g t) = {tid. (tid, t) \<in> R})"

lemma gin_step_holds: "gin_holds g R \<Longrightarrow> gin_holds (gin_step g op) (rel_step R op)"
proof (cases op)
  case (Index tid tokens)
  assume h: "gin_holds g R"
  then have w: "gin_wf g" by (simp add: gin_holds_def)
  show ?thesis
    using h gin_insert_lookup [OF w, of tid tokens] post_ok(2) [OF lookup_sorted [OF w]] by (auto simp: gin_holds_def Index)
next
  case (Unindex tid)
  assume h: "gin_holds g R"
  then have w: "gin_wf g" by (simp add: gin_holds_def)
  show ?thesis using h gin_remove_lookup [OF w, of tid] by (auto simp: gin_holds_def Unindex)
qed

lemma gin_run_holds: "gin_holds g R \<Longrightarrow> gin_holds (foldl gin_step g ops) (foldl rel_step R ops)"
  by (induction ops arbitrary: g R) (auto dest: gin_step_holds)

definition gin_run :: "gin_op list \<Rightarrow> GinIndex" where
  "gin_run ops = foldl gin_step gin_new ops"

definition rel_run :: "gin_op list \<Rightarrow> (TupleId \<times> str) set" where
  "rel_run ops = foldl rel_step {} ops"

text \<open>C30. The inverted index finds exactly the documents with the tokens asked for: after any sequence of
  insertions and removals the lookup of one or more tokens returns the tuples indexed under all of them and not
  removed since, each once and in the order of their ids.\<close>

theorem gin_finds_documents:
  assumes ts: "tokens \<noteq> []"
  shows "set (lookup_all (gin_run ops) tokens) = {tid. \<forall>t \<in> set tokens. (tid, t) \<in> rel_run ops} \<and>
    sorted_wrt tid_less (lookup_all (gin_run ops) tokens) \<and>
    set (gin_lookup (gin_run ops) t) = {tid. (tid, t) \<in> rel_run ops} \<and> sorted_wrt tid_less (gin_lookup (gin_run ops) t)"
proof -
  have "gin_holds gin_new {}" by (simp add: gin_holds_def gin_wf_def gin_new_def gin_lookup_def)
  then have "gin_holds (gin_run ops) (rel_run ops)" unfolding gin_run_def rel_run_def by (rule gin_run_holds)
  then show ?thesis using lookup_all_ok [OF _ ts] lookup_sorted by (auto simp: gin_holds_def)
qed

text \<open>C35. A JSON object is indexed under its keys: the tokens of its binary form are its keys in order, however
  its values nest, since skipping a value ends where decoding it ends.\<close>

theorem jsonb_tokens_are_keys:
  assumes ok: "json_ok (JObject ps)"
  shows "jsonb_tokens (encode_val (JObject ps)) = map fst ps"
proof -
  let ?b = "encode_val (JObject ps)"
  have b: "?b = [] @ (TAG_OBJECT # len32 (length ps) @ encode_pairs ps) @ []" by simp
  have n: "length ps < 2 ^ 32" "pairs_ok ps" using ok by simp_all
  have "keys_from (length ps) ?b (length (TAG_OBJECT # len32 (length ps))) = map fst ps"
    by (rule keys_from_pairs [OF n(2), where rest = "[]"]) simp
  then show ?thesis using count_at [OF b n(1)] by (simp add: jsonb_tokens_def)
qed

section \<open>Examples\<close>

definition ex_tuple :: "nat \<Rightarrow> TupleId" where
  "ex_tuple i = \<lparr>tid_page_id = 1, tid_slot_id = i\<rparr>"

theorem gin_finds_documents_witness:
  "set (lookup_all (gin_run [Index (ex_tuple 2) [[97], [98]], Index (ex_tuple 1) [[97]], Index (ex_tuple 3) [[98], [97]], Unindex (ex_tuple 2)])
     [[97], [98]]) = {ex_tuple 3}"
proof -
  let ?ops = "[Index (ex_tuple 2) [[97], [98]], Index (ex_tuple 1) [[97]], Index (ex_tuple 3) [[98], [97]], Unindex (ex_tuple 2)]"
  have "{tid. \<forall>t \<in> set [[97], [98 :: byte]]. (tid, t) \<in> rel_run ?ops} = {ex_tuple 3}"
    by (auto simp: rel_run_def ex_tuple_def)
  then show ?thesis using gin_finds_documents [of "[[97], [98]]" ?ops] by simp
qed

theorem jsonb_tokens_are_keys_witness:
  "jsonb_tokens (encode_val (JObject [([97], JArray [JInt 1, JObject [([99], JNull)]]), ([98], JBool True)])) = [[97], [98]]"
proof -
  have u: "utf8_valid [97]" "utf8_valid [98]" "utf8_valid [99]" by (simp_all add: utf8_valid_ascii)
  show ?thesis
    using jsonb_tokens_are_keys [of "[([97], JArray [JInt 1, JObject [([99], JNull)]]), ([98], JBool True)]"] u
    by (simp add: str_ok_def)
qed

end
