(* ===== verification/Ast.thy ===== *)
theory Ast
  imports Sql_Value
begin

text \<open>
  The syntax tree of SQL, from \<^verbatim>\<open>crates/sql/src/ast.rs\<close>; \<open>DataType\<close> is in \<open>Sql_Value\<close>. The types that refer to
  themselves are datatypes with the fields as selectors, the others records.
\<close>

section \<open>Expressions\<close>

datatype BinOp =
    OpAdd | OpSub | OpMul | OpDiv | OpMod
  | OpEq | OpNotEq | OpLt | OpGt | OpLtEq | OpGtEq
  | OpAnd | OpOr | OpLike | OpNotLike | OpConcat
  | OpJsonGet | OpJsonGetText | OpJsonContains | OpJsonKeyExists | OpJsonMerge | OpJsonPath | OpVectorDist

datatype UnOp = OpNeg | OpNot

datatype Expr =
    IntLit i64 | FloatLit f64 | StrLit str | BoolLit bool | NullLit
  | ColumnRef "str option" str
  | StarExpr
  | BinaryOp BinOp Expr Expr
  | UnaryOp UnOp Expr
  | IsNullExpr Expr | IsNotNullExpr Expr
  | BetweenExpr Expr Expr Expr
  | InList Expr "Expr list" | NotInList Expr "Expr list"
  | FunctionCall str "Expr list" bool
  | WindowFunc str "Expr list" "Expr list" "(Expr \<times> bool) list"
  | CastExpr Expr DataType

section \<open>Queries\<close>

datatype SelectColumn = StarColumn | ExprColumn Expr "str option"

datatype JoinKind = InnerJoin | LeftJoin | RightJoin | FullJoin | CrossJoin

datatype JoinCondition = OnCond Expr | UsingCond "str list"

datatype TableRef = TableRef (tr_name: str) (tr_alias: "str option") (tr_join: "JoinClause option")
  and JoinClause = JoinClause (jc_kind: JoinKind) (jc_right: TableRef) (jc_condition: JoinCondition)

record OrderByItem =
  ob_expr :: Expr
  ob_asc :: bool
  ob_nulls_first :: bool

datatype SelectStmt =
    SelectStmt (sel_with_clauses: "CteClause list") (sel_distinct: bool) (sel_columns: "SelectColumn list")
      (sel_from: "TableRef list") (sel_where: "Expr option") (sel_group_by: "Expr list") (sel_having: "Expr option")
      (sel_order_by: "OrderByItem list") (sel_limit: "Expr option") (sel_offset: "Expr option")
  and CteClause =
    CteClause (cte_name: str) (cte_recursive: bool) (cte_query: SelectStmt) (cte_union_body: "UnionStmt option")
  and UnionStmt =
    UnionStmt (un_left: SelectStmt) (un_all: bool) (un_right: SelectStmt)

section \<open>Other statements\<close>

datatype InsertSource = InsertValues "Expr list list" | InsertSelect SelectStmt

record InsertStmt =
  ins_table :: str
  ins_columns :: "str list"
  ins_source :: InsertSource

record UpdateStmt =
  upd_table :: str
  upd_alias :: "str option"
  upd_assignments :: "(str \<times> Expr) list"
  upd_where :: "Expr option"

record DeleteStmt =
  del_table :: str
  del_alias :: "str option"
  del_where :: "Expr option"

record ColumnDef =
  cd_name :: str
  cd_data_type :: DataType
  cd_nullable :: bool
  cd_default :: "Expr option"
  cd_primary_key :: bool
  cd_unique :: bool

datatype TableConstraint = PrimaryKeyConstraint "str list" | UniqueConstraint "str list" | CheckConstraint Expr

datatype StorageLayout = RowLayout | ColumnarLayout

record CreateTableStmt =
  ct_table :: str
  ct_if_not_exists :: bool
  ct_columns :: "ColumnDef list"
  ct_constraints :: "TableConstraint list"
  ct_storage :: StorageLayout

record DropTableStmt =
  dt_table :: str
  dt_if_exists :: bool

datatype Statement =
    SelectSt SelectStmt | InsertSt InsertStmt | UpdateSt UpdateStmt | DeleteSt DeleteStmt
  | CreateTableSt CreateTableStmt | DropTableSt DropTableStmt
  | BeginSt | CommitSt | RollbackSt
  | ExplainSt Statement | AnalyzeSt str
  | CreateVectorIndexSt str str | CreateGinIndexSt str str
  | VacuumSt str | SetVarSt str str | ShowVarSt str

end
