(* ===== verification/Rust_Float.thy ===== *)
theory Rust_Float
  imports Rust_Num
begin

text \<open>
  Arithmetic of \<^verbatim>\<open>f64\<close> as the SQL executor uses it: IEEE 754 double precision with rounding to nearest, ties to
  even. A finite double is a whole number of units of \<open>2 ^ -1074\<close>, so that sums, products and quotients are exact
  on integers and rounded once by \<open>f64_of_ratio\<close>. Rust leaves the bits of a NaN open; here every operation
  returns the same one. The theory also has the division of \<^verbatim>\<open>i64\<close>, which truncates towards zero.
\<close>

section \<open>Integers\<close>

definition i64_div :: "i64 \<Rightarrow> i64 \<Rightarrow> i64 option" where
  \<comment> \<open>\<open>None\<close> is the panic on overflow and on division by zero\<close>
  "i64_div a b =
     (if b = 0 \<or> sint a = - (2 ^ 63) \<and> sint b = - 1 then None
      else Some (of_int (sgn (sint a) * sgn (sint b) * (\<bar>sint a\<bar> div \<bar>sint b\<bar>))))"

definition i64_rem :: "i64 \<Rightarrow> i64 \<Rightarrow> i64 option" where
  "i64_rem a b =
     (if b = 0 \<or> sint a = - (2 ^ 63) \<and> sint b = - 1 then None
      else Some (of_int (sgn (sint a) * (\<bar>sint a\<bar> mod \<bar>sint b\<bar>))))"

section \<open>Doubles\<close>

abbreviation (input) F64_NAN :: f64 where "F64_NAN \<equiv> 0x7FF8000000000000"

definition f64_sign :: "f64 \<Rightarrow> bool" where
  "f64_sign x \<longleftrightarrow> 2 ^ 63 \<le> unat x"

definition f64_inf :: "f64 \<Rightarrow> bool" where
  "f64_inf x \<longleftrightarrow> unat x mod 2 ^ 63 = 2047 * 2 ^ 52"

definition f64_zero :: "f64 \<Rightarrow> bool" where
  "f64_zero x \<longleftrightarrow> unat x mod 2 ^ 63 = 0"

definition f64_units :: "f64 \<Rightarrow> nat" where
  \<comment> \<open>the magnitude of a finite number in units of \<open>2 ^ -1074\<close>\<close>
  "f64_units x =
     (let m = unat x mod 2 ^ 63; e = m div 2 ^ 52; f = m mod 2 ^ 52
      in if e = 0 then f else (2 ^ 52 + f) * 2 ^ (e - 1))"

definition with_sign :: "bool \<Rightarrow> f64 \<Rightarrow> f64" where
  "with_sign neg x = (if neg then 2 ^ 63 + x else x)"

abbreviation (input) F64_INFINITY :: f64 where "F64_INFINITY \<equiv> 0x7FF0000000000000"

definition f64_neg :: "f64 \<Rightarrow> f64" where
  "f64_neg x = x XOR push_bit 63 1"

definition f64_signed :: "f64 \<Rightarrow> int" where
  "f64_signed x = (if f64_sign x then - int (f64_units x) else int (f64_units x))"

definition f64_add :: "f64 \<Rightarrow> f64 \<Rightarrow> f64" where
  "f64_add x y =
     (if f64_nan x \<or> f64_nan y \<or> f64_inf x \<and> f64_inf y \<and> f64_sign x \<noteq> f64_sign y then F64_NAN
      else if f64_inf x then x
      else if f64_inf y then y
      else let s = f64_signed x + f64_signed y
           in if s = 0 then with_sign (f64_sign x \<and> f64_sign y) 0
              else with_sign (s < 0) (f64_of_ratio (nat \<bar>s\<bar>) (2 ^ 1074)))"

definition f64_sub :: "f64 \<Rightarrow> f64 \<Rightarrow> f64" where
  "f64_sub x y = (if f64_nan y then F64_NAN else f64_add x (f64_neg y))"

definition f64_mul :: "f64 \<Rightarrow> f64 \<Rightarrow> f64" where
  "f64_mul x y =
     (if f64_nan x \<or> f64_nan y \<or> f64_inf x \<and> f64_zero y \<or> f64_zero x \<and> f64_inf y then F64_NAN
      else with_sign (f64_sign x \<noteq> f64_sign y)
        (if f64_inf x \<or> f64_inf y then F64_INFINITY else f64_of_ratio (f64_units x * f64_units y) (2 ^ 2148)))"

definition f64_div :: "f64 \<Rightarrow> f64 \<Rightarrow> f64" where
  "f64_div x y =
     (if f64_nan x \<or> f64_nan y \<or> f64_inf x \<and> f64_inf y \<or> f64_zero x \<and> f64_zero y then F64_NAN
      else with_sign (f64_sign x \<noteq> f64_sign y)
        (if f64_inf x \<or> f64_zero y then F64_INFINITY
         else if f64_inf y then 0
         else f64_of_ratio (f64_units x) (f64_units y)))"

definition f64_rem :: "f64 \<Rightarrow> f64 \<Rightarrow> f64" where
  "f64_rem x y =
     (if f64_nan x \<or> f64_nan y \<or> f64_inf x \<or> f64_zero y then F64_NAN
      else if f64_inf y then x
      else with_sign (f64_sign x) (f64_of_ratio (f64_units x mod f64_units y) (2 ^ 1074)))"

function nat_sqrt :: "nat \<Rightarrow> nat" where
  "nat_sqrt n =
     (if n = 0 then 0
      else let r = 2 * nat_sqrt (n div 4) in if (r + 1) * (r + 1) \<le> n then r + 1 else r)"
  by pat_completeness auto
termination
  by (relation "measure id") auto

declare nat_sqrt.simps [simp del]

definition f64_sqrt :: "f64 \<Rightarrow> f64" where
  \<comment> \<open>the root of the units scaled by \<open>4 ^ 60\<close>, with a last bit that tells whether it is exact\<close>
  "f64_sqrt x =
     (if f64_nan x then F64_NAN
      else if f64_zero x then x
      else if f64_sign x then F64_NAN
      else if f64_inf x then x
      else let n = f64_units x * 4 ^ 60; s = nat_sqrt n
           in f64_of_ratio (2 * s + (if s * s = n then 0 else 1)) (2 ^ 598))"

definition f64_sum :: "f64 list \<Rightarrow> f64" where
  \<comment> \<open>\<^verbatim>\<open>Iterator::sum\<close> starts at negative zero\<close>
  "f64_sum = foldl f64_add (push_bit 63 1)"

section \<open>Laws\<close>

lemma f64_neg_neg [simp]: "f64_neg (f64_neg x) = x"
  by (rule bit_eqI) (auto simp: f64_neg_def bit_xor_iff)

lemma nat_sqrt_ok: "nat_sqrt n * nat_sqrt n \<le> n \<and> n < (nat_sqrt n + 1) * (nat_sqrt n + 1)"
proof (induction n rule: nat_sqrt.induct)
  case (1 n)
  show ?case
  proof (cases "n = 0")
    case False
    let ?q = "nat_sqrt (n div 4)"
    have q: "?q * ?q \<le> n div 4" "n div 4 < (?q + 1) * (?q + 1)" using 1 [OF False] by simp_all
    have "4 * (?q * ?q) \<le> n" using q(1) by linarith
    moreover have "n < 4 * ((?q + 1) * (?q + 1))" using q(2) by linarith
    ultimately show ?thesis using False nat_sqrt.simps [of n] by (auto simp: Let_def algebra_simps)
  qed (simp add: nat_sqrt.simps)
qed

lemma i64_div_rem: "i64_div a b = Some q \<Longrightarrow> i64_rem a b = Some r \<Longrightarrow> a = q * b + r"
proof -
  assume d: "i64_div a b = Some q" "i64_rem a b = Some r"
  let ?a = "sint a" and ?b = "sint b"
  have "of_int ?b * of_int (sgn ?a * sgn ?b * (\<bar>?a\<bar> div \<bar>?b\<bar>)) + of_int (sgn ?a * (\<bar>?a\<bar> mod \<bar>?b\<bar>)) =
      (of_int (sgn ?a * (\<bar>?b\<bar> * (\<bar>?a\<bar> div \<bar>?b\<bar>) + \<bar>?a\<bar> mod \<bar>?b\<bar>)) :: i64)"
    by (simp only: of_int_mult [symmetric] of_int_add [symmetric]) (simp add: algebra_simps abs_sgn)
  also have "sgn ?a * (\<bar>?b\<bar> * (\<bar>?a\<bar> div \<bar>?b\<bar>) + \<bar>?a\<bar> mod \<bar>?b\<bar>) = ?a"
    by (simp only: mult_div_mod_eq) (simp add: sgn_mult_abs)
  also have "of_int ?a = a" by simp
  finally show "a = q * b + r" using d by (auto simp: i64_div_def i64_rem_def mult.commute split: if_splits)
qed

end
