(* ===== verification/Sql_Json.thy ===== *)
theory Sql_Json
  imports Sql_Value Json_Text Rust_Float
begin

text \<open>
  JSON text and vectors in SQL expressions, from the helpers of \<^verbatim>\<open>crates/sql/src/executor.rs\<close>: the operators \<open>->\<close>,
  \<open>->>\<close>, \<open>#>\<close> and \<open>||\<close> cut the text of a JSON value at its commas without parsing it, and \<open><->\<close> is the distance of
  two vectors. All characters the code looks for are ASCII, so it is modelled on bytes.
\<close>

section \<open>Cutting JSON text\<close>

fun split_loop :: "byte option \<Rightarrow> int \<Rightarrow> bool \<Rightarrow> str \<Rightarrow> str \<Rightarrow> str list \<times> str" where
  \<comment> \<open>the loop of \<^verbatim>\<open>split_json_pairs\<close> and \<^verbatim>\<open>split_json_array\<close>: the previous byte, the depth, the mark for strings, and
    the text since the last comma; the pieces in front of commas and the last one\<close>
  "split_loop prev depth in_str cur [] = ([], cur)"
| "split_loop prev depth in_str cur (c # cs) =
     (if c = chr CHR 0x22 \<and> prev \<noteq> Some (chr CHR 0x5C) then split_loop (Some c) depth (\<not> in_str) (cur @ [c]) cs
      else if in_str then split_loop (Some c) depth in_str (cur @ [c]) cs
      else if c = chr CHR ''{'' \<or> c = chr CHR ''['' then split_loop (Some c) (depth + 1) in_str (cur @ [c]) cs
      else if c = chr CHR ''}'' \<or> c = chr CHR '']'' then split_loop (Some c) (depth - 1) in_str (cur @ [c]) cs
      else if c = chr CHR '','' \<and> depth = 0
        then let (pieces, last_piece) = split_loop (Some c) depth in_str [] cs in (cur # pieces, last_piece)
      else split_loop (Some c) depth in_str (cur @ [c]) cs)"

fun find_colon_from :: "bool \<Rightarrow> nat \<Rightarrow> str \<Rightarrow> nat option" where
  "find_colon_from in_str i [] = None"
| "find_colon_from in_str i (c # cs) =
     (if c = chr CHR 0x22 then find_colon_from (\<not> in_str) (i + 1) cs
      else if \<not> in_str \<and> c = chr CHR '':'' then Some i
      else find_colon_from in_str (i + 1) cs)"

definition find_colon :: "str \<Rightarrow> nat option" where
  "find_colon s = find_colon_from False 0 s"

definition cut_pair :: "str \<Rightarrow> (str \<times> str) list" where
  "cut_pair pair = (case find_colon pair of None \<Rightarrow> [] | Some colon \<Rightarrow> [(take colon pair, drop (colon + 1) pair)])"

definition split_json_pairs :: "str \<Rightarrow> (str \<times> str) list" where
  "split_json_pairs s =
     (let (pieces, last_piece) = split_loop None 0 False [] s
      in concat (map cut_pair pieces) @ (if str_trim last_piece = [] then [] else cut_pair last_piece))"

definition split_json_array :: "str \<Rightarrow> str list" where
  "split_json_array s =
     (let (pieces, last_piece) = split_loop None 0 False [] s; l = str_trim last_piece
      in pieces @ (if l = [] then [] else [l]))"

definition strip_outer :: "str \<Rightarrow> SqlError + str" where
  \<comment> \<open>\<^verbatim>\<open>&s[1..s.len()-1]\<close> after a one-byte character: the slice panics when there is nothing else or when the last
    character is longer\<close>
  "strip_outer s = (if length s < 2 \<or> utf8_cont (last s) then Inl SqlPanic else Inr (butlast (tl s)))"

section \<open>The operators\<close>

definition json_get_idx :: "str \<Rightarrow> nat \<Rightarrow> SqlError + str" where
  "json_get_idx json_str idx =
     (let s = str_trim json_str
      in if \<not> starts_with [chr CHR ''[''] s then Inl Execution
         else rbind (strip_outer s) (\<lambda>inner.
           let elements = split_json_array inner
           in if idx < length elements then Inr (str_trim (elements ! idx)) else Inl Execution))"

definition clean_key :: "str \<Rightarrow> str" where
  "clean_key k = trim_matches (chr CHR 0x22) (str_trim k)"

definition json_get :: "str \<Rightarrow> str \<Rightarrow> SqlError + str" where
  "json_get json_str key =
     (let s = str_trim json_str
      in if starts_with [chr CHR ''{''] s then
           rbind (strip_outer s) (\<lambda>inner.
             case find (\<lambda>(k, v). clean_key k = key) (split_json_pairs inner) of
               Some (k, v) \<Rightarrow> Inr (str_trim v)
             | None \<Rightarrow> Inl Execution)
         else if starts_with [chr CHR ''[''] s then
           (case parse_usize key of Some idx \<Rightarrow> json_get_idx s idx | None \<Rightarrow> Inl Execution)
         else Inl Execution)"

definition unquote :: "str \<Rightarrow> str" where
  \<comment> \<open>the closure of \<open>->>\<close>\<close>
  "unquote v =
     (let stripped = str_trim v
      in if starts_with [chr CHR 0x22] stripped \<and> ends_with [chr CHR 0x22] stripped \<and> 2 \<le> length stripped
         then butlast (tl stripped) else v)"

definition merge_pair :: "str list \<times> (str, str) hmap \<Rightarrow> str \<times> str \<Rightarrow> str list \<times> (str, str) hmap" where
  "merge_pair kv p =
     (let k = clean_key (fst p); keys = fst kv
      in (if k \<in> set keys then keys else keys @ [k], hm_insert k (str_trim (snd p)) (snd kv)))"

definition json_merge :: "str \<Rightarrow> str \<Rightarrow> SqlError + str" where
  "json_merge a b =
     (let a_str = str_trim a; b_str = str_trim b
      in if \<not> starts_with [chr CHR ''{''] a_str \<or> \<not> starts_with [chr CHR ''{''] b_str then Inl Execution
         else rbind (strip_outer a_str) (\<lambda>a1. rbind (strip_outer b_str) (\<lambda>b1.
           let (keys, vals) = foldl merge_pair ([], []) (split_json_pairs a1 @ split_json_pairs b1)
           in Inr (chr CHR ''{'' # str_join [chr CHR '','']
                (map (\<lambda>k. chr CHR 0x22 # k @ [chr CHR 0x22, chr CHR '':''] @ (case hm_get vals k of None \<Rightarrow> [] | Some v \<Rightarrow> v)) keys) @
                [chr CHR ''}'']))))"

definition parse_json_path :: "str \<Rightarrow> str list" where
  "parse_json_path path_str =
     (let s = str_trim path_str;
          inner = (if starts_with [chr CHR ''{''] s \<and> ends_with [chr CHR ''}''] s \<or>
                      starts_with [chr CHR ''[''] s \<and> ends_with [chr CHR '']''] s
                   then butlast (tl s) else s)
      in filter (\<lambda>p. p \<noteq> []) (map clean_key (str_split (chr CHR '','') inner)))"

fun follow_path :: "str \<Rightarrow> str list \<Rightarrow> SqlError + str option" where
  \<comment> \<open>the loop of \<open>#>\<close>; \<open>None\<close> is the early return of NULL\<close>
  "follow_path current [] = Inr (Some current)"
| "follow_path current (segment # path) =
     (case json_get current segment of
        Inr v \<Rightarrow> follow_path v path
      | Inl SqlPanic \<Rightarrow> Inl SqlPanic
      | Inl _ \<Rightarrow> Inr None)"

section \<open>Vectors\<close>

definition parse_f64_word :: "str \<Rightarrow> f64 option" where
  \<comment> \<open>\<^verbatim>\<open>str::parse::<f64>\<close> with the words for infinity and NaN\<close>
  "parse_f64_word s =
     (let (minus, r) = split_sign s; w = map ascii_lower r
      in if w \<in> {bytes_of ''inf'', bytes_of ''infinity''} then Some (with_sign minus F64_INFINITY)
         else if w = bytes_of ''nan'' then Some (with_sign minus F64_NAN)
         else parse_f64 s)"

fun collect_floats :: "str list \<Rightarrow> SqlError + f64 list" where
  "collect_floats [] = Inr []"
| "collect_floats (x # xs) =
     (case parse_f64_word (str_trim x) of
        None \<Rightarrow> Inl Execution
      | Some f \<Rightarrow> rbind (collect_floats xs) (\<lambda>fs. Inr (f # fs)))"

definition parse_vector_str :: "str \<Rightarrow> SqlError + f64 list" where
  "parse_vector_str s0 =
     (let s = str_trim s0
      in if \<not> starts_with [chr CHR ''[''] s \<or> \<not> ends_with [chr CHR '']''] s then Inl Execution
         else let inner = butlast (tl s)
              in if str_trim inner = [] then Inr [] else collect_floats (str_split (chr CHR '','') inner))"

definition parse_vector_val :: "Value \<Rightarrow> SqlError + f64 list" where
  "parse_vector_val v = (case v of VText s \<Rightarrow> parse_vector_str s | _ \<Rightarrow> Inl Execution)"

definition l2_distance :: "f64 list \<Rightarrow> f64 list \<Rightarrow> SqlError + f64" where
  "l2_distance a b =
     (if length a \<noteq> length b then Inl Execution
      else Inr (f64_sqrt (f64_sum (map2 (\<lambda>x y. let d = f64_sub x y in f64_mul d d) a b))))"

end
