(* ===== verification/Shortest_Path.thy ===== *)
theory Shortest_Path
  imports Rust_Num
begin

text \<open>
  The breadth-first search of the SQL function \<^verbatim>\<open>OIGRAP_SHORTEST_PATH\<close>, from \<open>eval_function\<close> in
  \<^verbatim>\<open>crates/sql/src/executor.rs\<close>. Nodes are of any type and distances of any type with an increment; the executor
  uses \<^verbatim>\<open>i64\<close> for both. The set of visited nodes is a list of them.
\<close>

section \<open>The search\<close>

fun expand :: "('n \<times> 'n) list \<Rightarrow> 'n \<Rightarrow> 'd \<Rightarrow> 'n \<Rightarrow> 'n list \<Rightarrow> ('n \<times> 'd) list \<Rightarrow> 'd :: {plus, one} + 'n list \<times> ('n \<times> 'd) list" where
  \<comment> \<open>the loop over the edges for one node: the distance of the target, or the visited nodes and the queue\<close>
  "expand [] node dist target vis q = Inr (vis, q)"
| "expand ((from, to) # es) node dist target vis q =
     (if from \<noteq> node then expand es node dist target vis q
      else if to = target then Inl (dist + 1)
      else if to \<in> set vis then expand es node dist target vis q
      else expand es node dist target (to # vis) (q @ [(to, dist + 1)]))"

definition unvisited :: "('n \<times> 'n) list \<Rightarrow> 'n list \<Rightarrow> nat" where
  "unvisited edges vis = card (snd ` set edges - set vis)"

lemma expand_measure:
  "expand es node dist target vis q = Inr (vis', q') \<Longrightarrow> set es \<subseteq> set edges \<Longrightarrow>
     2 * unvisited edges vis' + length q' \<le> 2 * unvisited edges vis + length q"
proof (induction es node dist target vis q rule: expand.induct)
  case (2 f t es node dist target vis q)
  have "unvisited edges (t # vis) + 1 = unvisited edges vis" if "t \<notin> set vis"
  proof -
    have eq: "snd ` set edges - set vis = insert t (snd ` set edges - set (t # vis))" using 2(5) that by force
    show ?thesis unfolding unvisited_def eq by (subst card_insert_disjoint) auto
  qed
  then show ?case using 2 by (fastforce split: if_splits)
qed simp

function bfs :: "('n \<times> 'n) list \<Rightarrow> 'n \<Rightarrow> 'n list \<Rightarrow> ('n \<times> 'd :: {plus, one}) list \<Rightarrow> 'd option" where
  "bfs edges target vis [] = None"
| "bfs edges target vis ((node, dist) # q) =
     (case expand edges node dist target vis q of
        Inl d \<Rightarrow> Some d
      | Inr (vis', q') \<Rightarrow> bfs edges target vis' q')"
  by pat_completeness auto
termination
  by (relation "measure (\<lambda>(edges, target, vis, q). 2 * unvisited edges vis + length q)")
     (auto dest!: expand_measure [OF _ subset_refl] simp: less_Suc_eq_le)

definition shortest_path :: "('n \<times> 'n) list \<Rightarrow> 'n \<Rightarrow> 'n \<Rightarrow> 'd :: {plus, one, zero} option" where
  "shortest_path edges source target =
     (if source = target then Some 0 else bfs edges target [source] [(source, 0)])"

section \<open>It finds the shortest path\<close>

definition at_dist :: "('n \<times> 'n) set \<Rightarrow> 'n \<Rightarrow> 'n \<Rightarrow> nat \<Rightarrow> bool" where
  "at_dist E s v n \<longleftrightarrow> (s, v) \<in> E ^^ n \<and> (\<forall>m < n. (s, v) \<notin> E ^^ m)"

lemma at_dist_exists: "(s, v) \<in> E ^^ m \<Longrightarrow> \<exists>n \<le> m. at_dist E s v n"
  using LeastI [of "\<lambda>k. (s, v) \<in> E ^^ k" m] not_less_Least [of _ "\<lambda>k. (s, v) \<in> E ^^ k"] Least_le [of "\<lambda>k. (s, v) \<in> E ^^ k" m]
  by (intro exI [of _ "LEAST k. (s, v) \<in> E ^^ k"]) (auto simp: at_dist_def)

lemma at_dist_Suc: "at_dist E s v (Suc n) \<Longrightarrow> \<exists>u. at_dist E s u n \<and> (u, v) \<in> E"
proof -
  assume v: "at_dist E s v (Suc n)"
  then obtain u where u: "(s, u) \<in> E ^^ n" "(u, v) \<in> E" by (auto simp: at_dist_def elim: relpow_Suc_E)
  have "(s, u) \<notin> E ^^ m" if "m < n" for m
    using v u(2) that relpow_Suc_I [of s u m E v] by (auto simp: at_dist_def)
  with u show ?thesis by (auto simp: at_dist_def)
qed

lemma at_dist_unique: "at_dist E s v m \<Longrightarrow> at_dist E s v n \<Longrightarrow> m = n"
  unfolding at_dist_def by (metis linorder_neqE_nat)

lemma at_dist_Least: "at_dist E s v n \<Longrightarrow> (LEAST m. (s, v) \<in> E ^^ m) = n"
  unfolding at_dist_def by (intro Least_equality) (auto simp: not_less [symmetric])

lemma expand_found: "expand es u n t vis q = Inl d \<Longrightarrow> d = n + 1 \<and> (u, t) \<in> set es"
  by (induction es u n t vis q rule: expand.induct) (auto split: if_splits)

lemma expand_went_on:
  "expand es u n t vis q = Inr (vis', q') \<Longrightarrow>
     \<exists>B. q' = q @ map (\<lambda>v. (v, n + 1)) B \<and> set vis' = set vis \<union> set B \<and> set B = {w. (u, w) \<in> set es} - set vis \<and> (u, t) \<notin> set es"
proof (induction es u n t vis q rule: expand.induct)
  case (2 f w es u n t vis q)
  show ?case
  proof (cases "f = u \<and> w \<noteq> t \<and> w \<notin> set vis")
    case True
    then obtain B where "q' = (q @ [(w, n + 1)]) @ map (\<lambda>v. (v, n + 1)) B" "set vis' = set (w # vis) \<union> set B"
      "set B = {x. (u, x) \<in> set es} - set (w # vis)" "(u, t) \<notin> set es"
      using 2(3) 2(4) by auto
    then show ?thesis using True by (intro exI [of _ "w # B"]) auto
  next
    case False
    then have e: "expand es u n t vis q = Inr (vis', q')" "f \<noteq> u \<or> w \<in> set vis" "f \<noteq> u \<or> w \<noteq> t" using 2(4) by (auto split: if_splits)
    then have "\<exists>B. q' = q @ map (\<lambda>v. (v, n + 1)) B \<and> set vis' = set vis \<union> set B \<and> set B = {w. (u, w) \<in> set es} - set vis \<and>
        (u, t) \<notin> set es"
      using 2(1,2) False by (cases "f = u") auto
    then show ?thesis using e(2,3) by auto
  qed
qed auto

text \<open>The queue holds nodes of one distance and then of the next; every node up to the first of them was visited,
  and the successors of the nodes that left the queue.\<close>

definition bfs_inv :: "('n \<times> 'n) set \<Rightarrow> 'n \<Rightarrow> 'n \<Rightarrow> 'n set \<Rightarrow> nat \<Rightarrow> 'n list \<Rightarrow> 'n list \<Rightarrow> bool" where
  "bfs_inv E s t V n A B \<longleftrightarrow>
     (\<forall>v \<in> set A. at_dist E s v n) \<and> (\<forall>v \<in> set B. at_dist E s v (Suc n)) \<and>
     s \<in> V \<and> t \<notin> V \<and> set A \<union> set B \<subseteq> V \<and> (\<forall>v. \<forall>m \<le> n. at_dist E s v m \<longrightarrow> v \<in> V) \<and>
     (\<forall>u \<in> V - (set A \<union> set B). \<forall>w. (u, w) \<in> E \<longrightarrow> w \<in> V)"

lemma bfs_inv_shift: "bfs_inv E s t V n [] B \<Longrightarrow> bfs_inv E s t V (Suc n) B []"
proof -
  assume i: "bfs_inv E s t V n [] B"
  have "v \<in> V" if v: "at_dist E s v (Suc n)" for v
  proof -
    obtain u where u: "at_dist E s u n" "(u, v) \<in> E" using at_dist_Suc [OF v] by blast
    have "u \<in> V" using i u(1) unfolding bfs_inv_def by blast
    moreover have "u \<notin> set B" using i at_dist_unique [OF u(1), of "Suc n"] unfolding bfs_inv_def by auto
    ultimately show ?thesis using i u(2) by (auto simp: bfs_inv_def)
  qed
  then show ?thesis using i unfolding bfs_inv_def le_Suc_eq by simp
qed

lemma bfs_inv_far:
  assumes i: "bfs_inv E s t V n A B" and v: "v \<notin> V" "at_dist E s u n" "(u, v) \<in> E"
  shows "at_dist E s v (Suc n)"
proof -
  have "(s, v) \<in> E ^^ Suc n" using v(2,3) relpow_Suc_I [of s u n E v] by (simp add: at_dist_def)
  from at_dist_exists [OF this] obtain m where m: "m \<le> Suc n" "at_dist E s v m" by (elim exE conjE)
  have "\<not> m \<le> n" using i v(1) m(2) unfolding bfs_inv_def by blast
  with m show ?thesis by (simp add: le_Suc_eq)
qed

lemma bfs_inv_step:
  assumes i: "bfs_inv E s t V n (u # A) B" and B': "set B' = {w. (u, w) \<in> E} - V" and t: "(u, t) \<notin> E"
  shows "bfs_inv E s t (V \<union> set B') n A (B @ B')"
proof -
  have u: "at_dist E s u n" using i by (simp add: bfs_inv_def)
  have "at_dist E s w (Suc n)" if "w \<in> set B'" for w using bfs_inv_far [OF i _ u, of w] that B' by auto
  moreover have cl: "w \<in> V" if "x \<in> V - (set (u # A) \<union> set B)" "(x, w) \<in> E" for x w
    using i that unfolding bfs_inv_def by blast
  then have "w \<in> V \<union> set B'" if "x \<in> V \<union> set B' - (set A \<union> set (B @ B'))" "(x, w) \<in> E" for x w
    using B' that by (cases "x = u") auto
  moreover have "t \<notin> V \<union> set B'" "s \<in> V" "set (u # A) \<union> set B \<subseteq> V" "\<forall>v \<in> set A. at_dist E s v n"
    "\<forall>v \<in> set B. at_dist E s v (Suc n)" "\<forall>v. \<forall>m \<le> n. at_dist E s v m \<longrightarrow> v \<in> V"
    using i B' t unfolding bfs_inv_def by simp_all
  ultimately show ?thesis unfolding bfs_inv_def by simp blast
qed

lemma bfs_closed:
  assumes "bfs_inv E s t V n [] []"
  shows "(s, t) \<notin> E\<^sup>*"
proof
  assume "(s, t) \<in> E\<^sup>*"
  then have "t \<in> V" using assms by induction (auto simp: bfs_inv_def)
  with assms show False by (simp add: bfs_inv_def)
qed

lemma bfs_target: "bfs_inv E s t V n (u # A) B \<Longrightarrow> (u, t) \<in> E \<Longrightarrow> at_dist E s t (Suc n)"
  by (rule bfs_inv_far [of E s t V n "u # A" B t u]) (simp_all add: bfs_inv_def)

abbreviation (input) levels :: "nat \<Rightarrow> 'n list \<Rightarrow> 'n list \<Rightarrow> ('n \<times> nat) list" where
  "levels n A B \<equiv> map (\<lambda>v. (v, n)) A @ map (\<lambda>v. (v, Suc n)) B"

definition distance :: "('n \<times> 'n) set \<Rightarrow> 'n \<Rightarrow> 'n \<Rightarrow> nat option" where
  "distance E s t = (if (s, t) \<in> E\<^sup>* then Some (LEAST n. (s, t) \<in> E ^^ n) else None)"

lemma distance_at: "at_dist E s t n \<Longrightarrow> distance E s t = Some n"
  by (auto simp: distance_def at_dist_Least at_dist_def dest: relpow_imp_rtrancl)

lemma bfs_finds:
  "q = levels n A B \<Longrightarrow> bfs_inv (set edges) s t (set vis) n A B \<Longrightarrow> bfs edges t vis q = distance (set edges) s t"
proof (induction edges t vis q arbitrary: n A B rule: bfs.induct)
  case (1 edges t vis)
  then show ?case using bfs_closed by (fastforce simp: distance_def)
next
  case (2 edges t vis u d q)
  obtain n' A' B' where i: "q = levels n' A' B'" "d = n'" "bfs_inv (set edges) s t (set vis) n' (u # A') B'"
  proof (cases A)
    case Nil
    then have "(u, d) # q = levels (Suc n) B []" "bfs_inv (set edges) s t (set vis) (Suc n) B []"
      using 2(2,3) bfs_inv_shift by auto
    then show ?thesis by (cases B) (auto intro!: that [of "Suc n" _ "[]"])
  next
    case (Cons a A2)
    then show ?thesis using 2(2,3) by (auto intro!: that)
  qed
  show ?case
  proof (cases "expand edges u d t vis q")
    case (Inl d')
    then show ?thesis using expand_found [OF Inl] bfs_target [OF i(3)] distance_at i(2) by fastforce
  next
    case (Inr r)
    then obtain vis' q' where r: "expand edges u d t vis q = Inr (vis', q')" by (cases r) auto
    obtain C where C: "q' = q @ map (\<lambda>v. (v, d + 1)) C" "set vis' = set vis \<union> set C" "set C = {w. (u, w) \<in> set edges} - set vis"
      "(u, t) \<notin> set edges" using expand_went_on [OF r] by blast
    have "q' = levels n' A' (B' @ C)" using C(1) i(1,2) by simp
    moreover have "bfs_inv (set edges) s t (set vis') n' A' (B' @ C)" using bfs_inv_step [OF i(3) C(3,4)] C(2) by simp
    ultimately have "bfs edges t vis' q' = distance (set edges) s t" by (rule 2(1) [OF r refl])
    then show ?thesis using r by simp
  qed
qed

text \<open>Distances of another type are the natural ones read in it.\<close>

lemma expand_of_nat:
  "expand es u (of_nat n) t vis (map (apsnd of_nat) q) =
     map_sum of_nat (apsnd (map (apsnd of_nat))) (expand es u n t vis q)"
  for n :: nat and q :: "('n \<times> nat) list"
proof (induction es u n t vis q rule: expand.induct)
  case (2 f w es u n t vis q)
  then show ?case by (auto simp: add.commute)
qed simp

lemma bfs_of_nat: "bfs edges t vis (map (apsnd of_nat) q) = map_option of_nat (bfs edges t vis q)"
  for q :: "('n \<times> nat) list"
proof (induction edges t vis q rule: bfs.induct)
  case (2 edges t vis u d q)
  then show ?case by (auto simp: expand_of_nat split: sum.splits)
qed simp

text \<open>C20. The function for shortest paths returns the least number of edges on a path from the source to the target,
  and nothing exactly when no path leads there; it returns on every graph.\<close>

theorem shortest_path_correct:
  "(shortest_path edges s t :: i64 option) =
     (if (s, t) \<in> (set edges)\<^sup>* then Some (of_nat (LEAST n. (s, t) \<in> set edges ^^ n)) else None)"
proof (cases "s = t")
  case True
  have "(LEAST n. (t, t) \<in> set edges ^^ n) = 0" by (rule Least_equality) auto
  then show ?thesis using True by (simp add: shortest_path_def)
next
  case False
  have "bfs_inv (set edges) s t (set [s]) 0 [s] []" using False by (auto simp: bfs_inv_def at_dist_def)
  from bfs_finds [OF _ this, of "[(s, 0)]"] have "bfs edges t [s] [(s, 0)] = distance (set edges) s t" by simp
  moreover have "bfs edges t [s] [(s, 0 :: i64)] = map_option of_nat (bfs edges t [s] [(s, 0)])"
    using bfs_of_nat [of edges t "[s]" "[(s, 0)]"] by (simp del: bfs.simps)
  ultimately show ?thesis using False by (simp add: shortest_path_def distance_def del: bfs.simps)
qed

end
