(* ===== verification/Expr_Eval.thy ===== *)
theory Expr_Eval
  imports Ast Sql_Json Shortest_Path
begin

text \<open>
  Evaluation of SQL expressions, from \<^verbatim>\<open>crates/sql/src/executor.rs\<close>. An expression is evaluated on a row of a schema;
  evaluation reads, and does not change, the thread-local caches of the executor, which are fields of \<open>eval_env\<close>
  with the two functions of the standard library that need the Unicode tables. A function gets the results of all
  its arguments and looks only at those the code evaluates. Arithmetic on \<^verbatim>\<open>i64\<close> wraps around.
\<close>

record eval_env =
  ee_lower :: "str \<Rightarrow> str"
  ee_upper :: "str \<Rightarrow> str"
  ee_depth :: i64
  ee_edges :: "(str, (i64 \<times> i64) list) hmap"
  ee_ranks :: "(str, (i64, f64) hmap) hmap"

type_synonym result = "SqlError + Value"

section \<open>Values\<close>

fun value_eq :: "Value \<Rightarrow> Value \<Rightarrow> bool" where
  \<comment> \<open>the derived \<^verbatim>\<open>PartialEq\<close>\<close>
  "value_eq (VFloat64 a) (VFloat64 b) = f64_eq a b"
| "value_eq a b = (a = b)"

definition is_truthy :: "Value \<Rightarrow> bool" where
  "is_truthy v =
     (case v of
        VBool b \<Rightarrow> b
      | VNull \<Rightarrow> False
      | VInt64 n \<Rightarrow> n \<noteq> 0
      | VFloat64 f \<Rightarrow> \<not> f64_eq f 0
      | VText s \<Rightarrow> s \<noteq> [])"

definition coerce_value :: "Value \<Rightarrow> SqlType \<Rightarrow> result" where
  "coerce_value v target =
     (case (v, target) of
        (VInt64 n, TInt64) \<Rightarrow> Inr (VInt64 n)
      | (VInt64 n, TFloat64) \<Rightarrow> Inr (VFloat64 (i64_as_f64 n))
      | (VFloat64 f, TFloat64) \<Rightarrow> Inr (VFloat64 f)
      | (VText s, TText) \<Rightarrow> Inr (VText s)
      | (VBool b, TBoolean) \<Rightarrow> Inr (VBool b)
      | (VNull, _) \<Rightarrow> Inr VNull
      | _ \<Rightarrow> Inl Semantic)"

section \<open>Patterns\<close>

abbreviation (input) PERCENT :: str where "PERCENT \<equiv> [37]"
abbreviation (input) UNDERSCORE :: str where "UNDERSCORE \<equiv> [95]"

text \<open>The table of \<^verbatim>\<open>like_match\<close>, row by row: \<open>like_row0\<close> is \<^verbatim>\<open>dp[0]\<close> and \<open>like_row\<close> computes \<^verbatim>\<open>dp[i]\<close> from \<^verbatim>\<open>dp[i - 1]\<close>,
  with \<^verbatim>\<open>dp[i][j - 1]\<close> as an argument.\<close>

fun like_row0 :: "bool \<Rightarrow> str list \<Rightarrow> bool list" where
  "like_row0 left [] = [left]"
| "like_row0 left (x # p) = left # like_row0 (x = PERCENT \<and> left) p"

fun like_row :: "str \<Rightarrow> bool \<Rightarrow> str list \<Rightarrow> bool list \<Rightarrow> bool list" where
  "like_row c left (x # p) (diag # up # row) =
     left # like_row c (if x = PERCENT then up \<or> left else if x = UNDERSCORE \<or> x = c then diag else False) p (up # row)"
| "like_row c left _ _ = [left]"

definition like_match :: "str \<Rightarrow> str \<Rightarrow> bool" where
  "like_match s pattern =
     (let p = chars_of pattern
      in last (foldl (\<lambda>row c. like_row c False p row) (like_row0 True p) (chars_of s)))"

section \<open>Operators\<close>

definition numeric_binop :: "Value \<Rightarrow> Value \<Rightarrow> (i64 \<Rightarrow> i64 \<Rightarrow> i64 option) \<Rightarrow> (f64 \<Rightarrow> f64 \<Rightarrow> f64) \<Rightarrow> result" where
  \<comment> \<open>\<open>None\<close> of the operation on integers is a panic\<close>
  "numeric_binop l r int_op float_op =
     (case (l, r) of
        (VInt64 a, VInt64 b) \<Rightarrow> (case int_op a b of None \<Rightarrow> Inl SqlPanic | Some n \<Rightarrow> Inr (VInt64 n))
      | (VFloat64 a, VFloat64 b) \<Rightarrow> Inr (VFloat64 (float_op a b))
      | (VInt64 a, VFloat64 b) \<Rightarrow> Inr (VFloat64 (float_op (i64_as_f64 a) b))
      | (VFloat64 a, VInt64 b) \<Rightarrow> Inr (VFloat64 (float_op a (i64_as_f64 b)))
      | _ \<Rightarrow> Inl Execution)"

definition cmp_is :: "ordering set \<Rightarrow> Value \<Rightarrow> Value \<Rightarrow> Value" where
  "cmp_is os l r = VBool (case partial_cmp l r of None \<Rightarrow> False | Some o1 \<Rightarrow> o1 \<in> os)"

definition json_arrow :: "(str \<Rightarrow> Value) \<Rightarrow> Value \<Rightarrow> Value \<Rightarrow> result" where
  \<comment> \<open>\<open>->\<close> and \<open>->>\<close>, which differ in what they make of the text\<close>
  "json_arrow f l r =
     (case (l, r) of
        (VText j, VText key) \<Rightarrow> rbind (json_get j key) (\<lambda>v. Inr (f v))
      | (VText j, VInt64 idx) \<Rightarrow> rbind (json_get_idx j (unat idx)) (\<lambda>v. Inr (f v))
      | _ \<Rightarrow> Inl Execution)"

definition eval_binop :: "BinOp \<Rightarrow> Value \<Rightarrow> Value \<Rightarrow> result" where
  "eval_binop op l r =
     (if is_null l \<or> is_null r then Inr VNull
      else case op of
        OpAdd \<Rightarrow> numeric_binop l r (\<lambda>a b. Some (a + b)) f64_add
      | OpSub \<Rightarrow> numeric_binop l r (\<lambda>a b. Some (a - b)) f64_sub
      | OpMul \<Rightarrow> numeric_binop l r (\<lambda>a b. Some (a * b)) f64_mul
      | OpDiv \<Rightarrow> (case (l, r) of
            (VInt64 a, VInt64 b) \<Rightarrow>
              if b = 0 then Inl Execution
              else (case i64_div a b of None \<Rightarrow> Inl SqlPanic | Some n \<Rightarrow> Inr (VInt64 n))
          | _ \<Rightarrow> numeric_binop l r i64_div f64_div)
      | OpMod \<Rightarrow> numeric_binop l r i64_rem f64_rem
      | OpEq \<Rightarrow> Inr (VBool (value_eq l r))
      | OpNotEq \<Rightarrow> Inr (VBool (\<not> value_eq l r))
      | OpLt \<Rightarrow> Inr (cmp_is {Less} l r)
      | OpGt \<Rightarrow> Inr (cmp_is {Greater} l r)
      | OpLtEq \<Rightarrow> Inr (cmp_is {Less, Equal} l r)
      | OpGtEq \<Rightarrow> Inr (cmp_is {Greater, Equal} l r)
      | OpAnd \<Rightarrow> Inr (VBool (is_truthy l \<and> is_truthy r))
      | OpOr \<Rightarrow> Inr (VBool (is_truthy l \<or> is_truthy r))
      | OpConcat \<Rightarrow> (case (l, r) of (VText a, VText b) \<Rightarrow> Inr (VText (a @ b)) | _ \<Rightarrow> Inl Execution)
      | OpLike \<Rightarrow> (case (l, r) of (VText s, VText p) \<Rightarrow> Inr (VBool (like_match s p)) | _ \<Rightarrow> Inl Execution)
      | OpNotLike \<Rightarrow> (case (l, r) of (VText s, VText p) \<Rightarrow> Inr (VBool (\<not> like_match s p)) | _ \<Rightarrow> Inl Execution)
      | OpJsonGet \<Rightarrow> json_arrow VText l r
      | OpJsonGetText \<Rightarrow> json_arrow (\<lambda>v. VText (unquote v)) l r
      | OpJsonContains \<Rightarrow> (case (l, r) of
            (VText a, VText b) \<Rightarrow>
              (case (encode_jsonb a, encode_jsonb b) of
                 (Inr outer, Inr inner) \<Rightarrow> Inr (VBool (jsonb_contains outer inner))
               | _ \<Rightarrow> Inl Execution)
          | _ \<Rightarrow> Inl Execution)
      | OpJsonKeyExists \<Rightarrow> (case (l, r) of
            (VText j, VText key) \<Rightarrow>
              (case encode_jsonb j of
                 Inr bytes \<Rightarrow> Inr (VBool (jsonb_get_key bytes key \<noteq> None))
               | _ \<Rightarrow> Inl Execution)
          | _ \<Rightarrow> Inl Execution)
      | OpJsonMerge \<Rightarrow> (case (l, r) of
            (VText a, VText b) \<Rightarrow> rbind (json_merge a b) (\<lambda>m. Inr (VText m)) | _ \<Rightarrow> Inl Execution)
      | OpJsonPath \<Rightarrow> (case (l, r) of
            (VText j, VText p) \<Rightarrow>
              rbind (follow_path j (parse_json_path p)) (\<lambda>v. Inr (case v of None \<Rightarrow> VNull | Some t \<Rightarrow> VText t))
          | _ \<Rightarrow> Inl Execution)
      | OpVectorDist \<Rightarrow>
          rbind (parse_vector_val l) (\<lambda>la. rbind (parse_vector_val r) (\<lambda>ra.
          rbind (l2_distance la ra) (\<lambda>d. Inr (VFloat64 d)))))"

section \<open>Functions\<close>

fun coalesce :: "result list \<Rightarrow> result" where
  "coalesce [] = Inr VNull"
| "coalesce (a # args) = rbind a (\<lambda>v. if is_null v then coalesce args else Inr v)"

definition text_function :: "(str \<Rightarrow> Value) \<Rightarrow> result list \<Rightarrow> result" where
  \<comment> \<open>a function of a first argument that is text\<close>
  "text_function f args =
     (case args of [] \<Rightarrow> Inr VNull
      | a # _ \<Rightarrow> rbind a (\<lambda>v. case v of VText s \<Rightarrow> Inr (f s) | _ \<Rightarrow> Inr VNull))"

definition quote_function :: "(str \<Rightarrow> str) \<Rightarrow> result list \<Rightarrow> result" where
  "quote_function f args =
     (case args of [] \<Rightarrow> Inr VNull
      | a # _ \<Rightarrow> rbind a (\<lambda>v. case v of VText s \<Rightarrow> Inr (VText (f s)) | _ \<Rightarrow> Inr v))"

definition int_arg :: "result \<Rightarrow> SqlError + i64" where
  "int_arg a = rbind a (\<lambda>v. case v of VInt64 n \<Rightarrow> Inr n | _ \<Rightarrow> Inl Execution)"

definition text_arg :: "eval_env \<Rightarrow> result \<Rightarrow> SqlError + str" where
  "text_arg env a = rbind a (\<lambda>v. case v of VText s \<Rightarrow> Inr (ee_lower env s) | _ \<Rightarrow> Inl Execution)"

definition cache_key :: "str \<Rightarrow> str \<Rightarrow> str \<Rightarrow> str" where
  "cache_key edge_table from_col to_col = edge_table @ [47] @ from_col @ [47] @ to_col"

definition shortest_path_function :: "eval_env \<Rightarrow> result list \<Rightarrow> result" where
  "shortest_path_function env args =
     (if length args < 5 then Inl Execution
      else rbind (int_arg (args ! 0)) (\<lambda>source. rbind (int_arg (args ! 1)) (\<lambda>target.
        rbind (text_arg env (args ! 2)) (\<lambda>edge_table. rbind (text_arg env (args ! 3)) (\<lambda>from_col.
        rbind (text_arg env (args ! 4)) (\<lambda>to_col.
          let edges = (case hm_get (ee_edges env) (cache_key edge_table from_col to_col) of None \<Rightarrow> [] | Some es \<Rightarrow> es)
          in Inr (case shortest_path edges source target of None \<Rightarrow> VNull | Some d \<Rightarrow> VInt64 d)))))))"

definition pagerank_function :: "eval_env \<Rightarrow> result list \<Rightarrow> result" where
  "pagerank_function env args =
     (if length args < 4 then Inl Execution
      else rbind (int_arg (args ! 0)) (\<lambda>node_id. rbind (text_arg env (args ! 1)) (\<lambda>edge_table.
        rbind (text_arg env (args ! 2)) (\<lambda>from_col. rbind (text_arg env (args ! 3)) (\<lambda>to_col.
          Inr (case Option.bind (hm_get (ee_ranks env) (cache_key edge_table from_col to_col)) (\<lambda>m. hm_get m node_id) of
                 None \<Rightarrow> VNull | Some x \<Rightarrow> VFloat64 x))))))"

abbreviation (input) named :: "str \<Rightarrow> string list \<Rightarrow> bool" where
  "named name names \<equiv> name \<in> set (map bytes_of names)"

definition eval_function :: "eval_env \<Rightarrow> str \<Rightarrow> result list \<Rightarrow> result" where
  "eval_function env name args =
     (if named name [''COALESCE''] then coalesce args
      else if named name [''UPPER''] then text_function (\<lambda>s. VText (ee_upper env s)) args
      else if named name [''LOWER''] then text_function (\<lambda>s. VText (ee_lower env s)) args
      else if named name [''LENGTH''] then text_function (\<lambda>s. VInt64 (of_nat (length s))) args
      else if named name [''DEPTH''] then Inr (VInt64 (ee_depth env))
      else if named name [''OIGRAP_SHORTEST_PATH''] then shortest_path_function env args
      else if named name [''ARRAY_AGG'', ''STRING_AGG''] then Inr VNull
      else if named name [''VERSION'', ''PG_CATALOG.VERSION''] then Inr (VText (bytes_of ''PostgreSQL 14.0 (oigrap 0.1.0)''))
      else if named name [''CURRENT_DATABASE'', ''CURRENT_CATALOG''] then Inr (VText (bytes_of ''postgres''))
      else if named name [''CURRENT_SCHEMA'', ''CURRENT_SCHEMAS''] then Inr (VText (bytes_of ''public''))
      else if named name [''CURRENT_USER'', ''SESSION_USER'', ''USER''] then Inr (VText (bytes_of ''postgres''))
      else if named name [''PG_BACKEND_PID''] then Inr (VInt64 1)
      else if named name [''PG_POSTMASTER_START_TIME'', ''NOW'', ''CLOCK_TIMESTAMP'', ''TRANSACTION_TIMESTAMP'', ''STATEMENT_TIMESTAMP'']
        then Inr (VText (bytes_of ''2024-01-01 00:00:00+00''))
      else if named name [''PG_ENCODING_TO_CHAR''] then Inr (VText (bytes_of ''UTF8''))
      else if named name [''PG_GET_USERBYID''] then Inr (VText (bytes_of ''postgres''))
      else if named name [''FORMAT_TYPE'', ''PG_CATALOG.FORMAT_TYPE''] then Inr (VText (bytes_of ''text''))
      else if named name [''OBJ_DESCRIPTION'', ''COL_DESCRIPTION'', ''SHOBJ_DESCRIPTION''] then Inr VNull
      else if named name [''PG_TABLE_IS_VISIBLE'', ''PG_TYPE_IS_VISIBLE''] then Inr (VBool True)
      else if named name [''PG_RELATION_SIZE'', ''PG_TOTAL_RELATION_SIZE'', ''PG_DATABASE_SIZE''] then Inr (VInt64 0)
      else if named name [''QUOTE_IDENT''] then quote_function (\<lambda>s. 34 # s @ [34]) args
      else if named name [''QUOTE_LITERAL''] then quote_function (\<lambda>s. 39 # concat (map (\<lambda>b. if b = 39 then [39, 39] else [b]) s) @ [39]) args
      else if named name [''PG_CATALOG.PG_GET_EXPR'', ''PG_GET_EXPR''] then Inr VNull
      else if named name [''OIGRAP_PAGERANK''] then pagerank_function env args
      else Inl Execution)"

section \<open>Expressions\<close>

definition suffix_match :: "str \<Rightarrow> str \<Rightarrow> bool" where
  \<comment> \<open>a column by its name, or by its name after a qualifier; both in lower case\<close>
  "suffix_match col name \<longleftrightarrow> name = col \<or> ends_with (46 # col) name"

definition find_column :: "eval_env \<Rightarrow> ColumnSchema list \<Rightarrow> str option \<Rightarrow> str \<Rightarrow> nat option" where
  "find_column env schema table column =
     (let col = ee_lower env column
      in position (\<lambda>c. let name = ee_lower env (col_name c)
                       in case table of
                            Some t \<Rightarrow> name = ee_lower env t @ [46] @ col \<or> name = col
                          | None \<Rightarrow> suffix_match col name) schema)"

definition pseudo_column :: "str \<Rightarrow> Value option" where
  "pseudo_column col =
     (if named col [''current_schema''] then Some (VText (bytes_of ''public''))
      else if named col [''current_user'', ''current_database''] then Some (VText (bytes_of ''postgres''))
      else None)"

definition row_get :: "Value list \<Rightarrow> nat \<Rightarrow> result" where
  \<comment> \<open>\<^verbatim>\<open>row[idx]\<close>\<close>
  "row_get row i = (if i < length row then Inr (row ! i) else Inl SqlPanic)"

definition eval_column :: "eval_env \<Rightarrow> ColumnSchema list \<Rightarrow> Value list \<Rightarrow> str option \<Rightarrow> str \<Rightarrow> result" where
  "eval_column env schema row table column =
     (case (if table = None then pseudo_column (ee_lower env column) else None) of
        Some v \<Rightarrow> Inr v
      | None \<Rightarrow> (case find_column env schema table column of None \<Rightarrow> Inl Semantic | Some i \<Rightarrow> row_get row i))"

definition negate :: "Value \<Rightarrow> result" where
  "negate v = (case v of VInt64 n \<Rightarrow> Inr (VInt64 (- n)) | VFloat64 f \<Rightarrow> Inr (VFloat64 (f64_neg f)) | _ \<Rightarrow> Inl Execution)"

fun any_equal :: "Value \<Rightarrow> result list \<Rightarrow> SqlError + bool" where
  \<comment> \<open>\<^verbatim>\<open>Iterator::any\<close> over the evaluated list: an error counts as different, a panic does not\<close>
  "any_equal v [] = Inr False"
| "any_equal v (Inr w # rs) = (if value_eq v w then Inr True else any_equal v rs)"
| "any_equal v (Inl e # rs) = (if e = SqlPanic then Inl SqlPanic else any_equal v rs)"

definition between_values :: "Value \<Rightarrow> Value \<Rightarrow> Value \<Rightarrow> bool" where
  "between_values v lo hi \<longleftrightarrow>
     (case partial_cmp v lo of None \<Rightarrow> False | Some o1 \<Rightarrow> o1 \<noteq> Less) \<and>
     (case partial_cmp v hi of None \<Rightarrow> False | Some o1 \<Rightarrow> o1 \<noteq> Greater)"

definition window_column :: "ColumnSchema list \<Rightarrow> Value list \<Rightarrow> str \<Rightarrow> Value" where
  "window_column schema row name =
     (case position (\<lambda>c. col_name c = name @ bytes_of ''()'') schema of
        Some i \<Rightarrow> if i < length row then row ! i else VNull
      | None \<Rightarrow> VNull)"

fun eval_expr :: "eval_env \<Rightarrow> ColumnSchema list \<Rightarrow> Value list \<Rightarrow> Expr \<Rightarrow> result" where
  "eval_expr env schema row (IntLit n) = Inr (VInt64 n)"
| "eval_expr env schema row (FloatLit f) = Inr (VFloat64 f)"
| "eval_expr env schema row (StrLit s) = Inr (VText s)"
| "eval_expr env schema row (BoolLit b) = Inr (VBool b)"
| "eval_expr env schema row NullLit = Inr VNull"
| "eval_expr env schema row (ColumnRef table column) = eval_column env schema row table column"
| "eval_expr env schema row (UnaryOp op e) =
     rbind (eval_expr env schema row e) (\<lambda>v. case op of OpNeg \<Rightarrow> negate v | OpNot \<Rightarrow> Inr (VBool (\<not> is_truthy v)))"
| "eval_expr env schema row (BinaryOp op l r) =
     rbind (eval_expr env schema row l) (\<lambda>lv. rbind (eval_expr env schema row r) (\<lambda>rv. eval_binop op lv rv))"
| "eval_expr env schema row (IsNullExpr e) = rbind (eval_expr env schema row e) (\<lambda>v. Inr (VBool (is_null v)))"
| "eval_expr env schema row (IsNotNullExpr e) = rbind (eval_expr env schema row e) (\<lambda>v. Inr (VBool (\<not> is_null v)))"
| "eval_expr env schema row (BetweenExpr e low high) =
     rbind (eval_expr env schema row e) (\<lambda>v. rbind (eval_expr env schema row low) (\<lambda>lo.
     rbind (eval_expr env schema row high) (\<lambda>hi. Inr (VBool (between_values v lo hi)))))"
| "eval_expr env schema row (InList e es) =
     rbind (eval_expr env schema row e) (\<lambda>v. rbind (any_equal v (map (eval_expr env schema row) es)) (\<lambda>b. Inr (VBool b)))"
| "eval_expr env schema row (NotInList e es) =
     rbind (eval_expr env schema row e) (\<lambda>v. rbind (any_equal v (map (eval_expr env schema row) es)) (\<lambda>b. Inr (VBool (\<not> b))))"
| "eval_expr env schema row (FunctionCall name args dist) = eval_function env name (map (eval_expr env schema row) args)"
| "eval_expr env schema row (WindowFunc name args parts ords) = Inr (window_column schema row name)"
| "eval_expr env schema row (CastExpr e to) =
     rbind (eval_expr env schema row e) (\<lambda>v. case coerce_to v to of Inl e1 \<Rightarrow> Inl Execution | Inr w \<Rightarrow> Inr w)"
| "eval_expr env schema row StarExpr = Inl Execution"

fun eval_literal :: "Expr \<Rightarrow> result" where
  "eval_literal (IntLit n) = Inr (VInt64 n)"
| "eval_literal (FloatLit f) = Inr (VFloat64 f)"
| "eval_literal (StrLit s) = Inr (VText s)"
| "eval_literal (BoolLit b) = Inr (VBool b)"
| "eval_literal NullLit = Inr VNull"
| "eval_literal (UnaryOp OpNeg e) = rbind (eval_literal e) negate"
| "eval_literal _ = Inl Execution"

definition passes :: "result \<Rightarrow> SqlError + bool" where
  \<comment> \<open>\<^verbatim>\<open>.map(|v| is_truthy(&v)).unwrap_or(false)\<close>\<close>
  "passes r = (case r of Inr v \<Rightarrow> Inr (is_truthy v) | Inl e \<Rightarrow> if e = SqlPanic then Inl SqlPanic else Inr False)"

section \<open>Patterns match what they describe\<close>

definition piece :: "str \<Rightarrow> str list \<Rightarrow> bool" where
  "piece x w \<longleftrightarrow> (if x = PERCENT then True else if x = UNDERSCORE then length w = 1 else w = [x])"

definition like_spec :: "str list \<Rightarrow> str list \<Rightarrow> bool" where
  "like_spec s p \<longleftrightarrow> (\<exists>ws. list_all2 piece p ws \<and> concat ws = s)"

lemma like_spec_Nil: "like_spec s [] \<longleftrightarrow> s = []"
  by (auto simp: like_spec_def)

lemma like_spec_snoc: "like_spec s (p @ [x]) \<longleftrightarrow> (\<exists>u w. like_spec u p \<and> piece x w \<and> s = u @ w)"
proof
  assume "like_spec s (p @ [x])"
  then obtain ws where "list_all2 piece (p @ [x]) ws" "concat ws = s" by (auto simp: like_spec_def)
  then obtain us w where "ws = us @ [w]" "list_all2 piece p us" "piece x w"
    by (auto simp: list_all2_append1 list_all2_Cons1)
  then show "\<exists>u w. like_spec u p \<and> piece x w \<and> s = u @ w" using \<open>concat ws = s\<close> by (auto simp: like_spec_def)
next
  assume "\<exists>u w. like_spec u p \<and> piece x w \<and> s = u @ w"
  then obtain us w where "list_all2 piece p us" "piece x w" "s = concat us @ w" by (auto simp: like_spec_def)
  then show "like_spec s (p @ [x])"
    unfolding like_spec_def by (intro exI [of _ "us @ [w]"]) (auto intro: list_all2_appendI)
qed

lemma like_empty: "like_spec [] (p @ [x]) \<longleftrightarrow> x = PERCENT \<and> like_spec [] p"
  by (auto simp: like_spec_snoc piece_def split: if_splits)

lemma like_step:
  "like_spec (s @ [c]) (p @ [x]) \<longleftrightarrow>
     (if x = PERCENT then like_spec s (p @ [x]) \<or> like_spec (s @ [c]) p
      else if x = UNDERSCORE \<or> x = c then like_spec s p else False)"
proof (cases "x = PERCENT")
  case True
  have "(\<exists>u w. like_spec u p \<and> s @ [c] = u @ w) \<longleftrightarrow> (\<exists>u w. like_spec u p \<and> s = u @ w) \<or> like_spec (s @ [c]) p"
  proof
    assume "\<exists>u w. like_spec u p \<and> s @ [c] = u @ w"
    then obtain u w where uw: "like_spec u p" "s @ [c] = u @ w" by blast
    then show "(\<exists>u w. like_spec u p \<and> s = u @ w) \<or> like_spec (s @ [c]) p" by (cases w rule: rev_cases) auto
  next
    assume "(\<exists>u w. like_spec u p \<and> s = u @ w) \<or> like_spec (s @ [c]) p"
    then show "\<exists>u w. like_spec u p \<and> s @ [c] = u @ w" by (metis append.assoc append_Nil2)
  qed
  then show ?thesis using True by (simp add: like_spec_snoc piece_def)
next
  case False
  then show ?thesis by (cases "x = UNDERSCORE") (auto simp: like_spec_snoc piece_def length_Suc_conv)
qed

abbreviation (input) like_line :: "str list \<Rightarrow> str list \<Rightarrow> str list \<Rightarrow> bool list" where
  "like_line s pre p \<equiv> map (\<lambda>j. like_spec s (pre @ take j p)) [0 ..< Suc (length p)]"

lemma like_line_Cons: "like_line s pre (x # p) = like_spec s pre # like_line s (pre @ [x]) p"
  by (subst map_upt_Suc) (simp del: upt_Suc)

lemma like_row0_ok: "like_row0 (like_spec [] pre) p = like_line [] pre p"
proof (induction p arbitrary: pre)
  case (Cons x p)
  then show ?case unfolding like_line_Cons using Cons [of "pre @ [x]"] by (simp only: like_empty like_row0.simps)
qed simp

lemma like_row_ok: "like_row c (like_spec (s @ [c]) pre) p (like_line s pre p) = like_line (s @ [c]) pre p"
proof (induction p arbitrary: pre)
  case (Cons x p)
  obtain r where r: "like_line s (pre @ [x]) p = like_spec s (pre @ [x]) # r" by (simp add: map_upt_Suc del: upt_Suc)
  show ?case using Cons [of "pre @ [x]"] like_step [of s c pre x] unfolding like_line_Cons r by simp
qed simp

lemma like_rows: "foldl (\<lambda>row c. like_row c False p row) (like_row0 True p) s = like_line s [] p"
proof (induction s rule: rev_induct)
  case Nil
  then show ?case using like_row0_ok [of "[]" p] by (simp add: like_spec_Nil)
next
  case (snoc c s)
  then show ?case using like_row_ok [of c s "[]" p] by (simp add: like_spec_Nil)
qed

text \<open>C21. A pattern matches a string exactly when the string can be cut into one piece for each character of the
  pattern: any piece for a percent sign, one character for an underscore, and the character itself otherwise.\<close>

theorem like_match_correct:
  "like_match s pattern \<longleftrightarrow> (\<exists>ws. list_all2 piece (chars_of pattern) ws \<and> concat ws = chars_of s)"
  by (simp add: like_match_def like_rows like_spec_def)

section \<open>Values that expressions have\<close>

lemma literal_is_expression: "eval_literal e = Inr v \<Longrightarrow> eval_expr env schema row e = Inr v"
proof (induction e arbitrary: v rule: eval_literal.induct)
  case (6 e)
  then show ?case by (cases "eval_literal e") auto
qed auto

lemma coerce_value_typed: "has_type t' v \<Longrightarrow> coerce_value v t = Inr w \<Longrightarrow> has_type t w"
  by (cases v; cases t; cases t') (auto simp: coerce_value_def)

text \<open>Where the operators differ from those of SQL, and where they panic: a remainder by zero, and a lone brace read as
  JSON.\<close>

lemma remainder_by_zero_panics: "eval_binop OpMod (VInt64 a) (VInt64 0) = Inl SqlPanic"
  by (simp add: eval_binop_def numeric_binop_def i64_rem_def is_null_def)

lemma lone_brace_panics: "eval_binop OpJsonGet (VText [123]) (VText key) = Inl SqlPanic"
proof -
  have "str_trim [123] = [123 :: byte]" by code_simp
  then show ?thesis by (simp add: eval_binop_def is_null_def json_arrow_def json_get_def starts_with_def strip_outer_def)
qed

lemma null_operands_lose: "eval_binop OpAnd (VBool False) VNull = Inr VNull \<and> eval_binop OpOr (VBool True) VNull = Inr VNull \<and>
    eval_expr env schema row (UnaryOp OpNot NullLit) = Inr (VBool True)"
  by (simp add: eval_binop_def is_null_def is_truthy_def)

lemma integer_not_equal_float: "eval_binop OpEq (VInt64 a) (VFloat64 f) = Inr (VBool False)"
  by (simp add: eval_binop_def is_null_def)

lemma one_between_floats: "between_values (VInt64 1) (VFloat64 (i64_as_f64 1)) (VFloat64 (i64_as_f64 1))"
  by code_simp

end
