(* ===== verification/Spec2Isabelle.thy ===== *)
theory Spec2Isabelle
  imports Raft_Election Raft_Cluster Shard_Router Recovery Lock_Manager Vacuum Row_Codec Lexer Json_Text Btree_Index Columnar
    Gin Expr_Eval
begin

text \<open>
  A verification development for oigrap, a database engine in Rust. The program has four crates.
  \<^verbatim>\<open>crates/storage\<close> keeps pages in a file, caches them in a buffer pool, logs changes, and builds heap files,
  transactions, locks and indexes on top; \<^verbatim>\<open>crates/raft\<close> replicates a log between nodes and routes keys to
  shards; \<^verbatim>\<open>crates/sql\<close> reads SQL and runs it on the storage; \<^verbatim>\<open>crates/server\<close> talks to clients.

  \<^bold>\<open>Conventions.\<close> A \<^verbatim>\<open>u64\<close> or \<^verbatim>\<open>usize\<close> counter is a natural number whose wrap-around is written out where the
  source can reach it (\<open>u64_add\<close>); an \<^verbatim>\<open>i64\<close> and a double are 64-bit words; a byte string is a list of 8-bit
  words. A struct is a record, an enum a datatype, a hash map an association list with distinct keys, a
  \<^verbatim>\<open>BTreeMap\<close> a sorted one. A \<^verbatim>\<open>Result\<close> is a sum with the error on the left; the operator \<^verbatim>\<open>?\<close> is \<open>rbind\<close>; a panic
  is the error \<open>Panic\<close>. A method that changes its object returns the new object.

  \<^bold>\<open>Shared theories.\<close> \<open>Prelude\<close> (integers, bytes, slices, results, \<^verbatim>\<open>partition_point\<close>), \<open>Rust_Str\<close> (strings and maps
  of the standard library), \<open>Rust_Num\<close> (decimal numbers, doubles), \<open>Rust_Float\<close> (arithmetic of
  doubles), \<open>Byte_Reader\<close> (the reading macros of the two
  index file formats, with lemmas by which the formats round-trip).

  \<^bold>\<open>Consensus, \<^verbatim>\<open>crates/raft/src\<close>.\<close>
  \<^item> \<open>Raft_Log\<close>, \<^verbatim>\<open>log.rs\<close>: the log with compaction; over any run of operations each entry is handed to the state
    machine once and in order.
  \<^item> \<open>Raft_Node\<close>, \<^verbatim>\<open>node.rs\<close> and \<^verbatim>\<open>rpc.rs\<close>: every handler. One vote per term, replication of entries, a follower comes to
    hold the whole log of its leader, and a leader commits only what more than half of the cluster acknowledged.
  \<^item> \<open>Raft_Election\<close>: a cluster of nodes as a step relation whose messages are delivered, lost or delayed in any
    order; at most one leader per term.
  \<^item> \<open>Raft_Cluster\<close>, \<^verbatim>\<open>cluster.rs\<close>: one turn of the election and of the heartbeat thread, and the wait of a proposal.
  \<^item> \<open>Raft_Transport\<close>, \<^verbatim>\<open>transport.rs\<close>: the wire format, which round-trips, and the dispatch; a remote call is the
    method call at the other end.
  \<^item> \<open>Kv_State_Machine\<close>, \<^verbatim>\<open>state_machine.rs\<close>: commands and snapshots, with the locale \<open>state_machine\<close> for the trait;
    a snapshot followed by the later entries catches up.
  \<^item> \<open>Two_Phase\<close>, \<^verbatim>\<open>twopc.rs\<close>: the decision announced is the one carried out, a commit exactly when every
    participant voted yes, and all get it.
  \<^item> \<open>Shard_Router\<close>, \<^verbatim>\<open>shard.rs\<close>: routing, splitting and range queries over sorted disjoint ranges.

  \<^bold>\<open>Storage, \<^verbatim>\<open>crates/storage/src\<close>.\<close>
  \<^item> \<open>Page\<close>, \<^verbatim>\<open>page.rs\<close> and \<^verbatim>\<open>error.rs\<close>: the slotted page byte by byte; it refines a list of optional tuples.
  \<^item> \<open>Disk\<close>, \<^verbatim>\<open>disk.rs\<close>; \<open>Lru_Replacer\<close>, \<^verbatim>\<open>replacer.rs\<close>, which refines an access order; \<open>Buffer_Pool\<close>,
    \<^verbatim>\<open>buffer_pool.rs\<close>, which refines a map of pages and keeps pinned pages in their frames.
  \<^item> \<open>Wal\<close>, \<^verbatim>\<open>wal.rs\<close>: the log file reads back as the records that reached it, also when the process stopped in
    the middle of a write.
  \<^item> \<open>Free_Space_Map\<close> and \<open>Heap_File\<close>, \<^verbatim>\<open>heap.rs\<close>: storing, reading, deleting and scanning tuples.
  \<^item> \<open>Mvcc\<close>, \<^verbatim>\<open>mvcc.rs\<close>: transactions and visibility; snapshot isolation and prevention of write skew.
  \<^item> \<open>Recovery\<close>, \<^verbatim>\<open>mvcc.rs\<close>: replaying the log restores the status of transactions and may be interrupted and restarted.
  \<^item> \<open>Lock_Manager\<close>, \<^verbatim>\<open>lock.rs\<close>: interleavings of requests as a step relation; exclusion, and what deadlock detection finds.
  \<^item> \<open>Vacuum\<close>, \<^verbatim>\<open>vacuum.rs\<close>: exactly the tuples that are dead as documented go, when no tuple has a deleter that aborted
    or overlaps an active transaction; the code takes such tuples for dead too.
  \<^item> \<open>Jsonb\<close> and \<open>Json_Text\<close>, \<^verbatim>\<open>jsonb.rs\<close>: the binary format, containment, the parser and the printer.
  \<^item> \<open>Pinned_Pool\<close>, \<open>Btree\<close>, \<open>Btree_Page\<close>, \<open>Btree_Pool\<close>, \<open>Btree_Tree\<close> and \<open>Btree_Index\<close>, \<^verbatim>\<open>btree.rs\<close>: \<open>Btree\<close> has the
    model; the others are its proof in layers: sequences of pool operations, the nodes in the bytes of a page, the
    change of a node, the tree in the pages, and the index as a whole, which answers as a sorted list.
  \<^item> \<open>Columnar\<close>, \<^verbatim>\<open>columnar.rs\<close>: runs, dictionaries and differences keep the values appended; zone maps skip only
    what cannot match when they are fresh; the file format round-trips.
  \<^item> \<open>Gin\<close>, \<^verbatim>\<open>gin.rs\<close>: the inverted index finds exactly the documents with the tokens asked for.

  \<^bold>\<open>SQL, \<^verbatim>\<open>crates/sql/src\<close>.\<close>
  \<^item> \<open>Sql_Value\<close>, \<^verbatim>\<open>value.rs\<close>, with the types of \<^verbatim>\<open>catalog.rs\<close>, \<^verbatim>\<open>ast.rs\<close> and \<^verbatim>\<open>error.rs\<close>: key bytes order as the values do.
  \<^item> \<open>Row_Codec\<close>, \<^verbatim>\<open>codec.rs\<close>: rows round-trip, and decoding yields typed rows.
  \<^item> \<open>Lexer\<close>, \<^verbatim>\<open>lexer.rs\<close>: tokenizing ends on every input, and on ASCII without a panic.
  \<^item> \<open>Ast\<close>, \<^verbatim>\<open>ast.rs\<close>: the syntax tree.
  \<^item> \<open>Expr_Eval\<close>, \<open>Sql_Json\<close> and \<open>Shortest_Path\<close>, the part of \<^verbatim>\<open>executor.rs\<close> that evaluates expressions: operators,
    functions, JSON text and vectors. \<^verbatim>\<open>LIKE\<close> matches what the pattern describes, and the search for paths finds a
    shortest one.

  \<^bold>\<open>Interfaces.\<close> What one part relies on in another is a locale, interpreted on the definitions of the part that
  provides it: the state machine, the quorums of an election, the page store under the buffer pool.

  \<^bold>\<open>Bounds and fuel.\<close> Decoding JSONB takes fuel, its length plus one, and parsing JSON text twice the length plus
  three; both are proved to be enough. Loops that follow page links or a token stream are partial functions, and
  their theorems state that they return. A B+ tree is proved for keys of up to 200 bytes, so that half of a full
  page fits a page, for page ids below \<open>2 ^ 51\<close>, where the byte offset of a page fits 64 bits, and for clocks of the
  replacer below \<open>2 ^ 64\<close>.

  \<^bold>\<open>Parameters.\<close> Code outside the repository appears as an argument: the CRC of a log record, the wall clock, the
  random election timeout, a socket exchange, the digits of a double that is not a small whole number, and the Unicode tables for letter case
  and letters.

  \<^bold>\<open>Not modelled.\<close> Sockets, threads and files beyond their bytes: \<^verbatim>\<open>main.rs\<close>, the accept loops, sleeping. The
  statements of SQL above expressions (planning, joins, grouping, windows), which run on all of the storage at once;
  the parser, whose tokens and syntax tree are modelled; spilling and vectorized operators; the vector index; the
  wire protocol and its digest; generators of test data.
\<close>

end
